(* ===== verification/Prelude.thy ===== *)
theory Prelude
  imports Main "HOL-Library.Word" "HOL-Library.Multiset"
begin

text \<open>
  Shared vocabulary of the development: the outcomes a C++ operation can have, the
  machine integers the code computes with, array accesses that may be out of bounds,
  counting loops, and reachability for the step relations that model threads.

  A C++ operation is modelled as a function into \<open>'a res\<close>: \<open>Inr x\<close> when it returns
  \<open>x\<close>, \<open>Inl e\<close> when it does not. The faults keep apart what the source keeps apart:
  exceptions (\<open>Logic_error\<close>, \<open>Runtime_error\<close>, \<open>System_error\<close>), an exception that
  leaves a \<open>noexcept\<close> function (\<open>Terminated\<close>), a call of \<open>_exit\<close> (\<open>Exited\<close>), a failed \<open>assert\<close>,
  undefined behaviour of the language (\<open>Undefined\<close>), and a loop that never leaves its current state
  (\<open>Diverges\<close>).
\<close>

section \<open>Outcomes\<close>

datatype errno =
    EINTR | EAGAIN | EWOULDBLOCK | ECONNRESET | EPIPE | EINPROGRESS
  | ENOENT | EEXIST | EBADF | EBUSY | ESRCH | EDEADLK | EPERM | EINVAL | Errno nat

datatype ub = Out_of_bounds | Signed_overflow | Null_deref | Division_ub | Uninit_read | Use_after_free

datatype fault =
    Logic_error string
  | Runtime_error string
  | System_error string errno
  | Length_error
  | Out_of_range
  | Assertion_failed
  | Terminated
  | Exited int
  | Undefined ub
  | Diverges

type_synonym 'a res = "fault + 'a"

definition rbind :: "'a res \<Rightarrow> ('a \<Rightarrow> 'b res) \<Rightarrow> 'b res" where
  "rbind m f = (case m of Inl e \<Rightarrow> Inl e | Inr x \<Rightarrow> f x)"

named_theorems res_simps \<open>evaluation of the outcome monad\<close>

lemma rbind_Inl [simp, res_simps]: "rbind (Inl e) f = Inl e"
  by (simp add: rbind_def)

lemma rbind_Inr [simp, res_simps]: "rbind (Inr x) f = f x"
  by (simp add: rbind_def)

lemma rbind_eq_Inr [res_simps]: "rbind m f = Inr y \<longleftrightarrow> (\<exists>x. m = Inr x \<and> f x = Inr y)"
  by (cases m) simp_all

lemma rbind_eq_Inl: "rbind m f = Inl e \<longleftrightarrow> m = Inl e \<or> (\<exists>x. m = Inr x \<and> f x = Inl e)"
  by (cases m) simp_all

lemma rbind_cong [fundef_cong]:
  "m = m' \<Longrightarrow> (\<And>x. m' = Inr x \<Longrightarrow> f x = f' x) \<Longrightarrow> rbind m f = rbind m' f'"
  by (cases m') simp_all

lemma rbind_assoc: "rbind (rbind m f) g = rbind m (\<lambda>x. rbind (f x) g)"
  by (cases m) simp_all

section \<open>Machine integers\<close>

definition int_max :: int where "int_max = 2147483647"

definition int_min :: int where "int_min = - 2147483648"

definition int64_max :: int where "int64_max = 9223372036854775807"

definition int64_min :: int where "int64_min = - 9223372036854775808"

text \<open>Signed arithmetic that overflows is undefined behaviour.\<close>

definition chk32 :: "int \<Rightarrow> int res" where
  "chk32 x = (if int_min \<le> x \<and> x \<le> int_max then Inr x else Inl (Undefined Signed_overflow))"

definition chk64 :: "int \<Rightarrow> int res" where
  "chk64 x = (if int64_min \<le> x \<and> x \<le> int64_max then Inr x else Inl (Undefined Signed_overflow))"

text \<open>Conversion of a \<open>size_t\<close> to \<open>int\<close>: the value modulo $2^{32}$ in two's complement.\<close>

definition to_int :: "int \<Rightarrow> int" where
  "to_int n = sint (word_of_int n :: 32 word)"

text \<open>Unsigned 64-bit arithmetic (\<open>size_t\<close>) wraps.\<close>

definition usize :: "int \<Rightarrow> int" where
  "usize n = n mod 18446744073709551616"

lemmas int_limits = int_max_def int_min_def int64_max_def int64_min_def

lemma chk32_Inr: "chk32 x = Inr y \<longleftrightarrow> y = x \<and> int_min \<le> x \<and> x \<le> int_max"
  by (auto simp: chk32_def)

lemma chk64_Inr: "chk64 x = Inr y \<longleftrightarrow> y = x \<and> int64_min \<le> x \<and> x \<le> int64_max"
  by (auto simp: chk64_def)

lemma chk32_in [simp]: "int_min \<le> x \<Longrightarrow> x \<le> int_max \<Longrightarrow> chk32 x = Inr x"
  by (simp add: chk32_def)

lemma chk64_in [simp]: "int64_min \<le> x \<Longrightarrow> x \<le> int64_max \<Longrightarrow> chk64 x = Inr x"
  by (simp add: chk64_def)

lemma to_int_id: "int_min \<le> n \<Longrightarrow> n \<le> int_max \<Longrightarrow> to_int n = n"
  unfolding to_int_def int_limits
  by (simp add: sint_word_ariths signed_take_bit_int_eq_self signed_of_int)

lemma usize_id: "0 \<le> n \<Longrightarrow> n < 18446744073709551616 \<Longrightarrow> usize n = n"
  by (simp add: usize_def)

section \<open>Arrays\<close>

definition rd_at :: "'a list \<Rightarrow> int \<Rightarrow> 'a res" where
  "rd_at m i =
     (if 0 \<le> i \<and> i < int (length m) then Inr (m ! nat i) else Inl (Undefined Out_of_bounds))"

definition wr_at :: "'a list \<Rightarrow> int \<Rightarrow> 'a \<Rightarrow> 'a list res" where
  "wr_at m i v =
     (if 0 \<le> i \<and> i < int (length m) then Inr (m[nat i := v]) else Inl (Undefined Out_of_bounds))"

definition memset_at :: "'a list \<Rightarrow> int \<Rightarrow> 'a \<Rightarrow> int \<Rightarrow> 'a list res" where
  "memset_at m i v n =
     (if 0 \<le> i \<and> 0 \<le> n \<and> i + n \<le> int (length m)
      then Inr (take (nat i) m @ replicate (nat n) v @ drop (nat (i + n)) m)
      else Inl (Undefined Out_of_bounds))"

text \<open>A block of bytes stored at an index (\<open>memcpy\<close>, or the kernel filling a buffer).\<close>

definition blit_at :: "'a list \<Rightarrow> int \<Rightarrow> 'a list \<Rightarrow> 'a list res" where
  "blit_at m i bs =
     (if 0 \<le> i \<and> i + int (length bs) \<le> int (length m)
      then Inr (take (nat i) m @ bs @ drop (nat i + length bs) m)
      else Inl (Undefined Out_of_bounds))"

text \<open>A block of bytes read from an index.\<close>

definition slice_at :: "'a list \<Rightarrow> int \<Rightarrow> int \<Rightarrow> 'a list res" where
  "slice_at m i n =
     (if 0 \<le> i \<and> 0 \<le> n \<and> i + n \<le> int (length m)
      then Inr (take (nat n) (drop (nat i) m))
      else Inl (Undefined Out_of_bounds))"

lemma rd_at_in [simp]: "0 \<le> i \<Longrightarrow> i < int (length m) \<Longrightarrow> rd_at m i = Inr (m ! nat i)"
  by (simp add: rd_at_def)

lemma wr_at_in [simp]: "0 \<le> i \<Longrightarrow> i < int (length m) \<Longrightarrow> wr_at m i v = Inr (m[nat i := v])"
  by (simp add: wr_at_def)

lemma take_drop_append: "take n xs @ drop n xs @ ys = xs @ ys"
  by (simp flip: append_assoc)

lemma concat_replicate_snoc: "concat (replicate (Suc k) xs) = concat (replicate k xs) @ xs"
  by (induction k) auto

lemma update_mem: "y \<in> set (xs[i := x]) \<Longrightarrow> y = x \<or> y \<in> set xs"
  using set_update_subset_insert by fast

lemma update_mem_old:
  assumes "y \<in> set xs" and "y \<noteq> xs ! i"
  shows "y \<in> set (xs[i := x])"
proof -
  obtain j where "j < length xs" "xs ! j = y"
    using assms(1) by (auto simp: in_set_conv_nth)
  with assms(2) show ?thesis
    by (metis length_list_update nth_list_update_neq nth_mem)
qed

section \<open>Priority queues\<close>

text \<open>
  A \<open>std::priority_queue\<close> over a total order, as the descending list of its elements: elements
  that compare equal are equal, so the sequence of \<open>top()\<close>s does not depend on the heap's layout.
\<close>

fun pq_push :: "'a :: linorder \<Rightarrow> 'a list \<Rightarrow> 'a list" where
  "pq_push x [] = [x]"
| "pq_push x (y # q) = (if y \<le> x then x # y # q else y # pq_push x q)"

lemma set_pq_push [simp]: "set (pq_push x q) = insert x (set q)"
  by (induction q) auto

lemma mset_pq_push [simp]: "mset (pq_push x q) = add_mset x (mset q)"
  by (induction q) auto

lemma sorted_pq_push: "sorted_wrt (\<ge>) q \<Longrightarrow> sorted_wrt (\<ge>) (pq_push x q)"
  by (induction q) auto

lemma sorted_desc_unique:
  assumes "sorted_wrt (\<ge>) q" and "mset q = mset xs"
  shows "q = rev (sort xs)"
proof -
  have "sorted (rev q)"
    using assms(1) by (simp add: sorted_wrt_rev)
  then have "sort xs = rev q"
    using assms(2) by (intro properties_for_sort) simp_all
  then show ?thesis by simp
qed

lemma sorted_rev_sort: "sorted_wrt (\<ge>) (rev (sort xs))"
  by (simp add: sorted_wrt_rev)

lemma fold_pq_push: "fold pq_push xs [] = rev (sort xs)"
proof -
  have "sorted_wrt (\<ge>) (fold pq_push xs q) \<and> mset (fold pq_push xs q) = mset q + mset xs"
    if "sorted_wrt (\<ge>) q" for q :: "'a list"
    using that by (induction xs arbitrary: q) (simp_all add: sorted_pq_push)
  from this [of "[]"] show ?thesis
    by (intro sorted_desc_unique) simp_all
qed

section \<open>Counting loops\<close>

text \<open>\<open>for (i = lo; i < hi; ++i) s = body(i, s)\<close>\<close>

function for_int :: "int \<Rightarrow> int \<Rightarrow> (int \<Rightarrow> 's \<Rightarrow> 's res) \<Rightarrow> 's \<Rightarrow> 's res" where
  "for_int lo hi body s =
     (if lo < hi then rbind (body lo s) (\<lambda>s'. for_int (lo + 1) hi body s') else Inr s)"
  by pat_completeness auto
termination
  by (relation "measure (\<lambda>(lo, hi, body, s). nat (hi - lo))") auto

declare for_int.simps [simp del]

lemma for_int_done [simp]: "hi \<le> lo \<Longrightarrow> for_int lo hi body s = Inr s"
  by (simp add: for_int.simps)

lemma for_int_step:
  "lo < hi \<Longrightarrow> for_int lo hi body s = rbind (body lo s) (\<lambda>s'. for_int (lo + 1) hi body s')"
  by (subst for_int.simps) simp

text \<open>Total correctness by an invariant that speaks about the loop counter.\<close>

lemma for_int_rule:
  assumes "lo \<le> hi" and "I lo s"
    and "\<And>i t. lo \<le> i \<Longrightarrow> i < hi \<Longrightarrow> I i t \<Longrightarrow> \<exists>t'. body i t = Inr t' \<and> I (i + 1) t'"
  shows "\<exists>t. for_int lo hi body s = Inr t \<and> I hi t"
  using assms
proof (induction lo hi body s rule: for_int.induct)
  case (1 lo hi body s)
  show ?case
  proof (cases "lo < hi")
    case True
    with "1.prems"(2,3) obtain s' where s': "body lo s = Inr s'" "I (lo + 1) s'"
      by fastforce
    have "\<exists>t. for_int (lo + 1) hi body s' = Inr t \<and> I hi t"
      using "1.IH" [OF True s'(1)] s'(2) "1.prems"(3) True by simp
    with True s'(1) show ?thesis by (simp add: for_int_step)
  next
    case False
    with "1.prems"(1,2) show ?thesis by simp
  qed
qed

section \<open>Reachable states of a step relation\<close>

inductive reach :: "('s \<Rightarrow> bool) \<Rightarrow> ('s \<Rightarrow> 's \<Rightarrow> bool) \<Rightarrow> 's \<Rightarrow> bool"
  for init :: "'s \<Rightarrow> bool" and step :: "'s \<Rightarrow> 's \<Rightarrow> bool"
where
  reach_init [intro]: "init s \<Longrightarrow> reach init step s"
| reach_step [intro]: "reach init step s \<Longrightarrow> step s t \<Longrightarrow> reach init step t"

text \<open>
  The contract between a step relation and its invariant: it holds at the start and every
  step keeps it. Each concurrent component of the library interprets this locale on its own
  step relation.
\<close>

locale invariant_system =
  fixes init :: "'s \<Rightarrow> bool"
    and step :: "'s \<Rightarrow> 's \<Rightarrow> bool"
    and inv :: "'s \<Rightarrow> bool"
  assumes init_inv: "init s \<Longrightarrow> inv s"
    and step_inv: "inv s \<Longrightarrow> step s t \<Longrightarrow> inv t"
begin

lemma reach_inv: "reach init step s \<Longrightarrow> inv s"
  by (induction rule: reach.induct) (auto intro: init_inv step_inv)

lemma steps_inv: "step\<^sup>*\<^sup>* s t \<Longrightarrow> inv s \<Longrightarrow> inv t"
  by (induction rule: rtranclp_induct) (auto intro: step_inv)

end

end
