(* ===== verification/Buffer.thy ===== *)
theory Buffer
  imports Prelude
begin

text \<open>
  The byte buffer of \<open>src/src/include/cppev/buffer.h\<close>: a heap array of \<open>cap_\<close> bytes of
  which the range from \<open>start_\<close> (included) to \<open>offset_\<close> (excluded) is unconsumed data.
  The array is an option because a moved-from buffer holds a null \<open>unique_ptr\<close>.
\<close>

section \<open>State and operations\<close>

record buffer =
  b_cap :: int
  b_start :: int
  b_offset :: int
  b_mem :: "char list option"

abbreviation NUL :: char where "NUL \<equiv> CHR 0x00"

definition the_mem :: "buffer \<Rightarrow> char list res" where
  "the_mem b = (case b_mem b of None \<Rightarrow> Inl (Undefined Null_deref) | Some m \<Rightarrow> Inr m)"

text \<open>The constructor is \<open>noexcept\<close>: its \<open>logic_error\<close> terminates the program.\<close>

definition buffer_new :: "int \<Rightarrow> buffer res" where
  "buffer_new cap =
     (if cap < 1 then Inl Terminated
      else Inr \<lparr>b_cap = cap, b_start = 0, b_offset = 0,
                b_mem = Some (replicate (nat cap) NUL)\<rparr>)"

definition buffer_default :: "buffer res" where
  "buffer_default = buffer_new 1"

definition buf_get :: "buffer \<Rightarrow> int \<Rightarrow> char res" where
  "buf_get b i = rbind (the_mem b) (\<lambda>m. rd_at m (b_start b + i))"

definition buf_set :: "buffer \<Rightarrow> int \<Rightarrow> char \<Rightarrow> buffer res" where
  "buf_set b i c =
     rbind (the_mem b) (\<lambda>m. rbind (wr_at m (b_start b + i) c) (\<lambda>m'. Inr (b\<lparr>b_mem := Some m'\<rparr>)))"

definition buf_size :: "buffer \<Rightarrow> int" where
  "buf_size b = b_offset b - b_start b"

definition capacity :: "buffer \<Rightarrow> int" where
  "capacity b = b_cap b"

text \<open>The bytes that can be read through the pointer \<open>rawbuf()\<close> returns.\<close>

definition rawbuf :: "buffer \<Rightarrow> char list res" where
  "rawbuf b = rbind (the_mem b) (\<lambda>m. slice_at m (b_start b) (int (length m) - b_start b))"

text \<open>\<open>while (cap_ < cap) cap_ *= 2\<close>\<close>

function grow_cap :: "int \<Rightarrow> int \<Rightarrow> int res" where
  "grow_cap c cap =
     (if c < cap
      then if c = 0 then Inl Diverges else rbind (chk32 (c * 2)) (\<lambda>c'. grow_cap c' cap)
      else Inr c)"
  by pat_completeness auto
termination
  by (relation "measure (\<lambda>(c, cap). if 0 < c then nat (int_max - c) else nat (c - int_min))")
     (auto simp: chk32_def int_limits split: if_splits)

declare grow_cap.simps [simp del]

definition resize :: "buffer \<Rightarrow> int \<Rightarrow> buffer res" where
  "resize b cap =
     (if b_cap b \<ge> cap then Inr b
      else rbind (grow_cap (if b_cap b = 0 then 1 else b_cap b) cap) (\<lambda>c.
           rbind (for_int (b_start b) (b_offset b)
                    (\<lambda>i nm. rbind (the_mem b) (\<lambda>m. rbind (rd_at m i) (wr_at nm i)))
                    (replicate (nat c) NUL)) (\<lambda>nm.
           Inr (b\<lparr>b_cap := c, b_mem := Some nm\<rparr>))))"

definition tiny :: "buffer \<Rightarrow> buffer res" where
  "tiny b =
     (if b_start b = 0 then Inr b
      else let len = b_offset b - b_start b in
           rbind (the_mem b) (\<lambda>m.
           rbind (for_int 0 len (\<lambda>i m. rbind (rd_at m (i + b_start b)) (wr_at m i)) m) (\<lambda>m.
           rbind (memset_at m len NUL (b_start b)) (\<lambda>m.
           Inr (b\<lparr>b_mem := Some m, b_start := 0, b_offset := len\<rparr>)))))"

definition clear :: "buffer \<Rightarrow> buffer res" where
  "clear b =
     rbind (the_mem b) (\<lambda>m.
     rbind (memset_at m 0 NUL (b_cap b)) (\<lambda>m.
     Inr (b\<lparr>b_mem := Some m, b_start := 0, b_offset := 0\<rparr>)))"

text \<open>\<open>buffer_[offset_++] = ptr[i]\<close>\<close>

definition put_byte :: "char list \<Rightarrow> int \<Rightarrow> buffer \<Rightarrow> buffer res" where
  "put_byte ptr i b =
     rbind (rd_at ptr i) (\<lambda>c.
     rbind (the_mem b) (\<lambda>m.
     rbind (wr_at m (b_offset b) c) (\<lambda>m.
     Inr (b\<lparr>b_mem := Some m, b_offset := b_offset b + 1\<rparr>))))"

definition produce :: "buffer \<Rightarrow> char list \<Rightarrow> int \<Rightarrow> buffer res" where
  "produce b ptr len =
     rbind (chk32 (b_offset b + len)) (\<lambda>cap.
     rbind (resize b cap) (\<lambda>b.
     for_int 0 len (put_byte ptr) b))"

definition consume :: "buffer \<Rightarrow> int \<Rightarrow> buffer res" where
  "consume b len =
     (let len = (if len = -1 then buf_size b else len) in
      rbind (chk32 (b_start b + len)) (\<lambda>st.
      let b = b\<lparr>b_start := st\<rparr> in
      if b_start b = b_offset b then clear b else Inr b))"

text \<open>\<open>c_str()\<close> has a terminating NUL after the string; \<open>size()\<close> is narrowed to \<open>int\<close>.\<close>

definition put_string :: "buffer \<Rightarrow> string \<Rightarrow> buffer res" where
  "put_string b str = produce b (str @ [NUL]) (to_int (int (length str)))"

text \<open>
  \<open>std::string(buffer_.get() + start_, len)\<close>: a negative length becomes a huge \<open>size_t\<close>,
  the \<open>length_error\<close> of which terminates the \<open>noexcept\<close> function. No byte is read from a null
  pointer when the length is 0.
\<close>

definition make_string :: "buffer \<Rightarrow> int \<Rightarrow> string res" where
  "make_string b len =
     (if len < 0 then Inl Terminated
      else if b_mem b = None \<and> b_start b = 0 \<and> len = 0 then Inr []
      else rbind (the_mem b) (\<lambda>m. slice_at m (b_start b) len))"

definition get_string :: "buffer \<Rightarrow> int \<Rightarrow> bool \<Rightarrow> (string \<times> buffer) res" where
  "get_string b len rem =
     (let len = (if len = -1 then buf_size b else len) in
      rbind (make_string b len) (\<lambda>str.
      if rem then rbind (consume b len) (\<lambda>b. Inr (str, b)) else Inr (str, b)))"

text \<open>Copy constructor and copy assignment; \<open>same\<close> is the test \<open>&other == this\<close>.\<close>

definition buf_copy :: "bool \<Rightarrow> buffer \<Rightarrow> buffer \<Rightarrow> buffer res" where
  "buf_copy same this other =
     (if same then Inr this
      else rbind (the_mem other) (\<lambda>m.
           rbind (slice_at m 0 (b_cap other)) (\<lambda>bs.
           Inr \<lparr>b_cap = b_cap other, b_start = b_start other, b_offset = b_offset other,
                b_mem = Some bs\<rparr>)))"

text \<open>The defaulted moves: the counters are copied, the array changes hands.\<close>

definition buf_move :: "buffer \<Rightarrow> buffer \<times> buffer" where
  "buf_move other = (other, other\<lparr>b_mem := None\<rparr>)"

section \<open>Representation invariant and abstraction\<close>

definition buf_ok :: "buffer \<Rightarrow> bool" where
  "buf_ok b \<longleftrightarrow>
     1 \<le> b_cap b \<and> b_cap b \<le> int_max \<and>
     0 \<le> b_start b \<and> b_start b \<le> b_offset b \<and> b_offset b \<le> b_cap b \<and>
     (case b_mem b of None \<Rightarrow> False
      | Some m \<Rightarrow> int (length m) = b_cap b \<and>
          list_all (\<lambda>c. c = NUL) (drop (nat (b_offset b)) m))"

definition contents :: "buffer \<Rightarrow> char list" where
  "contents b =
     (case b_mem b of None \<Rightarrow> []
      | Some m \<Rightarrow> take (nat (b_offset b - b_start b)) (drop (nat (b_start b)) m))"

text \<open>
  A well-formed array is consumed bytes, unconsumed data and zeroes; every operation is
  described by what it does to these three parts.
\<close>

definition buf_shape :: "buffer \<Rightarrow> char list \<Rightarrow> char list \<Rightarrow> nat \<Rightarrow> bool" where
  "buf_shape b pre data z \<longleftrightarrow>
     b_mem b = Some (pre @ data @ replicate z NUL) \<and>
     b_start b = int (length pre) \<and> b_offset b = int (length pre + length data) \<and>
     b_cap b = int (length pre + length data + z) \<and> 1 \<le> b_cap b \<and> b_cap b \<le> int_max"

lemma buf_shape_ok: "buf_shape b pre data z \<Longrightarrow> buf_ok b"
  by (auto simp: buf_shape_def buf_ok_def list_all_iff)

lemma buf_shape_contents: "buf_shape b pre data z \<Longrightarrow> contents b = data"
  by (auto simp: buf_shape_def contents_def)

lemma buf_shape_size: "buf_shape b pre data z \<Longrightarrow> buf_size b = int (length data)"
  by (simp add: buf_shape_def buf_size_def)

lemma buf_ok_shape:
  assumes "buf_ok b"
  obtains pre z where "buf_shape b pre (contents b) z"
proof -
  from assms obtain m where m: "b_mem b = Some m" "int (length m) = b_cap b"
    and z: "list_all (\<lambda>c. c = NUL) (drop (nat (b_offset b)) m)"
    by (auto simp: buf_ok_def split: option.splits)
  from assms obtain s t where st: "b_start b = int s" "b_offset b = int t"
    unfolding buf_ok_def by (metis nonneg_int_cases order_trans)
  have so: "s \<le> t" "t \<le> length m" "1 \<le> b_cap b" "b_cap b \<le> int_max"
    using assms m st by (auto simp: buf_ok_def)
  have zeros: "drop t m = replicate (length m - t) NUL"
    by (rule replicate_eqI) (use z st in \<open>auto simp: list_all_iff\<close>)
  have cont: "contents b = take (t - s) (drop s m)"
    using m(1) st so(1) by (simp add: contents_def nat_diff_distrib)
  have len: "length (contents b) = t - s"
    using so by (simp add: cont)
  have "drop t m = drop (t - s) (drop s m)"
    using so by simp
  then have "take s m @ contents b @ drop t m = m"
    by (simp only: cont append_take_drop_id)
  then have mem: "b_mem b = Some (take s m @ contents b @ replicate (length m - t) NUL)"
    by (simp only: m(1) zeros)
  have "buf_shape b (take s m) (contents b) (length m - t)"
    using mem len so st m(2) by (simp add: buf_shape_def)
  then show ?thesis by (rule that)
qed

lemma buf_ok_size: "buf_ok b \<Longrightarrow> buf_size b = int (length (contents b))"
  by (erule buf_ok_shape) (rule buf_shape_size)

section \<open>The operations on a well-formed buffer\<close>

lemma buffer_new_shape:
  assumes "1 \<le> cap" and "cap \<le> int_max"
  shows "\<exists>b. buffer_new cap = Inr b \<and> buf_shape b [] [] (nat cap)"
  using assms by (simp add: buffer_new_def buf_shape_def)

lemma clear_shape:
  assumes "buf_shape b pre data z"
  shows "\<exists>b'. clear b = Inr b' \<and> buf_shape b' [] [] (nat (b_cap b)) \<and> b_cap b' = b_cap b"
  using assms by (auto simp: buf_shape_def clear_def the_mem_def memset_at_def)

lemma grow_cap_enough:
  assumes "1 \<le> c" and "cap \<le> 1073741824" and "c \<le> int_max"
  shows "\<exists>c'. grow_cap c cap = Inr c' \<and> cap \<le> c' \<and> c \<le> c' \<and> c' \<le> int_max
            \<and> (c' = c \<or> c' < 2 * cap)"
  using assms
proof (induction c cap rule: grow_cap.induct)
  case (1 c cap)
  show ?case
  proof (cases "c < cap")
    case True
    then have chk: "chk32 (c * 2) = Inr (c * 2)"
      using "1.prems" by (simp add: int_limits)
    have "\<exists>c'. grow_cap (c * 2) cap = Inr c' \<and> cap \<le> c' \<and> c * 2 \<le> c' \<and> c' \<le> int_max
            \<and> (c' = c * 2 \<or> c' < 2 * cap)"
      using "1.IH" [OF True _ chk] "1.prems" True by (simp add: int_limits)
    then show ?thesis
      using True "1.prems"(1) chk by (auto simp: grow_cap.simps [of c cap])
  next
    case False
    then show ?thesis using "1.prems" by (simp add: grow_cap.simps [of c cap])
  qed
qed

lemma resize_loop:
  assumes "int (length pre + length data) \<le> int c"
  shows "for_int (int (length pre)) (int (length pre + length data))
           (\<lambda>i nm. rbind (rd_at (pre @ data @ zs) i) (wr_at nm i)) (replicate c NUL)
         = Inr (replicate (length pre) NUL @ data
                @ replicate (c - (length pre + length data)) NUL)"
proof -
  let ?p = "length pre"
  let ?I = "\<lambda>i nm. nm = replicate ?p NUL @ take (nat i - ?p) data @ replicate (c - nat i) NUL"
  have "\<exists>t. for_int (int ?p) (int (?p + length data))
           (\<lambda>i nm. rbind (rd_at (pre @ data @ zs) i) (wr_at nm i)) (replicate c NUL) = Inr t
        \<and> ?I (int (?p + length data)) t"
  proof (rule for_int_rule)
    show "?I (int ?p) (replicate c NUL)"
      using assms by (simp flip: replicate_add)
  next
    fix i nm
    assume i: "int ?p \<le> i" "i < int (?p + length data)" and I: "?I i nm"
    define k where "k = nat i - ?p"
    have k: "k < length data" "nat i = ?p + k" "i = int (?p + k)"
      using i by (auto simp: k_def)
    have rd: "rd_at (pre @ data @ zs) i = Inr (data ! k)"
      using k by (simp add: nth_append)
    have cz: "replicate (c - nat i) NUL = NUL # replicate (c - Suc (nat i)) NUL"
      using k assms by (cases "c - nat i") auto
    have "wr_at nm i (data ! k) = Inr (nm[nat i := data ! k])"
      using I k assms by simp
    also have "nm[nat i := data ! k] = replicate ?p NUL @ take (Suc k) data
        @ replicate (c - Suc (nat i)) NUL"
      using I k cz by (simp add: list_update_append take_Suc_conv_app_nth)
    finally show "\<exists>t'. rbind (rd_at (pre @ data @ zs) i) (wr_at nm i) = Inr t' \<and> ?I (i + 1) t'"
      using rd k by (simp add: nat_add_distrib)
  qed simp
  then show ?thesis by (simp add: nat_int_add)
qed

lemma resize_shape:
  assumes sh: "buf_shape b pre data z" and cap: "cap \<le> 1073741824"
  shows "\<exists>b' pre' z'. resize b cap = Inr b' \<and> buf_shape b' pre' data z' \<and>
           length pre' = length pre \<and> cap \<le> b_cap b' \<and> b_cap b \<le> b_cap b' \<and>
           (b_cap b' = b_cap b \<or> b_cap b' < 2 * cap)"
proof (cases "b_cap b \<ge> cap")
  case True
  then show ?thesis using sh by (auto simp: resize_def)
next
  case False
  from sh have c: "1 \<le> b_cap b" "b_cap b \<le> int_max" by (auto simp: buf_shape_def)
  obtain c' where c': "grow_cap (b_cap b) cap = Inr c'" "cap \<le> c'" "b_cap b \<le> c'"
      "c' \<le> int_max" "c' = b_cap b \<or> c' < 2 * cap"
    using grow_cap_enough [OF c(1) cap c(2)] by blast
  have le: "int (length pre + length data) \<le> int (nat c')"
    using sh c'(3) by (simp add: buf_shape_def)
  have "resize b cap = Inr (b\<lparr>b_cap := c', b_mem := Some (replicate (length pre) NUL @ data
          @ replicate (nat c' - (length pre + length data)) NUL)\<rparr>)"
    using False c c'(1) sh resize_loop [OF le, of "replicate z NUL"]
    by (simp add: resize_def the_mem_def buf_shape_def)
  moreover have "buf_shape (b\<lparr>b_cap := c', b_mem := Some (replicate (length pre) NUL @ data
          @ replicate (nat c' - (length pre + length data)) NUL)\<rparr>)
        (replicate (length pre) NUL) data (nat c' - (length pre + length data))"
    using sh c' c by (simp add: buf_shape_def)
  ultimately show ?thesis
    using c'(2,3,5) by fastforce
qed

text \<open>
  The in-place move of \<open>tiny\<close> copies upwards through overlapping ranges; the invariant is
  that the part below the counter is moved and the part above it is untouched.
\<close>

lemma tiny_loop:
  assumes "n \<le> length m - d" and "d \<le> length m"
  shows "for_int 0 (int n) (\<lambda>i m. rbind (rd_at m (i + int d)) (wr_at m i)) m
         = Inr (take n (drop d m) @ drop n m)"
proof -
  let ?I = "\<lambda>i t. t = take (nat i) (drop d m) @ drop (nat i) m"
  have "\<exists>t. for_int 0 (int n) (\<lambda>i m. rbind (rd_at m (i + int d)) (wr_at m i)) m = Inr t
        \<and> ?I (int n) t"
  proof (rule for_int_rule)
    fix i t
    assume i: "0 \<le> i" "i < int n" and I: "?I i t"
    then obtain k where k: "i = int k" "k < n"
      by (metis nonneg_int_cases of_nat_less_iff)
    have len: "length t = length m"
      using I k assms by (simp add: min_def)
    have rd: "rd_at t (i + int d) = Inr (m ! (k + d))"
    proof -
      have "nat (i + int d) = k + d" using k by (simp add: nat_int_add)
      moreover have "t ! (k + d) = m ! (k + d)"
        using I k assms by (simp add: nth_append min_def)
      ultimately show ?thesis using len k assms by simp
    qed
    have "wr_at t i (m ! (k + d)) = Inr (t[k := m ! (k + d)])"
      using len k assms by simp
    also have "t[k := m ! (k + d)] = take (Suc k) (drop d m) @ drop (Suc k) m"
    proof -
      have "drop k m = m ! k # drop (Suc k) m"
        using k assms by (intro Cons_nth_drop_Suc [symmetric]) simp
      then show ?thesis
        using I k assms
        by (simp add: list_update_append min_def take_Suc_conv_app_nth add.commute)
    qed
    finally show "\<exists>t'. rbind (rd_at t (i + int d)) (wr_at t i) = Inr t' \<and> ?I (i + 1) t'"
      using rd k by (simp add: nat_add_distrib)
  qed simp_all
  then show ?thesis by simp
qed

lemma tiny_shape:
  assumes sh: "buf_shape b pre data z"
  shows "\<exists>b'. tiny b = Inr b' \<and> buf_shape b' [] data (z + length pre) \<and> b_cap b' = b_cap b"
proof (cases "pre = []")
  case True
  then show ?thesis using sh by (simp add: tiny_def buf_shape_def)
next
  case False
  let ?m = "pre @ data @ replicate z NUL" and ?n = "length data" and ?d = "length pre"
  have dz: "drop (?n + ?d) ?m = replicate z NUL"
    by simp
  let ?t = "data @ drop ?n ?m"
  have loop: "for_int 0 (int ?n) (\<lambda>i m. rbind (rd_at m (i + int ?d)) (wr_at m i)) ?m = Inr ?t"
    using tiny_loop [of ?n ?m ?d] by simp
  have set0: "memset_at ?t (int ?n) NUL (int ?d) = Inr (data @ replicate ?d NUL @ replicate z NUL)"
  proof -
    have "nat (int ?n + int ?d) = ?n + ?d" by (simp add: nat_int_add)
    moreover have "drop (?n + ?d) ?t = replicate z NUL"
      by (simp add: add.commute)
    ultimately show ?thesis by (simp add: memset_at_def)
  qed
  have "tiny b = Inr (b\<lparr>b_mem := Some (data @ replicate ?d NUL @ replicate z NUL),
                       b_start := 0, b_offset := int ?n\<rparr>)"
    using False sh loop set0 by (simp add: tiny_def buf_shape_def the_mem_def Let_def)
  then show ?thesis
    using sh by (simp add: buf_shape_def replicate_add [symmetric] add.commute)
qed

lemma put_byte_shape:
  assumes "buf_shape b pre data z" and "i < length ptr" and "0 < z"
  shows "\<exists>b'. put_byte ptr (int i) b = Inr b' \<and> buf_shape b' pre (data @ [ptr ! i]) (z - 1)"
proof -
  from \<open>0 < z\<close> obtain y where z: "z = Suc y" by (cases z) auto
  have "nat (int (length pre) + int (length data)) = length (pre @ data)"
    by (simp add: nat_int_add)
  then show ?thesis
    using assms z
    by (auto simp: put_byte_def the_mem_def buf_shape_def list_update_append)
qed

lemma produce_loop:
  assumes "buf_shape b pre data z" and "n \<le> length ptr" and "n \<le> z"
  shows "\<exists>b'. for_int 0 (int n) (put_byte ptr) b = Inr b' \<and>
              buf_shape b' pre (data @ take n ptr) (z - n)"
proof -
  let ?I = "\<lambda>i t. buf_shape t pre (data @ take (nat i) ptr) (z - nat i)"
  have "\<exists>b'. for_int 0 (int n) (put_byte ptr) b = Inr b' \<and> ?I (int n) b'"
  proof (rule for_int_rule)
    show "?I 0 b" using assms(1) by simp
  next
    fix i t
    assume i: "0 \<le> i" "i < int n" and I: "?I i t"
    then obtain k where k: "i = int k" "k < n"
      by (metis nonneg_int_cases of_nat_less_iff)
    then have "\<exists>t'. put_byte ptr (int k) t = Inr t' \<and>
        buf_shape t' pre ((data @ take k ptr) @ [ptr ! k]) (z - k - 1)"
      using I assms by (intro put_byte_shape) auto
    then show "\<exists>t'. put_byte ptr i t = Inr t' \<and> ?I (i + 1) t'"
      using k assms by (simp add: nat_add_distrib take_Suc_conv_app_nth)
  qed simp
  then show ?thesis by simp
qed

lemma produce_shape:
  assumes sh: "buf_shape b pre data z" and n: "n \<le> length ptr"
    and room: "b_offset b + int n \<le> 1073741824"
  shows "\<exists>b' pre' z'. produce b ptr (int n) = Inr b' \<and>
           buf_shape b' pre' (data @ take n ptr) z' \<and> length pre' = length pre"
proof -
  have chk: "chk32 (b_offset b + int n) = Inr (b_offset b + int n)"
    using room sh by (simp add: buf_shape_def int_limits)
  obtain b1 pre' z' where r: "resize b (b_offset b + int n) = Inr b1"
      "buf_shape b1 pre' data z'" "length pre' = length pre" "b_offset b + int n \<le> b_cap b1"
    using resize_shape [OF sh room] by blast
  have "n \<le> z'"
    using r(2,3,4) sh by (simp add: buf_shape_def)
  from produce_loop [OF r(2) n this] show ?thesis
    using chk r(1,3) by (auto simp: produce_def)
qed

lemma consume_shape:
  assumes sh: "buf_shape b pre data z" and n: "n \<le> length data"
  shows "\<exists>b' pre' z'. consume b (int n) = Inr b' \<and> buf_shape b' pre' (drop n data) z'
           \<and> b_cap b' = b_cap b"
proof -
  have chk: "chk32 (b_start b + int n) = Inr (b_start b + int n)"
    using sh n by (simp add: buf_shape_def int_limits)
  let ?b = "b\<lparr>b_start := b_start b + int n\<rparr>"
  have mid: "buf_shape ?b (pre @ take n data) (drop n data) z"
    using sh n take_drop_append [of n data "replicate z NUL"] by (simp add: buf_shape_def min_def)
  have step: "consume b (int n) = (if b_start ?b = b_offset ?b then clear ?b else Inr ?b)"
    using chk by (simp add: consume_def Let_def)
  show ?thesis
  proof (cases "b_start ?b = b_offset ?b")
    case True
    then have "drop n data = []"
      using sh n by (simp add: buf_shape_def)
    with True step clear_shape [OF mid] show ?thesis by fastforce
  next
    case False
    with step mid show ?thesis by fastforce
  qed
qed

lemma resize_ok:
  assumes "buf_ok b" and "cap \<le> 1073741824"
  shows "\<exists>b'. resize b cap = Inr b' \<and> buf_ok b' \<and> contents b' = contents b \<and>
              b_offset b' = b_offset b \<and> cap \<le> b_cap b'"
proof -
  obtain pre z where sh: "buf_shape b pre (contents b) z"
    using assms(1) by (rule buf_ok_shape)
  obtain b' pre' z' where "resize b cap = Inr b'" "buf_shape b' pre' (contents b) z'"
      "length pre' = length pre" "cap \<le> b_cap b'"
    using resize_shape [OF sh assms(2)] by blast
  moreover have "b_offset b' = b_offset b"
    using calculation(2,3) sh by (simp add: buf_shape_def)
  ultimately show ?thesis
    using buf_shape_ok buf_shape_contents by blast
qed

section \<open>The byte queue a client sees\<close>

lemma put_string_ok:
  assumes "buf_ok b" and room: "b_offset b + int (length str) \<le> 1073741824"
  shows "\<exists>b'. put_string b str = Inr b' \<and> buf_ok b' \<and> contents b' = contents b @ str \<and>
              b_offset b' = b_offset b + int (length str)"
proof -
  obtain pre z where sh: "buf_shape b pre (contents b) z"
    using \<open>buf_ok b\<close> by (rule buf_ok_shape)
  have len: "to_int (int (length str)) = int (length str)"
    using room sh by (intro to_int_id) (auto simp: buf_shape_def int_limits)
  obtain b' pre' z' where p: "produce b (str @ [NUL]) (int (length str)) = Inr b'"
      "buf_shape b' pre' (contents b @ str) z'" "length pre' = length pre"
    using produce_shape [OF sh _ room, of "str @ [NUL]"] by auto
  have "b_offset b' = b_offset b + int (length str)"
    using p(2,3) sh by (simp add: buf_shape_def)
  with p len show ?thesis
    by (auto simp: put_string_def buf_shape_contents intro: buf_shape_ok)
qed

lemma make_string_ok:
  assumes "buf_ok b" and "n \<le> length (contents b)"
  shows "make_string b (int n) = Inr (take n (contents b))"
proof -
  obtain pre z where "buf_shape b pre (contents b) z"
    using \<open>buf_ok b\<close> by (rule buf_ok_shape)
  then show ?thesis
    using assms(2) by (simp add: make_string_def the_mem_def slice_at_def buf_shape_def)
qed

lemma consume_ok:
  assumes "buf_ok b" and "n \<le> length (contents b)"
  shows "\<exists>b'. consume b (int n) = Inr b' \<and> buf_ok b' \<and> contents b' = drop n (contents b) \<and>
              b_offset b' \<le> b_offset b"
proof -
  obtain pre z where sh: "buf_shape b pre (contents b) z"
    using \<open>buf_ok b\<close> by (rule buf_ok_shape)
  obtain b' pre' z' where c: "consume b (int n) = Inr b'" "buf_shape b' pre' (drop n (contents b)) z'"
    using consume_shape [OF sh assms(2)] by blast
  have "b_offset b' = b_offset b \<or> b_offset b' = 0" "0 \<le> b_offset b"
    using c(1) sh
    by (auto simp: consume_def clear_def Let_def buf_shape_def rbind_eq_Inr chk32_Inr split: if_splits)
  with c show ?thesis
    by (auto simp: buf_shape_contents intro: buf_shape_ok)
qed

lemma get_string_ok:
  assumes "buf_ok b" and "n \<le> length (contents b)"
  shows "\<exists>b'. get_string b (int n) True = Inr (take n (contents b), b') \<and> buf_ok b' \<and>
              contents b' = drop n (contents b) \<and> b_offset b' \<le> b_offset b"
  using consume_ok [OF assms] make_string_ok [OF assms] by (auto simp: get_string_def)

lemma get_string_all: "buf_ok b \<Longrightarrow> get_string b (-1) rem = get_string b (int (length (contents b))) rem"
  by (simp add: get_string_def buf_ok_size Let_def)

text \<open>
  The queue interface: \<open>cont\<close> is the queue's content, \<open>load\<close> the end of the used part of the
  array, which \<open>limit\<close> bounds (a put does not reuse the space of consumed bytes).
\<close>

datatype queue_op = Put string | Get nat

fun queue_run ::
  "('b \<Rightarrow> string \<Rightarrow> 'b res) \<Rightarrow> ('b \<Rightarrow> nat \<Rightarrow> (string \<times> 'b) res) \<Rightarrow> 'b \<Rightarrow> queue_op list \<Rightarrow> (string \<times> 'b) res"
where
  "queue_run put get b [] = Inr ([], b)"
| "queue_run put get b (Put s # ops) = rbind (put b s) (\<lambda>b. queue_run put get b ops)"
| "queue_run put get b (Get n # ops) =
     rbind (get b n) (\<lambda>(s, b). rbind (queue_run put get b ops) (\<lambda>(r, b). Inr (s @ r, b)))"

text \<open>The abstract queue: the bytes that come out of, and the bytes left by, a run.\<close>

fun fifo_run :: "string \<Rightarrow> queue_op list \<Rightarrow> (string \<times> string) option" where
  "fifo_run q [] = Some ([], q)"
| "fifo_run q (Put s # ops) = fifo_run (q @ s) ops"
| "fifo_run q (Get n # ops) =
     (if n \<le> length q
      then map_option (\<lambda>(r, q'). (take n q @ r, q')) (fifo_run (drop n q) ops) else None)"

fun put_bytes :: "queue_op list \<Rightarrow> string" where
  "put_bytes [] = []"
| "put_bytes (Put s # ops) = s @ put_bytes ops"
| "put_bytes (Get n # ops) = put_bytes ops"

lemma fifo_conserves: "fifo_run q ops = Some (out, q') \<Longrightarrow> out @ q' = q @ put_bytes ops"
proof (induction q ops arbitrary: out rule: fifo_run.induct)
  case (3 q n ops)
  then show ?case
    by (auto split: if_splits)
qed auto

locale byte_queue =
  fixes inv :: "'b \<Rightarrow> bool"
    and cont :: "'b \<Rightarrow> string"
    and load :: "'b \<Rightarrow> int"
    and limit :: int
    and put :: "'b \<Rightarrow> string \<Rightarrow> 'b res"
    and get :: "'b \<Rightarrow> nat \<Rightarrow> (string \<times> 'b) res"
  assumes put_law: "inv b \<Longrightarrow> load b + int (length s) \<le> limit \<Longrightarrow>
      \<exists>b'. put b s = Inr b' \<and> inv b' \<and> cont b' = cont b @ s \<and> load b' \<le> load b + int (length s)"
    and get_law: "inv b \<Longrightarrow> n \<le> length (cont b) \<Longrightarrow>
      \<exists>b'. get b n = Inr (take n (cont b), b') \<and> inv b' \<and> cont b' = drop n (cont b) \<and> load b' \<le> load b"
begin

lemma run_refines:
  assumes "inv b" and "load b + int (length (put_bytes ops)) \<le> limit"
    and "fifo_run (cont b) ops = Some (out, q)"
  shows "\<exists>b'. queue_run put get b ops = Inr (out, b') \<and> inv b' \<and> cont b' = q"
  using assms
proof (induction ops arbitrary: b out)
  case Nil
  then show ?case by simp
next
  case (Cons x ops)
  show ?case
  proof (cases x)
    case (Put s)
    with Cons.prems(2) have "load b + int (length s) \<le> limit"
      by simp
    then obtain b1 where b1: "put b s = Inr b1" "inv b1" "cont b1 = cont b @ s"
        "load b1 \<le> load b + int (length s)"
      using put_law [OF Cons.prems(1)] by blast
    have "load b1 + int (length (put_bytes ops)) \<le> limit"
      using Cons.prems(2) b1(4) Put by simp
    from Cons.IH [OF b1(2) this] show ?thesis
      using Cons.prems(3) b1(1,3) Put by auto
  next
    case (Get n)
    with Cons.prems(3) obtain r where r: "n \<le> length (cont b)"
        "fifo_run (drop n (cont b)) ops = Some (r, q)" "out = take n (cont b) @ r"
      by (auto split: if_splits)
    then obtain b1 where b1: "get b n = Inr (take n (cont b), b1)" "inv b1"
        "cont b1 = drop n (cont b)" "load b1 \<le> load b"
      using get_law [OF Cons.prems(1)] by blast
    have "load b1 + int (length (put_bytes ops)) \<le> limit"
      using Cons.prems(2) b1(4) Get by simp
    from Cons.IH [OF b1(2) this] show ?thesis
      using r b1(1,3) Get by auto
  qed
qed

end

definition buf_take :: "buffer \<Rightarrow> nat \<Rightarrow> (string \<times> buffer) res" where
  "buf_take b n = get_string b (int n) True"

interpretation bufq: byte_queue buf_ok contents b_offset 1073741824 put_string buf_take
  using put_string_ok get_string_ok
  by unfold_locales (fastforce simp: buf_take_def)+

section \<open>Calls that returned\<close>

text \<open>Whatever the sizes, a call that returned did its work; there is no bound to assume.\<close>

lemma grow_cap_returned:
  "grow_cap c cap = Inr c' \<Longrightarrow> 1 \<le> c \<Longrightarrow> c \<le> int_max \<Longrightarrow> cap \<le> c' \<and> c \<le> c' \<and> c' \<le> int_max"
proof (induction c cap rule: grow_cap.induct)
  case (1 c cap)
  show ?case
  proof (cases "c < cap")
    case True
    with "1.prems" have chk: "chk32 (c * 2) = Inr (c * 2)" "grow_cap (c * 2) cap = Inr c'" "c * 2 \<le> int_max"
      by (auto simp: grow_cap.simps [of c cap] rbind_eq_Inr chk32_Inr split: if_splits)
    show ?thesis
      using "1.IH" [OF True _ chk(1,2)] "1.prems"(2) chk(3) by simp
  next
    case False
    with "1.prems" show ?thesis by (simp add: grow_cap.simps [of c cap])
  qed
qed

lemma resize_returned:
  assumes sh: "buf_shape b pre data z" and r: "resize b cap = Inr b'"
  shows "\<exists>pre' z'. buf_shape b' pre' data z' \<and> length pre' = length pre \<and> cap \<le> b_cap b'"
proof (cases "b_cap b \<ge> cap")
  case True
  then show ?thesis using sh r by (auto simp: resize_def)
next
  case False
  from sh have c: "1 \<le> b_cap b" "b_cap b \<le> int_max" by (auto simp: buf_shape_def)
  obtain c' where c': "grow_cap (b_cap b) cap = Inr c'"
    using False c r by (auto simp: resize_def rbind_eq_Inr)
  note le = grow_cap_returned [OF c' c]
  have "int (length pre + length data) \<le> int (nat c')"
    using sh le by (simp add: buf_shape_def)
  from resize_loop [OF this, of "replicate z NUL"]
  have "b' = b\<lparr>b_cap := c', b_mem := Some (replicate (length pre) NUL @ data
          @ replicate (nat c' - (length pre + length data)) NUL)\<rparr>"
    using False c c' r sh by (simp add: resize_def the_mem_def buf_shape_def)
  moreover have "b_cap b = int (length pre + length data + z)"
    using sh by (simp add: buf_shape_def)
  with le have "c' = int (length pre + length data + (nat c' - (length pre + length data)))"
    by linarith
  ultimately have "buf_shape b' (replicate (length pre) NUL) data (nat c' - (length pre + length data)) \<and> cap \<le> b_cap b'"
    using sh le c by (simp add: buf_shape_def)
  then show ?thesis by (metis length_replicate)
qed

lemma put_string_returned:
  assumes "buf_ok b" and "int (length str) \<le> int_max" and p: "put_string b str = Inr b'"
  shows "buf_ok b' \<and> contents b' = contents b @ str"
proof -
  obtain pre z where sh: "buf_shape b pre (contents b) z"
    using assms(1) by (rule buf_ok_shape)
  have len: "to_int (int (length str)) = int (length str)"
    using assms(2) by (intro to_int_id) (auto simp: int_limits)
  obtain b1 where b1: "resize b (b_offset b + int (length str)) = Inr b1"
      "for_int 0 (int (length str)) (put_byte (str @ [NUL])) b1 = Inr b'"
    using p len by (auto simp: put_string_def produce_def rbind_eq_Inr chk32_Inr)
  obtain pre' z' where sh1: "buf_shape b1 pre' (contents b) z'" "length pre' = length pre"
      "b_offset b + int (length str) \<le> b_cap b1"
    using resize_returned [OF sh b1(1)] by blast
  have "length str \<le> z'"
    using sh1 sh by (simp add: buf_shape_def)
  then have "\<exists>pre z. buf_shape b' pre (contents b @ str) z"
    using produce_loop [OF sh1(1), of "length str" "str @ [NUL]"] b1(2) by auto
  then show ?thesis
    using buf_shape_ok buf_shape_contents by blast
qed

lemma rawbuf_ok:
  assumes "buf_ok b"
  shows "rawbuf b = Inr (contents b @ replicate (nat (b_cap b - b_offset b)) NUL)"
proof -
  obtain pre z where "buf_shape b pre (contents b) z"
    using assms by (rule buf_ok_shape)
  then show ?thesis
    by (auto simp: rawbuf_def the_mem_def slice_at_def buf_shape_def nat_int_add)
qed

section \<open>Growth and its limit\<close>

lemma grow_cap_overflow:
  assumes "k \<le> 30" and "1073741824 < cap"
  shows "grow_cap (2 ^ k) cap = Inl (Undefined Signed_overflow)"
  using assms(1)
proof (induction "30 - k" arbitrary: k)
  case 0
  then have k: "k = 30" by simp
  show ?case
    using assms(2) by (subst grow_cap.simps) (simp add: k chk32_def int_limits)
next
  case (Suc n)
  then have k: "Suc k \<le> 30" "n = 30 - Suc k" by auto
  have le: "(2::int) ^ Suc k \<le> 2 ^ 30"
    using k(1) by (intro power_increasing) auto
  have "grow_cap (2 ^ k * 2) cap = Inl (Undefined Signed_overflow)"
    using Suc.hyps(1) [OF k(2,1)] by (simp add: mult.commute)
  then show ?case
    using le assms(2) by (subst grow_cap.simps) (simp add: chk32_def int_limits)
qed

lemma buffer_copy_ok:
  assumes "buf_ok b"
  shows "\<exists>c. buf_copy False this b = Inr c \<and> buf_ok c \<and> contents c = contents b"
proof -
  obtain pre z where sh: "buf_shape b pre (contents b) z"
    using assms by (rule buf_ok_shape)
  have "slice_at (pre @ contents b @ replicate z NUL) 0 (b_cap b) = Inr (pre @ contents b @ replicate z NUL)"
    using sh by (simp add: slice_at_def buf_shape_def nat_int_add)
  then have "buf_copy False this b = Inr \<lparr>b_cap = b_cap b, b_start = b_start b,
      b_offset = b_offset b, b_mem = Some (pre @ contents b @ replicate z NUL)\<rparr>"
    using sh by (simp add: buf_copy_def the_mem_def buf_shape_def)
  moreover have "buf_shape \<lparr>b_cap = b_cap b, b_start = b_start b, b_offset = b_offset b,
      b_mem = Some (pre @ contents b @ replicate z NUL)\<rparr> pre (contents b) z"
    using sh by (simp add: buf_shape_def)
  ultimately show ?thesis
    by (metis buf_shape_contents buf_shape_ok)
qed

lemma default_ok: "buffer_default = Inr b \<Longrightarrow> buf_ok b \<and> contents b = [] \<and> b_offset b = 0 \<and> b_cap b = 1"
  by (auto simp: buffer_default_def buffer_new_def buf_ok_def contents_def int_limits)

section \<open>Properties\<close>

text \<open>C27. The buffer is a byte FIFO: any sequence of \<open>put_string\<close> and \<open>get_string\<close> calls that
  never asks for more bytes than are stored returns without fault, hands out exactly the bytes
  the abstract queue hands out, in order, and what was put is what came out followed by what is
  left.\<close>

theorem buffer_fifo:
  assumes "buf_ok b" and "b_offset b + int (length (put_bytes ops)) \<le> 1073741824"
    and "fifo_run (contents b) ops = Some (out, rest)"
  shows "\<exists>b'. queue_run put_string buf_take b ops = Inr (out, b') \<and> buf_ok b' \<and>
           contents b' = rest \<and> out @ contents b' = contents b @ put_bytes ops"
  using bufq.run_refines [OF assms] fifo_conserves [OF assms(3)] by auto

definition sample_buffer :: buffer where
  "sample_buffer = \<lparr>b_cap = 4, b_start = 1, b_offset = 3, b_mem = Some [CHR ''z'', CHR ''a'', CHR ''b'', NUL]\<rparr>"

lemma sample_ok: "buf_ok sample_buffer" "contents sample_buffer = ''ab''" "b_offset sample_buffer = 3"
  "b_cap sample_buffer = 2 ^ 2"
  by (simp_all add: sample_buffer_def buf_ok_def contents_def int_limits)

theorem buffer_fifo_witness:
  "\<exists>b'. queue_run put_string buf_take sample_buffer [Put ''cd'', Get 3, Put ''e'']
        = Inr (''abc'', b') \<and> buf_ok b' \<and> contents b' = ''de'' \<and> ''abc'' @ contents b' = ''ab'' @ ''cde''"
  using buffer_fifo [of sample_buffer "[Put ''cd'', Get 3, Put ''e'']" "''abc''" "''de''"]
  by (simp add: sample_ok)

text \<open>C28. Housekeeping never changes the data: \<open>resize\<close>, \<open>tiny\<close> and a copy of a well-formed
  buffer return, keep it well-formed and keep its unconsumed bytes; \<open>resize\<close> gives at least the
  capacity asked for and less than twice that much when it grows, \<open>tiny\<close> moves the data to the
  front.\<close>

theorem buffer_housekeeping:
  assumes "buf_ok b" and "cap \<le> 1073741824"
  shows "\<exists>r t c. resize b cap = Inr r \<and> buf_ok r \<and> contents r = contents b \<and>
           cap \<le> b_cap r \<and> (b_cap r = b_cap b \<or> b_cap r < 2 * cap) \<and>
           tiny b = Inr t \<and> buf_ok t \<and> contents t = contents b \<and> b_start t = 0 \<and>
           buf_copy False this b = Inr c \<and> buf_ok c \<and> contents c = contents b"
proof -
  obtain pre z where sh: "buf_shape b pre (contents b) z"
    using assms(1) by (rule buf_ok_shape)
  obtain r pre' z' where r: "resize b cap = Inr r" "buf_shape r pre' (contents b) z'" "cap \<le> b_cap r"
      "b_cap r = b_cap b \<or> b_cap r < 2 * cap"
    using resize_shape [OF sh assms(2)] by blast
  obtain t where t: "tiny b = Inr t" "buf_shape t [] (contents b) (z + length pre)"
    using tiny_shape [OF sh] by blast
  obtain c where c: "buf_copy False this b = Inr c" "buf_ok c" "contents c = contents b"
    using buffer_copy_ok [OF assms(1)] by blast
  have "b_start t = 0" using t(2) by (simp add: buf_shape_def)
  with r(1,3,4) t(1) c r(2) [THEN buf_shape_ok] r(2) [THEN buf_shape_contents]
    t(2) [THEN buf_shape_ok] t(2) [THEN buf_shape_contents]
  show ?thesis by blast
qed

theorem buffer_housekeeping_witness:
  "\<exists>r t c. resize sample_buffer 9 = Inr r \<and> 9 \<le> b_cap r \<and> contents r = ''ab'' \<and>
     tiny sample_buffer = Inr t \<and> contents t = ''ab'' \<and> b_start t = 0 \<and>
     buf_copy False sample_buffer sample_buffer = Inr c \<and> contents c = ''ab''"
  using buffer_housekeeping [of sample_buffer 9 sample_buffer] by (auto simp: sample_ok)

text \<open>Through \<open>rawbuf()\<close> a reader sees the unconsumed bytes followed by NUL bytes up to the
  capacity, so the pointer is a terminated C string exactly while the array is not filled to its
  last byte.\<close>

theorem rawbuf_terminated:
  assumes "buf_ok b"
  shows "rawbuf b = Inr (contents b @ replicate (nat (b_cap b - b_offset b)) NUL)"
  using assms by (rule rawbuf_ok)

theorem rawbuf_terminated_witness: "rawbuf sample_buffer = Inr (''ab'' @ [NUL])"
  using rawbuf_terminated [of sample_buffer] by (simp add: sample_buffer_def contents_def buf_ok_def int_limits)

text \<open>C29. Growth is bounded by the width of \<open>int\<close>: from any capacity that is a power of two (the
  default buffer has capacity 1), a request above $2^{30}$ bytes makes \<open>cap_ *= 2\<close> overflow.\<close>

theorem resize_limit:
  assumes "b_cap b = 2 ^ k" and "k \<le> 30" and "1073741824 < cap"
  shows "resize b cap = Inl (Undefined Signed_overflow)"
proof -
  have "(2::int) ^ k \<le> 2 ^ 30"
    using assms(2) by (intro power_increasing) auto
  then show ?thesis
    using assms grow_cap_overflow [OF assms(2,3)] by (simp add: resize_def)
qed

theorem resize_limit_witness: "resize sample_buffer 1073741825 = Inl (Undefined Signed_overflow)"
  by (rule resize_limit [of sample_buffer 2]) (simp_all add: sample_ok)

end
