(* ===== verification/Text_Utils.thy ===== *)
theory Text_Utils
  imports Prelude "HOL-Library.Sublist"
begin

unbundle bit_operations_syntax

text \<open>
  The string routines of \<open>src/src/lib/utils.cc\<close>: \<open>split\<close>, \<open>join\<close> and the \<open>strip\<close> family.
  A \<open>std::string\<close> is a list of characters; positions are natural numbers as long as no
  subtraction can wrap, and integers reduced by \<open>usize\<close> where one can.
\<close>

section \<open>Comparing a substring\<close>

text \<open>\<open>str[i]\<close>: the position after the last character reads as NUL, any later one is
  undefined.\<close>

definition str_at :: "string \<Rightarrow> int \<Rightarrow> char res" where
  "str_at s i =
     (if 0 \<le> i \<and> i < int (length s) then Inr (s ! nat i)
      else if i = int (length s) then Inr (CHR 0x00)
      else Inl (Undefined Out_of_bounds))"

lemma str_at_in [simp]: "i < length s \<Longrightarrow> str_at s (int i) = Inr (s ! i)"
  by (simp add: str_at_def)

text \<open>The loop that compares \<open>sep\<close> with the characters of \<open>str\<close> from \<open>i\<close> on.\<close>

function match_fwd :: "string \<Rightarrow> string \<Rightarrow> nat \<Rightarrow> nat \<Rightarrow> bool res" where
  "match_fwd str sep i j =
     (if j < length sep
      then rbind (str_at str (int (i + j))) (\<lambda>c. rbind (str_at sep (int j)) (\<lambda>d.
           if c \<noteq> d then Inr False else match_fwd str sep i (Suc j)))
      else Inr True)"
  by pat_completeness auto
termination
  by (relation "measure (\<lambda>(str, sep, i, j). length sep - j)") auto

declare match_fwd.simps [simp del]

lemma match_fwd_drop:
  "i + length sep \<le> length str \<Longrightarrow> j \<le> length sep \<Longrightarrow>
   match_fwd str sep i j = Inr (prefix (drop j sep) (drop (i + j) str))"
proof (induction str sep i j rule: match_fwd.induct)
  case (1 str sep i j)
  show ?case
  proof (cases "j < length sep")
    case True
    then have s: "drop j sep = sep ! j # drop (Suc j) sep"
        "drop (i + j) str = str ! (i + j) # drop (Suc (i + j)) str"
      using "1.prems" by (simp_all add: Cons_nth_drop_Suc)
    have at: "str_at str (int (i + j)) = Inr (str ! (i + j))" "str_at sep (int j) = Inr (sep ! j)"
      using True "1.prems" by (intro str_at_in; simp)+
    have IH: "str ! (i + j) = sep ! j \<Longrightarrow>
        match_fwd str sep i (Suc j) = Inr (prefix (drop (Suc j) sep) (drop (i + Suc j) str))"
      using "1.IH" [OF True at] "1.prems" True by simp
    show ?thesis
      by (subst match_fwd.simps) (use True s at IH in simp)
  next
    case False
    then show ?thesis using "1.prems" by (subst match_fwd.simps) simp
  qed
qed

lemma match_fwd_prefix:
  "i + length sep \<le> length str \<Longrightarrow> match_fwd str sep i 0 = Inr (prefix sep (drop i str))"
  by (simp add: match_fwd_drop)

section \<open>split\<close>

text \<open>The scan that collects the separator positions in \<open>sep_index\<close>.\<close>

function split_scan :: "string \<Rightarrow> string \<Rightarrow> nat \<Rightarrow> int list \<Rightarrow> int list res" where
  "split_scan str sep i acc =
     (if i \<le> length str - length sep
      then rbind (match_fwd str sep i 0) (\<lambda>is_sep.
           if is_sep
           then if sep = [] then Inl Diverges
                else split_scan str sep (i + length sep) (acc @ [to_int (int i)])
           else split_scan str sep (Suc i) acc)
      else Inr acc)"
  by pat_completeness auto
termination
proof (relation "measure (\<lambda>(str, sep, i, acc). Suc (length str) - i)", goal_cases)
  case (2 str sep i acc x)
  then show ?case by (cases sep) auto
qed auto

declare split_scan.simps [simp del]

text \<open>The constructor \<open>std::string(str, pos, n)\<close>, with \<open>int\<close> arguments converted to \<open>size_t\<close>.\<close>

definition sub_str :: "string \<Rightarrow> int \<Rightarrow> int \<Rightarrow> string res" where
  "sub_str str pos n =
     (if usize pos > int (length str) then Inl Out_of_range
      else Inr (take (nat (min (usize n) (int (length str) - usize pos))) (drop (nat (usize pos)) str)))"

fun split_pieces :: "string \<Rightarrow> string \<Rightarrow> int list \<Rightarrow> string list res" where
  "split_pieces str sep (prev # cur # rest) =
     (let begin = to_int (usize (prev + int (length sep))) in
      rbind (sub_str str begin (cur - begin)) (\<lambda>x.
      rbind (split_pieces str sep (cur # rest)) (\<lambda>xs. Inr (x # xs))))"
| "split_pieces str sep _ = Inr []"

definition split :: "string \<Rightarrow> string \<Rightarrow> string list res" where
  "split str sep =
     (if sep = [] then Inl (Runtime_error ''cannot split string with empty seperator'')
      else if length sep > length str then Inr [str]
      else rbind (split_scan str sep 0 [to_int (usize (0 - int (length sep)))]) (\<lambda>ix.
           let sep_index = ix @ [to_int (int (length str))] in
           if length sep_index = 2 then Inr [str] else split_pieces str sep sep_index))"

section \<open>join\<close>

definition string_max_size :: int where
  "string_max_size = 9223372036854775807"

text \<open>
  \<open>join\<close> first reserves the total size, computed in \<open>size_t\<close>; a request above
  \<open>max_size()\<close> throws \<open>length_error\<close>, which terminates the \<open>noexcept\<close> function.
\<close>

definition join :: "string list \<Rightarrow> string \<Rightarrow> string res" where
  "join str_arr sep =
     (let n = int (length str_arr);
          size = usize (sum_list (map (int \<circ> length) str_arr)
                        + usize (int (length sep) * usize (n - 1)))
      in if size > string_max_size then Inl Terminated
         else for_int 0 n (\<lambda>i ret. rbind (rd_at str_arr i) (\<lambda>s.
                Inr (ret @ s @ (if i \<noteq> usize (n - 1) then sep else [])))) [])"

section \<open>strip\<close>

abbreviation STRIP_LEFT :: "32 word" where "STRIP_LEFT \<equiv> 0x01"
abbreviation STRIP_RIGHT :: "32 word" where "STRIP_RIGHT \<equiv> 0x10"

function strip_left_loop :: "string \<Rightarrow> string \<Rightarrow> nat \<Rightarrow> nat \<Rightarrow> nat res" where
  "strip_left_loop str chars p r =
     (if r - p \<ge> length chars
      then rbind (match_fwd str chars p 0) (\<lambda>eq.
           if eq
           then if chars = [] then Inl Diverges
                else strip_left_loop str chars (p + length chars) r
           else Inr p)
      else Inr p)"
  by pat_completeness auto
termination
proof (relation "measure (\<lambda>(str, chars, p, r). r - p)", goal_cases)
  case (2 str chars p r x)
  then show ?case by (cases chars) auto
qed simp

declare strip_left_loop.simps [simp del]

text \<open>
  \<open>for (i = r - 1; i > r - chars.size() - 1; --i) if (str[i] != chars[j--]) ...\<close>: the bound is
  a \<open>size_t\<close>, passed here already reduced.
\<close>

function match_bwd :: "string \<Rightarrow> string \<Rightarrow> int \<Rightarrow> int \<Rightarrow> int \<Rightarrow> bool res" where
  "match_bwd str chars bound i j =
     (if i > bound
      then rbind (str_at str i) (\<lambda>c. rbind (str_at chars j) (\<lambda>d.
           if c \<noteq> d then Inr False else match_bwd str chars bound (i - 1) (j - 1)))
      else Inr True)"
  by pat_completeness auto
termination
  by (relation "measure (\<lambda>(str, chars, bound, i, j). nat (i - bound))") auto

declare match_bwd.simps [simp del]

function strip_right_loop :: "string \<Rightarrow> string \<Rightarrow> nat \<Rightarrow> nat \<Rightarrow> nat res" where
  "strip_right_loop str chars p r =
     (if r - p \<ge> length chars
      then rbind (match_bwd str chars (usize (int r - int (length chars) - 1)) (int r - 1)
                    (int (length chars) - 1)) (\<lambda>eq.
           if eq
           then if chars = [] then Inl Diverges
                else strip_right_loop str chars p (r - length chars)
           else Inr r)
      else Inr r)"
  by pat_completeness auto
termination
proof (relation "measure (\<lambda>(str, chars, p, r). r)", goal_cases)
  case (2 str chars p r x)
  then show ?case by (cases chars) auto
qed simp

declare strip_right_loop.simps [simp del]

definition do_strip :: "string \<Rightarrow> string \<Rightarrow> 32 word \<Rightarrow> string res" where
  "do_strip str chars type =
     (if chars = [] then Inl (Runtime_error ''cannot strip string with empty strip chars'')
      else let r = length str in
        rbind (if type AND STRIP_LEFT \<noteq> 0 then strip_left_loop str chars 0 r else Inr 0) (\<lambda>p.
        rbind (if type AND STRIP_RIGHT \<noteq> 0 then strip_right_loop str chars p r else Inr r) (\<lambda>r.
        sub_str str (int p) (int r - int p))))"

definition strip :: "string \<Rightarrow> string \<Rightarrow> string res" where
  "strip str chars = do_strip str chars (STRIP_LEFT OR STRIP_RIGHT)"

definition lstrip :: "string \<Rightarrow> string \<Rightarrow> string res" where
  "lstrip str chars = do_strip str chars STRIP_LEFT"

definition rstrip :: "string \<Rightarrow> string \<Rightarrow> string res" where
  "rstrip str chars = do_strip str chars STRIP_RIGHT"

section \<open>split against a reference definition\<close>

lemma drop_shorter:
  "sep \<noteq> [] \<Longrightarrow> \<not> length s < length sep \<Longrightarrow> length s - length sep < length s"
  "sep \<noteq> [] \<Longrightarrow> \<not> length s < length sep \<Longrightarrow> length s - Suc 0 < length s"
  by (cases sep; cases s; simp)+

text \<open>The reference: read the string once, with the piece collected so far.\<close>

function split_ref :: "string \<Rightarrow> string \<Rightarrow> string \<Rightarrow> string list" where
  "split_ref sep cur s =
     (if sep = [] \<or> length s < length sep then [cur @ s]
      else if prefix sep s then cur # split_ref sep [] (drop (length sep) s)
      else split_ref sep (cur @ [hd s]) (tl s))"
  by pat_completeness auto
termination
  by (relation "measure (\<lambda>(sep, cur, s). length s)") (auto intro: drop_shorter)

declare split_ref.simps [simp del]

text \<open>The positions at which the scan finds the separator.\<close>

function sep_positions :: "string \<Rightarrow> nat \<Rightarrow> string \<Rightarrow> nat list" where
  "sep_positions sep i s =
     (if sep = [] \<or> length s < length sep then []
      else if prefix sep s then i # sep_positions sep (i + length sep) (drop (length sep) s)
      else sep_positions sep (Suc i) (tl s))"
  by pat_completeness auto
termination
  by (relation "measure (\<lambda>(sep, i, s). length s)") (auto intro: drop_shorter)

declare sep_positions.simps [simp del]

lemma split_scan_positions:
  assumes "sep \<noteq> []" and "length sep \<le> length str" and "int (length str) \<le> int_max"
  shows "i \<le> length str \<Longrightarrow>
    split_scan str sep i acc = Inr (acc @ map int (sep_positions sep i (drop i str)))"
  using assms
proof (induction str sep i acc rule: split_scan.induct)
  case (1 str sep i acc)
  show ?case
  proof (cases "i \<le> length str - length sep")
    case True
    have "to_int (int i) = int i"
      using "1.prems" by (intro to_int_id) (auto simp: int_limits)
    moreover have m: "match_fwd str sep i 0 = Inr (prefix sep (drop i str))"
      using True "1.prems" by (intro match_fwd_prefix) simp
    moreover have "Suc i \<le> length str"
      using True "1.prems"(2,3) by (cases sep) auto
    ultimately show ?thesis
      using True "1.IH" [OF True m] "1.prems"
      by (subst split_scan.simps, subst sep_positions.simps) (auto simp: drop_Suc tl_drop add.commute)
  next
    case False
    then show ?thesis
      using "1.prems" by (subst split_scan.simps, subst sep_positions.simps) auto
  qed
qed

lemma sub_str_range:
  assumes "p \<le> q" and "q \<le> length str" and "int (length str) \<le> string_max_size"
  shows "sub_str str (int p) (int q - int p) = Inr (take (q - p) (drop p str))"
proof -
  have "usize (int p) = int p" "usize (int q - int p) = int q - int p"
    using assms by (auto simp: usize_id string_max_size_def)
  moreover have "min (int q - int p) (int (length str) - int p) = int q - int p"
    using assms by (simp add: min_def)
  moreover have "nat (int q - int p) = q - p" by simp
  ultimately show ?thesis
    using assms by (simp add: sub_str_def)
qed

lemma split_pieces_ref:
  assumes "sep \<noteq> []" and "int (length str) \<le> int_max"
  shows "prev + int (length sep) = int p \<Longrightarrow> p \<le> i \<Longrightarrow> i \<le> length str \<Longrightarrow>
    split_pieces str sep (prev # map int (sep_positions sep i (drop i str)) @ [int (length str)])
    = Inr (split_ref sep (take (i - p) (drop p str)) (drop i str))"
  using assms
proof (induction sep i "drop i str" arbitrary: prev p rule: sep_positions.induct)
  case (1 sep i)
  have beg: "to_int (usize (int p)) = int p"
    using "1.prems" by (subst usize_id) (auto simp: int_limits intro!: to_int_id)
  let ?cur = "take (i - p) (drop p str)"
  consider (short) "length (drop i str) < length sep"
    | (found) "\<not> length (drop i str) < length sep" "prefix sep (drop i str)"
    | (skip) "\<not> length (drop i str) < length sep" "\<not> prefix sep (drop i str)"
    by blast
  then show ?case
  proof cases
    case short
    have "sub_str str (int p) (int (length str) - int p) = Inr (take (length str - p) (drop p str))"
      using "1.prems" by (intro sub_str_range) (auto simp: string_max_size_def int_limits)
    moreover have "?cur @ drop i str = drop p str"
      using "1.prems" append_take_drop_id [of "i - p" "drop p str"] by simp
    ultimately show ?thesis
      using short beg "1.prems"(1,4)
      by (subst sep_positions.simps, subst split_ref.simps) simp
  next
    case found
    have le: "i + length sep \<le> length str"
      using found(1) "1.prems"(4) by (cases sep) auto
    have piece: "sub_str str (int p) (int i - int p) = Inr ?cur"
      using "1.prems" by (intro sub_str_range) (auto simp: string_max_size_def int_limits)
    have "split_pieces str sep (int i # map int (sep_positions sep (i + length sep)
        (drop (i + length sep) str)) @ [int (length str)])
      = Inr (split_ref sep [] (drop (i + length sep) str))"
      using "1.hyps"(1) [of "int i" "i + length sep"] found le "1.prems"(4,5)
      by (simp add: add.commute)
    then show ?thesis
      using found beg piece "1.prems"(1,4)
      by (subst sep_positions.simps, subst split_ref.simps) (simp add: add.commute)
  next
    case skip
    then have lt: "i < length str" using "1.prems"(4) by (cases sep) auto
    have cur: "take (Suc i - p) (drop p str) = ?cur @ [hd (drop i str)]"
      using lt "1.prems"(2) by (simp add: Suc_diff_le take_Suc_conv_app_nth hd_drop_conv_nth)
    have "split_pieces str sep (prev # map int (sep_positions sep (Suc i) (drop (Suc i) str))
        @ [int (length str)])
      = Inr (split_ref sep (take (Suc i - p) (drop p str)) (drop (Suc i) str))"
      using "1.hyps"(2) [of prev p] skip lt "1.prems" by (simp add: drop_Suc tl_drop)
    then show ?thesis
      using skip cur "1.prems"(4)
      by (subst sep_positions.simps, subst split_ref.simps) (simp add: drop_Suc tl_drop)
  qed
qed

lemma split_eq_ref:
  assumes "sep \<noteq> []" and "int (length str) \<le> int_max"
  shows "split str sep = Inr (split_ref sep [] str)"
proof (cases "length sep > length str")
  case True
  then show ?thesis using assms by (simp add: split_def split_ref.simps [of sep "[]" str])
next
  case False
  let ?pos = "sep_positions sep 0 str"
  have "(word_of_int (usize (0 - int (length sep))) :: 32 word) = word_of_int (- int (length sep))"
    unfolding usize_def by (rule word_of_int_eq_iff [THEN iffD2]) (simp add: take_bit_eq_mod mod_mod_cancel)
  then have first: "to_int (usize (0 - int (length sep))) = - int (length sep)"
    using False assms to_int_id [of "- int (length sep)"] by (simp add: to_int_def int_limits)
  have last: "to_int (int (length str)) = int (length str)"
    using assms by (intro to_int_id) (auto simp: int_limits)
  have "split_pieces str sep (- int (length sep) # map int ?pos @ [int (length str)])
      = Inr (split_ref sep [] str)"
    using split_pieces_ref [OF assms, of "- int (length sep)" 0 0] by simp
  moreover have "?pos = [] \<Longrightarrow> split_ref sep [] str = [str]"
    using calculation sub_str_range [of 0 "length str" str] assms
    by (simp add: to_int_def usize_def string_max_size_def int_limits)
  ultimately show ?thesis
    using False assms split_scan_positions [of sep str 0 "[- int (length sep)]"]
    by (auto simp: split_def first [simplified] last)
qed

section \<open>Pieces and joins\<close>

fun join_ref :: "string \<Rightarrow> string list \<Rightarrow> string" where
  "join_ref sep [] = []"
| "join_ref sep [x] = x"
| "join_ref sep (x # y # xs) = x @ sep @ join_ref sep (y # xs)"

lemma join_ref_Cons: "xs \<noteq> [] \<Longrightarrow> join_ref sep (x # xs) = x @ sep @ join_ref sep xs"
  by (cases xs) auto

lemma split_ref_nonempty: "split_ref sep cur s \<noteq> []"
  by (induction sep cur s rule: split_ref.induct) (subst split_ref.simps, auto)

lemma join_split_ref: "join_ref sep (split_ref sep cur s) = cur @ s"
proof (induction sep cur s rule: split_ref.induct)
  case (1 sep cur s)
  show ?case
  proof (cases "sep = [] \<or> length s < length sep")
    case True
    then show ?thesis by (subst split_ref.simps) simp
  next
    case False
    show ?thesis
    proof (cases "prefix sep s")
      case True
      then obtain t where t: "s = sep @ t" by (auto simp: prefix_def)
      have "join_ref sep (split_ref sep [] t) = t"
        using "1.IH"(1) [OF False True] t by simp
      then show ?thesis
        using False True t
        by (subst split_ref.simps) (simp add: join_ref_Cons split_ref_nonempty)
    next
      case F: False
      from False have "s \<noteq> []" by (cases s) auto
      then show ?thesis
        using "1.IH"(2) [OF False F] False F by (subst split_ref.simps) simp
    qed
  qed
qed

text \<open>No piece contains the separator: a match inside a piece would have been found when the
  scan stood there.\<close>

lemma split_ref_no_sep:
  assumes "sep \<noteq> []" and "\<forall>q<length cur. \<not> prefix sep (drop q (cur @ s))"
  shows "\<forall>x\<in>set (split_ref sep cur s). \<not> sublist sep x"
  using assms
proof (induction sep cur s rule: split_ref.induct)
  case (1 sep cur s)
  have inner: "\<not> sublist sep x"
    if "x = cur @ t" "prefix t s" "length t < length sep" for x t
  proof
    assume "sublist sep x"
    then obtain u v where x: "x = u @ sep @ v" by (auto simp: sublist_def)
    then have q: "length u < length cur"
    proof -
      have "length (cur @ t) = length (u @ sep @ v)"
        using x that(1) by simp
      with that(3) show ?thesis by simp
    qed
    have "prefix (drop (length u) x) (drop (length u) (cur @ s))"
      using that(1,2) q by (auto simp: prefix_def)
    then have "prefix sep (drop (length u) (cur @ s))"
      using x by (auto simp: prefix_def)
    with q "1.prems"(2) show False by blast
  qed
  show ?case
  proof (cases "length s < length sep")
    case True
    then show ?thesis
      using inner [of "cur @ s" s] by (subst split_ref.simps) auto
  next
    case False
    then have g: "\<not> (sep = [] \<or> length s < length sep)" using "1.prems"(1) by simp
    show ?thesis
    proof (cases "prefix sep s")
      case True
      have "\<not> sublist sep cur"
        using inner [of cur "[]"] "1.prems"(1) by simp
      moreover have "\<forall>x\<in>set (split_ref sep [] (drop (length sep) s)). \<not> sublist sep x"
        using "1.IH"(1) [OF g True] "1.prems"(1) by simp
      ultimately show ?thesis
        using g True by (subst split_ref.simps) simp
    next
      case F: False
      from False "1.prems"(1) have ne: "s \<noteq> []" by (cases s) auto
      have "\<forall>q<length (cur @ [hd s]). \<not> prefix sep (drop q ((cur @ [hd s]) @ tl s))"
        using "1.prems"(2) F ne by (auto simp: less_Suc_eq)
      then show ?thesis
        using "1.IH"(2) [OF g F] "1.prems"(1) g F by (subst split_ref.simps) simp
    qed
  qed
qed

text \<open>Pieces that share no character with the separator come back unchanged.\<close>

lemma split_ref_piece:
  assumes "sep \<noteq> []" and "set x \<inter> set sep = {}"
  shows "split_ref sep cur (x @ sep @ t) = (cur @ x) # split_ref sep [] t"
    and "split_ref sep cur x = [cur @ x]"
proof -
  have np: "\<not> prefix sep ((a # x') @ y)" if "a \<notin> set sep" for a x' y
    using assms(1) that by (cases sep) auto
  show "split_ref sep cur (x @ sep @ t) = (cur @ x) # split_ref sep [] t"
    using assms(2)
  proof (induction x arbitrary: cur)
    case Nil
    then show ?case using assms(1) by (subst split_ref.simps) simp
  next
    case (Cons a x)
    then show ?case
      using np [of a x "sep @ t"] assms(1) by (subst split_ref.simps) simp
  qed
  show "split_ref sep cur x = [cur @ x]"
    using assms(2)
  proof (induction x arbitrary: cur)
    case Nil
    then show ?case using assms(1) by (subst split_ref.simps) simp
  next
    case (Cons a x)
    then show ?case
      using np [of a x "[]"] assms(1) by (subst split_ref.simps) simp
  qed
qed

lemma split_join_ref:
  assumes "sep \<noteq> []" and "xs \<noteq> []" and "\<forall>x\<in>set xs. set x \<inter> set sep = {}"
  shows "split_ref sep [] (join_ref sep xs) = xs"
  using assms(2,3)
  by (induction xs rule: induct_list012) (auto simp: split_ref_piece [OF assms(1)])

lemma join_eq_ref:
  assumes ne: "arr \<noteq> []" and len: "int (length (join_ref sep arr)) \<le> string_max_size"
    and small: "int (length arr) \<le> string_max_size"
  shows "join arr sep = Inr (join_ref sep arr)"
proof -
  have total: "int (length (join_ref sep xs))
      = sum_list (map (int \<circ> length) xs) + int (length sep) * (int (length xs) - 1)"
    if "xs \<noteq> []" for xs
    using that by (induction xs rule: induct_list012) (auto simp: algebra_simps)
  have n: "usize (int (length arr) - 1) = int (length arr) - 1"
    using ne small by (intro usize_id) (auto simp: string_max_size_def Suc_le_eq)
  have nonneg: "0 \<le> sum_list (map (int \<circ> length) arr)"
    by (rule sum_list_nonneg) auto
  have sepn: "0 \<le> int (length sep) * (int (length arr) - 1)"
    using ne by (intro mult_nonneg_nonneg) (auto simp: Suc_le_eq)
  have size: "usize (sum_list (map (int \<circ> length) arr)
      + usize (int (length sep) * usize (int (length arr) - 1))) = int (length (join_ref sep arr))"
    using total [OF ne] len nonneg sepn n
    by (simp add: usize_id string_max_size_def)
  let ?I = "\<lambda>i ret. ret @ join_ref sep (drop (nat i) arr) = join_ref sep arr"
  have "\<exists>t. for_int 0 (int (length arr)) (\<lambda>i ret. rbind (rd_at arr i) (\<lambda>s.
            Inr (ret @ s @ (if i \<noteq> usize (int (length arr) - 1) then sep else [])))) [] = Inr t
          \<and> ?I (int (length arr)) t"
  proof (rule for_int_rule)
    fix i t
    assume i: "0 \<le> i" "i < int (length arr)" and I: "?I i t"
    then obtain k where k: "i = int k" "k < length arr"
      by (metis nonneg_int_cases of_nat_less_iff)
    have d: "drop k arr = arr ! k # drop (Suc k) arr"
      using k by (simp add: Cons_nth_drop_Suc)
    show "\<exists>t'. rbind (rd_at arr i) (\<lambda>s. Inr (t @ s @ (if i \<noteq> usize (int (length arr) - 1) then sep else [])))
            = Inr t' \<and> ?I (i + 1) t'"
    proof (cases "Suc k = length arr")
      case True
      then show ?thesis using I k n d by (simp add: nat_add_distrib)
    next
      case False
      then have "drop (Suc k) arr \<noteq> []" "int k \<noteq> int (length arr) - 1" using k by auto
      then show ?thesis
        using I k n d by (simp add: nat_add_distrib join_ref_Cons)
    qed
  qed simp_all
  then show ?thesis
    using size len by (simp add: join_def Let_def)
qed

section \<open>The strip loops\<close>

lemma strip_left_spec:
  assumes "chars \<noteq> []"
  shows "p \<le> r \<Longrightarrow> r = length str \<Longrightarrow>
    \<exists>k t. drop p str = concat (replicate k chars) @ t \<and> \<not> prefix chars t \<and>
          (0 < k \<longleftrightarrow> strip_left_loop str chars p r \<noteq> Inr p) \<and>
          strip_left_loop str chars p r = Inr (r - length t)"
  using assms
proof (induction str chars p r rule: strip_left_loop.induct)
  case (1 str chars p r)
  show ?case
  proof (cases "r - p \<ge> length chars")
    case False
    then have "\<not> prefix chars (drop p str)"
      using "1.prems"(2) by (auto dest: prefix_length_le)
    then show ?thesis
      using False "1.prems"
      by (intro exI [of _ 0] exI [of _ "drop p str"]) (simp add: strip_left_loop.simps)
  next
    case True
    then have le: "p + length chars \<le> r" using "1.prems"(1,3) by (cases chars) auto
    have m: "match_fwd str chars p 0 = Inr (prefix chars (drop p str))"
      using le "1.prems"(2) by (intro match_fwd_prefix) simp
    show ?thesis
    proof (cases "prefix chars (drop p str)")
      case True
      then obtain u where u: "drop p str = chars @ u" by (auto simp: prefix_def)
      then have u': "drop (p + length chars) str = u" by (metis append_eq_conv_conj drop_drop add.commute)
      obtain k t where IH: "u = concat (replicate k chars) @ t" "\<not> prefix chars t"
          "strip_left_loop str chars (p + length chars) r = Inr (r - length t)"
        using "1.IH" [OF \<open>r - p \<ge> length chars\<close> m True "1.prems"(3) le "1.prems"(2,3)] u' by auto
      have step: "strip_left_loop str chars p r = Inr (r - length t)"
        using \<open>r - p \<ge> length chars\<close> m True IH(3) "1.prems"(3) by (subst strip_left_loop.simps) simp
      have "length t \<le> length u"
        using IH(1) by simp
      also have "length u = r - (p + length chars)"
        using u' "1.prems"(2) by (metis length_drop)
      finally have "length t \<le> r - (p + length chars)" .
      then have "r - length t \<noteq> p"
        using le "1.prems"(3) by (cases chars) auto
      with step IH(1,2) u show ?thesis
        by (intro exI [of _ "Suc k"] exI [of _ t]) simp
    next
      case False
      then show ?thesis
        using \<open>r - p \<ge> length chars\<close> m "1.prems"
        by (intro exI [of _ 0] exI [of _ "drop p str"]) (simp add: strip_left_loop.simps)
    qed
  qed
qed

lemma match_bwd_take:
  "k \<le> length chars \<Longrightarrow> b + k < length str \<Longrightarrow>
   match_bwd str chars (int b) (int b + int k) (int k - 1)
   = Inr (take k chars = take k (drop (Suc b) str))"
proof (induction k)
  case 0
  then show ?case by (simp add: match_bwd.simps)
next
  case (Suc k)
  have at: "str_at str (int b + int (Suc k)) = Inr (str ! (b + Suc k))"
    "str_at chars (int (Suc k) - 1) = Inr (chars ! k)"
    using Suc.prems str_at_in [of "b + Suc k" str] str_at_in [of k chars]
    by (simp_all add: add.assoc add.left_commute)
  have IH: "match_bwd str chars (int b) (int b + int k) (int k - 1)
      = Inr (take k chars = take k (drop (Suc b) str))"
    using Suc by simp
  have "match_bwd str chars (int b) (int b + int (Suc k)) (int (Suc k) - 1)
      = (if str ! (b + Suc k) \<noteq> chars ! k then Inr False
         else match_bwd str chars (int b) (int b + int k) (int k - 1))"
    by (subst match_bwd.simps, subst at(1), subst at(2)) simp
  then show ?case
    using IH Suc.prems by (auto simp: take_Suc_conv_app_nth)
qed

lemma match_bwd_suffix:
  assumes "chars \<noteq> []" and "length chars < r" and "r \<le> length str"
    and "int (length str) \<le> string_max_size"
  shows "match_bwd str chars (usize (int r - int (length chars) - 1)) (int r - 1) (int (length chars) - 1)
         = Inr (suffix chars (take r str))"
proof -
  define b where "b = r - length chars - 1"
  have b: "r = Suc b + length chars"
    using assms(2) by (simp add: b_def)
  have "usize (int r - int (length chars) - 1) = int b"
    using assms(3,4) b by (simp add: usize_id string_max_size_def)
  moreover have "int r - 1 = int b + int (length chars)" using b by simp
  moreover have "(chars = take (length chars) (drop (Suc b) str)) = suffix chars (take r str)"
  proof -
    have "take (length chars) (drop (Suc b) str) = drop (Suc b) (take r str)"
      using b by (simp add: drop_take)
    moreover have "length (take r str) - length chars = Suc b"
      using b assms(3) by simp
    ultimately show ?thesis
      by (metis suffix_drop suffix_def append_eq_conv_conj length_append add_diff_cancel_right')
  qed
  ultimately show ?thesis
    using match_bwd_take [of "length chars" chars b str] b assms(3) by simp
qed

lemma match_bwd_whole:
  assumes "r = length chars" and "int r \<le> string_max_size"
  shows "match_bwd str chars (usize (int r - int (length chars) - 1)) (int r - 1) j = Inr True"
  using assms by (subst match_bwd.simps) (simp add: usize_def string_max_size_def)

lemma strip_right_spec:
  assumes "chars \<noteq> []" and "int (length str) \<le> string_max_size"
  shows "p \<le> r \<Longrightarrow> r \<le> length str \<Longrightarrow>
    \<exists>k t. drop p (take r str) = t @ concat (replicate k chars) \<and> \<not> suffix chars t \<and>
          strip_right_loop str chars p r
          = Inr (if p = 0 \<and> length t = length chars then 0 else p + length t)"
  using assms
proof (induction str chars p r rule: strip_right_loop.induct)
  case (1 str chars p r)
  let ?w = "drop p (take r str)" and ?n = "length chars"
  have lw: "length ?w = r - p" using "1.prems"(2) by simp
  have n: "0 < ?n" using "1.prems"(3) by simp
  consider (short) "r - p < ?n" | (all) "r - p \<ge> ?n" "r = ?n" | (long) "r - p \<ge> ?n" "r > ?n"
    using "1.prems"(1) by linarith
  then show ?case
  proof cases
    case short
    then have "\<not> suffix chars ?w" using lw by (auto dest: suffix_length_le)
    then show ?thesis
      using short lw "1.prems"(1)
      by (intro exI [of _ 0] exI [of _ ?w]) (simp add: strip_right_loop.simps)
  next
    case all
    then have p: "p = 0" using n by arith
    have "strip_right_loop str chars p r = strip_right_loop str chars 0 0"
      using all p n match_bwd_whole [of r chars str "int ?n - 1"] "1.prems"(2,4)
      by (subst strip_right_loop.simps) simp
    also have "\<dots> = Inr 0" using n by (subst strip_right_loop.simps) simp
    finally have res: "strip_right_loop str chars p r = Inr 0" .
    show ?thesis
    proof (cases "?w = chars")
      case True
      then show ?thesis using res p n by (intro exI [of _ 1] exI [of _ "[]"]) simp
    next
      case False
      have "\<not> suffix chars ?w"
      proof
        assume "suffix chars ?w"
        then obtain zs where zs: "?w = zs @ chars" by (auto simp: suffix_def)
        have "length ?w = length chars" using lw all p by simp
        then have "zs = []" by (simp add: zs)
        with zs False show False by simp
      qed
      then show ?thesis
        using res p lw all by (intro exI [of _ 0] exI [of _ ?w]) simp
    qed
  next
    case long
    have m: "match_bwd str chars (usize (int r - int ?n - 1)) (int r - 1) (int ?n - 1)
        = Inr (suffix chars (take r str))"
      using long "1.prems" by (intro match_bwd_suffix) auto
    have sw: "suffix chars (take r str) \<longleftrightarrow> suffix chars ?w"
    proof -
      have "suffix ?w (take r str)" by (rule suffix_drop)
      moreover have "suffix chars (take r str) \<Longrightarrow> ?n \<le> length ?w \<Longrightarrow> suffix chars ?w"
        using suffix_length_suffix suffix_drop by blast
      ultimately show ?thesis
        using long(1) lw by (metis suffix_order.trans)
    qed
    show ?thesis
    proof (cases "suffix chars (take r str)")
      case False
      then have "strip_right_loop str chars p r = Inr r"
        using long(1) m by (subst strip_right_loop.simps) simp
      then show ?thesis
        using False sw lw long "1.prems"(1)
        by (intro exI [of _ 0] exI [of _ ?w]) auto
    next
      case True
      then obtain v where v: "?w = v @ chars" using sw by (auto simp: suffix_def)
      have w': "drop p (take (r - ?n) str) = v"
      proof -
        have "drop p (take (r - ?n) str) = take (length ?w - ?n) ?w"
          using lw long(1) by (simp add: drop_take min_def add.commute)
        then show ?thesis by (simp add: v)
      qed
      have le: "p \<le> r - ?n" "r - ?n \<le> length str"
        using long "1.prems"(1,2) n by arith+
      obtain k t where IH: "v = t @ concat (replicate k chars)" "\<not> suffix chars t"
          "strip_right_loop str chars p (r - ?n)
           = Inr (if p = 0 \<and> length t = length chars then 0 else p + length t)"
        using "1.IH" [OF long(1) m True "1.prems"(3) le "1.prems"(3,4)] unfolding w' by blast
      have "strip_right_loop str chars p r = strip_right_loop str chars p (r - ?n)"
        using long(1) m True "1.prems"(3) by (subst strip_right_loop.simps) simp
      then show ?thesis
        using IH v by (intro exI [of _ "Suc k"] exI [of _ t]) (simp add: concat_replicate_snoc del: replicate_Suc)
    qed
  qed
qed

lemma strip_left_whole:
  assumes "chars \<noteq> []"
  shows "\<exists>k t. str = concat (replicate k chars) @ t \<and> \<not> prefix chars t \<and>
           strip_left_loop str chars 0 (length str) = Inr (length str - length t)"
  using strip_left_spec [OF assms le0 refl, of str] unfolding drop_0 by blast

lemma strip_flags:
  "STRIP_LEFT AND STRIP_LEFT \<noteq> 0" "STRIP_LEFT AND STRIP_RIGHT = 0"
  "STRIP_RIGHT AND STRIP_LEFT = 0" "STRIP_RIGHT AND STRIP_RIGHT \<noteq> 0"
  "(STRIP_LEFT OR STRIP_RIGHT) AND STRIP_LEFT \<noteq> 0"
  "(STRIP_LEFT OR STRIP_RIGHT) AND STRIP_RIGHT \<noteq> 0"
  by simp_all

lemma lstrip_ok:
  assumes "chars \<noteq> []" and "int (length str) \<le> string_max_size"
  shows "\<exists>k t. str = concat (replicate k chars) @ t \<and> \<not> prefix chars t \<and> lstrip str chars = Inr t"
proof -
  obtain k t where s: "str = concat (replicate k chars) @ t" "\<not> prefix chars t"
      "strip_left_loop str chars 0 (length str) = Inr (length str - length t)"
    using strip_left_whole [OF assms(1)] by blast
  have "sub_str str (int (length str - length t)) (int (length str) - int (length str - length t))
      = Inr (take (length str - (length str - length t)) (drop (length str - length t) str))"
    using assms(2) by (intro sub_str_range) auto
  also have "\<dots> = Inr t"
    using s(1) by simp
  finally have "lstrip str chars = Inr t"
    using s(3) assms(1) by (simp add: lstrip_def do_strip_def strip_flags Let_def)
  with s show ?thesis by blast
qed

lemma rstrip_ok:
  assumes "chars \<noteq> []" and "int (length str) \<le> string_max_size"
  shows "\<exists>k t. str = t @ concat (replicate k chars) \<and> \<not> suffix chars t \<and>
           rstrip str chars = Inr (if length t = length chars then [] else t)"
proof -
  obtain k t where s: "str = t @ concat (replicate k chars)" "\<not> suffix chars t"
      "strip_right_loop str chars 0 (length str)
       = Inr (if length t = length chars then 0 else length t)"
    using strip_right_spec [OF assms, of 0 "length str"] by auto
  let ?r = "if length t = length chars then 0 else length t"
  have "sub_str str (int 0) (int ?r - int 0) = Inr (take (?r - 0) (drop 0 str))"
    using assms(2) s(1) by (intro sub_str_range) auto
  then have "sub_str str 0 (int ?r) = Inr (if length t = length chars then [] else t)"
    using s(1) by (simp split: if_splits)
  then have "rstrip str chars = Inr (if length t = length chars then [] else t)"
    using s(3) assms(1) by (simp add: rstrip_def do_strip_def strip_flags Let_def)
  with s show ?thesis by blast
qed

lemma strip_ok:
  assumes "chars \<noteq> []" and "int (length str) \<le> string_max_size"
  shows "\<exists>j k t. str = concat (replicate j chars) @ t @ concat (replicate k chars) \<and>
           \<not> prefix chars (t @ concat (replicate k chars)) \<and> \<not> suffix chars t \<and>
           strip str chars = Inr (if j = 0 \<and> length t = length chars then [] else t)"
proof -
  obtain j u where l: "str = concat (replicate j chars) @ u" "\<not> prefix chars u"
      "strip_left_loop str chars 0 (length str) = Inr (length str - length u)"
    using strip_left_whole [OF assms(1)] by blast
  let ?p = "length str - length u"
  have du: "drop ?p (take (length str) str) = u" and p0: "?p = 0 \<longleftrightarrow> j = 0"
    using l(1) assms(1) by (auto simp: length_concat)
  obtain k t where r: "u = t @ concat (replicate k chars)" "\<not> suffix chars t"
      "strip_right_loop str chars ?p (length str)
       = Inr (if ?p = 0 \<and> length t = length chars then 0 else ?p + length t)"
    using strip_right_spec [OF assms, of ?p "length str"] du by auto
  let ?r = "if ?p = 0 \<and> length t = length chars then 0 else ?p + length t"
  have le: "?p \<le> ?r" "?r \<le> length str"
    using l(1) r(1) by auto
  have "sub_str str (int ?p) (int ?r - int ?p) = Inr (take (?r - ?p) (drop ?p str))"
    using assms(2) le by (intro sub_str_range)
  also have "take (?r - ?p) (drop ?p str) = (if j = 0 \<and> length t = length chars then [] else t)"
    using du r(1) p0 by simp
  finally have "strip str chars = Inr (if j = 0 \<and> length t = length chars then [] else t)"
    using l(3) r(3) assms(1) by (simp add: strip_def do_strip_def strip_flags Let_def)
  with l r show ?thesis by (metis append.assoc)
qed

lemma length_split_ref: "length (split_ref sep cur s) \<le> Suc (length s)"
proof (induction sep cur s rule: split_ref.induct)
  case (1 sep cur s)
  show ?case
  proof (cases "sep = [] \<or> length s < length sep")
    case True
    then show ?thesis by (subst split_ref.simps) simp
  next
    case False
    then have "s \<noteq> []" "0 < length sep" "length sep \<le> length s" by auto
    then have "Suc (Suc (length s - length sep)) \<le> Suc (length s)" "Suc (length s - 1) \<le> Suc (length s)"
      by arith+
    then show ?thesis
      using "1.IH" [OF False]
      by (subst split_ref.simps) (use False in \<open>auto intro: order_trans\<close>)
  qed
qed

section \<open>Properties\<close>

text \<open>C30. \<open>split\<close> is the left-to-right scan: on any string whose length fits an \<open>int\<close> it returns
  the pieces of the one-pass reference, no piece contains the separator, and the separator
  between the pieces gives the string back.\<close>

theorem split_correct:
  assumes "sep \<noteq> []" and "int (length str) \<le> int_max"
  shows "split str sep = Inr (split_ref sep [] str) \<and>
    (\<forall>x\<in>set (split_ref sep [] str). \<not> sublist sep x) \<and>
    join_ref sep (split_ref sep [] str) = str"
  using split_eq_ref [OF assms] split_ref_no_sep [OF assms(1), of "[]" str] join_split_ref [of sep "[]" str] by simp

theorem split_correct_witness:
  "split ''a--b---'' ''--'' = Inr (split_ref ''--'' [] ''a--b---'') \<and>
   join_ref ''--'' (split_ref ''--'' [] ''a--b---'') = ''a--b---''"
  using split_correct [of "''--''" "''a--b---''"] by (simp add: int_limits)

text \<open>C31. \<open>split\<close> and \<open>join\<close> are inverse to each other: joining the pieces of a string with the
  separator returns the string, and splitting a join returns the pieces when none of them
  shares a character with the separator.\<close>

theorem split_join_inverse:
  assumes "sep \<noteq> []" and "int (length str) \<le> int_max"
    and "xs \<noteq> []" and "\<forall>x\<in>set xs. set x \<inter> set sep = {}"
    and "int (length (join_ref sep xs)) \<le> int_max" and "int (length xs) \<le> int_max"
  shows "rbind (split str sep) (\<lambda>ps. join ps sep) = Inr str \<and>
         rbind (join xs sep) (\<lambda>s. split s sep) = Inr xs"
proof
  have "join (split_ref sep [] str) sep = Inr (join_ref sep (split_ref sep [] str))"
    using split_ref_nonempty length_split_ref [of sep "[]" str] assms(2)
    by (intro join_eq_ref) (auto simp: join_split_ref int_limits string_max_size_def)
  then show "rbind (split str sep) (\<lambda>ps. join ps sep) = Inr str"
    using split_eq_ref [OF assms(1,2)] by (simp add: join_split_ref)
  have "join xs sep = Inr (join_ref sep xs)"
    using assms(3,5,6) by (intro join_eq_ref) (auto simp: int_limits string_max_size_def)
  then show "rbind (join xs sep) (\<lambda>s. split s sep) = Inr xs"
    using split_eq_ref [OF assms(1,5)] split_join_ref [OF assms(1,3,4)] by simp
qed

theorem split_join_inverse_witness:
  "rbind (split ''a,,b'' '','') (\<lambda>ps. join ps '','') = Inr ''a,,b'' \<and>
   rbind (join [''x'', '''', ''yz''] '','') (\<lambda>s. split s '','') = Inr [''x'', '''', ''yz'']"
  using split_join_inverse [of "'',''" "''a,,b''" "[''x'', '''', ''yz'']"] by (simp add: int_limits)

text \<open>\<open>join\<close> concatenates with the separator between the elements; but on an empty vector the
  reserved size is computed as \<open>0 + |sep| * (0 - 1)\<close> in \<open>size_t\<close>, so that with a non-empty
  separator the \<open>length_error\<close> of \<open>reserve\<close> terminates the program.\<close>

theorem join_correct:
  assumes "int (length (join_ref sep arr)) \<le> string_max_size"
    and "int (length arr) \<le> string_max_size" and "int (length sep) \<le> string_max_size"
  shows "join arr sep = (if arr = [] \<and> sep \<noteq> [] then Inl Terminated else Inr (join_ref sep arr))"
proof (cases "arr = []")
  case False
  then show ?thesis using join_eq_ref [OF False assms(1,2)] by simp
next
  case True
  have m1: "usize (- 1) = 18446744073709551615" by (simp add: usize_def)
  have "usize (int n * 18446744073709551615) = 18446744073709551616 - int n"
    if "0 < n" "int n \<le> string_max_size" for n
  proof -
    have "int n * 18446744073709551615
        = (18446744073709551616 - int n) + (int n - 1) * 18446744073709551616" by simp
    then have "usize (int n * 18446744073709551615) = usize (18446744073709551616 - int n)"
      unfolding usize_def by (simp only: mod_mult_self1)
    also have "\<dots> = 18446744073709551616 - int n"
      using that by (intro usize_id) (auto simp: string_max_size_def)
    finally show ?thesis .
  qed
  then show ?thesis
    using True assms(3) m1 by (cases "sep = []") (auto simp: join_def usize_id string_max_size_def)
qed

theorem join_correct_witness:
  "join [''ab'', ''c''] ''::'' = Inr ''ab::c'' \<and> join [] '','' = Inl Terminated"
  using join_correct [of "''::''" "[''ab'', ''c'']"] join_correct [of "'',''" "[]"]
  by (simp add: string_max_size_def)

text \<open>What the strip functions remove: \<open>lstrip\<close> removes copies of \<open>chars\<close> from the front until
  none is left; \<open>rstrip\<close> and \<open>strip\<close> do the same at the end, except that when the rest is exactly as
  long as \<open>chars\<close> (and nothing was stripped on the left) the comparison loop is skipped, because
  its bound wraps, and the rest is removed whatever it is.\<close>

theorem strip_family:
  assumes "chars \<noteq> []" and "int (length str) \<le> string_max_size"
  shows "(\<exists>k t. str = concat (replicate k chars) @ t \<and> \<not> prefix chars t \<and> lstrip str chars = Inr t) \<and>
    (\<exists>k t. str = t @ concat (replicate k chars) \<and> \<not> suffix chars t \<and>
           rstrip str chars = Inr (if length t = length chars then [] else t)) \<and>
    (\<exists>j k t. str = concat (replicate j chars) @ t @ concat (replicate k chars) \<and>
           \<not> prefix chars (t @ concat (replicate k chars)) \<and> \<not> suffix chars t \<and>
           strip str chars = Inr (if j = 0 \<and> length t = length chars then [] else t))"
  using lstrip_ok [OF assms] rstrip_ok [OF assms] strip_ok [OF assms] by blast

theorem strip_family_witness:
  "\<exists>k t. ''ab'' = t @ concat (replicate k ''xy'') \<and> \<not> suffix ''xy'' t \<and>
     rstrip ''ab'' ''xy'' = Inr (if length t = length ''xy'' then [] else t)"
  using strip_family [of "''xy''" "''ab''"] by (simp add: string_max_size_def)

text \<open>\<open>rstrip\<close> is wrong on a concrete input: \<open>rstrip("ab", "xy")\<close> is the empty string although
  the string does not end in \<open>xy\<close>.\<close>

theorem rstrip_drops_mismatch: "rstrip ''ab'' ''xy'' = Inr [] \<and> \<not> suffix ''xy'' ''ab''"
proof -
  have nf: "\<not> suffix ''xy'' ''ab''" by (simp add: suffix_def)
  obtain k t where kt: "''ab'' = t @ concat (replicate k ''xy'')"
      "rstrip ''ab'' ''xy'' = Inr (if length t = 2 then [] else t)"
    using rstrip_ok [of "''xy''" "''ab''"] by (auto simp: string_max_size_def)
  have "k = 0"
  proof (rule ccontr)
    assume "k \<noteq> 0"
    then have "replicate k ''xy'' = replicate (k - 1) ''xy'' @ [''xy'']"
      by (cases k) (simp_all add: replicate_append_same)
    then have "suffix ''xy'' ''ab''" using kt(1) by (auto simp: suffix_def)
    with nf show False by simp
  qed
  then show ?thesis using kt nf by auto
qed

end
