(* ===== verification/Numeric_Utils.thy ===== *)
theory Numeric_Utils
  imports Prelude "HOL-Library.Signed_Division"
begin

text \<open>
  The integer algorithms of \<open>src/src/lib/utils.cc\<close> (greatest common divisor, least common
  multiple, on pairs and on vectors), the priorities and \<open>ceil_time_point\<close> of
  \<open>src/src/include/cppev/utils.h\<close>. An \<open>int64_t\<close> is an integer whose arithmetic faults when it
  leaves the 64-bit range; \<open>/\<close> and \<open>%\<close> truncate towards zero.
\<close>

section \<open>Definitions\<close>

datatype priority = p0 | p1 | p2 | p3 | p4 | p5 | p6

fun prio_val :: "priority \<Rightarrow> int" where
  "prio_val p0 = 20"
| "prio_val p1 = 19"
| "prio_val p2 = 18"
| "prio_val p3 = 17"
| "prio_val p4 = 16"
| "prio_val p5 = 15"
| "prio_val p6 = 14"

definition c_div :: "int \<Rightarrow> int \<Rightarrow> int res" where
  "c_div p r = (if r = 0 then Inl (Undefined Division_ub) else chk64 (p sdiv r))"

text \<open>\<open>%\<close> is undefined whenever the quotient is.\<close>

definition c_mod :: "int \<Rightarrow> int \<Rightarrow> int res" where
  "c_mod p r =
     (if r = 0 then Inl (Undefined Division_ub) else rbind (chk64 (p sdiv r)) (\<lambda>_. Inr (p smod r)))"

function gcd_loop :: "int \<Rightarrow> int \<Rightarrow> int res" where
  "gcd_loop p r =
     rbind (c_mod p r) (\<lambda>remain. if remain = 0 then Inr r else gcd_loop r remain)"
  by pat_completeness auto

lemma smod_smaller: "r \<noteq> 0 \<Longrightarrow> \<bar>p smod r\<bar> < \<bar>r :: int\<bar>"
  by (cases p "0 :: int" rule: linorder_cases) (simp_all add: signed_modulo_int_def)

termination gcd_loop
  by (relation "measure (\<lambda>(p, r). nat \<bar>r\<bar>)")
     (auto simp: c_mod_def rbind_eq_Inr smod_smaller split: if_splits)

declare gcd_loop.simps [simp del]

definition greatest_common_divisor :: "int \<Rightarrow> int \<Rightarrow> int res" where
  "greatest_common_divisor p r = (if p \<noteq> 0 \<and> r \<noteq> 0 then gcd_loop p r else Inl Assertion_failed)"

definition least_common_multiple :: "int \<Rightarrow> int \<Rightarrow> int res" where
  "least_common_multiple p r =
     (if p \<noteq> 0 \<and> r \<noteq> 0
      then rbind (greatest_common_divisor p r) (\<lambda>g. rbind (c_div p g) (\<lambda>q. chk64 (q * r)))
      else Inl Assertion_failed)"

text \<open>The loops over a vector, \<open>prev = f(prev, nums[i])\<close>.\<close>

fun fold_res :: "('a \<Rightarrow> 'b \<Rightarrow> 'a res) \<Rightarrow> 'a \<Rightarrow> 'b list \<Rightarrow> 'a res" where
  "fold_res f prev [] = Inr prev"
| "fold_res f prev (x # xs) = rbind (f prev x) (\<lambda>prev. fold_res f prev xs)"

definition gcd_vector :: "int list \<Rightarrow> int res" where
  "gcd_vector nums =
     (case nums of a # b # rest \<Rightarrow> fold_res greatest_common_divisor a (b # rest)
      | _ \<Rightarrow> Inl Assertion_failed)"

definition lcm_vector :: "int list \<Rightarrow> int res" where
  "lcm_vector nums =
     (case nums of a # b # rest \<Rightarrow> fold_res least_common_multiple a (b # rest)
      | _ \<Rightarrow> Inl Assertion_failed)"

definition ceil_time_point :: "int \<Rightarrow> int res" where
  "ceil_time_point stamp =
     rbind (c_div stamp 1000000000) (\<lambda>q. rbind (chk64 (q + 1)) (\<lambda>q. chk64 (q * 1000000000)))"

section \<open>Greatest common divisor and least common multiple\<close>

lemma smod_pos: "0 < p \<Longrightarrow> 0 < r \<Longrightarrow> p smod r = (p mod r :: int)"
  by (simp add: signed_modulo_int_def signed_divide_int_def minus_div_mult_eq_mod)

lemma sdiv_pos: "0 \<le> p \<Longrightarrow> 0 < r \<Longrightarrow> p sdiv r = (p div r :: int)"
  by (cases "p = 0") (simp_all add: signed_divide_int_def)

lemma int_div_le: "0 \<le> p \<Longrightarrow> 0 < r \<Longrightarrow> p div r \<le> (p :: int)"
  using zdiv_mono2 [of p 1 r] by simp

lemma c_mod_pos:
  assumes "0 < p" and "0 < r" and "p \<le> int64_max"
  shows "c_mod p r = Inr (p mod r)"
proof -
  have "p div r \<le> p" "0 \<le> p div r"
    using assms by (simp_all add: int_div_le pos_imp_zdiv_nonneg_iff)
  then show ?thesis
    using assms by (simp add: c_mod_def smod_pos sdiv_pos int_limits)
qed

lemma gcd_loop_pos:
  "0 < p \<Longrightarrow> 0 < r \<Longrightarrow> p \<le> int64_max \<Longrightarrow> r \<le> int64_max \<Longrightarrow> gcd_loop p r = Inr (gcd p r)"
proof (induction p r rule: gcd_loop.induct)
  case (1 p r)
  have m: "c_mod p r = Inr (p mod r)"
    using "1.prems" by (intro c_mod_pos)
  show ?case
  proof (cases "p mod r = 0")
    case True
    then show ?thesis
      using "1.prems" m by (subst gcd_loop.simps) (simp add: gcd_proj2_iff mod_eq_0_iff_dvd)
  next
    case False
    then have "0 < p mod r" "p mod r < r"
      using "1.prems"(2) pos_mod_sign [of r p] pos_mod_bound [of r p] by linarith+
    then have "gcd_loop r (p mod r) = Inr (gcd r (p mod r))"
      using "1.IH" [OF m False] "1.prems"(2,4) by linarith
    then show ?thesis
      using m False by (subst gcd_loop.simps) (simp add: gcd_red_int [of p r] gcd.commute)
  qed
qed

lemma gcd_pos_bound: "0 < p \<Longrightarrow> gcd p r \<le> (p :: int)"
  by (simp add: gcd_le1_int)

lemma greatest_common_divisor_pos:
  assumes "0 < p" and "0 < r" and "p \<le> int64_max" and "r \<le> int64_max"
  shows "greatest_common_divisor p r = Inr (gcd p r)"
  using assms gcd_loop_pos by (simp add: greatest_common_divisor_def)

lemma least_common_multiple_pos:
  assumes "0 < p" and "0 < r" and "p \<le> int64_max" and "r \<le> int64_max"
  shows "least_common_multiple p r = chk64 (lcm p r)"
proof -
  have g: "0 < gcd p r" using assms by simp
  have "p div gcd p r \<le> p" "0 \<le> p div gcd p r"
    using assms g by (simp_all add: int_div_le pos_imp_zdiv_nonneg_iff)
  then have "c_div p (gcd p r) = Inr (p div gcd p r)"
    using assms g by (simp add: c_div_def sdiv_pos int_limits)
  moreover have "p div gcd p r * r = lcm p r"
    using assms by (simp add: lcm_altdef_int dvd_div_mult)
  ultimately show ?thesis
    using assms by (simp add: least_common_multiple_def greatest_common_divisor_pos)
qed

lemma gcd_fold_pos:
  "0 < a \<Longrightarrow> a \<le> int64_max \<Longrightarrow> \<forall>x\<in>set xs. 0 < x \<and> x \<le> int64_max \<Longrightarrow>
   fold_res greatest_common_divisor a xs = Inr (Gcd (set (a # xs)))"
proof (induction xs arbitrary: a)
  case Nil
  then show ?case by simp
next
  case (Cons x xs)
  have g: "greatest_common_divisor a x = Inr (gcd a x)"
    using Cons.prems by (intro greatest_common_divisor_pos) auto
  have "0 < gcd a x" "gcd a x \<le> int64_max"
    using Cons.prems(1,2) order_trans [OF gcd_pos_bound] by simp_all
  then have "fold_res greatest_common_divisor (gcd a x) xs = Inr (Gcd (set (gcd a x # xs)))"
    using Cons by auto
  then show ?case by (simp add: g gcd.assoc)
qed

lemma lcm_fold_pos:
  "0 < a \<Longrightarrow> a \<le> int64_max \<Longrightarrow> \<forall>x\<in>set xs. 0 < x \<and> x \<le> int64_max \<Longrightarrow>
   fold_res least_common_multiple a xs = chk64 (Lcm (set (a # xs)))"
proof (induction xs arbitrary: a)
  case Nil
  then show ?case by (simp add: int_limits)
next
  case (Cons x xs)
  have l: "least_common_multiple a x = chk64 (lcm a x)"
    using Cons.prems by (intro least_common_multiple_pos) auto
  have pos: "0 < lcm a x" using Cons.prems by (simp add: lcm_pos_int)
  show ?case
  proof (cases "lcm a x \<le> int64_max")
    case True
    then have "fold_res least_common_multiple (lcm a x) xs = chk64 (Lcm (set (lcm a x # xs)))"
      using Cons pos by auto
    then show ?thesis
      using True pos l by (simp add: lcm.assoc int_limits)
  next
    case False
    have "Lcm (set (a # x # xs)) \<noteq> 0"
      using Cons.prems by (auto simp: Lcm_0_iff)
    moreover have "lcm a x dvd Lcm (set (a # x # xs))"
      by (simp add: lcm.assoc [symmetric])
    moreover have "0 \<le> Lcm (set (a # x # xs))" by simp
    ultimately have "lcm a x \<le> Lcm (set (a # x # xs))"
      by (metis zdvd_imp_le order_le_less)
    with False l show ?thesis by (simp add: chk64_def)
  qed
qed

lemma vector_gcd_lcm:
  assumes "2 \<le> length nums" and "\<forall>x\<in>set nums. 0 < x \<and> x \<le> int64_max"
  shows "gcd_vector nums = Inr (Gcd (set nums)) \<and> lcm_vector nums = chk64 (Lcm (set nums))"
proof -
  obtain a b rest where nums: "nums = a # b # rest"
    using assms(1) by (auto simp: Suc_le_length_iff numeral_2_eq_2)
  show ?thesis
    using gcd_fold_pos [of a "b # rest"] lcm_fold_pos [of a "b # rest"] assms(2)
    by (simp add: nums gcd_vector_def lcm_vector_def)
qed

lemma next_second:
  assumes "0 \<le> stamp" and "stamp \<le> int64_max - 1000000000"
  shows "\<exists>t. ceil_time_point stamp = Inr t \<and> 1000000000 dvd t \<and> stamp < t \<and> t \<le> stamp + 1000000000"
proof -
  let ?q = "stamp div 1000000000"
  have q: "0 \<le> ?q" "?q * 1000000000 \<le> stamp" "stamp < (?q + 1) * 1000000000"
    using assms(1) pos_mod_bound [of 1000000000 stamp] mult_div_mod_eq [of 1000000000 stamp]
    by (simp_all add: pos_imp_zdiv_nonneg_iff)
  then have "ceil_time_point stamp = Inr ((?q + 1) * 1000000000)"
    using assms by (simp add: ceil_time_point_def c_div_def sdiv_pos int_limits)
  with q show ?thesis by auto
qed

section \<open>Properties\<close>

text \<open>On two or more positive 64-bit integers \<open>greatest_common_divisor\<close> returns their greatest
  common divisor, and \<open>least_common_multiple\<close> returns their least common multiple exactly when it
  fits 64 bits and overflows otherwise: no intermediate product overflows before the result does.\<close>

theorem gcd_lcm_vector:
  assumes "2 \<le> length nums" and "\<forall>x\<in>set nums. 0 < x \<and> x \<le> int64_max"
  shows "gcd_vector nums = Inr (Gcd (set nums)) \<and> lcm_vector nums = chk64 (Lcm (set nums))"
  using assms by (rule vector_gcd_lcm)

theorem gcd_lcm_vector_witness:
  "gcd_vector [15, 150, 15000] = Inr (Gcd (set [15, 150, 15000])) \<and>
   lcm_vector [15, 150, 15000] = chk64 (Lcm (set [15, 150, 15000]))"
  using gcd_lcm_vector [of "[15, 150, 15000]"] by (simp add: int_limits)

text \<open>\<open>ceil_time_point\<close> of a time after the epoch is a whole second strictly later than it, by
  at most one second: a time that already is a whole second moves to the next one.\<close>

theorem ceil_time_point_next_second:
  assumes "0 \<le> stamp" and "stamp \<le> int64_max - 1000000000"
  shows "\<exists>t. ceil_time_point stamp = Inr t \<and> 1000000000 dvd t \<and> stamp < t \<and> t \<le> stamp + 1000000000"
  using assms by (rule next_second)

theorem ceil_time_point_next_second_witness:
  "\<exists>t. ceil_time_point 2000000000 = Inr t \<and> 1000000000 dvd t \<and> 2000000000 < t \<and> t \<le> 3000000000"
  using ceil_time_point_next_second [of 2000000000] by (simp add: int_limits)

end
