(* ===== verification/Nio_Stream.thy ===== *)
theory Nio_Stream
  imports Buffer
begin

text \<open>
  The non-blocking io objects \<open>nio\<close> and \<open>nstream\<close> (\<open>src/src/include/cppev/nio.h\<close> and the
  first part of \<open>src/src/lib/nio.cc\<close>). The operating system is a parameter: a record of the
  system calls the code makes, each a function of the kernel's state \<open>'k\<close>. What an operation
  relies on is stated by the contracts \<open>flags_kernel\<close>, \<open>rx_kernel\<close> and \<open>tx_kernel\<close>.

  An operation returns the kernel, the object and its outcome, so that the state an exception
  leaves behind is part of the model; the io loops return \<open>None\<close> when they never return.
\<close>

section \<open>System calls and objects\<close>

record 'k posix =
  px_getfl :: "'k \<Rightarrow> int \<Rightarrow> (errno + 32 word) \<times> 'k"
  px_setfl :: "'k \<Rightarrow> int \<Rightarrow> 32 word \<Rightarrow> errno option \<times> 'k"
  px_nonblock :: "32 word"
  px_close :: "'k \<Rightarrow> int \<Rightarrow> 'k"
  px_read :: "'k \<Rightarrow> int \<Rightarrow> int \<Rightarrow> (errno + char list) \<times> 'k"
  px_write :: "'k \<Rightarrow> int \<Rightarrow> char list \<Rightarrow> (errno + int) \<times> 'k"

text \<open>The event loop a nio belongs to is a pointer; \<open>None\<close> is null.\<close>

record nio =
  io_fd :: int
  io_closed :: bool
  io_rbuf :: buffer
  io_wbuf :: buffer
  io_evlp :: "nat option"

record nstream = nio +
  st_reset :: bool
  st_eof :: bool
  st_eop :: bool

section \<open>nio\<close>

definition set_io_nonblock :: "('k, 'z) posix_scheme \<Rightarrow> 'k \<Rightarrow> int \<Rightarrow> 'k \<times> unit res" where
  "set_io_nonblock sys k fd =
     (case px_getfl sys k fd of
        (Inl e, k) \<Rightarrow> (k, Inl (System_error ''fcntl error'' e))
      | (Inr flags, k) \<Rightarrow>
          (case px_setfl sys k fd (or flags (px_nonblock sys)) of
             (Some e, k) \<Rightarrow> (k, Inl (System_error ''fcntl error'' e))
           | (None, k) \<Rightarrow> (k, Inr ())))"

definition set_io_block :: "('k, 'z) posix_scheme \<Rightarrow> 'k \<Rightarrow> int \<Rightarrow> 'k \<times> unit res" where
  "set_io_block sys k fd =
     (case px_getfl sys k fd of
        (Inl e, k) \<Rightarrow> (k, Inl (System_error ''fcntl error'' e))
      | (Inr flags, k) \<Rightarrow>
          (case px_setfl sys k fd (and flags (not (px_nonblock sys))) of
             (Some e, k) \<Rightarrow> (k, Inl (System_error ''fcntl error'' e))
           | (None, k) \<Rightarrow> (k, Inr ())))"

text \<open>The constructor; \<open>evlp_\<close> is left unset. When \<open>fcntl\<close> fails no object exists.\<close>

definition nio_new :: "('k, 'z) posix_scheme \<Rightarrow> 'k \<Rightarrow> int \<Rightarrow> 'k \<times> nio res" where
  "nio_new sys k fd =
     (case buffer_default of Inl e \<Rightarrow> (k, Inl e) | Inr b \<Rightarrow>
        (case set_io_nonblock sys k fd of
           (k, Inl e) \<Rightarrow> (k, Inl e)
         | (k, Inr _) \<Rightarrow> (k, Inr \<lparr>io_fd = fd, io_closed = False, io_rbuf = b, io_wbuf = b,
                                   io_evlp = None\<rparr>)))"

definition nio_close :: "('k, 'z) posix_scheme \<Rightarrow> 'k \<Rightarrow> 'm nio_scheme \<Rightarrow> 'k \<times> 'm nio_scheme" where
  "nio_close sys k s =
     (if io_fd s \<noteq> -1 then px_close sys k (io_fd s) else k, s\<lparr>io_closed := True\<rparr>)"

definition nio_destroy :: "('k, 'z) posix_scheme \<Rightarrow> 'k \<Rightarrow> 'm nio_scheme \<Rightarrow> 'k" where
  "nio_destroy sys k s = (if \<not> io_closed s then fst (nio_close sys k s) else k)"

definition set_evlp :: "nat \<Rightarrow> 'm nio_scheme \<Rightarrow> 'm nio_scheme" where
  "set_evlp evlp s = s\<lparr>io_evlp := Some evlp\<rparr>"

text \<open>
  \<open>move\<close>: the read buffer is moved twice, first into \<open>rbuffer_\<close>, then, already moved from, into
  \<open>wbuffer_\<close>; the other object keeps its write buffer.
\<close>

definition nio_move :: "'m nio_scheme \<Rightarrow> 'm nio_scheme \<Rightarrow> 'm nio_scheme \<times> 'm nio_scheme" where
  "nio_move this other =
     (let this = this\<lparr>io_fd := io_fd other, io_closed := io_closed other\<rparr>;
          (r, rest) = buf_move (io_rbuf other);
          (w, rest) = buf_move rest;
          this = this\<lparr>io_rbuf := r, io_wbuf := w, io_evlp := io_evlp other\<rparr>
      in (this, other\<lparr>io_fd := -1, io_closed := True, io_evlp := None, io_rbuf := rest\<rparr>))"

section \<open>nstream\<close>

definition nstream_new :: "('k, 'z) posix_scheme \<Rightarrow> 'k \<Rightarrow> int \<Rightarrow> 'k \<times> nstream res" where
  "nstream_new sys k fd =
     (case nio_new sys k fd of
        (k, Inl e) \<Rightarrow> (k, Inl e)
      | (k, Inr s) \<Rightarrow> (k, Inr (nio.extend s \<lparr>st_reset = False, st_eof = False, st_eop = False\<rparr>)))"

definition nstream_move ::
  "bool \<Rightarrow> 'm nstream_scheme \<Rightarrow> 'm nstream_scheme \<Rightarrow> 'm nstream_scheme \<times> 'm nstream_scheme" where
  "nstream_move move_base this other =
     (let (this, other) = (if move_base then nio_move this other else (this, other)) in
      (this\<lparr>st_reset := st_reset other, st_eof := st_eof other, st_eop := st_eop other\<rparr>, other))"

text \<open>The kernel stores what it read at the end of the data: \<open>read(fd_, buffer_ + offset_, len)\<close>.\<close>

definition fill_rbuf :: "'m nstream_scheme \<Rightarrow> char list \<Rightarrow> 'm nstream_scheme res" where
  "fill_rbuf s bs =
     rbind (the_mem (io_rbuf s)) (\<lambda>m.
     rbind (blit_at m (b_offset (io_rbuf s)) bs) (\<lambda>m.
     Inr (s\<lparr>io_rbuf := (io_rbuf s)\<lparr>b_mem := Some m, b_offset := b_offset (io_rbuf s) + int (length bs)\<rparr>\<rparr>)))"

partial_function (option) read_loop ::
  "('k, 'z) posix_scheme \<Rightarrow> 'k \<Rightarrow> 'm nstream_scheme \<Rightarrow> int \<Rightarrow> ('k \<times> 'm nstream_scheme \<times> unit res) option"
where
  "read_loop sys k s len =
     (if len = 0 then Some (k, s, Inr ())
      else let (reply, k) = px_read sys k (io_fd s) len in
        case reply of
          Inr bs \<Rightarrow>
            if bs = [] then Some (k, s\<lparr>st_eof := True\<rparr>, Inr ())
            else (case fill_rbuf s bs of
                    Inl e \<Rightarrow> Some (k, s, Inl e)
                  | Inr s \<Rightarrow> read_loop sys k s (len - int (length bs)))
        | Inl e \<Rightarrow>
            if e = EINTR then read_loop sys k s len
            else if e = EAGAIN \<or> e = EWOULDBLOCK then Some (k, s, Inr ())
            else if e = ECONNRESET then Some (k, s\<lparr>st_reset := True\<rparr>, Inr ())
            else Some (k, s, Inl (System_error ''read error'' e)))"

definition read_chunk ::
  "('k, 'z) posix_scheme \<Rightarrow> 'k \<Rightarrow> 'm nstream_scheme \<Rightarrow> int \<Rightarrow> ('k \<times> 'm nstream_scheme \<times> int res) option"
where
  "read_chunk sys k s len =
     (case rbind (chk32 (b_offset (io_rbuf s) + len)) (resize (io_rbuf s)) of
        Inl e \<Rightarrow> Some (k, s, Inl e)
      | Inr b \<Rightarrow>
          (let s = s\<lparr>io_rbuf := b\<rparr>; origin_offset = b_offset b in
           case read_loop sys k s len of
             None \<Rightarrow> None
           | Some (k, s, Inl e) \<Rightarrow> Some (k, s, Inl e)
           | Some (k, s, Inr _) \<Rightarrow> Some (k, s, Inr (b_offset (io_rbuf s) - origin_offset))))"

partial_function (option) read_all_loop ::
  "('k, 'z) posix_scheme \<Rightarrow> 'k \<Rightarrow> 'm nstream_scheme \<Rightarrow> int \<Rightarrow> int \<Rightarrow> ('k \<times> 'm nstream_scheme \<times> int res) option"
where
  "read_all_loop sys k s step tot =
     (case read_chunk sys k s step of
        None \<Rightarrow> None
      | Some (k, s, r) \<Rightarrow>
          (case rbind r (\<lambda>cur. rbind (chk32 (tot + cur)) (\<lambda>tot. Inr (cur, tot))) of
             Inl e \<Rightarrow> Some (k, s, Inl e)
           | Inr (cur, tot) \<Rightarrow>
               if cur \<noteq> step then Some (k, s, Inr tot) else read_all_loop sys k s step tot))"

definition read_all ::
  "('k, 'z) posix_scheme \<Rightarrow> 'k \<Rightarrow> 'm nstream_scheme \<Rightarrow> int \<Rightarrow> ('k \<times> 'm nstream_scheme \<times> int res) option"
where
  "read_all sys k s step = read_all_loop sys k s step 0"

text \<open>The bytes handed to \<open>write(fd_, buffer_ + start_, len)\<close>.\<close>

definition wbuf_slice :: "'m nstream_scheme \<Rightarrow> int \<Rightarrow> char list res" where
  "wbuf_slice s len = rbind (the_mem (io_wbuf s)) (\<lambda>m. slice_at m (b_start (io_wbuf s)) len)"

partial_function (option) write_loop ::
  "('k, 'z) posix_scheme \<Rightarrow> 'k \<Rightarrow> 'm nstream_scheme \<Rightarrow> int \<Rightarrow> ('k \<times> 'm nstream_scheme \<times> unit res) option"
where
  "write_loop sys k s len0 =
     (if len0 = 0 then Some (k, s, Inr ())
      else let len = min len0 (buf_size (io_wbuf s)) in
        case wbuf_slice s len of
          Inl e \<Rightarrow> Some (k, s, Inl e)
        | Inr bs \<Rightarrow>
          (let (reply, k) = px_write sys k (io_fd s) bs in
           case reply of
             Inr cur \<Rightarrow>
               (let b = io_wbuf s; s = s\<lparr>io_wbuf := b\<lparr>b_start := b_start b + cur\<rparr>\<rparr> in
                write_loop sys k s (len - cur))
           | Inl e \<Rightarrow>
               if e = EINTR then write_loop sys k s len
               else if e = EAGAIN \<or> e = EWOULDBLOCK then Some (k, s, Inr ())
               else if e = EPIPE then Some (k, s\<lparr>st_eop := True\<rparr>, Inr ())
               else if e = ECONNRESET then Some (k, s\<lparr>st_reset := True\<rparr>, Inr ())
               else Some (k, s, Inl (System_error ''write error'' e))))"

definition write_chunk ::
  "('k, 'z) posix_scheme \<Rightarrow> 'k \<Rightarrow> 'm nstream_scheme \<Rightarrow> int \<Rightarrow> ('k \<times> 'm nstream_scheme \<times> int res) option"
where
  "write_chunk sys k s len =
     (let origin_start = b_start (io_wbuf s) in
      case write_loop sys k s (min len (buf_size (io_wbuf s))) of
        None \<Rightarrow> None
      | Some (k, s, Inl e) \<Rightarrow> Some (k, s, Inl e)
      | Some (k, s, Inr _) \<Rightarrow>
          (let curr_start = b_start (io_wbuf s) in
           case (if buf_size (io_wbuf s) = 0 then clear (io_wbuf s) else Inr (io_wbuf s)) of
             Inl e \<Rightarrow> Some (k, s, Inl e)
           | Inr b \<Rightarrow> Some (k, s\<lparr>io_wbuf := b\<rparr>, Inr (curr_start - origin_start))))"

partial_function (option) write_all_loop ::
  "('k, 'z) posix_scheme \<Rightarrow> 'k \<Rightarrow> 'm nstream_scheme \<Rightarrow> int \<Rightarrow> int \<Rightarrow> ('k \<times> 'm nstream_scheme \<times> int res) option"
where
  "write_all_loop sys k s step tot =
     (case write_chunk sys k s step of
        None \<Rightarrow> None
      | Some (k, s, r) \<Rightarrow>
          (case rbind r (\<lambda>cur. rbind (chk32 (tot + cur)) (\<lambda>tot. Inr (cur, tot))) of
             Inl e \<Rightarrow> Some (k, s, Inl e)
           | Inr (cur, tot) \<Rightarrow>
               if cur \<noteq> step then Some (k, s, Inr tot) else write_all_loop sys k s step tot))"

definition write_all ::
  "('k, 'z) posix_scheme \<Rightarrow> 'k \<Rightarrow> 'm nstream_scheme \<Rightarrow> int \<Rightarrow> ('k \<times> 'm nstream_scheme \<times> int res) option"
where
  "write_all sys k s step = write_all_loop sys k s step 0"

section \<open>What the operating system promises\<close>

text \<open>
  Reading from \<open>fd\<close>: a read delivers at most as many bytes as were asked for; \<open>recv k\<close> is the
  stream delivered so far, \<open>pend k\<close> bounds the bytes still to come and \<open>intr k\<close> the
  interruptions by signals.
\<close>

definition rx_kernel ::
  "('k, 'z) posix_scheme \<Rightarrow> int \<Rightarrow> ('k \<Rightarrow> char list) \<Rightarrow> ('k \<Rightarrow> nat) \<Rightarrow> ('k \<Rightarrow> nat) \<Rightarrow> bool"
where
  "rx_kernel sys fd recv pend intr \<longleftrightarrow>
     (\<forall>k n. 0 < n \<longrightarrow>
        (case px_read sys k fd n of
           (Inr bs, k') \<Rightarrow> int (length bs) \<le> n \<and> recv k' = recv k @ bs \<and>
             pend k' + length bs \<le> pend k \<and> intr k' \<le> intr k
         | (Inl e, k') \<Rightarrow> recv k' = recv k \<and> pend k' \<le> pend k \<and> intr k' \<le> intr k \<and>
             (e = EINTR \<longrightarrow> intr k' < intr k)))"

text \<open>Writing to \<open>fd\<close>: at least one byte is taken, from the front; \<open>sent k\<close> is the stream taken.\<close>

definition tx_kernel ::
  "('k, 'z) posix_scheme \<Rightarrow> int \<Rightarrow> ('k \<Rightarrow> char list) \<Rightarrow> ('k \<Rightarrow> nat) \<Rightarrow> bool"
where
  "tx_kernel sys fd sent intr \<longleftrightarrow>
     (\<forall>k bs. bs \<noteq> [] \<longrightarrow>
        (case px_write sys k fd bs of
           (Inr n, k') \<Rightarrow> 1 \<le> n \<and> n \<le> int (length bs) \<and> sent k' = sent k @ take (nat n) bs \<and>
             intr k' \<le> intr k
         | (Inl e, k') \<Rightarrow> sent k' = sent k \<and> intr k' \<le> intr k \<and> (e = EINTR \<longrightarrow> intr k' < intr k)))"

text \<open>What a reply that ends a loop does to the flags and to the outcome.\<close>

definition rx_stop :: "errno + char list \<Rightarrow> 'm nstream_scheme \<Rightarrow> 'm nstream_scheme \<Rightarrow> unit res \<Rightarrow> bool" where
  "rx_stop reply s s' r \<longleftrightarrow>
     (st_eof s' \<longleftrightarrow> st_eof s \<or> reply = Inr []) \<and>
     (st_reset s' \<longleftrightarrow> st_reset s \<or> reply = Inl ECONNRESET) \<and>
     (case reply of
        Inr bs \<Rightarrow> bs = [] \<and> r = Inr ()
      | Inl e \<Rightarrow> e \<noteq> EINTR \<and>
          r = (if e \<in> {EAGAIN, EWOULDBLOCK, ECONNRESET} then Inr ()
               else Inl (System_error ''read error'' e)))"

definition tx_stop :: "errno \<Rightarrow> 'm nstream_scheme \<Rightarrow> 'm nstream_scheme \<Rightarrow> unit res \<Rightarrow> bool" where
  "tx_stop e s s' r \<longleftrightarrow>
     (st_eop s' \<longleftrightarrow> st_eop s \<or> e = EPIPE) \<and> (st_reset s' \<longleftrightarrow> st_reset s \<or> e = ECONNRESET) \<and>
     e \<noteq> EINTR \<and>
     r = (if e \<in> {EAGAIN, EWOULDBLOCK, EPIPE, ECONNRESET} then Inr ()
          else Inl (System_error ''write error'' e))"

text \<open>
  Everything but the read (write) buffer and the flags of that direction stays; sending does not
  move the end of the data but to the start of the array.
\<close>

definition rx_frame :: "'m nstream_scheme \<Rightarrow> 'm nstream_scheme \<Rightarrow> bool" where
  "rx_frame s s' \<longleftrightarrow> io_fd s' = io_fd s \<and> io_closed s' = io_closed s \<and> io_wbuf s' = io_wbuf s \<and>
     io_evlp s' = io_evlp s \<and> st_eop s' = st_eop s \<and> nstream.more s' = nstream.more s"

definition tx_frame :: "'m nstream_scheme \<Rightarrow> 'm nstream_scheme \<Rightarrow> bool" where
  "tx_frame s s' \<longleftrightarrow> io_fd s' = io_fd s \<and> io_closed s' = io_closed s \<and> io_rbuf s' = io_rbuf s \<and>
     io_evlp s' = io_evlp s \<and> st_eof s' = st_eof s \<and> nstream.more s' = nstream.more s \<and>
     b_offset (io_wbuf s') \<le> b_offset (io_wbuf s)"

section \<open>Reading\<close>

lemma blit_ok:
  assumes "buf_ok b" and "b_offset b + int (length bs) \<le> b_cap b"
  shows "\<exists>m. rbind (the_mem b) (\<lambda>m. blit_at m (b_offset b) bs) = Inr m \<and>
           buf_ok (b\<lparr>b_mem := Some m, b_offset := b_offset b + int (length bs)\<rparr>) \<and>
           contents (b\<lparr>b_mem := Some m, b_offset := b_offset b + int (length bs)\<rparr>) = contents b @ bs"
proof -
  obtain pre z where sh: "buf_shape b pre (contents b) z"
    using assms(1) by (rule buf_ok_shape)
  have z: "length bs \<le> z"
    using sh assms(2) by (simp add: buf_shape_def)
  let ?m = "pre @ (contents b @ bs) @ replicate (z - length bs) NUL"
  have "rbind (the_mem b) (\<lambda>m. blit_at m (b_offset b) bs) = Inr ?m"
    using sh z by (simp add: the_mem_def blit_at_def buf_shape_def nat_int_add)
  moreover have "buf_shape (b\<lparr>b_mem := Some ?m, b_offset := b_offset b + int (length bs)\<rparr>)
      pre (contents b @ bs) (z - length bs)"
    using sh z by (simp add: buf_shape_def)
  ultimately show ?thesis
    by (intro exI [of _ ?m]) (auto dest: buf_shape_contents buf_shape_ok)
qed

lemma fill_rbuf_ok:
  assumes "buf_ok (io_rbuf s)" and "b_offset (io_rbuf s) + int (length bs) \<le> b_cap (io_rbuf s)"
  shows "\<exists>b. fill_rbuf s bs = Inr (s\<lparr>io_rbuf := b\<rparr>) \<and> buf_ok b \<and>
           contents b = contents (io_rbuf s) @ bs \<and>
           b_offset b = b_offset (io_rbuf s) + int (length bs) \<and> b_cap b = b_cap (io_rbuf s)"
proof -
  let ?b = "\<lambda>m. (io_rbuf s)\<lparr>b_mem := Some m, b_offset := b_offset (io_rbuf s) + int (length bs)\<rparr>"
  obtain m where m: "rbind (the_mem (io_rbuf s)) (\<lambda>m. blit_at m (b_offset (io_rbuf s)) bs) = Inr m"
      "buf_ok (?b m)" "contents (?b m) = contents (io_rbuf s) @ bs"
    using blit_ok [OF assms] by blast
  have "fill_rbuf s bs = rbind (rbind (the_mem (io_rbuf s)) (\<lambda>m. blit_at m (b_offset (io_rbuf s)) bs))
      (\<lambda>m. Inr (s\<lparr>io_rbuf := ?b m\<rparr>))"
    by (simp add: fill_rbuf_def rbind_assoc)
  with m show ?thesis by (intro exI [of _ "?b m"]) simp
qed

text \<open>What a call of the read loop that may read \<open>len\<close> bytes does.\<close>

definition rx_outcome where
  "rx_outcome sys fd recv pend intr k s len k' s' bs r \<longleftrightarrow>
     buf_ok (io_rbuf s') \<and> rx_frame s s' \<and>
     contents (io_rbuf s') = contents (io_rbuf s) @ bs \<and>
     b_offset (io_rbuf s') = b_offset (io_rbuf s) + int (length bs) \<and>
     recv k' = recv k @ bs \<and> pend k' + length bs \<le> pend k \<and> intr k' \<le> (intr k :: nat) \<and>
     int (length bs) \<le> len \<and>
     (r = Inr () \<and> int (length bs) = len \<and> st_eof s' = st_eof s \<and> st_reset s' = st_reset s \<or>
      int (length bs) < len \<and>
      (\<exists>k0 m reply. 0 < m \<and> px_read sys k0 fd m = (reply, k') \<and> rx_stop reply s s' r))"

lemma rx_outcome_skip:
  assumes "rx_outcome sys fd recv pend intr k1 s len k' s' bs r"
    and "recv k1 = recv k" "pend k1 \<le> pend k" "intr k1 \<le> intr k"
  shows "rx_outcome sys fd recv pend intr k s len k' s' bs r"
  using assms unfolding rx_outcome_def by auto

lemma rx_outcome_more:
  assumes o: "rx_outcome sys fd recv pend intr k1 (s\<lparr>io_rbuf := b\<rparr>) (len - int (length b1)) k' s' bs r"
    and k1: "recv k1 = recv k @ b1" "pend k1 + length b1 \<le> pend k" "intr k1 \<le> intr k"
    and b: "contents b = contents (io_rbuf s) @ b1"
      "b_offset b = b_offset (io_rbuf s) + int (length b1)"
  shows "rx_outcome sys fd recv pend intr k s len k' s' (b1 @ bs) r"
proof -
  have "rx_frame s s'"
    using o by (simp add: rx_outcome_def rx_frame_def)
  moreover have "rx_stop reply (s\<lparr>io_rbuf := b\<rparr>) s' r = rx_stop reply s s' r" for reply
    by (simp add: rx_stop_def)
  ultimately show ?thesis
    using o k1 b unfolding rx_outcome_def by (elim conjE disjE) auto
qed

lemma rx_frame_refl: "rx_frame s s"
  by (simp add: rx_frame_def)

lemma rx_outcome_stop:
  assumes "px_read sys k fd len = (reply, k')" "0 < len" "rx_stop reply s s' r"
    and "rx_frame s s'" "io_rbuf s' = io_rbuf s" "buf_ok (io_rbuf s)"
    and "recv k' = recv k" "pend k' \<le> pend k" "intr k' \<le> intr k"
  shows "rx_outcome sys fd recv pend intr k s len k' s' [] r"
  using assms unfolding rx_outcome_def by auto

lemma read_loop_ok:
  assumes rx: "rx_kernel sys (io_fd s) recv pend intr"
    and "buf_ok (io_rbuf s)" "0 \<le> len" "b_offset (io_rbuf s) + len \<le> b_cap (io_rbuf s)"
  shows "\<exists>k' s' bs r. read_loop sys k s len = Some (k', s', r) \<and>
           rx_outcome sys (io_fd s) recv pend intr k s len k' s' bs r"
  using assms
proof (induction "pend k + intr k" arbitrary: k s len rule: less_induct)
  case less
  show ?case
  proof (cases "len = 0")
    case True
    then show ?thesis
      using less.prems by (subst read_loop.simps) (auto simp: rx_outcome_def rx_frame_refl)
  next
    case False
    then have len: "0 < len" using less.prems(3) by simp
    obtain reply k1 where rd: "px_read sys k (io_fd s) len = (reply, k1)"
      by fastforce
    note contract = less.prems(1) [unfolded rx_kernel_def, rule_format, OF len, of k, unfolded rd, simplified]
    show ?thesis
    proof (cases reply)
      case (Inr bs)
      then have k1: "int (length bs) \<le> len" "recv k1 = recv k @ bs"
          "pend k1 + length bs \<le> pend k" "intr k1 \<le> intr k"
        using contract by simp_all
      show ?thesis
      proof (cases "bs = []")
        case True
        let ?s = "s\<lparr>st_eof := True\<rparr>"
        have "rx_outcome sys (io_fd s) recv pend intr k s len k1 ?s [] (Inr ())"
          using rd len k1 less.prems(2) Inr True
          by (intro rx_outcome_stop [of _ _ _ _ reply]) (simp_all add: rx_stop_def rx_frame_def)
        then show ?thesis
          using False rd Inr True by (subst read_loop.simps) (auto)
      next
        case ne: False
        obtain b where b: "fill_rbuf s bs = Inr (s\<lparr>io_rbuf := b\<rparr>)" "buf_ok b"
            "contents b = contents (io_rbuf s) @ bs"
            "b_offset b = b_offset (io_rbuf s) + int (length bs)" "b_cap b = b_cap (io_rbuf s)"
          using fill_rbuf_ok [OF less.prems(2), of bs] k1(1) less.prems(4) by auto
        let ?s = "s\<lparr>io_rbuf := b\<rparr>"
        have "pend k1 + intr k1 < pend k + intr k"
          using k1(3,4) ne by (cases bs) simp_all
        from less.hyps [OF this, of ?s "len - int (length bs)"]
        obtain k' s' bs' r where run: "read_loop sys k1 ?s (len - int (length bs)) = Some (k', s', r)"
          and "rx_outcome sys (io_fd s) recv pend intr k1 ?s (len - int (length bs)) k' s' bs' r"
          using less.prems k1(1) b by auto
        then have "rx_outcome sys (io_fd s) recv pend intr k s len k' s' (bs @ bs') r"
          using k1(2,3,4) b(3,4) by - (rule rx_outcome_more [of _ _ _ _ _ k1], auto)
        moreover have "read_loop sys k s len = Some (k', s', r)"
          using False rd Inr ne b(1) run by (subst read_loop.simps) simp
        ultimately show ?thesis by blast
      qed
    next
      case (Inl e)
      then have k1: "recv k1 = recv k" "pend k1 \<le> pend k" "intr k1 \<le> intr k" "e = EINTR \<Longrightarrow> intr k1 < intr k"
        using contract by simp_all
      show ?thesis
      proof (cases "e = EINTR")
        case True
        with k1 have "pend k1 + intr k1 < pend k + intr k" by fastforce
        from less.hyps [OF this less.prems]
        obtain k' s' bs' r where run: "read_loop sys k1 s len = Some (k', s', r)"
          and "rx_outcome sys (io_fd s) recv pend intr k1 s len k' s' bs' r"
          by (elim exE conjE) (rule that)
        then have "rx_outcome sys (io_fd s) recv pend intr k s len k' s' bs' r"
          using k1 by - (rule rx_outcome_skip [of _ _ _ _ _ k1], auto)
        moreover have "read_loop sys k s len = Some (k', s', r)"
          using False rd Inl True run by (subst read_loop.simps) simp
        ultimately show ?thesis by blast
      next
        case ne: False
        let ?s = "if e = ECONNRESET then s\<lparr>st_reset := True\<rparr> else s"
        let ?r = "if e \<in> {EAGAIN, EWOULDBLOCK, ECONNRESET} then Inr ()
                  else Inl (System_error ''read error'' e)"
        have "rx_outcome sys (io_fd s) recv pend intr k s len k1 ?s [] ?r"
          using rd len k1 less.prems(2) Inl ne
          by (intro rx_outcome_stop [of _ _ _ _ reply]) (auto simp: rx_stop_def rx_frame_def)
        moreover have "read_loop sys k s len = Some (k1, ?s, ?r)"
          using False rd Inl ne by (subst read_loop.simps) simp
        ultimately show ?thesis by blast
      qed
    qed
  qed
qed

text \<open>The outcome of an io call that moved \<open>n\<close> bytes.\<close>

definition io_count :: "nat \<Rightarrow> unit res \<Rightarrow> int res" where
  "io_count n r = rbind r (\<lambda>_. Inr (int n))"

lemma read_chunk_ok:
  assumes rx: "rx_kernel sys (io_fd s) recv pend intr"
    and ok: "buf_ok (io_rbuf s)" "0 \<le> len" "b_offset (io_rbuf s) + len \<le> 1073741824"
  shows "\<exists>k' s' bs r. read_chunk sys k s len = Some (k', s', io_count (length bs) r) \<and>
           rx_outcome sys (io_fd s) recv pend intr k s len k' s' bs r"
proof -
  have "0 \<le> b_offset (io_rbuf s)"
    using ok(1) by (simp add: buf_ok_def)
  then have chk: "chk32 (b_offset (io_rbuf s) + len) = Inr (b_offset (io_rbuf s) + len)"
    using ok by (simp add: int_limits)
  obtain b where b: "resize (io_rbuf s) (b_offset (io_rbuf s) + len) = Inr b" "buf_ok b"
      "contents b = contents (io_rbuf s)" "b_offset b = b_offset (io_rbuf s)"
      "b_offset (io_rbuf s) + len \<le> b_cap b"
    using resize_ok [OF ok(1,3)] by blast
  let ?s = "s\<lparr>io_rbuf := b\<rparr>"
  have "\<exists>k' s' bs r. read_loop sys k ?s len = Some (k', s', r) \<and>
           rx_outcome sys (io_fd s) recv pend intr k ?s len k' s' bs r"
    using read_loop_ok [of sys ?s recv pend intr len k] rx b ok(2) by simp
  then obtain k' s' bs r where run: "read_loop sys k ?s len = Some (k', s', r)"
    and o: "rx_outcome sys (io_fd s) recv pend intr k ?s len k' s' bs r"
    by (elim exE conjE) (rule that)
  have "rx_outcome sys (io_fd s) recv pend intr k s len k' s' bs r"
    using rx_outcome_more [of sys "io_fd s" recv pend intr k b s len "[]" k' s' bs r k] o b(3,4) by simp
  moreover have "b_offset (io_rbuf s') - b_offset b = int (length bs)"
    using o by (simp add: rx_outcome_def)
  then have "read_chunk sys k s len = Some (k', s', io_count (length bs) r)"
    using chk b(1) run by (auto simp: read_chunk_def io_count_def split: sum.splits)
  ultimately show ?thesis by blast
qed

lemma rx_outcome_full:
  assumes "rx_outcome sys fd recv pend intr k s len k' s' bs r" and "int (length bs) = len"
  shows "r = Inr ()" "st_eof s' = st_eof s" "st_reset s' = st_reset s"
  using assms unfolding rx_outcome_def by auto

lemma rx_outcome_then:
  assumes a: "rx_outcome sys fd recv pend intr k s len k1 s1 b1 r1" "int (length b1) = len"
    and o: "rx_outcome sys fd recv pend intr k1 s1 n k' s' bs r"
  shows "rx_outcome sys fd recv pend intr k s (len + n) k' s' (b1 @ bs) r"
proof -
  have "rx_frame s s'"
    using a o by (simp add: rx_outcome_def rx_frame_def)
  moreover have "rx_stop reply s1 s' r = rx_stop reply s s' r" for reply
    using rx_outcome_full [OF a] by (simp add: rx_stop_def)
  ultimately show ?thesis
    using a o rx_outcome_full [OF a] unfolding rx_outcome_def by (elim conjE disjE) auto
qed

lemma rx_outcome_fd:
  assumes "rx_outcome sys fd recv pend intr k s len k' s' bs r"
  shows "io_fd s' = io_fd s" "buf_ok (io_rbuf s')"
    "b_offset (io_rbuf s') = b_offset (io_rbuf s) + int (length bs)"
    "pend k' + length bs \<le> pend k" "int (length bs) \<le> len"
  using assms by (simp_all add: rx_outcome_def rx_frame_def)

lemma rx_outcome_widen:
  assumes "rx_outcome sys fd recv pend intr k s len k' s' bs r" and "int (length bs) < len"
    and "int (length bs) < n"
  shows "rx_outcome sys fd recv pend intr k s n k' s' bs r"
  using assms unfolding rx_outcome_def by auto

lemma read_all_loop_ok:
  assumes "rx_kernel sys (io_fd s) recv pend intr" and "buf_ok (io_rbuf s)" and "0 < step"
    and "b_offset (io_rbuf s) + int (pend k) + step \<le> 1073741824"
    and "0 \<le> tot" and "tot + int (pend k) \<le> 1073741824"
  shows "\<exists>k' s' bs r. read_all_loop sys k s step tot
             = Some (k', s', rbind (io_count (length bs) r) (\<lambda>n. Inr (tot + n))) \<and>
           rx_outcome sys (io_fd s) recv pend intr k s (int (pend k) + step) k' s' bs r"
  using assms
proof (induction "pend k" arbitrary: k s tot rule: less_induct)
  case less
  have "0 \<le> step" "b_offset (io_rbuf s) + step \<le> 1073741824"
    using less.prems(3,4) by simp_all
  from read_chunk_ok [OF less.prems(1,2) this, of k]
  obtain k1 s1 b1 r1 where chunk: "read_chunk sys k s step = Some (k1, s1, io_count (length b1) r1)"
    and o: "rx_outcome sys (io_fd s) recv pend intr k s step k1 s1 b1 r1"
    by (elim exE conjE) (rule that)
  note len = rx_outcome_fd [OF o]
  have tot: "chk32 (tot + int (length b1)) = Inr (tot + int (length b1))"
    using less.prems(5,6) len(4) by (simp add: int_limits)
  show ?case
  proof (cases "int (length b1) = step")
    case True
    have "pend k1 < pend k" using len(4) True less.prems(3) by linarith
    moreover have "rx_kernel sys (io_fd s1) recv pend intr"
      using less.prems(1) len(1) by simp
    ultimately have "\<exists>k' s' bs r. read_all_loop sys k1 s1 step (tot + step)
             = Some (k', s', rbind (io_count (length bs) r) (\<lambda>n. Inr (tot + step + n))) \<and>
           rx_outcome sys (io_fd s1) recv pend intr k1 s1 (int (pend k1) + step) k' s' bs r"
      using less.prems(3,4,5,6) len True by (intro less.hyps) auto
    then obtain k' s' bs r where run: "read_all_loop sys k1 s1 step (tot + step)
             = Some (k', s', rbind (io_count (length bs) r) (\<lambda>n. Inr (tot + step + n)))"
      and rest: "rx_outcome sys (io_fd s) recv pend intr k1 s1 (int (pend k1) + step) k' s' bs r"
      unfolding len(1) by (elim exE conjE) (rule that)
    note len' = rx_outcome_fd [OF this(2)]
    have "rx_outcome sys (io_fd s) recv pend intr k s (step + (int (pend k1) + step)) k' s' (b1 @ bs) r"
      using rest by (rule rx_outcome_then [OF o True])
    then have "rx_outcome sys (io_fd s) recv pend intr k s (int (pend k) + step) k' s' (b1 @ bs) r"
      by (rule rx_outcome_widen) (use len(4) len'(4) True less.prems(3) in simp_all)
    moreover have "read_all_loop sys k s step tot = Some (k', s', rbind (io_count (length (b1 @ bs)) r) (\<lambda>n. Inr (tot + n)))"
      using chunk True tot run rx_outcome_full [OF o True]
      by (subst read_all_loop.simps) (cases r; simp add: io_count_def add.assoc)
    ultimately show ?thesis by blast
  next
    case False
    have "rx_outcome sys (io_fd s) recv pend intr k s (int (pend k) + step) k1 s1 b1 r1"
      using o by (rule rx_outcome_widen) (use len(4,5) False less.prems(3) in simp_all)
    moreover have "read_all_loop sys k s step tot = Some (k1, s1, rbind (io_count (length b1) r1) (\<lambda>n. Inr (tot + n)))"
      using chunk False tot
      by (subst read_all_loop.simps) (cases r1; simp add: io_count_def)
    ultimately show ?thesis by blast
  qed
qed

section \<open>Writing\<close>

lemma wbuf_slice_ok:
  assumes "buf_ok (io_wbuf s)" and "n \<le> length (contents (io_wbuf s))"
  shows "wbuf_slice s (int n) = Inr (take n (contents (io_wbuf s)))"
proof -
  obtain pre z where "buf_shape (io_wbuf s) pre (contents (io_wbuf s)) z"
    using assms(1) by (rule buf_ok_shape)
  then show ?thesis
    using assms(2) by (simp add: wbuf_slice_def the_mem_def slice_at_def buf_shape_def)
qed

lemma advance_ok:
  assumes "buf_ok b" and "n \<le> length (contents b)"
  shows "buf_ok (b\<lparr>b_start := b_start b + int n\<rparr>)" (is "buf_ok ?b")
    and "contents (b\<lparr>b_start := b_start b + int n\<rparr>) = drop n (contents b)"
proof -
  obtain pre z where sh: "buf_shape b pre (contents b) z"
    using assms(1) by (rule buf_ok_shape)
  have "buf_shape ?b (pre @ take n (contents b)) (drop n (contents b)) z"
    using sh assms(2) take_drop_append [of n "contents b" "replicate z NUL"]
    by (simp add: buf_shape_def min_def)
  then show "buf_ok ?b" "contents ?b = drop n (contents b)"
    by (auto dest: buf_shape_ok buf_shape_contents)
qed

definition tx_outcome where
  "tx_outcome sys fd sent intr k s len k' s' n r \<longleftrightarrow>
     buf_ok (io_wbuf s') \<and> tx_frame s s' \<and> n \<le> length (contents (io_wbuf s)) \<and> int n \<le> len \<and>
     contents (io_wbuf s') = drop n (contents (io_wbuf s)) \<and>
     sent k' = sent k @ take n (contents (io_wbuf s)) \<and> intr k' \<le> (intr k :: nat) \<and>
     (r = Inr () \<and> int n = len \<and> st_eop s' = st_eop s \<and> st_reset s' = st_reset s \<or>
      int n < len \<and>
      (\<exists>k0 bs e. bs \<noteq> [] \<and> px_write sys k0 fd bs = (Inl e, k') \<and> tx_stop e s s' r))"

lemma tx_frame_refl: "tx_frame s s"
  by (simp add: tx_frame_def)

lemma tx_outcome_full:
  assumes "tx_outcome sys fd sent intr k s len k' s' n r" and "int n = len"
  shows "r = Inr ()" "st_eop s' = st_eop s" "st_reset s' = st_reset s"
  using assms unfolding tx_outcome_def by auto

lemma tx_outcome_then:
  assumes a: "tx_outcome sys fd sent intr k s len k1 s1 n1 r1" "int n1 = len"
    and o: "tx_outcome sys fd sent intr k1 s1 m k' s' n r"
  shows "tx_outcome sys fd sent intr k s (len + m) k' s' (n1 + n) r"
proof -
  have "tx_frame s s'"
    using a o by (simp add: tx_outcome_def tx_frame_def)
  moreover have "tx_stop e s1 s' r = tx_stop e s s' r" for e
    using tx_outcome_full [OF a] by (simp add: tx_stop_def)
  moreover have "take (n1 + n) (contents (io_wbuf s)) =
      take n1 (contents (io_wbuf s)) @ take n (contents (io_wbuf s1))"
    using a by (simp add: tx_outcome_def take_add)
  ultimately show ?thesis
    using a o tx_outcome_full [OF a] unfolding tx_outcome_def
    by (elim conjE disjE) (auto simp: add.commute)
qed

lemma tx_outcome_stop:
  assumes "px_write sys k fd bs = (Inl e, k')" "bs \<noteq> []" "0 < len" "tx_stop e s s' r"
    and "tx_frame s s'" "io_wbuf s' = io_wbuf s" "buf_ok (io_wbuf s)"
    and "sent k' = sent k" "intr k' \<le> intr k"
  shows "tx_outcome sys fd sent intr k s len k' s' 0 r"
proof -
  have "\<exists>k0 bs e. bs \<noteq> [] \<and> px_write sys k0 fd bs = (Inl e, k') \<and> tx_stop e s s' r"
    using assms(1,2,4) by blast
  then show ?thesis using assms by (simp add: tx_outcome_def)
qed

lemma write_loop_ok:
  assumes "tx_kernel sys (io_fd s) sent intr"
    and "buf_ok (io_wbuf s)" "0 \<le> len" "len \<le> int (length (contents (io_wbuf s)))"
  shows "\<exists>k' s' n r. write_loop sys k s len = Some (k', s', r) \<and>
           b_start (io_wbuf s') = b_start (io_wbuf s) + int n \<and>
           tx_outcome sys (io_fd s) sent intr k s len k' s' n r"
  using assms
proof (induction "length (contents (io_wbuf s)) + intr k" arbitrary: k s len rule: less_induct)
  case less
  show ?case
  proof (cases "len = 0")
    case True
    then show ?thesis
      using less.prems by (subst write_loop.simps) (auto simp: tx_outcome_def tx_frame_refl)
  next
    case False
    then have len: "0 < len" using less.prems(3) by simp
    let ?bs = "take (nat len) (contents (io_wbuf s))"
    have min: "min len (buf_size (io_wbuf s)) = len"
      using less.prems(2,4) by (simp add: buf_ok_size)
    have slice: "wbuf_slice s len = Inr ?bs"
      using wbuf_slice_ok [OF less.prems(2), of "nat len"] less.prems(3,4) by simp
    have bs: "?bs \<noteq> []" "int (length ?bs) = len"
      using len less.prems(4) by auto
    obtain reply k1 where wr: "px_write sys k (io_fd s) ?bs = (reply, k1)"
      by fastforce
    note contract = less.prems(1) [unfolded tx_kernel_def, rule_format, OF bs(1), of k, unfolded wr, simplified]
    show ?thesis
    proof (cases reply)
      case (Inr c)
      then obtain n where n: "c = int n" "1 \<le> n" "int n \<le> len" "sent k1 = sent k @ take n ?bs" "intr k1 \<le> intr k"
        using contract bs(2) by (cases c rule: int_cases) auto
      let ?s = "s\<lparr>io_wbuf := (io_wbuf s)\<lparr>b_start := b_start (io_wbuf s) + int n\<rparr>\<rparr>"
      have le: "n \<le> length (contents (io_wbuf s))" using n(3) less.prems(4) by simp
      note adv = advance_ok [OF less.prems(2) le]
      have o: "tx_outcome sys (io_fd s) sent intr k s (int n) k1 ?s n (Inr ())"
        using adv le n nat_mono [OF n(3)] by (simp add: tx_outcome_def tx_frame_def min_def)
      have "length (contents (io_wbuf ?s)) + intr k1 < length (contents (io_wbuf s)) + intr k"
        using adv(2) n(2,5) le by simp
      moreover have "len - int n \<le> int (length (contents (io_wbuf ?s)))"
        using adv(2) less.prems(4) le by simp
      ultimately have "\<exists>k' s' m r. write_loop sys k1 ?s (len - int n) = Some (k', s', r) \<and>
           b_start (io_wbuf s') = b_start (io_wbuf ?s) + int m \<and>
           tx_outcome sys (io_fd s) sent intr k1 ?s (len - int n) k' s' m r"
        using less.hyps [of ?s k1 "len - int n"] less.prems(1) adv(1) n(3) by simp
      then obtain k' s' m r where run: "write_loop sys k1 ?s (len - int n) = Some (k', s', r)"
        and st: "b_start (io_wbuf s') = b_start (io_wbuf ?s) + int m"
        and rest: "tx_outcome sys (io_fd s) sent intr k1 ?s (len - int n) k' s' m r"
        by (elim exE conjE) (rule that)
      have "tx_outcome sys (io_fd s) sent intr k s len k' s' (n + m) r"
        using tx_outcome_then [OF o refl rest] by simp
      moreover have "write_loop sys k s len = Some (k', s', r)"
        using False min slice wr Inr n(1) run by (subst write_loop.simps) simp
      moreover have "b_start (io_wbuf s') = b_start (io_wbuf s) + int (n + m)"
        using st by simp
      ultimately show ?thesis by blast
    next
      case (Inl e)
      then have k1: "sent k1 = sent k" "intr k1 \<le> intr k" "e = EINTR \<Longrightarrow> intr k1 < intr k"
        using contract by simp_all
      show ?thesis
      proof (cases "e = EINTR")
        case True
        with k1(3) have "length (contents (io_wbuf s)) + intr k1 < length (contents (io_wbuf s)) + intr k"
          by simp
        from less.hyps [OF this less.prems]
        obtain k' s' n r where run: "write_loop sys k1 s len = Some (k', s', r)"
          and st: "b_start (io_wbuf s') = b_start (io_wbuf s) + int n"
          and o: "tx_outcome sys (io_fd s) sent intr k1 s len k' s' n r"
          by (elim exE conjE) (rule that)
        have "tx_outcome sys (io_fd s) sent intr k s len k' s' n r"
          using o k1(1,2) unfolding tx_outcome_def by auto
        moreover have "write_loop sys k s len = Some (k', s', r)"
          using False min slice wr Inl True run by (subst write_loop.simps) simp
        ultimately show ?thesis using st by blast
      next
        case ne: False
        let ?s = "if e = EPIPE then s\<lparr>st_eop := True\<rparr>
                  else if e = ECONNRESET then s\<lparr>st_reset := True\<rparr> else s"
        let ?r = "if e \<in> {EAGAIN, EWOULDBLOCK, EPIPE, ECONNRESET} then Inr ()
                  else Inl (System_error ''write error'' e)"
        have "tx_stop e s ?s ?r" "tx_frame s ?s"
          using ne by (auto simp: tx_stop_def tx_frame_def)
        then have "tx_outcome sys (io_fd s) sent intr k s len k1 ?s 0 ?r"
          using wr len bs(1) k1 less.prems(2) Inl
          by (intro tx_outcome_stop [of _ _ _ ?bs e]) (simp_all)
        moreover have "write_loop sys k s len = Some (k1, ?s, ?r)"
          using False min slice wr Inl ne by (subst write_loop.simps) simp
        moreover have "b_start (io_wbuf ?s) = b_start (io_wbuf s) + int 0" by simp
        ultimately show ?thesis by blast
      qed
    qed
  qed
qed

lemma clear_ok:
  assumes "buf_ok b"
  shows "\<exists>b'. clear b = Inr b' \<and> buf_ok b' \<and> contents b' = [] \<and> b_offset b' = 0"
proof -
  obtain pre z where "buf_shape b pre (contents b) z"
    using assms by (rule buf_ok_shape)
  from clear_shape [OF this] obtain b' where b': "clear b = Inr b'" "buf_shape b' [] [] (nat (b_cap b))"
    by blast
  then have "b_offset b' = 0" by (simp add: buf_shape_def)
  with b' show ?thesis
    using buf_shape_ok buf_shape_contents by blast
qed

lemma write_chunk_ok:
  assumes tx: "tx_kernel sys (io_fd s) sent intr" and ok: "buf_ok (io_wbuf s)" "0 \<le> len"
  shows "\<exists>k' s' n r. write_chunk sys k s len = Some (k', s', io_count n r) \<and>
           tx_outcome sys (io_fd s) sent intr k s (min len (int (length (contents (io_wbuf s))))) k' s' n r"
proof -
  let ?len = "min len (int (length (contents (io_wbuf s))))"
  have "0 \<le> ?len" "?len \<le> int (length (contents (io_wbuf s)))"
    using ok(2) by simp_all
  from write_loop_ok [OF tx ok(1) this, of k]
  obtain k' s' n r where run: "write_loop sys k s ?len = Some (k', s', r)"
    and st: "b_start (io_wbuf s') = b_start (io_wbuf s) + int n"
    and o: "tx_outcome sys (io_fd s) sent intr k s ?len k' s' n r"
    by (elim exE conjE) (rule that)
  note chunk = write_chunk_def [of sys k s len, unfolded buf_ok_size [OF ok(1)] run, simplified]
  show ?thesis
  proof (cases "r = Inr () \<and> buf_size (io_wbuf s') = 0")
    case True
    then have ok': "buf_ok (io_wbuf s')" "contents (io_wbuf s') = []"
      using o by (auto simp: tx_outcome_def buf_ok_size)
    obtain b where b: "clear (io_wbuf s') = Inr b" "buf_ok b" "contents b = []" "b_offset b = 0"
      using clear_ok [OF ok'(1)] by blast
    have "0 \<le> b_offset (io_wbuf s')"
      using ok'(1) by (simp add: buf_ok_def)
    then have le: "b_offset (io_wbuf s') \<le> b_offset (io_wbuf s) \<Longrightarrow> b_offset b \<le> b_offset (io_wbuf s)"
      using b(4) by simp
    have "tx_stop e s (s'\<lparr>io_wbuf := b\<rparr>) r = tx_stop e s s' r" for e
      by (simp add: tx_stop_def)
    then have "tx_outcome sys (io_fd s) sent intr k s ?len k' (s'\<lparr>io_wbuf := b\<rparr>) n r"
      using o b(2,3) le ok'(2) unfolding tx_outcome_def by (auto simp: tx_frame_def)
    moreover have "write_chunk sys k s len = Some (k', s'\<lparr>io_wbuf := b\<rparr>, io_count n r)"
      using True b(1) st by (simp add: chunk io_count_def)
    ultimately show ?thesis by blast
  next
    case False
    then have "write_chunk sys k s len = Some (k', s', io_count n r)"
      using st by (cases r) (auto simp: chunk io_count_def)
    with o show ?thesis by blast
  qed
qed

lemma tx_outcome_fd:
  assumes "tx_outcome sys fd sent intr k s len k' s' n r"
  shows "io_fd s' = io_fd s" "buf_ok (io_wbuf s')" "contents (io_wbuf s') = drop n (contents (io_wbuf s))"
    "n \<le> length (contents (io_wbuf s))" "int n \<le> len"
  using assms by (simp_all add: tx_outcome_def tx_frame_def)

lemma tx_outcome_widen:
  assumes "tx_outcome sys fd sent intr k s len k' s' n r" and "int n = len \<Longrightarrow> m = len" and "len \<le> m"
  shows "tx_outcome sys fd sent intr k s m k' s' n r"
  using assms unfolding tx_outcome_def by auto

lemma write_all_loop_ok:
  assumes "tx_kernel sys (io_fd s) sent intr" and "buf_ok (io_wbuf s)" and "0 < step"
    and "0 \<le> tot" and "tot + int (length (contents (io_wbuf s))) \<le> int_max"
  shows "\<exists>k' s' n r. write_all_loop sys k s step tot = Some (k', s', rbind r (\<lambda>_. Inr (tot + int n))) \<and>
           tx_outcome sys (io_fd s) sent intr k s (int (length (contents (io_wbuf s)))) k' s' n r"
  using assms
proof (induction "length (contents (io_wbuf s))" arbitrary: k s tot rule: less_induct)
  case less
  let ?n = "int (length (contents (io_wbuf s)))"
  from write_chunk_ok [OF less.prems(1,2) order_less_imp_le [OF less.prems(3)], of k]
  obtain k1 s1 n1 r1 where chunk: "write_chunk sys k s step = Some (k1, s1, io_count n1 r1)"
    and o: "tx_outcome sys (io_fd s) sent intr k s (min step ?n) k1 s1 n1 r1"
    by (elim exE conjE) (rule that)
  note f = tx_outcome_fd [OF o]
  have tot: "chk32 (tot + int n1) = Inr (tot + int n1)"
    using less.prems(4,5) f(4) by (simp add: int_limits)
  show ?case
  proof (cases "int n1 = step")
    case True
    then have full: "int n1 = min step ?n" using f(4) by simp
    have "length (contents (io_wbuf s1)) < length (contents (io_wbuf s))"
      using f(3,4) True less.prems(3) by simp
    then have "\<exists>k' s' n r. write_all_loop sys k1 s1 step (tot + step) = Some (k', s', rbind r (\<lambda>_. Inr (tot + step + int n))) \<and>
           tx_outcome sys (io_fd s1) sent intr k1 s1 (int (length (contents (io_wbuf s1)))) k' s' n r"
      using less.prems f True by (intro less.hyps) auto
    then obtain k' s' n r where
        run: "write_all_loop sys k1 s1 step (tot + step) = Some (k', s', rbind r (\<lambda>_. Inr (tot + step + int n)))"
      and rest: "tx_outcome sys (io_fd s) sent intr k1 s1 (int (length (contents (io_wbuf s1)))) k' s' n r"
      unfolding f(1) by (elim exE conjE) (rule that)
    have "int n1 + int (length (contents (io_wbuf s1))) = ?n"
      using f(3,4) by simp
    then have "tx_outcome sys (io_fd s) sent intr k s ?n k' s' (n1 + n) r"
      using tx_outcome_then [OF o full rest] full by simp
    moreover have "write_all_loop sys k s step tot = Some (k', s', rbind r (\<lambda>_. Inr (tot + int (n1 + n))))"
      using chunk True tot run tx_outcome_full [OF o full]
      by (subst write_all_loop.simps) (cases r; simp add: add.assoc io_count_def)
    ultimately show ?thesis by blast
  next
    case False
    have "tx_outcome sys (io_fd s) sent intr k s ?n k1 s1 n1 r1"
      using o by (rule tx_outcome_widen) (use False in auto)
    moreover have "write_all_loop sys k s step tot = Some (k1, s1, rbind r1 (\<lambda>_. Inr (tot + int n1)))"
      using chunk False tot by (subst write_all_loop.simps) (cases r1; simp add: io_count_def)
    ultimately show ?thesis by blast
  qed
qed

section \<open>The loops as a whole\<close>

lemma read_all_outcome:
  assumes "rx_kernel sys (io_fd s) recv pend intr" and "buf_ok (io_rbuf s)" and "0 < step"
    and "b_offset (io_rbuf s) + int (pend k) + step \<le> 1073741824"
  shows "\<exists>k' s' bs r. read_all sys k s step = Some (k', s', io_count (length bs) r) \<and>
           rx_outcome sys (io_fd s) recv pend intr k s (int (pend k) + step) k' s' bs r"
proof -
  have "0 \<le> b_offset (io_rbuf s)" using assms(2) by (simp add: buf_ok_def)
  then have "\<exists>k' s' bs r. read_all sys k s step = Some (k', s', rbind (io_count (length bs) r) (\<lambda>n. Inr (0 + n))) \<and>
           rx_outcome sys (io_fd s) recv pend intr k s (int (pend k) + step) k' s' bs r"
    unfolding read_all_def using assms by (intro read_all_loop_ok) auto
  moreover have "rbind (io_count (length bs) r) (\<lambda>n. Inr (0 + n)) = io_count (length bs) r" for bs :: string and r
    by (cases r) (simp_all add: io_count_def)
  ultimately show ?thesis by metis
qed

lemma read_all_ok:
  assumes "rx_kernel sys (io_fd s) recv pend intr" and "buf_ok (io_rbuf s)" and "0 < step"
    and "b_offset (io_rbuf s) + int (pend k) + step \<le> 1073741824"
  shows "\<exists>k' s' bs r. read_all sys k s step = Some (k', s', io_count (length bs) r) \<and>
           recv k' = recv k @ bs \<and> contents (io_rbuf s') = contents (io_rbuf s) @ bs \<and>
           buf_ok (io_rbuf s') \<and> rx_frame s s' \<and>
           (\<exists>k0 m reply. 0 < m \<and> px_read sys k0 (io_fd s) m = (reply, k') \<and> rx_stop reply s s' r)"
proof -
  obtain k' s' bs r where run: "read_all sys k s step = Some (k', s', io_count (length bs) r)"
    and o: "rx_outcome sys (io_fd s) recv pend intr k s (int (pend k) + step) k' s' bs r"
    using read_all_outcome [OF assms] by (elim exE conjE) (rule that)
  have "int (length bs) \<noteq> int (pend k) + step"
    using rx_outcome_fd(4) [OF o] assms(3) by simp
  then show ?thesis
    using run o unfolding rx_outcome_def by metis
qed

lemma write_all_ok:
  assumes "tx_kernel sys (io_fd s) sent intr" and "buf_ok (io_wbuf s)" and "0 < step"
  shows "\<exists>k' s' n r. write_all sys k s step = Some (k', s', io_count n r) \<and>
           sent k' @ contents (io_wbuf s') = sent k @ contents (io_wbuf s) \<and>
           length (contents (io_wbuf s')) + n = length (contents (io_wbuf s)) \<and>
           buf_ok (io_wbuf s') \<and> tx_frame s s' \<and>
           (r = Inr () \<and> contents (io_wbuf s') = [] \<and> st_eop s' = st_eop s \<and> st_reset s' = st_reset s \<or>
            (\<exists>k0 bs e. bs \<noteq> [] \<and> px_write sys k0 (io_fd s) bs = (Inl e, k') \<and> tx_stop e s s' r))"
proof -
  let ?n = "int (length (contents (io_wbuf s)))"
  have "?n \<le> int_max"
    using assms(2) by (simp add: buf_ok_size [symmetric] buf_size_def) (simp add: buf_ok_def)
  then have "\<exists>k' s' n r. write_all sys k s step = Some (k', s', rbind r (\<lambda>_. Inr (0 + int n))) \<and>
           tx_outcome sys (io_fd s) sent intr k s ?n k' s' n r"
    unfolding write_all_def using assms by (intro write_all_loop_ok) auto
  then obtain k' s' n r where "write_all sys k s step = Some (k', s', io_count n r)"
    and "tx_outcome sys (io_fd s) sent intr k s ?n k' s' n r"
    unfolding add_0 io_count_def [symmetric] by (elim exE conjE) (rule that)
  then show ?thesis
    unfolding tx_outcome_def by (intro exI [of _ k'] exI [of _ s'] exI [of _ n] exI [of _ r]) auto
qed

section \<open>What io leaves alone\<close>

text \<open>What one write or read leaves alone in the kernel, \<open>write_all\<close> and \<open>read_all\<close> leave alone.\<close>

definition wr_keeps :: "('k \<Rightarrow> 'i) \<Rightarrow> ('k, 'z) posix_scheme \<Rightarrow> bool" where
  "wr_keeps I sys \<longleftrightarrow> (\<forall>k fd bs. I (snd (px_write sys k fd bs)) = I k)"

definition rd_keeps :: "('k \<Rightarrow> 'i) \<Rightarrow> ('k, 'z) posix_scheme \<Rightarrow> bool" where
  "rd_keeps I sys \<longleftrightarrow> (\<forall>k fd n. I (snd (px_read sys k fd n)) = I k)"

lemma wr_keepsD: "wr_keeps I sys \<Longrightarrow> px_write sys k fd bs = (r, k') \<Longrightarrow> I k' = I k"
  unfolding wr_keeps_def by (metis snd_conv)

lemma rd_keepsD: "rd_keeps I sys \<Longrightarrow> px_read sys k fd n = (r, k') \<Longrightarrow> I k' = I k"
  unfolding rd_keeps_def by (metis snd_conv)

lemma write_loop_keeps:
  assumes "write_loop sys k s len = Some y"
  shows "wr_keeps I sys \<longrightarrow> I (fst y) = I k"
proof (rule write_loop.raw_induct [OF _ assms, where P = "\<lambda>sys k s len y. wr_keeps I sys \<longrightarrow> I (fst y) = I k"], goal_cases)
  case (1 f sys k s len y)
  then show ?case
    by (auto simp: Let_def dest: wr_keepsD split: if_splits sum.splits prod.splits)
qed

lemma write_chunk_keeps:
  assumes "write_chunk sys k s len = Some y" and "wr_keeps I sys"
  shows "I (fst y) = I k"
proof -
  obtain z where z: "write_loop sys k s (min len (buf_size (io_wbuf s))) = Some z"
    using assms(1) by (auto simp: write_chunk_def Let_def split: option.splits)
  then have "fst y = fst z"
    using assms(1) by (auto simp: write_chunk_def Let_def split: option.splits sum.splits prod.splits)
  then show ?thesis
    using write_loop_keeps [OF z, of I] assms(2) by simp
qed

lemma write_all_keeps:
  assumes "write_all sys k s step = Some y" and "wr_keeps I sys"
  shows "I (fst y) = I k"
proof -
  have "wr_keeps I sys \<longrightarrow> I (fst y) = I k"
  proof (rule write_all_loop.raw_induct [OF _ assms(1) [unfolded write_all_def], where P = "\<lambda>sys k s step tot y. wr_keeps I sys \<longrightarrow> I (fst y) = I k"], goal_cases)
    case (1 f sys k s step tot y)
    then obtain k1 s1 r where c: "write_chunk sys k s step = Some (k1, s1, r)"
      by (auto split: option.splits)
    show ?case
    proof
      assume w: "wr_keeps I sys"
      have "I k1 = I k" using write_chunk_keeps [OF c w] by simp
      then show "I (fst y) = I k"
        using 1 c w by (cases y) (auto split: sum.splits if_splits)
    qed
  qed
  with assms(2) show ?thesis by simp
qed

text \<open>Reading one descriptor leaves alone what a read of that descriptor leaves alone.\<close>

definition rd_keeps_fd :: "('k \<Rightarrow> 'i) \<Rightarrow> ('k, 'z) posix_scheme \<Rightarrow> int \<Rightarrow> bool" where
  "rd_keeps_fd I sys fd \<longleftrightarrow> (\<forall>k n. I (snd (px_read sys k fd n)) = I k)"

lemma rd_keeps_fdD: "rd_keeps_fd I sys fd \<Longrightarrow> px_read sys k fd n = (r, k') \<Longrightarrow> I k' = I k"
  unfolding rd_keeps_fd_def by (metis snd_conv)

lemma rd_keeps_one: "rd_keeps I sys \<Longrightarrow> rd_keeps_fd I sys fd"
  by (simp add: rd_keeps_def rd_keeps_fd_def)

lemma fill_rbuf_fd: "fill_rbuf s bs = Inr s' \<Longrightarrow> io_fd s' = io_fd s"
  by (auto simp: fill_rbuf_def rbind_eq_Inr)

lemma read_loop_keeps:
  assumes "read_loop sys k s len = Some y"
  shows "io_fd (fst (snd y)) = io_fd s \<and> (rd_keeps_fd I sys (io_fd s) \<longrightarrow> I (fst y) = I k)"
proof (rule read_loop.raw_induct [OF _ assms,
      where P = "\<lambda>sys k s len y. io_fd (fst (snd y)) = io_fd s \<and> (rd_keeps_fd I sys (io_fd s) \<longrightarrow> I (fst y) = I k)"], goal_cases)
  case (1 f sys k s len y)
  then show ?case
    by (auto simp: Let_def dest: rd_keeps_fdD fill_rbuf_fd split: if_splits sum.splits prod.splits)
       (metis fill_rbuf_fd fst_conv prod.collapse rd_keeps_fdD)
qed

lemma read_chunk_keeps:
  assumes "read_chunk sys k s len = Some y"
  shows "io_fd (fst (snd y)) = io_fd s \<and> (rd_keeps_fd I sys (io_fd s) \<longrightarrow> I (fst y) = I k)"
proof (cases "rbind (chk32 (b_offset (io_rbuf s) + len)) (resize (io_rbuf s))")
  case (Inl e)
  then show ?thesis using assms by (auto simp: read_chunk_def)
next
  case (Inr b)
  then obtain z where z: "read_loop sys k (s\<lparr>io_rbuf := b\<rparr>) len = Some z"
    using assms by (auto simp: read_chunk_def Let_def split: option.splits)
  then have "fst y = fst z" "fst (snd y) = fst (snd z)"
    using assms Inr by (auto simp: read_chunk_def Let_def split: option.splits sum.splits prod.splits)
  then show ?thesis
    using read_loop_keeps [OF z, of I] by simp
qed

lemma read_all_keeps_fd:
  assumes "read_all sys k s step = Some y" and "rd_keeps_fd I sys (io_fd s)"
  shows "I (fst y) = I k"
proof -
  have "rd_keeps_fd I sys (io_fd s) \<longrightarrow> I (fst y) = I k"
  proof (rule read_all_loop.raw_induct [OF _ assms(1) [unfolded read_all_def],
        where P = "\<lambda>sys k s step tot y. rd_keeps_fd I sys (io_fd s) \<longrightarrow> I (fst y) = I k"], goal_cases)
    case (1 f sys k s step tot y)
    then obtain k1 s1 r where c: "read_chunk sys k s step = Some (k1, s1, r)"
      by (auto split: option.splits)
    show ?case
    proof
      assume w: "rd_keeps_fd I sys (io_fd s)"
      have "I k1 = I k" "io_fd s1 = io_fd s" using read_chunk_keeps [OF c, of I] w by simp_all
      then show "I (fst y) = I k"
        using 1 c w by (cases y) (auto split: sum.splits if_splits)
    qed
  qed
  with assms(2) show ?thesis by simp
qed

lemma read_all_keeps:
  assumes "read_all sys k s step = Some y" and "rd_keeps I sys"
  shows "I (fst y) = I k"
  using read_all_keeps_fd [OF assms(1) rd_keeps_one [OF assms(2)]] .

section \<open>A scripted kernel\<close>

text \<open>
  A concrete kernel: \<open>sk_in\<close> holds the replies to the next reads (a reply longer than asked for
  is delivered in parts; \<open>EAGAIN\<close> at the end), \<open>sk_out\<close> the replies to the next writes (a number
  of bytes it would take, or an error; at the end a write takes everything).
\<close>

record script =
  sk_in :: "(errno + char list) list"
  sk_recv :: "char list"
  sk_out :: "(errno + nat) list"
  sk_sent :: "char list"
  sk_flags :: "int \<Rightarrow> 32 word option"

definition script_read :: "script \<Rightarrow> int \<Rightarrow> int \<Rightarrow> (errno + char list) \<times> script" where
  "script_read k fd n =
     (case sk_in k of
        [] \<Rightarrow> (Inl EAGAIN, k)
      | Inl e # rest \<Rightarrow> (Inl e, k\<lparr>sk_in := rest\<rparr>)
      | Inr bs # rest \<Rightarrow>
          if int (length bs) \<le> n then (Inr bs, k\<lparr>sk_in := rest, sk_recv := sk_recv k @ bs\<rparr>)
          else (Inr (take (nat n) bs),
                k\<lparr>sk_in := Inr (drop (nat n) bs) # rest, sk_recv := sk_recv k @ take (nat n) bs\<rparr>))"

definition script_write :: "script \<Rightarrow> int \<Rightarrow> char list \<Rightarrow> (errno + int) \<times> script" where
  "script_write k fd bs =
     (case sk_out k of
        [] \<Rightarrow> (Inr (int (length bs)), k\<lparr>sk_sent := sk_sent k @ bs\<rparr>)
      | Inl e # rest \<Rightarrow> (Inl e, k\<lparr>sk_out := rest\<rparr>)
      | Inr c # rest \<Rightarrow>
          (let n = max 1 (min c (length bs)) in
           (Inr (int n), k\<lparr>sk_out := rest, sk_sent := sk_sent k @ take n bs\<rparr>)))"

definition script_sys :: "script posix" where
  "script_sys = \<lparr>
     px_getfl = (\<lambda>k fd. (case sk_flags k fd of None \<Rightarrow> Inl EBADF | Some w \<Rightarrow> Inr w, k)),
     px_setfl = (\<lambda>k fd w. (None, k\<lparr>sk_flags := (sk_flags k)(fd := Some w)\<rparr>)),
     px_nonblock = 2048,
     px_close = (\<lambda>k fd. k\<lparr>sk_flags := (sk_flags k)(fd := None)\<rparr>),
     px_read = script_read,
     px_write = script_write\<rparr>"

definition script_pend :: "script \<Rightarrow> nat" where
  "script_pend k = sum_list (map (\<lambda>r. case r of Inl e \<Rightarrow> 0 | Inr bs \<Rightarrow> length bs) (sk_in k))"

definition script_intr :: "script \<Rightarrow> nat" where
  "script_intr k = length (filter (\<lambda>r. r = Inl EINTR) (sk_in k)) + length (filter (\<lambda>r. r = Inl EINTR) (sk_out k))"

lemma script_rx: "rx_kernel script_sys fd sk_recv script_pend script_intr"
  unfolding rx_kernel_def script_sys_def
  by (auto simp: script_read_def script_pend_def script_intr_def split: list.splits sum.splits)

lemma script_tx: "tx_kernel script_sys fd sk_sent script_intr"
  unfolding tx_kernel_def script_sys_def
  by (auto simp: script_write_def script_intr_def Let_def Suc_le_eq max_def min_def
      split: list.splits sum.splits)

definition sample_script :: script where
  "sample_script = \<lparr>sk_in = [Inl EINTR, Inr ''abc'', Inr ''de'', Inl ECONNRESET], sk_recv = [],
     sk_out = [Inr 1, Inl EINTR, Inl EPIPE], sk_sent = [], sk_flags = (\<lambda>fd. if fd = 5 then Some 2 else None)\<rparr>"

definition sample_stream :: nstream where
  "sample_stream = \<lparr>io_fd = 5, io_closed = False, io_rbuf = sample_buffer, io_wbuf = sample_buffer,
     io_evlp = None, st_reset = False, st_eof = False, st_eop = False\<rparr>"

lemma sample_stream_simps:
  "io_fd sample_stream = 5" "io_rbuf sample_stream = sample_buffer" "io_wbuf sample_stream = sample_buffer"
  "sk_recv sample_script = []" "sk_sent sample_script = []" "script_pend sample_script = 5"
  by (simp_all add: sample_stream_def sample_script_def script_pend_def)

section \<open>Properties\<close>

text \<open>C32. \<open>read_all\<close> returns on every kernel that delivers finitely many bytes and interruptions:
  the bytes it appends to the read buffer are exactly those the kernel delivered, in order, the
  returned count is their number, nothing but the read buffer and the flags \<open>eof\<close> and \<open>reset\<close>
  changes, and it only stops because the last reply was end of file, would-block, a reset or an
  error, which is what the flags and the outcome say.\<close>

theorem read_all_drains:
  assumes "rx_kernel sys (io_fd s) recv pend intr" and "buf_ok (io_rbuf s)" and "0 < step"
    and "b_offset (io_rbuf s) + int (pend k) + step \<le> 1073741824"
  shows "\<exists>k' s' bs r. read_all sys k s step = Some (k', s', io_count (length bs) r) \<and>
           recv k' = recv k @ bs \<and> contents (io_rbuf s') = contents (io_rbuf s) @ bs \<and>
           buf_ok (io_rbuf s') \<and> rx_frame s s' \<and>
           (\<exists>k0 m reply. 0 < m \<and> px_read sys k0 (io_fd s) m = (reply, k') \<and> rx_stop reply s s' r)"
  using assms by (rule read_all_ok)

theorem read_all_drains_witness:
  "\<exists>k' s' bs r. read_all script_sys sample_script sample_stream 2 = Some (k', s', io_count (length bs) r) \<and>
     sk_recv k' = bs \<and> contents (io_rbuf s') = ''ab'' @ bs \<and>
     buf_ok (io_rbuf s') \<and> rx_frame sample_stream s' \<and>
     (\<exists>k0 m reply. 0 < m \<and> px_read script_sys k0 5 m = (reply, k') \<and> rx_stop reply sample_stream s' r)"
  using read_all_drains [OF script_rx, of sample_stream 2 sample_script]
  by (simp add: sample_stream_simps sample_ok)

text \<open>C33. \<open>write_all\<close> returns on every kernel that accepts at least a byte per successful write: the
  bytes it takes from the front of the write buffer are exactly those the kernel took, so what
  was sent followed by what is left never changes, the returned count is their number, and it
  leaves bytes behind only when the last reply was would-block, a broken pipe, a reset or an
  error, which is what the flags and the outcome say.\<close>

theorem write_all_sends:
  assumes "tx_kernel sys (io_fd s) sent intr" and "buf_ok (io_wbuf s)" and "0 < step"
  shows "\<exists>k' s' n r. write_all sys k s step = Some (k', s', io_count n r) \<and>
           sent k' @ contents (io_wbuf s') = sent k @ contents (io_wbuf s) \<and>
           length (contents (io_wbuf s')) + n = length (contents (io_wbuf s)) \<and>
           buf_ok (io_wbuf s') \<and> tx_frame s s' \<and>
           (r = Inr () \<and> contents (io_wbuf s') = [] \<and> st_eop s' = st_eop s \<and> st_reset s' = st_reset s \<or>
            (\<exists>k0 bs e. bs \<noteq> [] \<and> px_write sys k0 (io_fd s) bs = (Inl e, k') \<and> tx_stop e s s' r))"
  using assms by (rule write_all_ok)

theorem write_all_sends_witness:
  "\<exists>k' s' n r. write_all script_sys sample_script sample_stream 1 = Some (k', s', io_count n r) \<and>
     sk_sent k' @ contents (io_wbuf s') = ''ab'' \<and> length (contents (io_wbuf s')) + n = 2"
  using write_all_sends [OF script_tx, of sample_stream 1 sample_script]
  by (simp add: sample_stream_simps sample_ok) (auto elim!: ex_forward)

text \<open>\<open>set_io_nonblock\<close> and \<open>set_io_block\<close> change \<open>O_NONBLOCK\<close> of their descriptor and no other
  bit of it and no other descriptor; on a bad descriptor they throw and change nothing, so the
  constructor of \<open>nio\<close> fails.\<close>

definition flags_kernel :: "('k, 'z) posix_scheme \<Rightarrow> ('k \<Rightarrow> int \<Rightarrow> 32 word option) \<Rightarrow> bool" where
  "flags_kernel sys flags \<longleftrightarrow>
     (\<forall>k fd. px_getfl sys k fd = (case flags k fd of None \<Rightarrow> Inl EBADF | Some w \<Rightarrow> Inr w, k)) \<and>
     (\<forall>k fd w. flags k fd \<noteq> None \<longrightarrow>
        (\<exists>k'. px_setfl sys k fd w = (None, k') \<and> flags k' = (flags k)(fd := Some w)))"

theorem nonblock_flags:
  assumes "flags_kernel sys flags"
  shows "case flags k fd of
      Some w \<Rightarrow> \<exists>k1 k2. set_io_nonblock sys k fd = (k1, Inr ()) \<and>
        flags k1 = (flags k)(fd := Some (or w (px_nonblock sys))) \<and>
        set_io_block sys k1 fd = (k2, Inr ()) \<and>
        flags k2 = (flags k)(fd := Some (and w (not (px_nonblock sys))))
    | None \<Rightarrow> nio_new sys k fd = (k, Inl (System_error ''fcntl error'' EBADF))"
proof (cases "flags k fd")
  case None
  then show ?thesis
    using assms by (simp add: flags_kernel_def nio_new_def set_io_nonblock_def buffer_default_def buffer_new_def)
next
  case (Some w)
  let ?w = "or w (px_nonblock sys)"
  have clear: "and ?w (not (px_nonblock sys)) = and w (not (px_nonblock sys))"
    by (simp add: bit.conj_disj_distrib2)
  have setfl: "\<exists>k'. px_setfl sys k fd v = (None, k') \<and> flags k' = (flags k)(fd := Some v)"
    if "flags k fd \<noteq> None" for k v
    using assms that by (simp add: flags_kernel_def)
  obtain k1 where k1: "px_setfl sys k fd ?w = (None, k1)" "flags k1 = (flags k)(fd := Some ?w)"
    using setfl [of k ?w] Some by auto
  obtain k2 where k2: "px_setfl sys k1 fd (and w (not (px_nonblock sys))) = (None, k2)"
      "flags k2 = (flags k1)(fd := Some (and w (not (px_nonblock sys))))"
    using setfl [of k1 "and w (not (px_nonblock sys))"] k1(2) by auto
  have "set_io_nonblock sys k fd = (k1, Inr ())"
    using assms Some k1(1) by (simp add: flags_kernel_def set_io_nonblock_def)
  moreover have "set_io_block sys k1 fd = (k2, Inr ())"
    using assms k1(2) k2(1) clear by (simp add: flags_kernel_def set_io_block_def)
  ultimately show ?thesis
    using Some k1(2) k2(2) by simp
qed

theorem nonblock_flags_witness:
  "\<exists>k1 k2. set_io_nonblock script_sys sample_script 5 = (k1, Inr ()) \<and> sk_flags k1 5 = Some 2050 \<and>
     set_io_block script_sys k1 5 = (k2, Inr ()) \<and> sk_flags k2 5 = Some 2"
proof -
  have "flags_kernel script_sys sk_flags"
    by (auto simp: flags_kernel_def script_sys_def)
  from nonblock_flags [OF this, of sample_script 5] show ?thesis
    by (auto simp: sample_script_def script_sys_def)
qed

text \<open>Moving a nio keeps its descriptor and its received data but loses its write buffer: the
  moved-from object keeps the unsent bytes, and the new object's write buffer has no array, so
  the first byte written into the room its counters claim dereferences a null pointer.\<close>

theorem move_loses_wbuffer:
  assumes "buf_ok (io_rbuf other)" and "b_offset (io_rbuf other) < b_cap (io_rbuf other)"
  shows "case nio_move this other of (this', other') \<Rightarrow>
      io_fd this' = io_fd other \<and> io_rbuf this' = io_rbuf other \<and>
      io_fd other' = -1 \<and> io_closed other' \<and> io_wbuf other' = io_wbuf other \<and>
      contents (io_wbuf this') = [] \<and>
      put_string (io_wbuf this') [c] = Inl (Undefined Null_deref)"
  using assms
  by (auto simp: nio_move_def buf_move_def contents_def put_string_def produce_def put_byte_def
      the_mem_def resize_def for_int_step buf_ok_def to_int_id int_limits Let_def)

theorem move_loses_wbuffer_witness:
  "case nio_move sample_stream (sample_stream\<lparr>io_wbuf := sample_buffer\<rparr>) of (this', other') \<Rightarrow>
     contents (io_wbuf other') = ''ab'' \<and> contents (io_wbuf this') = [] \<and>
     put_string (io_wbuf this') ''x'' = Inl (Undefined Null_deref)"
  using move_loses_wbuffer [of sample_stream "CHR ''x''" sample_stream]
  by (simp add: sample_ok sample_stream_simps nio_move_def buf_move_def)

end
