(* ===== verification/Nio_Socket.thy ===== *)
theory Nio_Socket
  imports Nio_Stream
begin

text \<open>
  Sockets, pipes and fifos: the classes \<open>nsock\<close>, \<open>nsocktcp\<close>, \<open>nsockudp\<close> and the factory functions
  of \<open>src/src/include/cppev/nio.h\<close> and \<open>src/src/lib/nio.cc\<close>. \<open>nsocktcp\<close> inherits \<open>nstream\<close> and
  \<open>nsock\<close> over one virtual \<open>nio\<close>; here it is a \<open>nstream\<close> with the members of \<open>nsock\<close> as one field.
\<close>

section \<open>System calls and objects\<close>

datatype family = ipv4 | ipv6 | local_family

datatype sock_type = SOCK_STREAM | SOCK_DGRAM

datatype shut_mode = shut_rd | shut_wr | shut_rdwr

datatype sockopt = SO_REUSEADDR | SO_REUSEPORT | SO_RCVBUF | SO_SNDBUF | SO_RCVLOWAT | SO_SNDLOWAT
  | SO_KEEPALIVE | SO_LINGER | SO_BROADCAST | TCP_NODELAY | SO_ERROR

text \<open>
  A filled \<open>sockaddr_storage\<close>: the address bytes and the port in network order, or the path up
  to its terminating NUL.
\<close>

datatype sockaddr = Sa_ip family "char list" "16 word" | Sa_un string

record 'k sock_api = "'k posix" +
  px_errno :: "'k \<Rightarrow> errno"
  px_pton :: "family \<Rightarrow> string \<Rightarrow> errno + char list option"
  px_ntop :: "family \<Rightarrow> char list \<Rightarrow> errno + string"
  px_sun_size :: nat
  px_socket :: "'k \<Rightarrow> family \<Rightarrow> sock_type \<Rightarrow> (errno + int) \<times> 'k"
  px_bind :: "'k \<Rightarrow> int \<Rightarrow> sockaddr \<Rightarrow> errno option \<times> 'k"
  px_listen :: "'k \<Rightarrow> int \<Rightarrow> int \<Rightarrow> errno option \<times> 'k"
  px_connect :: "'k \<Rightarrow> int \<Rightarrow> sockaddr \<Rightarrow> errno option \<times> 'k"
  px_accept :: "'k \<Rightarrow> int \<Rightarrow> (errno + int) \<times> 'k"
  px_shutdown :: "'k \<Rightarrow> int \<Rightarrow> shut_mode \<Rightarrow> 'k"
  px_setsockopt :: "'k \<Rightarrow> int \<Rightarrow> sockopt \<Rightarrow> int list \<Rightarrow> errno option \<times> 'k"
  px_getsockopt :: "'k \<Rightarrow> int \<Rightarrow> sockopt \<Rightarrow> (errno + int list) \<times> 'k"
  px_getsockname :: "'k \<Rightarrow> int \<Rightarrow> (errno + sockaddr) \<times> 'k"
  px_getpeername :: "'k \<Rightarrow> int \<Rightarrow> (errno + sockaddr) \<times> 'k"
  px_recvfrom :: "'k \<Rightarrow> int \<Rightarrow> int \<Rightarrow> (errno + char list \<times> sockaddr) \<times> 'k"
  px_sendto :: "'k \<Rightarrow> int \<Rightarrow> char list \<Rightarrow> sockaddr \<Rightarrow> (errno + int) \<times> 'k"
  px_unlink :: "'k \<Rightarrow> string \<Rightarrow> 'k"
  px_pipe :: "'k \<Rightarrow> (errno + int \<times> int) \<times> 'k"
  px_mkfifo :: "'k \<Rightarrow> string \<Rightarrow> errno option \<times> 'k"
  px_open_rd :: "'k \<Rightarrow> string \<Rightarrow> (errno + int) \<times> 'k"
  px_open_wr :: "'k \<Rightarrow> string \<Rightarrow> (errno + int) \<times> 'k"

record sockpart =
  so_family :: family
  so_peer :: "string \<times> int"

record nsocktcp = nstream +
  tcp_sock :: sockpart

record nsockudp = nio +
  udp_sock :: sockpart

type_synonym endpoint = "string \<times> int \<times> family"

section \<open>Addresses\<close>

text \<open>\<open>htons\<close> and \<open>ntohs\<close> on a little-endian machine.\<close>

definition htons :: "16 word \<Rightarrow> 16 word" where
  "htons w = or (push_bit 8 w) (drop_bit 8 w)"

definition set_ip_port :: "('k, 'z) sock_api_scheme \<Rightarrow> family \<Rightarrow> string option \<Rightarrow> int \<Rightarrow> sockaddr res" where
  "set_ip_port sys f ip port =
     (case f of
        local_family \<Rightarrow> Inl (Logic_error ''unknown socket family'')
      | _ \<Rightarrow>
          (let p = htons (word_of_int port) in
           case ip of
             None \<Rightarrow> Inr (Sa_ip f (replicate (if f = ipv4 then 4 else 16) NUL) p)
           | Some ip \<Rightarrow>
               (case px_pton sys f ip of
                  Inr None \<Rightarrow> Inl (Logic_error ''inet_pton error'')
                | Inl e \<Rightarrow> Inl (System_error ''inet_pton error'' e)
                | Inr (Some bytes) \<Rightarrow> Inr (Sa_ip f bytes p))))"

text \<open>\<open>strncpy(sun_path, path, sizeof(sun_path) - 1)\<close> into zeroed storage.\<close>

definition set_path :: "('k, 'z) sock_api_scheme \<Rightarrow> string \<Rightarrow> sockaddr" where
  "set_path sys path = Sa_un (take (px_sun_size sys - 1) (takeWhile (\<lambda>c. c \<noteq> NUL) path))"

definition query_ip_port_family :: "('k, 'z) sock_api_scheme \<Rightarrow> sockaddr \<Rightarrow> endpoint res" where
  "query_ip_port_family sys addr =
     (case addr of
        Sa_un _ \<Rightarrow> Inl (Logic_error ''unknown socket family'')
      | Sa_ip f bytes p \<Rightarrow>
          (if f = local_family then Inl (Logic_error ''unknown socket family'')
           else case px_ntop sys f bytes of
             Inl e \<Rightarrow> Inl (System_error ''inet_ntop error'' e)
           | Inr ip \<Rightarrow> Inr (ip, uint (htons p), f)))"

section \<open>Socket options\<close>

definition set_opt ::
  "('k, 'z) sock_api_scheme \<Rightarrow> 'k \<Rightarrow> int \<Rightarrow> sockopt \<Rightarrow> int list \<Rightarrow> string \<Rightarrow> 'k \<times> unit res"
where
  "set_opt sys k fd opt vals msg =
     (case px_setsockopt sys k fd opt vals of
        (Some e, k) \<Rightarrow> (k, Inl (System_error msg e))
      | (None, k) \<Rightarrow> (k, Inr ()))"

text \<open>An option value the kernel does not fill in is read uninitialised.\<close>

definition get_opt :: "('k, 'z) sock_api_scheme \<Rightarrow> 'k \<Rightarrow> int \<Rightarrow> sockopt \<Rightarrow> string \<Rightarrow> 'k \<times> int res" where
  "get_opt sys k fd opt msg =
     (case px_getsockopt sys k fd opt of
        (Inl e, k) \<Rightarrow> (k, Inl (System_error msg e))
      | (Inr (v # _), k) \<Rightarrow> (k, Inr v)
      | (Inr [], k) \<Rightarrow> (k, Inl (Undefined Uninit_read)))"

definition get_flag :: "('k, 'z) sock_api_scheme \<Rightarrow> 'k \<Rightarrow> int \<Rightarrow> sockopt \<Rightarrow> string \<Rightarrow> 'k \<times> bool res" where
  "get_flag sys k fd opt msg =
     (case get_opt sys k fd opt msg of (k, r) \<Rightarrow> (k, rbind r (\<lambda>v. Inr (v \<noteq> 0))))"

definition set_so_reuseaddr :: "('k, 'z) sock_api_scheme \<Rightarrow> 'k \<Rightarrow> int \<Rightarrow> bool \<Rightarrow> 'k \<times> unit res" where
  "set_so_reuseaddr sys k fd enable =
     set_opt sys k fd SO_REUSEADDR [of_bool enable] ''setsockopt error for SO_REUSEADDR''"

definition get_so_reuseaddr :: "('k, 'z) sock_api_scheme \<Rightarrow> 'k \<Rightarrow> int \<Rightarrow> 'k \<times> bool res" where
  "get_so_reuseaddr sys k fd = get_flag sys k fd SO_REUSEADDR ''getsockopt error for SO_REUSEADDR''"

definition set_so_reuseport :: "('k, 'z) sock_api_scheme \<Rightarrow> 'k \<Rightarrow> int \<Rightarrow> bool \<Rightarrow> 'k \<times> unit res" where
  "set_so_reuseport sys k fd enable =
     set_opt sys k fd SO_REUSEPORT [of_bool enable] ''setsockopt error for SO_REUSEPORT''"

definition get_so_reuseport :: "('k, 'z) sock_api_scheme \<Rightarrow> 'k \<Rightarrow> int \<Rightarrow> 'k \<times> bool res" where
  "get_so_reuseport sys k fd = get_flag sys k fd SO_REUSEPORT ''getsockopt error for SO_REUSEPORT''"

definition set_so_rcvbuf :: "('k, 'z) sock_api_scheme \<Rightarrow> 'k \<Rightarrow> int \<Rightarrow> int \<Rightarrow> 'k \<times> unit res" where
  "set_so_rcvbuf sys k fd sz =
     set_opt sys k fd SO_RCVBUF [sz] ''setsockopt error for SO_RCVBUF''"

definition get_so_rcvbuf :: "('k, 'z) sock_api_scheme \<Rightarrow> 'k \<Rightarrow> int \<Rightarrow> 'k \<times> int res" where
  "get_so_rcvbuf sys k fd = get_opt sys k fd SO_RCVBUF ''getsockopt error for SO_RCVBUF''"

definition set_so_sndbuf :: "('k, 'z) sock_api_scheme \<Rightarrow> 'k \<Rightarrow> int \<Rightarrow> int \<Rightarrow> 'k \<times> unit res" where
  "set_so_sndbuf sys k fd sz =
     set_opt sys k fd SO_SNDBUF [sz] ''setsockopt error for SO_SNDBUF''"

definition get_so_sndbuf :: "('k, 'z) sock_api_scheme \<Rightarrow> 'k \<Rightarrow> int \<Rightarrow> 'k \<times> int res" where
  "get_so_sndbuf sys k fd = get_opt sys k fd SO_SNDBUF ''getsockopt error for SO_SNDBUF''"

definition set_so_rcvlowat :: "('k, 'z) sock_api_scheme \<Rightarrow> 'k \<Rightarrow> int \<Rightarrow> int \<Rightarrow> 'k \<times> unit res" where
  "set_so_rcvlowat sys k fd sz =
     set_opt sys k fd SO_RCVLOWAT [sz] ''setsockopt error for SO_RCVLOWAT''"

definition get_so_rcvlowat :: "('k, 'z) sock_api_scheme \<Rightarrow> 'k \<Rightarrow> int \<Rightarrow> 'k \<times> int res" where
  "get_so_rcvlowat sys k fd = get_opt sys k fd SO_RCVLOWAT ''getsockopt error for SO_RCVLOWAT''"

definition set_so_sndlowat :: "('k, 'z) sock_api_scheme \<Rightarrow> 'k \<Rightarrow> int \<Rightarrow> int \<Rightarrow> 'k \<times> unit res" where
  "set_so_sndlowat sys k fd sz =
     set_opt sys k fd SO_SNDLOWAT [sz] ''setsockopt error for SO_SNDLOWAT''"

definition get_so_sndlowat :: "('k, 'z) sock_api_scheme \<Rightarrow> 'k \<Rightarrow> int \<Rightarrow> 'k \<times> int res" where
  "get_so_sndlowat sys k fd = get_opt sys k fd SO_SNDLOWAT ''getsockopt error for SO_SNDLOWAT''"

definition set_so_keepalive :: "('k, 'z) sock_api_scheme \<Rightarrow> 'k \<Rightarrow> int \<Rightarrow> bool \<Rightarrow> 'k \<times> unit res" where
  "set_so_keepalive sys k fd enable =
     set_opt sys k fd SO_KEEPALIVE [of_bool enable] ''setsockopt error for SO_KEEPALIVE''"

definition get_so_keepalive :: "('k, 'z) sock_api_scheme \<Rightarrow> 'k \<Rightarrow> int \<Rightarrow> 'k \<times> bool res" where
  "get_so_keepalive sys k fd = get_flag sys k fd SO_KEEPALIVE ''getsockopt error for SO_KEEPALIVE''"

definition set_so_linger :: "('k, 'z) sock_api_scheme \<Rightarrow> 'k \<Rightarrow> int \<Rightarrow> bool \<Rightarrow> int \<Rightarrow> 'k \<times> unit res" where
  "set_so_linger sys k fd l_onoff l_linger =
     set_opt sys k fd SO_LINGER [of_bool l_onoff, l_linger] ''setsockopt error for SO_LINGER''"

definition get_so_linger :: "('k, 'z) sock_api_scheme \<Rightarrow> 'k \<Rightarrow> int \<Rightarrow> 'k \<times> (bool \<times> int) res" where
  "get_so_linger sys k fd =
     (case px_getsockopt sys k fd SO_LINGER of
        (Inl e, k) \<Rightarrow> (k, Inl (System_error ''getsockopt error for SO_LINGER'' e))
      | (Inr (onoff # linger # _), k) \<Rightarrow> (k, Inr (onoff \<noteq> 0, linger))
      | (_, k) \<Rightarrow> (k, Inl (Undefined Uninit_read)))"

definition set_so_broadcast :: "('k, 'z) sock_api_scheme \<Rightarrow> 'k \<Rightarrow> int \<Rightarrow> bool \<Rightarrow> 'k \<times> unit res" where
  "set_so_broadcast sys k fd enable =
     set_opt sys k fd SO_BROADCAST [of_bool enable] ''setsockopt error for SO_BROADCAST''"

definition get_so_broadcast :: "('k, 'z) sock_api_scheme \<Rightarrow> 'k \<Rightarrow> int \<Rightarrow> 'k \<times> bool res" where
  "get_so_broadcast sys k fd = get_flag sys k fd SO_BROADCAST ''getsockopt error for SO_BROADCAST''"

definition set_tcp_nodelay :: "('k, 'z) sock_api_scheme \<Rightarrow> 'k \<Rightarrow> int \<Rightarrow> bool \<Rightarrow> 'k \<times> unit res" where
  "set_tcp_nodelay sys k fd enable =
     set_opt sys k fd TCP_NODELAY [of_bool enable] ''setsockopt error for TCP_NODELAY''"

definition get_tcp_nodelay :: "('k, 'z) sock_api_scheme \<Rightarrow> 'k \<Rightarrow> int \<Rightarrow> 'k \<times> bool res" where
  "get_tcp_nodelay sys k fd = get_flag sys k fd TCP_NODELAY ''getsockopt error for TCP_NODELAY''"

definition get_so_error :: "('k, 'z) sock_api_scheme \<Rightarrow> 'k \<Rightarrow> int \<Rightarrow> 'k \<times> int res" where
  "get_so_error sys k fd = get_opt sys k fd SO_ERROR ''getsockopt error for SO_ERROR''"

section \<open>nsock and nsocktcp\<close>

text \<open>The operations of \<open>nsock\<close> act on the descriptor and the socket part.\<close>

definition nsock_bind ::
  "('k, 'z) sock_api_scheme \<Rightarrow> 'k \<Rightarrow> int \<Rightarrow> sockpart \<Rightarrow> string option \<Rightarrow> int \<Rightarrow> 'k \<times> unit res"
where
  "nsock_bind sys k fd p ip port =
     (case set_ip_port sys (so_family p) ip port of
        Inl e \<Rightarrow> (k, Inl e)
      | Inr addr \<Rightarrow>
          (case set_so_reuseaddr sys k fd True of
             (k, Inl e) \<Rightarrow> (k, Inl e)
           | (k, Inr _) \<Rightarrow>
               (case px_bind sys k fd addr of
                  (Some e, k) \<Rightarrow> (k, Inl (System_error ''bind error'' e))
                | (None, k) \<Rightarrow> (k, Inr ()))))"

definition nsock_bind_unix ::
  "('k, 'z) sock_api_scheme \<Rightarrow> 'k \<Rightarrow> int \<Rightarrow> sockpart \<Rightarrow> string \<Rightarrow> bool \<Rightarrow> 'k \<times> sockpart \<times> unit res"
where
  "nsock_bind_unix sys k fd p path rem =
     (let k = (if rem then px_unlink sys k path else k);
          p = p\<lparr>so_peer := (path, -1)\<rparr> in
      case px_bind sys k fd (set_path sys path) of
        (Some e, k) \<Rightarrow> (k, p, Inl (System_error ''bind error'' e))
      | (None, k) \<Rightarrow> (k, p, Inr ()))"

text \<open>\<open>nsock::move\<close> without the base.\<close>

definition sockpart_move :: "sockpart \<Rightarrow> sockpart \<Rightarrow> sockpart" where
  "sockpart_move this other = this\<lparr>so_family := so_family other, so_peer := so_peer other\<rparr>"

definition tcp_new :: "('k, 'z) sock_api_scheme \<Rightarrow> 'k \<Rightarrow> int \<Rightarrow> family \<Rightarrow> 'k \<times> nsocktcp res" where
  "tcp_new sys k fd f =
     (case nstream_new sys k fd of
        (k, Inl e) \<Rightarrow> (k, Inl e)
      | (k, Inr s) \<Rightarrow>
          (k, Inr (nstream.extend s \<lparr>tcp_sock = \<lparr>so_family = f, so_peer = ([], 0)\<rparr>\<rparr>)))"

definition tcp_move :: "nsocktcp \<Rightarrow> nsocktcp \<Rightarrow> nsocktcp \<times> nsocktcp" where
  "tcp_move this other =
     (let (this, other) = nio_move this other;
          this = this\<lparr>tcp_sock := sockpart_move (tcp_sock this) (tcp_sock other)\<rparr>
      in nstream_move False this other)"

definition tcp_listen :: "('k, 'z) sock_api_scheme \<Rightarrow> 'k \<Rightarrow> nsocktcp \<Rightarrow> int \<Rightarrow> 'k \<times> unit res" where
  "tcp_listen sys k s backlog =
     (case px_listen sys k (io_fd s) backlog of
        (Some e, k) \<Rightarrow> (k, Inl (System_error ''listen error'' e))
      | (None, k) \<Rightarrow> (k, Inr ()))"

definition tcp_connect ::
  "('k, 'z) sock_api_scheme \<Rightarrow> 'k \<Rightarrow> nsocktcp \<Rightarrow> string \<Rightarrow> int \<Rightarrow> 'k \<times> nsocktcp \<times> bool res"
where
  "tcp_connect sys k s ip port =
     (let s = s\<lparr>tcp_sock := (tcp_sock s)\<lparr>so_peer := (ip, port)\<rparr>\<rparr> in
      case set_ip_port sys (so_family (tcp_sock s)) (Some ip) port of
        Inl e \<Rightarrow> (k, s, Inl e)
      | Inr addr \<Rightarrow>
          (case px_connect sys k (io_fd s) addr of
             (None, k) \<Rightarrow> (k, s, Inr True)
           | (Some e, k) \<Rightarrow> (k, s, Inr (e = EINPROGRESS))))"

definition tcp_connect_unix ::
  "('k, 'z) sock_api_scheme \<Rightarrow> 'k \<Rightarrow> nsocktcp \<Rightarrow> string \<Rightarrow> 'k \<times> nsocktcp \<times> bool res"
where
  "tcp_connect_unix sys k s path =
     (let s = s\<lparr>tcp_sock := (tcp_sock s)\<lparr>so_peer := (path, -1)\<rparr>\<rparr> in
      case px_connect sys k (io_fd s) (set_path sys path) of
        (None, k) \<Rightarrow> (k, s, Inr True)
      | (Some e, k) \<Rightarrow> (k, s, Inr (e = EINPROGRESS)))"

definition check_connect :: "('k, 'z) sock_api_scheme \<Rightarrow> 'k \<Rightarrow> nsocktcp \<Rightarrow> 'k \<times> bool res" where
  "check_connect sys k s =
     (case get_so_error sys k (io_fd s) of (k, r) \<Rightarrow> (k, rbind r (\<lambda>e. Inr (e = 0))))"

text \<open>When an exception leaves \<open>accept\<close> the sockets accepted so far are destroyed.\<close>

fun accept_loop ::
  "('k, 'z) sock_api_scheme \<Rightarrow> 'k \<Rightarrow> nsocktcp \<Rightarrow> nat \<Rightarrow> nsocktcp list \<Rightarrow> 'k \<times> nsocktcp list res"
where
  "accept_loop sys k s 0 acc = (k, Inr acc)"
| "accept_loop sys k s (Suc n) acc =
     (case px_accept sys k (io_fd s) of
        (Inl e, k) \<Rightarrow>
          if e = EAGAIN \<or> e = EWOULDBLOCK then (k, Inr acc)
          else (fold (\<lambda>t k. nio_destroy sys k t) acc k, Inl (System_error ''accept error'' e))
      | (Inr fd, k) \<Rightarrow>
          (case tcp_new sys k fd (so_family (tcp_sock s)) of
             (k, Inl e) \<Rightarrow> (fold (\<lambda>t k. nio_destroy sys k t) acc k, Inl e)
           | (k, Inr t) \<Rightarrow>
               (let t = (if so_family (tcp_sock s) = local_family
                         then t\<lparr>tcp_sock := (tcp_sock t)\<lparr>so_peer := so_peer (tcp_sock s)\<rparr>\<rparr> else t)
                in accept_loop sys k s n (acc @ [t]))))"

definition tcp_accept :: "('k, 'z) sock_api_scheme \<Rightarrow> 'k \<Rightarrow> nsocktcp \<Rightarrow> int \<Rightarrow> 'k \<times> nsocktcp list res" where
  "tcp_accept sys k s batch = accept_loop sys k s (nat batch) []"

text \<open>The cases of the switch fall through.\<close>

definition tcp_shutdown :: "('k, 'z) sock_api_scheme \<Rightarrow> 'k \<Rightarrow> nsocktcp \<Rightarrow> shut_mode \<Rightarrow> 'k" where
  "tcp_shutdown sys k s howto =
     (let k = (if howto = shut_rd then px_shutdown sys k (io_fd s) shut_rd else k);
          k = (if howto = shut_rd \<or> howto = shut_wr then px_shutdown sys k (io_fd s) shut_wr else k)
      in px_shutdown sys k (io_fd s) shut_rdwr)"

definition tcp_sockname :: "('k, 'z) sock_api_scheme \<Rightarrow> 'k \<Rightarrow> nsocktcp \<Rightarrow> 'k \<times> endpoint res" where
  "tcp_sockname sys k s =
     (case tcp_sock s of p \<Rightarrow>
        if so_family p = local_family then (k, Inr (fst (so_peer p), snd (so_peer p), local_family))
        else (case px_getsockname sys k (io_fd s) of
                (Inl e, k) \<Rightarrow> (k, Inl (System_error ''getsockname error'' e))
              | (Inr addr, k) \<Rightarrow> (k, query_ip_port_family sys addr)))"

definition tcp_peername :: "('k, 'z) sock_api_scheme \<Rightarrow> 'k \<Rightarrow> nsocktcp \<Rightarrow> 'k \<times> endpoint res" where
  "tcp_peername sys k s =
     (case tcp_sock s of p \<Rightarrow>
        if so_family p = local_family then (k, Inr (fst (so_peer p), snd (so_peer p), local_family))
        else (case px_getpeername sys k (io_fd s) of
                (Inl e, k) \<Rightarrow> (k, Inl (System_error ''getsockname error'' e))
              | (Inr addr, k) \<Rightarrow> (k, query_ip_port_family sys addr)))"

definition tcp_connpeer :: "nsocktcp \<Rightarrow> endpoint" where
  "tcp_connpeer s = (fst (so_peer (tcp_sock s)), snd (so_peer (tcp_sock s)), so_family (tcp_sock s))"

section \<open>nsockudp\<close>

definition udp_new :: "('k, 'z) sock_api_scheme \<Rightarrow> 'k \<Rightarrow> int \<Rightarrow> family \<Rightarrow> 'k \<times> nsockudp res" where
  "udp_new sys k fd f =
     (case nio_new sys k fd of
        (k, Inl e) \<Rightarrow> (k, Inl e)
      | (k, Inr s) \<Rightarrow> (k, Inr (nio.extend s \<lparr>udp_sock = \<lparr>so_family = f, so_peer = ([], 0)\<rparr>\<rparr>)))"

text \<open>
  \<open>recv\<close> compares the result with 0, not with -1: a failed \<open>recvfrom\<close> goes on with -1 as the
  number of bytes and with an address nobody filled in; an empty datagram is thrown as an error,
  with whatever \<open>errno\<close> holds.
\<close>

definition udp_recv :: "('k, 'z) sock_api_scheme \<Rightarrow> 'k \<Rightarrow> nsockudp \<Rightarrow> 'k \<times> nsockudp \<times> endpoint res" where
  "udp_recv sys k s =
     (let b = io_rbuf s; p = udp_sock s in
      case px_recvfrom sys k (io_fd s) (b_cap b - b_offset b) of
        (Inl e, k) \<Rightarrow>
          (k, s\<lparr>io_rbuf := b\<lparr>b_offset := b_offset b - 1\<rparr>\<rparr>,
           if so_family p = local_family then Inr (fst (so_peer p), -1, local_family)
           else Inl (Undefined Uninit_read))
      | (Inr (bs, addr), k) \<Rightarrow>
          if bs = [] then (k, s, Inl (System_error ''recvfrom error'' (px_errno sys k)))
          else (case rbind (the_mem b) (\<lambda>m. blit_at m (b_offset b) bs) of
                  Inl e \<Rightarrow> (k, s, Inl e)
                | Inr m \<Rightarrow>
                    (k, s\<lparr>io_rbuf := b\<lparr>b_mem := Some m, b_offset := b_offset b + int (length bs)\<rparr>\<rparr>,
                     if so_family p = local_family then Inr (fst (so_peer p), -1, local_family)
                     else query_ip_port_family sys addr)))"

text \<open>The common end of \<open>send\<close> and \<open>send_unix\<close>; a failed \<open>sendto\<close> consumes -1, that is all, bytes.\<close>

definition udp_sendto ::
  "('k, 'z) sock_api_scheme \<Rightarrow> 'k \<Rightarrow> nsockudp \<Rightarrow> sockaddr \<Rightarrow> 'k \<times> nsockudp \<times> unit res"
where
  "udp_sendto sys k s addr =
     (let b = io_wbuf s in
      case rbind (the_mem b) (\<lambda>m. slice_at m (b_start b) (buf_size b)) of
        Inl e \<Rightarrow> (k, s, Inl e)
      | Inr bs \<Rightarrow>
          (case px_sendto sys k (io_fd s) bs addr of
             (r, k) \<Rightarrow>
               let ret = (case r of Inl e \<Rightarrow> -1 | Inr n \<Rightarrow> n) in
               if ret = 0 then (k, s, Inl (System_error ''sendto error'' (px_errno sys k)))
               else (case consume b ret of
                       Inl e \<Rightarrow> (k, s, Inl e)
                     | Inr b \<Rightarrow> (k, s\<lparr>io_wbuf := b\<rparr>, Inr ()))))"

definition udp_send ::
  "('k, 'z) sock_api_scheme \<Rightarrow> 'k \<Rightarrow> nsockudp \<Rightarrow> string option \<Rightarrow> int \<Rightarrow> 'k \<times> nsockudp \<times> unit res"
where
  "udp_send sys k s ip port =
     (case set_ip_port sys (so_family (udp_sock s)) ip port of
        Inl e \<Rightarrow> (k, s, Inl e)
      | Inr addr \<Rightarrow> udp_sendto sys k s addr)"

text \<open>
  \<open>send_unix\<close> does not clear the address first: a path that fills \<open>sun_path\<close> up to its last byte
  leaves that byte uninitialised for \<open>SUN_LEN\<close> to read.
\<close>

definition udp_send_unix ::
  "('k, 'z) sock_api_scheme \<Rightarrow> 'k \<Rightarrow> nsockudp \<Rightarrow> string \<Rightarrow> 'k \<times> nsockudp \<times> unit res"
where
  "udp_send_unix sys k s path =
     (if px_sun_size sys - 1 \<le> length (takeWhile (\<lambda>c. c \<noteq> NUL) path)
      then (k, s, Inl (Undefined Uninit_read))
      else udp_sendto sys k s (set_path sys path))"

definition udp_move :: "nsockudp \<Rightarrow> nsockudp \<Rightarrow> nsockudp \<times> nsockudp" where
  "udp_move this other =
     (let (this, other) = nio_move this other in
      (this\<lparr>udp_sock := sockpart_move (udp_sock this) (udp_sock other)\<rparr>, other))"

section \<open>Factories\<close>

definition get_nsocktcp :: "('k, 'z) sock_api_scheme \<Rightarrow> 'k \<Rightarrow> family \<Rightarrow> 'k \<times> nsocktcp res" where
  "get_nsocktcp sys k f =
     (case px_socket sys k f SOCK_STREAM of
        (Inl e, k) \<Rightarrow> (k, Inl (System_error ''socket error'' e))
      | (Inr fd, k) \<Rightarrow> tcp_new sys k fd f)"

definition get_nsockudp :: "('k, 'z) sock_api_scheme \<Rightarrow> int \<Rightarrow> 'k \<Rightarrow> family \<Rightarrow> 'k \<times> nsockudp res" where
  "get_nsockudp sys udp_buffer_size k f =
     (case px_socket sys k f SOCK_DGRAM of
        (Inl e, k) \<Rightarrow> (k, Inl (System_error ''socket error'' e))
      | (Inr fd, k) \<Rightarrow>
          (case udp_new sys k fd f of
             (k, Inl e) \<Rightarrow> (k, Inl e)
           | (k, Inr s) \<Rightarrow>
               (k, rbind (resize (io_rbuf s) udp_buffer_size) (\<lambda>r.
                   rbind (resize (io_wbuf s) udp_buffer_size) (\<lambda>w.
                   Inr (s\<lparr>io_rbuf := r, io_wbuf := w\<rparr>))))))"

text \<open>Two streams over two descriptors; the first is destroyed when the second cannot be made.\<close>

definition make_streams :: "('k, 'z) sock_api_scheme \<Rightarrow> 'k \<Rightarrow> int \<Rightarrow> int \<Rightarrow> 'k \<times> nstream list res" where
  "make_streams sys k fdr fdw =
     (case nstream_new sys k fdr of
        (k, Inl e) \<Rightarrow> (k, Inl e)
      | (k, Inr r) \<Rightarrow>
          (case nstream_new sys k fdw of
             (k, Inl e) \<Rightarrow> (nio_destroy sys k r, Inl e)
           | (k, Inr w) \<Rightarrow> (k, Inr [r, w])))"

definition get_pipes :: "('k, 'z) sock_api_scheme \<Rightarrow> 'k \<Rightarrow> 'k \<times> nstream list res" where
  "get_pipes sys k =
     (case px_pipe sys k of
        (Inl e, k) \<Rightarrow> (k, Inl (System_error ''pipe error'' e))
      | (Inr (r, w), k) \<Rightarrow> make_streams sys k r w)"

definition get_fifos :: "('k, 'z) sock_api_scheme \<Rightarrow> 'k \<Rightarrow> string \<Rightarrow> 'k \<times> nstream list res" where
  "get_fifos sys k path =
     (case px_mkfifo sys k path of
        (r, k) \<Rightarrow>
          if r \<noteq> None \<and> r \<noteq> Some EEXIST then (k, Inl (System_error ''mkfifo error'' (the r)))
          else (case px_open_rd sys k path of
                  (Inl e, k) \<Rightarrow> (k, Inl (System_error ''open error'' e))
                | (Inr fdr, k) \<Rightarrow>
                    (case px_open_wr sys k path of
                       (Inl e, k) \<Rightarrow> (k, Inl (System_error ''open error'' e))
                     | (Inr fdw, k) \<Rightarrow> make_streams sys k fdr fdw)))"

section \<open>Helper lemmas\<close>

lemma htons_htons [simp]: "htons (htons w) = w"
  unfolding htons_def
  by (rule bit_word_eqI) (auto simp: bit_or_iff bit_push_bit_iff bit_drop_bit_eq bit_imp_le_length)

text \<open>Boolean options: the kernel answers with a value that is zero exactly for false.\<close>

definition opt_kernel ::
  "('k, 'z) sock_api_scheme \<Rightarrow> int \<Rightarrow> ('k \<Rightarrow> sockopt \<Rightarrow> int list) \<Rightarrow> bool"
where
  "opt_kernel sys fd opts \<longleftrightarrow>
     (\<forall>k opt v. \<exists>k'. px_setsockopt sys k fd opt v = (None, k') \<and>
        (\<forall>opt'. opts k' opt' = (if opt' = opt then v else opts k opt'))) \<and>
     (\<forall>k opt v vs. opts k opt = v # vs \<longrightarrow>
        (\<exists>w ws. px_getsockopt sys k fd opt = (Inr (w # ws), k) \<and> (w = 0 \<longleftrightarrow> v = 0)))"

lemma set_opt_ok:
  assumes "opt_kernel sys fd opts"
  shows "\<exists>k'. set_opt sys k fd opt v msg = (k', Inr ()) \<and> opts k' = (opts k)(opt := v)"
proof -
  obtain k' where k': "px_setsockopt sys k fd opt v = (None, k')"
      "\<forall>opt'. opts k' opt' = (if opt' = opt then v else opts k opt')"
    using assms unfolding opt_kernel_def by blast
  then have "opts k' = (opts k)(opt := v)"
    by (intro ext) simp
  with k'(1) show ?thesis by (simp add: set_opt_def)
qed

lemma get_flag_ok:
  assumes "opt_kernel sys fd opts" and "opts k opt = v # vs"
  shows "get_flag sys k fd opt msg = (k, Inr (v \<noteq> 0))"
proof -
  obtain w ws where "px_getsockopt sys k fd opt = (Inr (w # ws), k)" "w = 0 \<longleftrightarrow> v = 0"
    using assms unfolding opt_kernel_def by blast
  then show ?thesis by (simp add: get_flag_def get_opt_def)
qed

lemma tcp_new_ok:
  assumes "flags_kernel sys flags" and "flags k fd = Some w"
  shows "\<exists>k' t. tcp_new sys k fd f = (k', Inr t) \<and>
           k' = snd (px_setfl sys k fd (or w (px_nonblock sys))) \<and>
           flags k' = (flags k)(fd := Some (or w (px_nonblock sys))) \<and>
           io_fd t = fd \<and> \<not> io_closed t \<and> contents (io_rbuf t) = [] \<and> contents (io_wbuf t) = [] \<and>
           so_family (tcp_sock t) = f"
proof -
  have "\<exists>k'. px_setfl sys k fd (or w (px_nonblock sys)) = (None, k') \<and>
      flags k' = (flags k)(fd := Some (or w (px_nonblock sys)))"
    using assms by (simp add: flags_kernel_def)
  then obtain k' where k': "px_setfl sys k fd (or w (px_nonblock sys)) = (None, k')"
      "flags k' = (flags k)(fd := Some (or w (px_nonblock sys)))"
    by blast
  moreover have "set_io_nonblock sys k fd = (k', Inr ())"
    using assms k'(1) by (simp add: flags_kernel_def set_io_nonblock_def)
  ultimately show ?thesis
    by (simp add: tcp_new_def nstream_new_def nio_new_def buffer_default_def buffer_new_def
        nstream.defs nio.defs contents_def)
qed

text \<open>A listening socket: \<open>backlog k\<close> are the descriptors the next accepts return.\<close>

definition accept_kernel ::
  "('k, 'z) sock_api_scheme \<Rightarrow> int \<Rightarrow> ('k \<Rightarrow> int list) \<Rightarrow> ('k \<Rightarrow> int \<Rightarrow> 32 word option) \<Rightarrow> bool"
where
  "accept_kernel sys fd backlog flags \<longleftrightarrow>
     flags_kernel sys flags \<and> (\<forall>k x w. backlog (snd (px_setfl sys k x w)) = backlog k) \<and>
     (\<forall>k. case backlog k of
            [] \<Rightarrow> px_accept sys k fd = (Inl EAGAIN, k)
          | x # rest \<Rightarrow> \<exists>k' w. px_accept sys k fd = (Inr x, k') \<and> backlog k' = rest \<and>
              flags k' = (flags k)(x := Some w))"

lemma accept_kernelD:
  assumes "accept_kernel sys fd backlog flags"
  shows "case backlog k of
      [] \<Rightarrow> px_accept sys k fd = (Inl EAGAIN, k)
    | x # rest \<Rightarrow> \<exists>k' w. px_accept sys k fd = (Inr x, k') \<and> backlog k' = rest \<and>
        flags k' = (flags k)(x := Some w)"
  using assms unfolding accept_kernel_def by blast

text \<open>What holds of an accepted socket.\<close>

definition accepted where
  "accepted sys flags s k t \<longleftrightarrow>
     \<not> io_closed t \<and> contents (io_rbuf t) = [] \<and> contents (io_wbuf t) = [] \<and>
     so_family (tcp_sock t) = so_family (tcp_sock s) \<and>
     (so_family (tcp_sock s) = local_family \<longrightarrow> so_peer (tcp_sock t) = so_peer (tcp_sock s)) \<and>
     (\<exists>w. flags k (io_fd t) = Some (or w (px_nonblock sys)))"

lemma accept_loop_ok:
  assumes "accept_kernel sys (io_fd s) backlog flags" and "distinct (map io_fd acc @ backlog k)"
    and "list_all (accepted sys flags s k) acc"
  shows "\<exists>k' ts. accept_loop sys k s n acc = (k', Inr (acc @ ts)) \<and>
           map io_fd ts = take n (backlog k) \<and> backlog k' = drop n (backlog k) \<and>
           list_all (accepted sys flags s k') (acc @ ts)"
  using assms(2,3)
proof (induction n arbitrary: k acc)
  case 0
  then show ?case by (intro exI [of _ k] exI [of _ "[]"]) simp
next
  case (Suc n)
  show ?case
  proof (cases "backlog k")
    case Nil
    then have "px_accept sys k (io_fd s) = (Inl EAGAIN, k)"
      using accept_kernelD [OF assms(1), of k] by simp
    with Nil Suc.prems show ?thesis
      by (intro exI [of _ k] exI [of _ "[]"]) simp
  next
    case (Cons x rest)
    then obtain k1 w where k1: "px_accept sys k (io_fd s) = (Inr x, k1)" "backlog k1 = rest"
        "flags k1 = (flags k)(x := Some w)"
      using accept_kernelD [OF assms(1), of k] by auto
    obtain k2 t where t: "tcp_new sys k1 x (so_family (tcp_sock s)) = (k2, Inr t)"
        "k2 = snd (px_setfl sys k1 x (or w (px_nonblock sys)))"
        "flags k2 = (flags k1)(x := Some (or w (px_nonblock sys)))"
        "io_fd t = x" "\<not> io_closed t" "contents (io_rbuf t) = []" "contents (io_wbuf t) = []"
        "so_family (tcp_sock t) = so_family (tcp_sock s)"
      using tcp_new_ok [of sys flags k1 x w "so_family (tcp_sock s)"] assms(1) k1(3)
      by (auto simp: accept_kernel_def)
    define t' where "t' = (if so_family (tcp_sock s) = local_family
        then t\<lparr>tcp_sock := (tcp_sock t)\<lparr>so_peer := so_peer (tcp_sock s)\<rparr>\<rparr> else t)"
    have b2: "backlog k2 = rest"
      using t(2) k1(2) assms(1) by (simp add: accept_kernel_def)
    have fd: "io_fd t' = x" by (simp add: t'_def t(4))
    have "accepted sys flags s k2 t'"
      using t by (auto simp: accepted_def t'_def)
    moreover have "list_all (accepted sys flags s k2) acc"
      using Suc.prems Cons t(3) k1(3) unfolding list_all_iff accepted_def by auto
    ultimately have "list_all (accepted sys flags s k2) (acc @ [t'])" by simp
    moreover have "distinct (map io_fd (acc @ [t']) @ backlog k2)"
      using Suc.prems(1) Cons fd b2 by auto
    ultimately obtain k' ts where "accept_loop sys k2 s n (acc @ [t']) = (k', Inr ((acc @ [t']) @ ts))"
        "map io_fd ts = take n (backlog k2)" "backlog k' = drop n (backlog k2)"
        "list_all (accepted sys flags s k') ((acc @ [t']) @ ts)"
      using Suc.IH [of "acc @ [t']" k2] by blast
    then show ?thesis
      using Cons k1(1) t(1) b2 fd
      by (intro exI [of _ k'] exI [of _ "t' # ts"]) (simp add: t'_def [symmetric])
  qed
qed

lemma wbuf_bytes:
  assumes "buf_ok b"
  shows "rbind (the_mem b) (\<lambda>m. slice_at m (b_start b) (buf_size b)) = Inr (contents b)"
proof -
  obtain pre z where "buf_shape b pre (contents b) z"
    using assms by (rule buf_ok_shape)
  then show ?thesis
    by (simp add: the_mem_def slice_at_def buf_shape_def buf_size_def)
qed

lemma drop_last_byte:
  assumes "buf_shape b pre data z" and "data \<noteq> []"
  shows "contents (b\<lparr>b_offset := b_offset b - 1\<rparr>) = butlast data"
proof -
  have "nat (int (length pre) + int (length data) - 1 - int (length pre)) = length data - 1"
    by simp
  then show ?thesis
    using assms by (simp add: contents_def buf_shape_def butlast_conv_take)
qed

section \<open>A concrete kernel\<close>

record sock_state =
  ss_flags :: "int \<Rightarrow> 32 word option"
  ss_backlog :: "int list"
  ss_opts :: "sockopt \<Rightarrow> int list"
  ss_open :: "bool \<times> bool"
  ss_dgrams :: "(errno + char list \<times> sockaddr) list"
  ss_watch :: "int \<Rightarrow> int \<Rightarrow> 32 word option"
  ss_ready :: "(int \<times> 32 word) list list"

definition ss_accept :: "sock_state \<Rightarrow> int \<Rightarrow> (errno + int) \<times> sock_state" where
  "ss_accept k fd =
     (case ss_backlog k of [] \<Rightarrow> (Inl EAGAIN, k)
      | x # rest \<Rightarrow> (Inr x, k\<lparr>ss_backlog := rest, ss_flags := (ss_flags k)(x := Some 2)\<rparr>))"

definition ss_shutdown :: "sock_state \<Rightarrow> int \<Rightarrow> shut_mode \<Rightarrow> sock_state" where
  "ss_shutdown k fd m =
     k\<lparr>ss_open := (fst (ss_open k) \<and> m = shut_wr, snd (ss_open k) \<and> m = shut_rd)\<rparr>"

definition ss_recvfrom :: "sock_state \<Rightarrow> int \<Rightarrow> int \<Rightarrow> (errno + char list \<times> sockaddr) \<times> sock_state" where
  "ss_recvfrom k fd n =
     (case ss_dgrams k of [] \<Rightarrow> (Inl EAGAIN, k)
      | Inl e # rest \<Rightarrow> (Inl e, k\<lparr>ss_dgrams := rest\<rparr>)
      | Inr (bs, a) # rest \<Rightarrow> (Inr (take (nat n) bs, a), k\<lparr>ss_dgrams := rest\<rparr>))"

definition sock_sys :: "sock_state sock_api" where
  "sock_sys = \<lparr>
     px_getfl = (\<lambda>k fd. (case ss_flags k fd of None \<Rightarrow> Inl EBADF | Some w \<Rightarrow> Inr w, k)),
     px_setfl = (\<lambda>k fd w. (None, k\<lparr>ss_flags := (ss_flags k)(fd := Some w)\<rparr>)),
     px_nonblock = 2048,
     px_close = (\<lambda>k fd. k\<lparr>ss_flags := (ss_flags k)(fd := None)\<rparr>),
     px_read = (\<lambda>k fd n. (Inl EAGAIN, k)), px_write = (\<lambda>k fd bs. (Inl EAGAIN, k)),
     px_errno = (\<lambda>k. EAGAIN),
     px_pton = (\<lambda>f s. if s = ''1.2.3.4'' then Inr (Some [CHR 0x01, CHR 0x02, CHR 0x03, CHR 0x04]) else Inr None),
     px_ntop = (\<lambda>f bs. Inr ''1.2.3.4''),
     px_sun_size = 108,
     px_socket = (\<lambda>k f t. (Inr 7, k\<lparr>ss_flags := (ss_flags k)(7 := Some 2)\<rparr>)), px_bind = (\<lambda>k fd a. (None, k)), px_listen = (\<lambda>k fd n. (None, k)),
     px_connect = (\<lambda>k fd a. (Some EINPROGRESS, k)), px_accept = ss_accept, px_shutdown = ss_shutdown,
     px_setsockopt = (\<lambda>k fd opt v. (None, k\<lparr>ss_opts := (ss_opts k)(opt := v)\<rparr>)),
     px_getsockopt = (\<lambda>k fd opt. (Inr (ss_opts k opt), k)),
     px_getsockname = (\<lambda>k fd. (Inl EBADF, k)), px_getpeername = (\<lambda>k fd. (Inl EBADF, k)),
     px_recvfrom = ss_recvfrom,
     px_sendto = (\<lambda>k fd bs a. (case ss_dgrams k of [] \<Rightarrow> Inl EAGAIN | _ \<Rightarrow> Inr (int (length bs)), k)),
     px_unlink = (\<lambda>k path. k), px_pipe = (\<lambda>k. (Inr (7, 8), k\<lparr>ss_flags := (ss_flags k)(7 := Some 2, 8 := Some 2)\<rparr>)), px_mkfifo = (\<lambda>k path. (Some EEXIST, k)),
     px_open_rd = (\<lambda>k path. (Inr 7, k)), px_open_wr = (\<lambda>k path. (Inr 8, k))\<rparr>"

definition sample_sock_state :: sock_state where
  "sample_sock_state = \<lparr>ss_flags = (\<lambda>_. None), ss_backlog = [7, 8, 9], ss_opts = (\<lambda>_. []),
     ss_open = (True, True), ss_dgrams = [Inr (''hey'', Sa_un ''peer'')],
     ss_watch = (\<lambda>_ _. None), ss_ready = []\<rparr>"

definition sample_tcp :: nsocktcp where
  "sample_tcp = \<lparr>io_fd = 3, io_closed = False, io_rbuf = sample_buffer, io_wbuf = sample_buffer,
     io_evlp = None, st_reset = False, st_eof = False, st_eop = False,
     tcp_sock = \<lparr>so_family = local_family, so_peer = (''/tmp/s'', -1)\<rparr>\<rparr>"

definition sample_udp :: nsockudp where
  "sample_udp = \<lparr>io_fd = 4, io_closed = False, io_rbuf = sample_buffer, io_wbuf = sample_buffer,
     io_evlp = None, udp_sock = \<lparr>so_family = local_family, so_peer = (''/tmp/u'', -1)\<rparr>\<rparr>"

lemma sock_flags: "flags_kernel sock_sys ss_flags"
  by (auto simp: flags_kernel_def sock_sys_def)

lemma sock_accept: "accept_kernel sock_sys fd ss_backlog ss_flags"
  using sock_flags by (auto simp: accept_kernel_def sock_sys_def ss_accept_def split: list.split)

lemma sock_opts: "opt_kernel sock_sys fd ss_opts"
  by (auto simp: opt_kernel_def sock_sys_def)

section \<open>Properties\<close>

text \<open>C34. A printable address given to \<open>set_ip_port\<close> is what \<open>query_ip_port_family\<close> reports of the
  socket address, with the family, and with the port reduced to 16 bits.\<close>

theorem ip_port_roundtrip:
  assumes "f \<noteq> local_family" and "px_pton sys f ip = Inr (Some bytes)" and "px_ntop sys f bytes = Inr ip"
  shows "rbind (set_ip_port sys f (Some ip) port) (query_ip_port_family sys) = Inr (ip, port mod 65536, f)"
proof -
  have "uint (word_of_int port :: 16 word) = port mod 65536"
    by (simp add: uint_word_of_int)
  then show ?thesis
    using assms by (cases f) (simp_all add: set_ip_port_def query_ip_port_family_def)
qed

theorem ip_port_roundtrip_witness:
  "rbind (set_ip_port sock_sys ipv4 (Some ''1.2.3.4'') 8884) (query_ip_port_family sock_sys)
   = Inr (''1.2.3.4'', 8884, ipv4)"
  using ip_port_roundtrip [of ipv4 sock_sys "''1.2.3.4''" _ 8884] by (simp add: sock_sys_def)

text \<open>The boolean socket options are independent and read back as they were set: after all of
  them have been set in turn, each getter returns the value its own setter was given.\<close>

theorem options_roundtrip:
  assumes "opt_kernel sys fd opts"
  shows "\<exists>k1 k2 k3 k4 k5.
      set_so_reuseaddr sys k fd e1 = (k1, Inr ()) \<and> set_so_reuseport sys k1 fd e2 = (k2, Inr ()) \<and>
      set_so_keepalive sys k2 fd e3 = (k3, Inr ()) \<and> set_so_broadcast sys k3 fd e4 = (k4, Inr ()) \<and>
      set_tcp_nodelay sys k4 fd e5 = (k5, Inr ()) \<and>
      get_so_reuseaddr sys k5 fd = (k5, Inr e1) \<and> get_so_reuseport sys k5 fd = (k5, Inr e2) \<and>
      get_so_keepalive sys k5 fd = (k5, Inr e3) \<and> get_so_broadcast sys k5 fd = (k5, Inr e4) \<and>
      get_tcp_nodelay sys k5 fd = (k5, Inr e5)"
proof -
  note s = set_opt_ok [OF assms] and g = get_flag_ok [OF assms, of _ _ "of_bool _" "[]"]
  obtain k1 where k1: "set_so_reuseaddr sys k fd e1 = (k1, Inr ())" "opts k1 = (opts k)(SO_REUSEADDR := [of_bool e1])"
    using s unfolding set_so_reuseaddr_def by blast
  obtain k2 where k2: "set_so_reuseport sys k1 fd e2 = (k2, Inr ())" "opts k2 = (opts k1)(SO_REUSEPORT := [of_bool e2])"
    using s unfolding set_so_reuseport_def by blast
  obtain k3 where k3: "set_so_keepalive sys k2 fd e3 = (k3, Inr ())" "opts k3 = (opts k2)(SO_KEEPALIVE := [of_bool e3])"
    using s unfolding set_so_keepalive_def by blast
  obtain k4 where k4: "set_so_broadcast sys k3 fd e4 = (k4, Inr ())" "opts k4 = (opts k3)(SO_BROADCAST := [of_bool e4])"
    using s unfolding set_so_broadcast_def by blast
  obtain k5 where k5: "set_tcp_nodelay sys k4 fd e5 = (k5, Inr ())" "opts k5 = (opts k4)(TCP_NODELAY := [of_bool e5])"
    using s unfolding set_tcp_nodelay_def by blast
  have "get_so_reuseaddr sys k5 fd = (k5, Inr e1)" "get_so_reuseport sys k5 fd = (k5, Inr e2)"
      "get_so_keepalive sys k5 fd = (k5, Inr e3)" "get_so_broadcast sys k5 fd = (k5, Inr e4)"
      "get_tcp_nodelay sys k5 fd = (k5, Inr e5)"
    unfolding get_so_reuseaddr_def get_so_reuseport_def get_so_keepalive_def get_so_broadcast_def
      get_tcp_nodelay_def by (simp_all add: g k5 k4 k3 k2 k1)
  with k1(1) k2(1) k3(1) k4(1) k5(1) show ?thesis by blast
qed

theorem options_roundtrip_witness:
  "\<exists>k1 k2 k3 k4 k5.
      set_so_reuseaddr sock_sys sample_sock_state 3 True = (k1, Inr ()) \<and>
      set_so_reuseport sock_sys k1 3 False = (k2, Inr ()) \<and>
      set_so_keepalive sock_sys k2 3 True = (k3, Inr ()) \<and>
      set_so_broadcast sock_sys k3 3 False = (k4, Inr ()) \<and>
      set_tcp_nodelay sock_sys k4 3 True = (k5, Inr ()) \<and>
      get_so_reuseport sock_sys k5 3 = (k5, Inr False) \<and> get_so_keepalive sock_sys k5 3 = (k5, Inr True)"
  using options_roundtrip [OF sock_opts, of sample_sock_state 3 True False True False True] by blast

text \<open>\<open>accept\<close> takes the connections that wait, in order and at most \<open>batch\<close> of them, and leaves
  the others; every accepted socket is open, non-blocking, has empty buffers and the listener's
  family, and on a unix socket the listener's path.\<close>

theorem accept_takes_backlog:
  assumes "accept_kernel sys (io_fd s) backlog flags" and "distinct (backlog k)"
  shows "\<exists>k' ts. tcp_accept sys k s batch = (k', Inr ts) \<and>
           map io_fd ts = take (nat batch) (backlog k) \<and> backlog k' = drop (nat batch) (backlog k) \<and>
           list_all (accepted sys flags s k') ts"
  using accept_loop_ok [of sys s backlog flags "[]" k "nat batch"] assms by (simp add: tcp_accept_def)

theorem accept_takes_backlog_witness:
  "\<exists>k' ts. tcp_accept sock_sys sample_sock_state sample_tcp 2 = (k', Inr ts) \<and>
     map io_fd ts = [7, 8] \<and> ss_backlog k' = [9] \<and> list_all (accepted sock_sys ss_flags sample_tcp k') ts"
  using accept_takes_backlog [OF sock_accept, of sample_sock_state sample_tcp 2]
  by (simp add: sample_sock_state_def numeral_2_eq_2)

text \<open>The cases of \<open>shutdown\<close> fall through: whatever the mode, both directions of the connection
  end up shut, so a half-close asked for with \<open>shut_wr\<close> also stops the reading side.\<close>

definition shutdown_kernel :: "('k, 'z) sock_api_scheme \<Rightarrow> int \<Rightarrow> ('k \<Rightarrow> bool \<times> bool) \<Rightarrow> bool" where
  "shutdown_kernel sys fd dirs \<longleftrightarrow>
     (\<forall>k m. dirs (px_shutdown sys k fd m)
            = (fst (dirs k) \<and> m = shut_wr, snd (dirs k) \<and> m = shut_rd))"

theorem shutdown_closes_both:
  assumes "shutdown_kernel sys (io_fd s) dirs"
  shows "dirs (tcp_shutdown sys k s howto) = (False, False)"
  using assms by (simp add: shutdown_kernel_def tcp_shutdown_def Let_def)

theorem shutdown_closes_both_witness:
  "ss_open (tcp_shutdown sock_sys sample_sock_state sample_tcp shut_wr) = (False, False)"
  by (rule shutdown_closes_both) (simp add: shutdown_kernel_def sock_sys_def ss_shutdown_def)

text \<open>Datagrams on success: \<open>recv\<close> appends the bytes the kernel delivered to the read buffer and
  reports the sender, and \<open>send\<close> hands the whole write buffer to the kernel and empties it.\<close>

theorem udp_transfer:
  assumes "buf_ok (io_rbuf s)" and "buf_ok (io_wbuf s)" and "contents (io_wbuf s) \<noteq> []"
    and "px_recvfrom sys k (io_fd s) (b_cap (io_rbuf s) - b_offset (io_rbuf s)) = (Inr (bs, addr), k1)"
    and "bs \<noteq> []" and "int (length bs) \<le> b_cap (io_rbuf s) - b_offset (io_rbuf s)"
    and "set_ip_port sys (so_family (udp_sock s)) ip port = Inr dest"
    and "px_sendto sys k (io_fd s) (contents (io_wbuf s)) dest = (Inr (int (length (contents (io_wbuf s)))), k2)"
  shows "\<exists>b w. udp_recv sys k s = (k1, s\<lparr>io_rbuf := b\<rparr>, query_ip_port_family sys addr) \<and> buf_ok b \<and>
           contents b = contents (io_rbuf s) @ bs \<and>
           udp_send sys k s ip port = (k2, s\<lparr>io_wbuf := w\<rparr>, Inr ()) \<and> buf_ok w \<and> contents w = []"
proof -
  let ?b = "\<lambda>m. (io_rbuf s)\<lparr>b_mem := Some m, b_offset := b_offset (io_rbuf s) + int (length bs)\<rparr>"
  obtain m where m: "rbind (the_mem (io_rbuf s)) (\<lambda>m. blit_at m (b_offset (io_rbuf s)) bs) = Inr m"
      "buf_ok (?b m)" "contents (?b m) = contents (io_rbuf s) @ bs"
    using blit_ok [OF assms(1), of bs] assms(6) by auto
  have f: "so_family (udp_sock s) \<noteq> local_family"
    using assms(7) by (auto simp: set_ip_port_def)
  obtain w where w: "consume (io_wbuf s) (int (length (contents (io_wbuf s)))) = Inr w" "buf_ok w" "contents w = []"
    using consume_ok [OF assms(2) le_refl] by auto
  have "udp_recv sys k s = (k1, s\<lparr>io_rbuf := ?b m\<rparr>, query_ip_port_family sys addr)"
    using assms(4,5) m(1) f by (simp add: udp_recv_def Let_def)
  moreover have "udp_send sys k s ip port = (k2, s\<lparr>io_wbuf := w\<rparr>, Inr ())"
    using assms(3,7,8) w(1) by (simp add: udp_send_def udp_sendto_def wbuf_bytes [OF assms(2)])
  ultimately show ?thesis
    using m(2,3) w(2,3) by blast
qed

theorem udp_transfer_witness:
  "\<exists>b w. udp_recv sock_sys (sample_sock_state\<lparr>ss_dgrams := [Inr (''x'', Sa_ip ipv4 [] 80)]\<rparr>)
       (sample_udp\<lparr>udp_sock := \<lparr>so_family = ipv4, so_peer = ([], 0)\<rparr>\<rparr>)
     = (sample_sock_state\<lparr>ss_dgrams := []\<rparr>,
        sample_udp\<lparr>udp_sock := \<lparr>so_family = ipv4, so_peer = ([], 0)\<rparr>, io_rbuf := b\<rparr>,
        query_ip_port_family sock_sys (Sa_ip ipv4 [] 80)) \<and> contents b = ''abx'' \<and> buf_ok w \<and> contents w = []"
  using udp_transfer [of "sample_udp\<lparr>udp_sock := \<lparr>so_family = ipv4, so_peer = ([], 0)\<rparr>\<rparr>" sock_sys
      "sample_sock_state\<lparr>ss_dgrams := [Inr (''x'', Sa_ip ipv4 [] 80)]\<rparr>" "''x''" "Sa_ip ipv4 [] 80"
      "sample_sock_state\<lparr>ss_dgrams := []\<rparr>" "Some ''1.2.3.4''" 80
      "Sa_ip ipv4 [CHR 0x01, CHR 0x02, CHR 0x03, CHR 0x04] (htons 80)"
      "sample_sock_state\<lparr>ss_dgrams := [Inr (''x'', Sa_ip ipv4 [] 80)]\<rparr>"]
  by (auto simp: sample_udp_def sample_ok sock_sys_def ss_recvfrom_def set_ip_port_def)

text \<open>Datagrams on failure: \<open>recv\<close> and \<open>send\<close> test the result for 0, not -1, so both return
  normally when the system call fails (a non-blocking \<open>recv\<close> with nothing to read is enough);
  \<open>recv\<close> has then dropped the last unread byte of the read buffer, and \<open>send\<close> has discarded the
  whole unsent datagram.\<close>

theorem udp_failure_loses_data:
  assumes "buf_ok (io_rbuf s)" and "contents (io_rbuf s) \<noteq> []" and "buf_ok (io_wbuf s)"
    and "so_family (udp_sock s) = local_family"
    and "px_recvfrom sys k (io_fd s) (b_cap (io_rbuf s) - b_offset (io_rbuf s)) = (Inl e1, k1)"
    and "length path < px_sun_size sys - 1"
    and "px_sendto sys k (io_fd s) (contents (io_wbuf s)) (set_path sys path) = (Inl e2, k2)"
  shows "\<exists>b w. udp_recv sys k s = (k1, s\<lparr>io_rbuf := b\<rparr>, Inr (fst (so_peer (udp_sock s)), -1, local_family)) \<and>
           contents b = butlast (contents (io_rbuf s)) \<and>
           udp_send_unix sys k s path = (k2, s\<lparr>io_wbuf := w\<rparr>, Inr ()) \<and> contents w = []"
proof -
  obtain pre z where sh: "buf_shape (io_rbuf s) pre (contents (io_rbuf s)) z"
    using assms(1) by (rule buf_ok_shape)
  let ?b = "(io_rbuf s)\<lparr>b_offset := b_offset (io_rbuf s) - 1\<rparr>"
  have "contents ?b = butlast (contents (io_rbuf s))"
    using drop_last_byte [OF sh assms(2)] .
  moreover have "udp_recv sys k s = (k1, s\<lparr>io_rbuf := ?b\<rparr>, Inr (fst (so_peer (udp_sock s)), -1, local_family))"
    using assms(4,5) by (simp add: udp_recv_def Let_def)
  moreover obtain w where w: "consume (io_wbuf s) (int (length (contents (io_wbuf s)))) = Inr w" "contents w = []"
    using consume_ok [OF assms(3) le_refl] by auto
  then have "consume (io_wbuf s) (- 1) = Inr w"
    by (simp add: consume_def buf_ok_size [OF assms(3)])
  moreover have "length (takeWhile (\<lambda>c. c \<noteq> NUL) path) < px_sun_size sys - 1"
    using assms(6) length_takeWhile_le le_less_trans by blast
  ultimately show ?thesis
    using assms(7) w(2) by (simp add: udp_send_unix_def udp_sendto_def wbuf_bytes [OF assms(3)]) blast
qed

theorem udp_failure_loses_data_witness:
  "\<exists>b w. udp_recv sock_sys (sample_sock_state\<lparr>ss_dgrams := []\<rparr>) sample_udp
       = (sample_sock_state\<lparr>ss_dgrams := []\<rparr>, sample_udp\<lparr>io_rbuf := b\<rparr>, Inr (''/tmp/u'', -1, local_family)) \<and>
     contents b = ''a'' \<and>
     udp_send_unix sock_sys (sample_sock_state\<lparr>ss_dgrams := []\<rparr>) sample_udp ''p''
       = (sample_sock_state\<lparr>ss_dgrams := []\<rparr>, sample_udp\<lparr>io_wbuf := w\<rparr>, Inr ()) \<and> contents w = []"
  using udp_failure_loses_data [of sample_udp sock_sys "sample_sock_state\<lparr>ss_dgrams := []\<rparr>" EAGAIN
      "sample_sock_state\<lparr>ss_dgrams := []\<rparr>" "''p''" EAGAIN]
  by (simp add: sample_udp_def sample_ok sock_sys_def ss_recvfrom_def)

end
