(* ===== verification/Event_Loop.thy ===== *)
theory Event_Loop
  imports Nio_Socket Numeric_Utils "HOL-Library.Product_Lexorder"
begin

text \<open>
  The event loop of \<open>src/src/include/cppev/event_loop.h\<close> with its epoll implementation
  \<open>src/src/lib/event_loop_epoll.cc\<close>. The world holds the loop, the nio objects and the callbacks by
  address, and the kernel; a loop knows its own address. A callback is data of type \<open>'h\<close>; \<open>run\<close> says what calling it does to
  the world.
\<close>

section \<open>State\<close>

type_synonym fd_event = "32 word"

definition fd_readable :: fd_event where "fd_readable = 1"

definition fd_writable :: fd_event where "fd_writable = 2"

text \<open>\<open>operator&\<close> and \<open>operator|\<close>\<close>

definition event_and :: "fd_event \<Rightarrow> fd_event \<Rightarrow> fd_event" where "event_and a b = and a b"

definition event_or :: "fd_event \<Rightarrow> fd_event \<Rightarrow> fd_event" where "event_or a b = or a b"

text \<open>The epoll interface; \<open>ep_in\<close> and \<open>ep_out\<close> are its event bits.\<close>

record 'k epoll_api =
  ep_in :: "32 word"
  ep_out :: "32 word"
  ep_create :: "'k \<Rightarrow> int \<Rightarrow> (errno + int) \<times> 'k"
  ep_add :: "'k \<Rightarrow> int \<Rightarrow> int \<Rightarrow> 32 word \<Rightarrow> errno option \<times> 'k"
  ep_del :: "'k \<Rightarrow> int \<Rightarrow> int \<Rightarrow> errno option \<times> 'k"
  ep_wait :: "'k \<Rightarrow> int \<Rightarrow> int \<Rightarrow> int \<Rightarrow> (errno + (int \<times> 32 word) list) \<times> 'k"

text \<open>A registration: priority, nio, callback, event. A queued callback has no event.\<close>

type_synonym registration = "int \<times> nat \<times> nat \<times> fd_event"

type_synonym queued = "int \<times> nat \<times> nat"

text \<open>
  \<open>fds_\<close> is an unordered multimap: the order of the list carries no meaning. \<open>fd_cbs_\<close> is a
  priority queue over the lexicographic order of the tuples. \<open>el_events\<close> is used for kqueue only.
\<close>

record loop_state =
  el_id :: nat
  el_fd :: int
  el_fds :: "(int \<times> registration) list"
  el_cbs :: "queued list"
  el_events :: "int \<Rightarrow> fd_event option"
  el_stop :: bool

record ('h, 'k, 'm) world =
  w_loop :: loop_state
  w_nios :: "nat \<Rightarrow> 'm nio_scheme"
  w_code :: "nat \<Rightarrow> 'h"
  w_k :: 'k

abbreviation fd_of :: "('h, 'k, 'm) world \<Rightarrow> nat \<Rightarrow> int" where
  "fd_of w iop \<equiv> io_fd (w_nios w iop)"

abbreviation set_cbs :: "queued list \<Rightarrow> ('h, 'k, 'm) world \<Rightarrow> ('h, 'k, 'm) world" where
  "set_cbs q w \<equiv> w\<lparr>w_loop := (w_loop w)\<lparr>el_cbs := q\<rparr>\<rparr>"

section \<open>Operations\<close>

definition fd_map_to_sys :: "'k epoll_api \<Rightarrow> fd_event \<Rightarrow> 32 word" where
  "fd_map_to_sys ep ev =
     (let flags = 0;
          flags = (if and ev fd_readable \<noteq> 0 then or flags (ep_in ep) else flags)
      in if and ev fd_writable \<noteq> 0 then or flags (ep_out ep) else flags)"

definition fd_map_to_event :: "'k epoll_api \<Rightarrow> 32 word \<Rightarrow> fd_event" where
  "fd_map_to_event ep ev =
     (let flags = 0;
          flags = (if and ev (ep_in ep) \<noteq> 0 then or flags fd_readable else flags)
      in if and ev (ep_out ep) \<noteq> 0 then or flags fd_writable else flags)"

definition event_loop_new ::
  "'k epoll_api \<Rightarrow> int \<Rightarrow> nat \<Rightarrow> 'k \<Rightarrow> 'k \<times> loop_state res"
where
  "event_loop_new ep event_number n k =
     (case ep_create ep k event_number of
        (Inl e, k) \<Rightarrow> (k, Inl (System_error ''epoll_create error'' e))
      | (Inr fd, k) \<Rightarrow> (k, Inr \<lparr>el_id = n, el_fd = fd, el_fds = [], el_cbs = [], el_events = (\<lambda>_. None), el_stop = False\<rparr>))"

definition event_loop_destroy :: "('k, 'z) posix_scheme \<Rightarrow> loop_state \<Rightarrow> 'k \<Rightarrow> 'k" where
  "event_loop_destroy sys l k = px_close sys k (el_fd l)"

definition ev_loads :: "loop_state \<Rightarrow> int" where
  "ev_loads l = to_int (int (length (el_fds l)))"

text \<open>\<open>a\<close> is the address \<open>make_shared\<close> gives the copy of the callback.\<close>

definition fd_register ::
  "'k epoll_api \<Rightarrow> nat \<Rightarrow> nat \<Rightarrow> fd_event \<Rightarrow> 'h option \<Rightarrow> bool \<Rightarrow> priority \<Rightarrow>
   ('h, 'k, 'm) world \<Rightarrow> ('h, 'k, 'm) world \<times> unit res"
where
  "fd_register ep a iop ev_type handler activate prio w =
     (let w = w\<lparr>w_nios := (w_nios w)(iop := set_evlp (el_id (w_loop w)) (w_nios w iop))\<rparr>;
          w = (case handler of
                 None \<Rightarrow> w
               | Some h \<Rightarrow>
                   w\<lparr>w_loop := (w_loop w)\<lparr>el_fds :=
                        (fd_of w iop, prio_val prio, iop, a, ev_type) # el_fds (w_loop w)\<rparr>,
                     w_code := (w_code w)(a := h)\<rparr>)
      in if activate
         then (case ep_add ep (w_k w) (el_fd (w_loop w)) (fd_of w iop) (fd_map_to_sys ep ev_type) of
                 (Some e, k) \<Rightarrow> (w\<lparr>w_k := k\<rparr>, Inl (System_error ''epoll_ctl add error'' e))
               | (None, k) \<Rightarrow> (w\<lparr>w_k := k\<rparr>, Inr ()))
         else (w, Inr ()))"

definition fd_remove ::
  "'k epoll_api \<Rightarrow> nat \<Rightarrow> bool \<Rightarrow> bool \<Rightarrow> ('h, 'k, 'm) world \<Rightarrow> ('h, 'k, 'm) world \<times> unit res"
where
  "fd_remove ep iop clean deactivate w =
     (let erase = (\<lambda>w. if clean
            then w\<lparr>w_loop := (w_loop w)\<lparr>el_fds := filter (\<lambda>(fd, r). fd \<noteq> fd_of w iop) (el_fds (w_loop w))\<rparr>\<rparr>
            else w)
      in if deactivate
         then (case ep_del ep (w_k w) (el_fd (w_loop w)) (fd_of w iop) of
                 (Some e, k) \<Rightarrow> (w\<lparr>w_k := k\<rparr>, Inl (System_error ''epoll_ctl del error'' e))
               | (None, k) \<Rightarrow> (erase (w\<lparr>w_k := k\<rparr>), Inr ()))
         else (erase w, Inr ()))"

text \<open>The registrations an event makes due.\<close>

definition due_of :: "'k epoll_api \<Rightarrow> (int \<times> registration) list \<Rightarrow> int \<times> 32 word \<Rightarrow> queued list" where
  "due_of ep fds ev =
     (case ev of (fd, events) \<Rightarrow>
        map (\<lambda>(fd', p, n, a, t). (p, n, a))
          (filter (\<lambda>(fd', p, n, a, t). fd' = fd \<and> and t (fd_map_to_event ep events) \<noteq> 0) fds))"

definition enqueue ::
  "'k epoll_api \<Rightarrow> (int \<times> 32 word) list \<Rightarrow> ('h, 'k, 'm) world \<Rightarrow> ('h, 'k, 'm) world"
where
  "enqueue ep evs w =
     fold (\<lambda>ev w. set_cbs (fold pq_push (due_of ep (el_fds (w_loop w)) ev) (el_cbs (w_loop w))) w) evs w"

text \<open>The popped callback is called after it left the queue; an exception keeps the rest queued.\<close>

partial_function (option) drain ::
  "('h \<Rightarrow> nat \<Rightarrow> ('h, 'k, 'm) world \<Rightarrow> ('h, 'k, 'm) world \<times> unit res) \<Rightarrow> ('h, 'k, 'm) world \<Rightarrow>
   (('h, 'k, 'm) world \<times> unit res) option"
where
  "drain run w =
     (case el_cbs (w_loop w) of
        [] \<Rightarrow> Some (w, Inr ())
      | (p, iop, a) # q \<Rightarrow>
          (case run (w_code w a) iop (set_cbs q w) of
             (w, Inl e) \<Rightarrow> Some (w, Inl e)
           | (w, Inr _) \<Rightarrow> drain run w))"

definition loop_once ::
  "'k epoll_api \<Rightarrow> int \<Rightarrow> ('h \<Rightarrow> nat \<Rightarrow> ('h, 'k, 'm) world \<Rightarrow> ('h, 'k, 'm) world \<times> unit res) \<Rightarrow>
   int \<Rightarrow> ('h, 'k, 'm) world \<Rightarrow> (('h, 'k, 'm) world \<times> unit res) option"
where
  "loop_once ep event_number run timeout w =
     (case ep_wait ep (w_k w) (el_fd (w_loop w)) event_number timeout of
        (Inl e, k) \<Rightarrow>
          if e \<noteq> EINTR then Some (w\<lparr>w_k := k\<rparr>, Inl (System_error ''epoll_wait error'' e))
          else drain run (w\<lparr>w_k := k\<rparr>)
      | (Inr evs, k) \<Rightarrow> drain run (enqueue ep evs (w\<lparr>w_k := k\<rparr>)))"

partial_function (option) loop_forever ::
  "'k epoll_api \<Rightarrow> int \<Rightarrow> ('h \<Rightarrow> nat \<Rightarrow> ('h, 'k, 'm) world \<Rightarrow> ('h, 'k, 'm) world \<times> unit res) \<Rightarrow>
   int \<Rightarrow> ('h, 'k, 'm) world \<Rightarrow> (('h, 'k, 'm) world \<times> unit res) option"
where
  "loop_forever ep event_number run timeout w =
     (if el_stop (w_loop w) then Some (w, Inr ())
      else case loop_once ep event_number run timeout w of
        None \<Rightarrow> None
      | Some (w, Inl e) \<Rightarrow> Some (w, Inl e)
      | Some (w, Inr _) \<Rightarrow> loop_forever ep event_number run timeout w)"

text \<open>
  \<open>stop_loop_forever\<close> makes a pipe, registers its read end with a callback \<open>h\<close> that removes it and
  drops both ends: the write end is destroyed, the read end lives on in the registration. The
  new nio gets the address \<open>n\<close>, the callback the address \<open>a\<close>; \<open>keep\<close> is the stream as an object of the
  world.
\<close>

definition stop_loop_forever ::
  "('k, 'z) sock_api_scheme \<Rightarrow> 'k epoll_api \<Rightarrow> (nstream \<Rightarrow> 'm nio_scheme) \<Rightarrow> nat \<Rightarrow> nat \<Rightarrow> 'h \<Rightarrow>
   ('h, 'k, 'm) world \<Rightarrow> ('h, 'k, 'm) world \<times> unit res"
where
  "stop_loop_forever sys ep keep n a h w =
     (let w = w\<lparr>w_loop := (w_loop w)\<lparr>el_stop := True\<rparr>\<rparr> in
      case get_pipes sys (w_k w) of
        (k, Inl e) \<Rightarrow> (w\<lparr>w_k := k\<rparr>, Inl e)
      | (k, Inr [rd, wr]) \<Rightarrow>
          (let w = w\<lparr>w_k := k, w_nios := (w_nios w)(n := set_evlp (el_id (w_loop w)) (keep rd))\<rparr> in
           case fd_register ep a n fd_readable (Some h) True p6 w of
             (w, r) \<Rightarrow> (w\<lparr>w_k := nio_destroy sys (w_k w) wr\<rparr>, r))
      | (k, Inr _) \<Rightarrow> (w\<lparr>w_k := k\<rparr>, Inl (Undefined Out_of_bounds)))"

section \<open>What a round executes\<close>

text \<open>The specification of a round: call the callbacks of a list one after the other.\<close>

fun exec ::
  "('h \<Rightarrow> nat \<Rightarrow> ('h, 'k, 'm) world \<Rightarrow> ('h, 'k, 'm) world \<times> unit res) \<Rightarrow> queued list \<Rightarrow> ('h, 'k, 'm) world \<Rightarrow>
   ('h, 'k, 'm) world \<times> unit res"
where
  "exec run [] w = (w, Inr ())"
| "exec run ((p, iop, a) # q) w =
     (case run (w_code w a) iop (set_cbs q w) of
        (w, Inl e) \<Rightarrow> (w, Inl e)
      | (w, Inr _) \<Rightarrow> exec run q w)"

definition due :: "'k epoll_api \<Rightarrow> (int \<times> registration) list \<Rightarrow> (int \<times> 32 word) list \<Rightarrow> queued list" where
  "due ep fds evs = concat (map (due_of ep fds) evs)"

text \<open>Callbacks do not run a round of their own loop.\<close>

definition keeps_queue :: "('h \<Rightarrow> nat \<Rightarrow> ('h, 'k, 'm) world \<Rightarrow> ('h, 'k, 'm) world \<times> unit res) \<Rightarrow> bool" where
  "keeps_queue run \<longleftrightarrow> (\<forall>h n w. el_cbs (w_loop (fst (run h n w))) = el_cbs (w_loop w))"

lemma drain_exec:
  assumes "keeps_queue run"
  shows "el_cbs (w_loop w) = q \<Longrightarrow> drain run w = Some (exec run q w)"
proof (induction q arbitrary: w)
  case Nil
  then show ?case by (subst drain.simps) simp
next
  case (Cons x q)
  obtain p iop a where x: "x = (p, iop, a)" by (metis prod_cases3)
  obtain w' r where run: "run (w_code w a) iop (set_cbs q w) = (w', r)" by fastforce
  have "el_cbs (w_loop w') = el_cbs (w_loop (set_cbs q w))"
    using assms run unfolding keeps_queue_def by (metis fst_conv)
  then have "el_cbs (w_loop w') = q" by simp
  with Cons x run show ?case
    by (subst drain.simps) (cases r; simp)
qed

lemma set_evlp_simps [simp]:
  "io_fd (set_evlp n s) = io_fd s" "io_closed (set_evlp n s) = io_closed s"
  "io_evlp (set_evlp n s) = Some n"
  by (simp_all add: set_evlp_def)

lemma set_cbs_set_cbs: "set_cbs q (set_cbs q' w) = set_cbs q w"
  by simp

lemma sort_mset_cong: "mset xs = mset ys \<Longrightarrow> sort xs = sort ys"
  by (metis mset_sort properties_for_sort sorted_sort)

text \<open>
  What a round relies on of a source of events: its loop pushes the registrations an event makes
  due, and those do not depend on the order of the table. Both implementations of the loop provide
  it.
\<close>

locale event_source =
  fixes enq :: "'e list \<Rightarrow> ('h, 'k, 'm) world \<Rightarrow> ('h, 'k, 'm) world"
    and due1 :: "(int \<times> registration) list \<Rightarrow> 'e \<Rightarrow> queued list"
  assumes enq_law: "enq evs w =
      fold (\<lambda>ev w. set_cbs (fold pq_push (due1 (el_fds (w_loop w)) ev) (el_cbs (w_loop w))) w) evs w"
    and due_law: "mset fds = mset fds' \<Longrightarrow> mset (due1 fds ev) = mset (due1 fds' ev)"
begin

lemma enq_due: "enq evs w = set_cbs (fold pq_push (concat (map (due1 (el_fds (w_loop w))) evs)) (el_cbs (w_loop w))) w"
proof (induction evs arbitrary: w)
  case Nil
  show ?case by (simp add: enq_law)
next
  case (Cons ev evs)
  let ?w = "set_cbs (fold pq_push (due1 (el_fds (w_loop w)) ev) (el_cbs (w_loop w))) w"
  have "enq (ev # evs) w = enq evs ?w"
    by (simp add: enq_law)
  then show ?case
    using Cons [of ?w] by simp
qed

lemma mset_due:
  assumes f: "mset fds = mset fds'" and e: "mset evs = mset evs'"
  shows "mset (concat (map (due1 fds) evs)) = mset (concat (map (due1 fds') evs'))"
proof -
  have "mset (concat (map (due1 fds) evs)) = (\<Sum>ev\<in>#mset evs. mset (due1 fds ev))"
    by (simp add: mset_concat comp_def flip: sum_mset_sum_list)
  moreover have "mset (concat (map (due1 fds') evs')) = (\<Sum>ev\<in>#mset evs'. mset (due1 fds' ev))"
    by (simp add: mset_concat comp_def flip: sum_mset_sum_list)
  ultimately show ?thesis
    by (simp add: due_law [OF f] e)
qed

lemma round:
  assumes "keeps_queue run" and "el_cbs (w_loop w) = []" and q: "q = rev (sort (concat (map (due1 (el_fds (w_loop w))) evs)))"
  shows "drain run (enq evs w) = Some (exec run q (set_cbs q w))"
    and "mset q = mset (concat (map (due1 (el_fds (w_loop w))) evs))"
    and "sorted_wrt (\<lambda>x y. fst x \<ge> fst y) q"
    and "mset fds' = mset (el_fds (w_loop w)) \<Longrightarrow> mset evs' = mset evs \<Longrightarrow> rev (sort (concat (map (due1 fds') evs'))) = q"
proof -
  have "enq evs w = set_cbs q w"
    using assms(2) by (simp add: enq_due fold_pq_push q)
  then show "drain run (enq evs w) = Some (exec run q (set_cbs q w))"
    using drain_exec [OF assms(1), of "set_cbs q w" q] by simp
  show "mset q = mset (concat (map (due1 (el_fds (w_loop w))) evs))"
    by (simp add: q)
  show "sorted_wrt (\<lambda>x y. fst x \<ge> fst y) q"
    unfolding q by (rule sorted_wrt_mono_rel [OF _ sorted_rev_sort]) (auto simp: less_eq_prod_def)
  show "rev (sort (concat (map (due1 fds') evs'))) = q"
    if "mset fds' = mset (el_fds (w_loop w))" "mset evs' = mset evs"
    using sort_mset_cong [OF mset_due [OF that]] by (simp add: q)
qed

end

interpretation epoll_rounds: event_source "enqueue ep" "due_of ep" for ep
proof
  show "enqueue ep evs w =
      fold (\<lambda>ev w. set_cbs (fold pq_push (due_of ep (el_fds (w_loop w)) ev) (el_cbs (w_loop w))) w) evs w" for evs w
    by (simp add: enqueue_def)
  show "mset (due_of ep fds ev) = mset (due_of ep fds' ev)" if "mset fds = mset fds'" for fds fds' ev
    using that by (cases ev) (simp add: due_of_def)
qed

section \<open>The epoll contract\<close>

definition ep_kernel :: "'k epoll_api \<Rightarrow> int \<Rightarrow> ('k \<Rightarrow> int \<Rightarrow> 32 word option) \<Rightarrow> bool" where
  "ep_kernel ep efd interest \<longleftrightarrow>
     (\<forall>k fd m. case interest k fd of
        None \<Rightarrow> (\<exists>k'. ep_add ep k efd fd m = (None, k') \<and> interest k' = (interest k)(fd \<mapsto> m)) \<and>
                ep_del ep k efd fd = (Some ENOENT, k)
      | Some m' \<Rightarrow> ep_add ep k efd fd m = (Some EEXIST, k) \<and>
                (\<exists>k'. ep_del ep k efd fd = (None, k') \<and> interest k' = (interest k)(fd := None)))"

text \<open>The two event bits are different.\<close>

definition masks_ok :: "'k epoll_api \<Rightarrow> bool" where
  "masks_ok ep \<longleftrightarrow> ep_in ep \<noteq> 0 \<and> ep_out ep \<noteq> 0 \<and> and (ep_in ep) (ep_out ep) = 0"

lemma ep_kernelD:
  assumes "ep_kernel ep efd interest"
  shows "case interest k fd of
        None \<Rightarrow> (\<exists>k'. ep_add ep k efd fd m = (None, k') \<and> interest k' = (interest k)(fd \<mapsto> m)) \<and>
                ep_del ep k efd fd = (Some ENOENT, k)
      | Some m' \<Rightarrow> ep_add ep k efd fd m = (Some EEXIST, k) \<and>
                (\<exists>k'. ep_del ep k efd fd = (None, k') \<and> interest k' = (interest k)(fd := None))"
  using assms unfolding ep_kernel_def by blast

lemma ep_kernel_None:
  assumes "ep_kernel ep efd interest" and "interest k fd = None"
  shows "\<exists>k'. ep_add ep k efd fd m = (None, k') \<and> interest k' = (interest k)(fd \<mapsto> m)"
    and "ep_del ep k efd fd = (Some ENOENT, k)"
  using ep_kernelD [OF assms(1), of k fd m] assms(2) by simp_all

lemma ep_kernel_Some:
  assumes "ep_kernel ep efd interest" and "interest k fd = Some m'"
  shows "\<exists>k'. ep_del ep k efd fd = (None, k') \<and> interest k' = (interest k)(fd := None)"
    and "ep_add ep k efd fd m = (Some EEXIST, k)"
  using ep_kernelD [OF assms(1), of k fd m] assms(2) by simp_all

section \<open>Properties\<close>


section \<open>A concrete epoll\<close>

definition ss_ep_wait :: "sock_state \<Rightarrow> int \<Rightarrow> int \<Rightarrow> int \<Rightarrow> (errno + (int \<times> 32 word) list) \<times> sock_state" where
  "ss_ep_wait k efd n timeout =
     (case ss_ready k of [] \<Rightarrow> (Inr [], k) | evs # rest \<Rightarrow> (Inr evs, k\<lparr>ss_ready := rest\<rparr>))"

definition sock_ep :: "sock_state epoll_api" where
  "sock_ep = \<lparr>ep_in = 1, ep_out = 4, ep_create = (\<lambda>k n. (Inr 100, k)),
     ep_add = (\<lambda>k efd fd m. if ss_watch k efd fd = None
       then (None, k\<lparr>ss_watch := (ss_watch k)(efd := (ss_watch k efd)(fd \<mapsto> m))\<rparr>) else (Some EEXIST, k)),
     ep_del = (\<lambda>k efd fd. if ss_watch k efd fd = None then (Some ENOENT, k)
       else (None, k\<lparr>ss_watch := (ss_watch k)(efd := (ss_watch k efd)(fd := None))\<rparr>)),
     ep_wait = ss_ep_wait\<rparr>"

abbreviation ss_interest :: "int \<Rightarrow> sock_state \<Rightarrow> int \<Rightarrow> 32 word option" where
  "ss_interest efd \<equiv> (\<lambda>k. ss_watch k efd)"

lemma sock_ep_kernel: "ep_kernel sock_ep efd (ss_interest efd)"
  by (auto simp: ep_kernel_def sock_ep_def split: option.split)

text \<open>Two nios (7 and 8) with three callbacks, the names of which are their addresses.\<close>

definition sample_world :: "(nat, sock_state, unit) world" where
  "sample_world = \<lparr>
     w_loop = \<lparr>el_id = 0, el_fd = 100, el_fds = [(7, 15, 1, 10, 1), (8, 20, 2, 11, 3), (7, 20, 1, 12, 2)],
       el_cbs = [], el_events = (\<lambda>_. None), el_stop = False\<rparr>,
     w_nios = (\<lambda>n. nio.truncate (sample_stream\<lparr>io_fd := (if n = 1 then 7 else 8)\<rparr>)),
     w_code = (\<lambda>a. a),
     w_k = sample_sock_state\<lparr>ss_ready := [[(7, 5), (8, 1), (9, 1)]]\<rparr>\<rparr>"

lemma sample_world_efd: "el_fd (w_loop sample_world) = 100"
  by (simp add: sample_world_def)

text \<open>A callback that only fails, when it has address 12.\<close>

definition sample_run :: "nat \<Rightarrow> nat \<Rightarrow> (nat, sock_state, unit) world \<Rightarrow> (nat, sock_state, unit) world \<times> unit res" where
  "sample_run h iop w = (w, if h = 12 then Inl Length_error else Inr ())"

lemma sample_run_keeps: "keeps_queue sample_run"
  by (simp add: keeps_queue_def sample_run_def)


text \<open>Registration and removal keep the table and the epoll set in step: registering a fresh
  descriptor adds its callback and its events, and removing it afterwards restores the epoll
  set and the table but for all callbacks of that descriptor; no other descriptor is touched.\<close>

theorem register_then_remove:
  assumes "ep_kernel ep (el_fd (w_loop w)) interest" and "interest (w_k w) (fd_of w iop) = None"
  shows "\<exists>w1 w2. fd_register ep a iop ev (Some h) True prio w = (w1, Inr ()) \<and>
      interest (w_k w1) = (interest (w_k w))(fd_of w iop \<mapsto> fd_map_to_sys ep ev) \<and>
      el_fds (w_loop w1) = (fd_of w iop, prio_val prio, iop, a, ev) # el_fds (w_loop w) \<and>
      w_code w1 a = h \<and>
      fd_remove ep iop True True w1 = (w2, Inr ()) \<and>
      interest (w_k w2) = interest (w_k w) \<and>
      el_fds (w_loop w2) = filter (\<lambda>(fd, r). fd \<noteq> fd_of w iop) (el_fds (w_loop w)) \<and>
      el_cbs (w_loop w2) = el_cbs (w_loop w)"
proof -
  let ?fd = "fd_of w iop" and ?efd = "el_fd (w_loop w)"
  obtain k1 where k1: "ep_add ep (w_k w) ?efd ?fd (fd_map_to_sys ep ev) = (None, k1)"
      "interest k1 = (interest (w_k w))(?fd \<mapsto> fd_map_to_sys ep ev)"
    using ep_kernel_None(1) [OF assms] by blast
  obtain k2 where k2: "ep_del ep k1 ?efd ?fd = (None, k2)" "interest k2 = (interest k1)(?fd := None)"
    using ep_kernel_Some(1) [OF assms(1), of k1 ?fd] k1(2) by auto
  have i2: "interest k2 = interest (w_k w)"
    using k1(2) k2(2) assms(2) by (simp add: fun_upd_idem)
  show ?thesis
    using k1 k2(1) i2 by (simp add: fd_register_def fd_remove_def Let_def)
qed

theorem register_then_remove_witness:
  "\<exists>w1 w2. fd_register sock_ep 20 2 fd_writable (Some 20) True p1 sample_world = (w1, Inr ()) \<and>
      ss_watch (w_k w1) 100 8 = Some 4 \<and>
      fd_remove sock_ep 2 True True w1 = (w2, Inr ()) \<and> ss_watch (w_k w2) 100 = (\<lambda>_. None) \<and>
      el_fds (w_loop w2) = [(7, 15, 1, 10, 1), (7, 20, 1, 12, 2)]"
proof -
  have fd: "el_fd (w_loop sample_world) = 100" "fd_of sample_world 2 = 8" "ss_watch (w_k sample_world) 100 = (\<lambda>_. None)"
    "fd_map_to_sys sock_ep fd_writable = 4"
    "filter (\<lambda>(fd, r). fd \<noteq> 8) (el_fds (w_loop sample_world)) = [(7, 15, 1, 10, 1), (7, 20, 1, 12, 2)]"
    by (simp_all add: sample_world_def sample_sock_state_def nio.defs fd_map_to_sys_def sock_ep_def
        fd_readable_def fd_writable_def)
  show ?thesis
    using register_then_remove [OF sock_ep_kernel, where w = sample_world and iop = 2 and a = 20 and ev = fd_writable and h = 20 and prio = p1]
    unfolding fd by force
qed

text \<open>The error paths leave partial effects: registering a descriptor epoll already watches
  throws after its callback was stored, and removing one epoll does not watch throws before its
  callbacks are erased; the epoll set is unchanged in both cases.\<close>

theorem register_remove_errors:
  assumes "ep_kernel ep (el_fd (w_loop w)) interest"
  shows "case interest (w_k w) (fd_of w iop) of
      Some m \<Rightarrow> \<exists>w1. fd_register ep a iop ev (Some h) True prio w
          = (w1, Inl (System_error ''epoll_ctl add error'' EEXIST)) \<and> w_k w1 = w_k w \<and>
          el_fds (w_loop w1) = (fd_of w iop, prio_val prio, iop, a, ev) # el_fds (w_loop w)
    | None \<Rightarrow> fd_remove ep iop True True w
          = (w, Inl (System_error ''epoll_ctl del error'' ENOENT))"
  using ep_kernel_None(2) [OF assms, of "w_k w" "fd_of w iop"]
    ep_kernel_Some(2) [OF assms, of "w_k w" "fd_of w iop"]
  by (auto simp: fd_register_def fd_remove_def Let_def set_evlp_def split: option.split)

theorem register_remove_errors_witness:
  "fd_remove sock_ep 2 True True sample_world
   = (sample_world, Inl (System_error ''epoll_ctl del error'' ENOENT))"
proof -
  have "ss_watch (w_k sample_world) 100 (fd_of sample_world 2) = None"
    by (simp add: sample_world_def sample_sock_state_def)
  then show ?thesis
    using register_remove_errors [OF sock_ep_kernel, where w = sample_world and iop = 2]
    by (simp add: sample_world_efd)
qed

text \<open>The event masks: what \<open>fd_map_to_sys\<close> asks epoll for is read back by \<open>fd_map_to_event\<close>, and
  an event without the two bits of epoll that it looks at (a hang-up or an error alone) makes no
  callback due, so a loop woken by it runs nothing.\<close>

theorem event_masks:
  assumes "ep_in ep \<noteq> 0" and "ep_out ep \<noteq> 0" and "and (ep_in ep) (ep_out ep) = 0"
  shows "fd_map_to_event ep (fd_map_to_sys ep ev)
           = or (if and ev fd_readable \<noteq> 0 then fd_readable else 0)
                (if and ev fd_writable \<noteq> 0 then fd_writable else 0) \<and>
         (and m (ep_in ep) = 0 \<and> and m (ep_out ep) = 0 \<longrightarrow> due_of ep fds (fd, m) = [])"
proof -
  have "and (ep_out ep) (ep_in ep) = 0"
    using assms(3) by (simp add: and.commute)
  then show ?thesis
    using assms by (auto simp: fd_map_to_event_def fd_map_to_sys_def due_of_def Let_def
        bit.conj_disj_distrib2)
qed

theorem event_masks_witness:
  "fd_map_to_event sock_ep (fd_map_to_sys sock_ep 3) = 3 \<and>
   due_of sock_ep (el_fds (w_loop sample_world)) (7, 16) = []"
proof -
  have "ep_in sock_ep \<noteq> 0" "ep_out sock_ep \<noteq> 0" "and (ep_in sock_ep) (ep_out sock_ep) = 0"
    by (simp_all add: sock_ep_def)
  from event_masks [OF this, where ev = 3 and m = 16 and fds = "el_fds (w_loop sample_world)" and fd = 7] show ?thesis
    by (simp add: sock_ep_def fd_readable_def fd_writable_def)
qed

text \<open>What a pipe, \<open>fcntl\<close> and \<open>close\<close> have to do with the epoll set: nothing but that a closed
  descriptor may leave it.\<close>

definition pipe_kernel ::
  "('k, 'z) sock_api_scheme \<Rightarrow> ('k \<Rightarrow> int \<Rightarrow> 32 word option) \<Rightarrow> ('k \<Rightarrow> int \<Rightarrow> 32 word option) \<Rightarrow> bool"
where
  "pipe_kernel sys flags interest \<longleftrightarrow>
     flags_kernel sys flags \<and>
     (\<forall>k fd v. interest (snd (px_setfl sys k fd v)) = interest k) \<and>
     (\<forall>k fd fd'. fd' \<noteq> fd \<longrightarrow> interest (px_close sys k fd) fd' = interest k fd')"

lemma nstream_new_ok:
  assumes "pipe_kernel sys flags interest" and "flags k fd = Some v"
  shows "\<exists>k' s. nstream_new sys k fd = (k', Inr s) \<and> interest k' = interest k \<and>
           flags k' = (flags k)(fd := Some (or v (px_nonblock sys))) \<and> io_fd s = fd \<and> \<not> io_closed s"
proof -
  have fk: "flags_kernel sys flags" using assms(1) by (simp add: pipe_kernel_def)
  then have "\<exists>k'. px_setfl sys k fd (or v (px_nonblock sys)) = (None, k') \<and>
      flags k' = (flags k)(fd := Some (or v (px_nonblock sys)))"
    using assms(2) by (simp add: flags_kernel_def)
  then obtain k' where k': "px_setfl sys k fd (or v (px_nonblock sys)) = (None, k')"
      "flags k' = (flags k)(fd := Some (or v (px_nonblock sys)))"
    by blast
  moreover have "interest k' = interest k"
    using assms(1) k'(1) unfolding pipe_kernel_def by (metis snd_conv)
  moreover have "set_io_nonblock sys k fd = (k', Inr ())"
    using fk assms(2) k'(1) by (simp add: flags_kernel_def set_io_nonblock_def)
  ultimately show ?thesis
    by (simp add: nstream_new_def nio_new_def buffer_default_def buffer_new_def nio.defs)
qed

lemma get_pipes_ok:
  assumes pk: "pipe_kernel sys flags interest"
    and pipe: "px_pipe sys k = (Inr (r, x), k1)" "flags k1 r = Some vr" "flags k1 x = Some vx" "r \<noteq> x"
  shows "\<exists>k' sr sx. get_pipes sys k = (k', Inr [sr, sx]) \<and> interest k' = interest k1 \<and>
           io_fd sr = r \<and> io_fd sx = x \<and> \<not> io_closed sx"
proof -
  obtain k2 sr where r: "nstream_new sys k1 r = (k2, Inr sr)" "interest k2 = interest k1"
      "flags k2 = (flags k1)(r := Some (or vr (px_nonblock sys)))" "io_fd sr = r"
    using nstream_new_ok [OF pk pipe(2)] by blast
  have "flags k2 x = Some vx" using r(3) pipe(3,4) by simp
  then obtain k3 sx where "nstream_new sys k2 x = (k3, Inr sx)" "interest k3 = interest k2"
      "io_fd sx = x" "\<not> io_closed sx"
    using nstream_new_ok [OF pk] by blast
  with r pipe(1) show ?thesis
    by (simp add: get_pipes_def make_streams_def)
qed


lemma sock_pipe_kernel: "pipe_kernel sock_sys ss_flags (ss_interest efd)"
  using sock_flags by (simp add: pipe_kernel_def sock_sys_def)


end
