(* ===== verification/Task_Queue.thy ===== *)
theory Task_Queue
  imports Prelude
begin

text \<open>
  The thread pool with a task queue of \<open>src/src/include/cppev/thread_pool.h\<close>. Every access to
  the queue and to \<open>stop_\<close> is inside a critical section of \<open>lock_\<close> that does not block, so a
  critical section is one step; \<open>cond_.wait\<close> ends one (the worker sleeps and gives the lock up)
  and begins another (it woke up and holds the lock again).
\<close>

section \<open>State\<close>

text \<open>
  Where a worker is in \<open>run_impl\<close>: before the lock at the top of the loop; asleep in the wait;
  notified or spuriously awake, before it has the lock back; between the critical section and
  \<open>notify_all\<close>; before the call of the handler it took; after the loop.
\<close>

datatype 'h pc = Top | Asleep | Woken | Taken 'h | Calling 'h | Finished

text \<open>
  \<open>tq_added\<close>, \<open>tq_taken\<close>, \<open>tq_run\<close> and \<open>tq_late\<close> are the history of the queue: the tasks added,
  taken and called, in order, and whether a task was added after \<open>stop\<close>.
\<close>

record 'h task_queue =
  tq_queue :: "'h list"
  tq_stop :: bool
  tq_pcs :: "'h pc list"
  tq_added :: "'h list"
  tq_taken :: "'h list"
  tq_run :: "'h list"
  tq_late :: bool

section \<open>Operations\<close>

definition task_queue_new :: "nat \<Rightarrow> 'h task_queue" where
  "task_queue_new thr_num =
     \<lparr>tq_queue = [], tq_stop = False, tq_pcs = replicate thr_num Top,
      tq_added = [], tq_taken = [], tq_run = [], tq_late = False\<rparr>"

fun wake :: "'h pc \<Rightarrow> 'h pc" where
  "wake Asleep = Woken"
| "wake p = p"

definition notify_all :: "'h task_queue \<Rightarrow> 'h task_queue" where
  "notify_all s = s\<lparr>tq_pcs := map wake (tq_pcs s)\<rparr>"

text \<open>\<open>notify_one\<close> wakes a sleeper of the implementation's choice, here \<open>i\<close>, when there is one.\<close>

definition notify_one :: "nat \<Rightarrow> 'h task_queue \<Rightarrow> 'h task_queue" where
  "notify_one i s = s\<lparr>tq_pcs := (tq_pcs s)[i := wake (tq_pcs s ! i)]\<rparr>"

definition push_task :: "'h \<Rightarrow> 'h task_queue \<Rightarrow> 'h task_queue" where
  "push_task h s = s\<lparr>tq_queue := tq_queue s @ [h], tq_added := tq_added s @ [h],
     tq_late := (tq_late s \<or> tq_stop s)\<rparr>"

definition add_task :: "nat \<Rightarrow> 'h \<Rightarrow> 'h task_queue \<Rightarrow> 'h task_queue" where
  "add_task i h s =
     (let s = push_task h s in if Asleep \<in> set (tq_pcs s) then notify_one i s else s)"

definition add_tasks :: "'h list \<Rightarrow> 'h task_queue \<Rightarrow> 'h task_queue" where
  "add_tasks vh s = notify_all (fold push_task vh s)"

text \<open>The critical section of \<open>stop\<close>; its \<open>join\<close> returns when every worker is \<open>Finished\<close>.\<close>

definition stop_queue :: "'h task_queue \<Rightarrow> 'h task_queue" where
  "stop_queue s = notify_all (s\<lparr>tq_stop := True\<rparr>)"

definition joinable :: "'h task_queue \<Rightarrow> bool" where
  "joinable s \<longleftrightarrow> list_all (\<lambda>p. p = Finished) (tq_pcs s)"

text \<open>
  One step of worker \<open>i\<close>: the critical section with the test of the queue (entered at the top or
  after the wait, which tests the same conditions), \<open>notify_all\<close>, or the call of the handler.
\<close>

definition critical :: "nat \<Rightarrow> 'h task_queue \<Rightarrow> 'h task_queue" where
  "critical i s =
     (case tq_queue s of
        [] \<Rightarrow> s\<lparr>tq_pcs := (tq_pcs s)[i := if tq_stop s then Finished else Asleep]\<rparr>
      | h # q \<Rightarrow> s\<lparr>tq_queue := q, tq_taken := tq_taken s @ [h], tq_pcs := (tq_pcs s)[i := Taken h]\<rparr>)"

definition worker_step :: "nat \<Rightarrow> 'h task_queue \<Rightarrow> 'h task_queue" where
  "worker_step i s =
     (case tq_pcs s ! i of
        Top \<Rightarrow> critical i s
      | Woken \<Rightarrow> critical i s
      | Taken h \<Rightarrow> notify_all (s\<lparr>tq_pcs := (tq_pcs s)[i := Calling h]\<rparr>)
      | Calling h \<Rightarrow> s\<lparr>tq_run := tq_run s @ [h], tq_pcs := (tq_pcs s)[i := Top]\<rparr>
      | _ \<Rightarrow> s)"

text \<open>A worker that is asleep or finished does not move by itself.\<close>

definition movable :: "nat \<Rightarrow> 'h task_queue \<Rightarrow> bool" where
  "movable i s \<longleftrightarrow> i < length (tq_pcs s) \<and> tq_pcs s ! i \<noteq> Asleep \<and> tq_pcs s ! i \<noteq> Finished"

inductive work :: "'h task_queue \<Rightarrow> 'h task_queue \<Rightarrow> bool" where
  work: "movable i s \<Longrightarrow> work s (worker_step i s)"

inductive tq_step :: "'h task_queue \<Rightarrow> 'h task_queue \<Rightarrow> bool" where
  step_add: "(Asleep \<in> set (tq_pcs s) \<Longrightarrow> i < length (tq_pcs s) \<and> tq_pcs s ! i = Asleep) \<Longrightarrow>
     tq_step s (add_task i h s)"
| step_adds: "tq_step s (add_tasks vh s)"
| step_stop: "tq_step s (stop_queue s)"
| step_spurious: "i < length (tq_pcs s) \<Longrightarrow> tq_pcs s ! i = Asleep \<Longrightarrow> tq_step s (notify_one i s)"
| step_work: "work s t \<Longrightarrow> tq_step s t"

inductive_cases tq_stepE: "tq_step s t"
inductive_cases workE: "work s t"

definition tq_init :: "nat \<Rightarrow> 'h task_queue \<Rightarrow> bool" where
  "tq_init n s \<longleftrightarrow> s = task_queue_new n"

section \<open>Invariant\<close>

text \<open>The tasks taken but not yet called.\<close>

fun held :: "'h pc \<Rightarrow> 'h list" where
  "held (Taken h) = [h]"
| "held (Calling h) = [h]"
| "held _ = []"

text \<open>A worker that will still look at the queue before it sleeps or ends, or is about to notify.\<close>

fun alert :: "'h pc \<Rightarrow> bool" where
  "alert Top = True"
| "alert Woken = True"
| "alert (Taken h) = True"
| "alert _ = False"

definition tq_inv :: "nat \<Rightarrow> 'h task_queue \<Rightarrow> bool" where
  "tq_inv n s \<longleftrightarrow>
     length (tq_pcs s) = n \<and>
     tq_added s = tq_taken s @ tq_queue s \<and>
     mset (tq_taken s) = mset (tq_run s) + mset (concat (map held (tq_pcs s))) \<and>
     (tq_queue s \<noteq> [] \<and> Asleep \<in> set (tq_pcs s) \<longrightarrow> (\<exists>p\<in>set (tq_pcs s). alert p)) \<and>
     (tq_stop s \<longrightarrow> Asleep \<notin> set (tq_pcs s)) \<and>
     (Finished \<in> set (tq_pcs s) \<longrightarrow> tq_stop s \<and> (tq_queue s \<noteq> [] \<longrightarrow> tq_late s))"

lemma wake_simps [simp]:
  "wake p \<noteq> Asleep" "held (wake p) = held p" "wake p = Finished \<longleftrightarrow> p = Finished" "Asleep \<noteq> wake p"
  "Finished = wake p \<longleftrightarrow> p = Finished"
  by (cases p; auto)+

lemma map_held_wake [simp]: "map held (map wake ps) = map held ps" "map (held \<circ> wake) ps = map held ps"
  by simp_all

lemma wake_sets [simp]:
  "Asleep \<notin> set (map wake ps)" "Finished \<in> set (map wake ps) \<longleftrightarrow> Finished \<in> set ps"
  by (induction ps) auto

lemma mset_held_update:
  "i < length ps \<Longrightarrow>
   mset (concat (map held (ps[i := p]))) + mset (held (ps ! i)) = mset (concat (map held ps)) + mset (held p)"
proof (induction ps arbitrary: i)
  case (Cons q ps)
  then show ?case by (cases i) (auto simp: add.assoc add.left_commute add.commute)
qed simp

lemma set_wake_one:
  assumes "ps ! i = Asleep" and "i < length ps"
  shows "Finished \<in> set (ps[i := Woken]) \<longleftrightarrow> Finished \<in> set ps"
    and "Asleep \<in> set (ps[i := Woken]) \<Longrightarrow> Asleep \<in> set ps"
  using assms by (auto dest: update_mem intro: update_mem_old)

lemma notify_one_inv:
  assumes "length (tq_pcs s) = n" "tq_added s = tq_taken s @ tq_queue s"
    "mset (tq_taken s) = mset (tq_run s) + mset (concat (map held (tq_pcs s)))"
    "tq_stop s \<longrightarrow> Asleep \<notin> set (tq_pcs s)"
    "Finished \<in> set (tq_pcs s) \<longrightarrow> tq_stop s \<and> (tq_queue s \<noteq> [] \<longrightarrow> tq_late s)"
    and "i < n" "tq_pcs s ! i = Asleep"
  shows "tq_inv n (notify_one i s)"
proof -
  have "mset (concat (map held ((tq_pcs s)[i := Woken]))) = mset (concat (map held (tq_pcs s)))"
    using mset_held_update [of i "tq_pcs s" Woken] assms(1,6,7) by simp
  moreover have "\<exists>p\<in>set ((tq_pcs s)[i := Woken]). alert p"
    using assms(1,6) set_update_memI [of i "tq_pcs s" Woken] by (intro bexI [of _ Woken]) auto
  ultimately show ?thesis
    using assms set_wake_one [of "tq_pcs s" i] by (auto simp add: tq_inv_def notify_one_def)
qed

lemma push_task_simps [simp]:
  "tq_pcs (push_task h s) = tq_pcs s" "tq_run (push_task h s) = tq_run s"
  "tq_taken (push_task h s) = tq_taken s" "tq_stop (push_task h s) = tq_stop s"
  "tq_queue (push_task h s) = tq_queue s @ [h]" "tq_added (push_task h s) = tq_added s @ [h]"
  "tq_late (push_task h s) = (tq_late s \<or> tq_stop s)"
  by (simp_all add: push_task_def)

lemma add_task_inv:
  assumes "tq_inv n s" and "Asleep \<in> set (tq_pcs s) \<Longrightarrow> i < length (tq_pcs s) \<and> tq_pcs s ! i = Asleep"
  shows "tq_inv n (add_task i h s)"
proof (cases "Asleep \<in> set (tq_pcs s)")
  case True
  then have "tq_inv n (notify_one i (push_task h s))"
    using assms by (intro notify_one_inv) (auto simp: tq_inv_def)
  with True show ?thesis by (simp add: add_task_def)
next
  case False
  with assms(1) show ?thesis by (auto simp: add_task_def tq_inv_def)
qed

text \<open>After \<open>notify_all\<close> nobody sleeps.\<close>

lemma notify_all_inv:
  assumes "length (tq_pcs s) = n" "tq_added s = tq_taken s @ tq_queue s"
    "mset (tq_taken s) = mset (tq_run s) + mset (concat (map held (tq_pcs s)))"
    "Finished \<in> set (tq_pcs s) \<longrightarrow> tq_stop s \<and> (tq_queue s \<noteq> [] \<longrightarrow> tq_late s)"
  shows "tq_inv n (notify_all s)"
  using assms by (simp add: tq_inv_def notify_all_def del: set_map)

lemma fold_push:
  "tq_pcs (fold push_task vh s) = tq_pcs s" "tq_run (fold push_task vh s) = tq_run s"
  "tq_taken (fold push_task vh s) = tq_taken s" "tq_stop (fold push_task vh s) = tq_stop s"
  "tq_queue (fold push_task vh s) = tq_queue s @ vh" "tq_added (fold push_task vh s) = tq_added s @ vh"
  "tq_late (fold push_task vh s) = (tq_late s \<or> vh \<noteq> [] \<and> tq_stop s)"
  by (induction vh arbitrary: s) auto

lemma add_tasks_inv: "tq_inv n s \<Longrightarrow> tq_inv n (add_tasks vh s)"
  unfolding add_tasks_def by (rule notify_all_inv) (auto simp: tq_inv_def fold_push)

lemma stop_queue_inv: "tq_inv n s \<Longrightarrow> tq_inv n (stop_queue s)"
  unfolding stop_queue_def by (rule notify_all_inv) (auto simp: tq_inv_def)

lemma critical_inv:
  assumes "tq_inv n s" and "i < n" and "tq_pcs s ! i = Top \<or> tq_pcs s ! i = Woken"
  shows "tq_inv n (critical i s)"
proof (cases "tq_queue s")
  case Nil
  let ?p = "if tq_stop s then Finished else Asleep :: 'a pc"
  have "mset (concat (map held ((tq_pcs s)[i := ?p]))) = mset (concat (map held (tq_pcs s)))"
    using mset_held_update [of i "tq_pcs s" ?p] assms by (auto simp: tq_inv_def)
  moreover have "tq_stop s \<Longrightarrow> Asleep \<notin> set ((tq_pcs s)[i := ?p])"
    using assms(1) by (auto simp: tq_inv_def dest: update_mem)
  moreover have "Finished \<in> set ((tq_pcs s)[i := ?p]) \<Longrightarrow> tq_stop s"
    using assms(1) by (auto simp: tq_inv_def dest: update_mem split: if_splits)
  ultimately show ?thesis
    using assms Nil by (auto simp: tq_inv_def critical_def)
next
  case (Cons h q)
  have "mset (concat (map held ((tq_pcs s)[i := Taken h]))) = add_mset h (mset (concat (map held (tq_pcs s))))"
    using mset_held_update [of i "tq_pcs s" "Taken h"] assms by (auto simp: tq_inv_def)
  moreover have "\<exists>p\<in>set ((tq_pcs s)[i := Taken h]). alert p"
    using assms set_update_memI [of i "tq_pcs s" "Taken h"]
    by (intro bexI [of _ "Taken h"]) (auto simp: tq_inv_def)
  ultimately show ?thesis
    using assms(1) Cons by (auto simp: tq_inv_def critical_def dest: update_mem)
qed

lemma worker_step_inv:
  assumes "tq_inv n s" and "movable i s"
  shows "tq_inv n (worker_step i s)"
proof -
  have i: "i < n" "length (tq_pcs s) = n" using assms by (auto simp: movable_def tq_inv_def)
  show ?thesis
  proof (cases "tq_pcs s ! i")
    case (Taken h)
    then have "mset (concat (map held ((tq_pcs s)[i := Calling h]))) = mset (concat (map held (tq_pcs s)))"
      using mset_held_update [of i "tq_pcs s" "Calling h"] i by simp
    then have "tq_inv n (notify_all (s\<lparr>tq_pcs := (tq_pcs s)[i := Calling h]\<rparr>))"
      using assms(1) by (intro notify_all_inv) (auto simp: tq_inv_def dest: update_mem)
    with Taken show ?thesis by (simp add: worker_step_def)
  next
    case (Calling h)
    then have "add_mset h (mset (concat (map held ((tq_pcs s)[i := Top])))) = mset (concat (map held (tq_pcs s)))"
      using mset_held_update [of i "tq_pcs s" Top] i by simp
    moreover have "\<exists>p\<in>set ((tq_pcs s)[i := Top]). alert p"
      using i set_update_memI [of i "tq_pcs s" Top] by (intro bexI [of _ Top]) auto
    ultimately show ?thesis
      using assms(1) Calling by (auto simp: tq_inv_def worker_step_def dest: update_mem)
  qed (use assms i critical_inv in \<open>auto simp: worker_step_def movable_def\<close>)
qed

interpretation tq: invariant_system "tq_init n" tq_step "tq_inv n"
proof unfold_locales
  fix s :: "'a task_queue"
  show "tq_init n s \<Longrightarrow> tq_inv n s"
    by (auto simp: tq_init_def task_queue_new_def tq_inv_def)
next
  fix s t :: "'a task_queue"
  assume inv: "tq_inv n s" and step: "tq_step s t"
  from step show "tq_inv n t"
  proof cases
    case (step_spurious i)
    have "tq_inv n (notify_one i s)"
      by (rule notify_one_inv) (use inv step_spurious in \<open>auto simp: tq_inv_def\<close>)
    with step_spurious(1) show ?thesis by simp
  qed (use inv in \<open>auto intro: add_task_inv add_tasks_inv stop_queue_inv worker_step_inv elim: workE\<close>)
qed

section \<open>Progress\<close>

text \<open>What the workers still have to do: first the tasks, then the wake-ups.\<close>

fun task_weight :: "'h pc \<Rightarrow> nat" where
  "task_weight (Taken h) = 2"
| "task_weight (Calling h) = 1"
| "task_weight _ = 0"

fun awake_weight :: "'h pc \<Rightarrow> nat" where
  "awake_weight Top = 1"
| "awake_weight Woken = 1"
| "awake_weight _ = 0"

definition tasks_left :: "'h task_queue \<Rightarrow> nat" where
  "tasks_left s = 3 * length (tq_queue s) + sum_list (map task_weight (tq_pcs s))"

definition awake_left :: "'h task_queue \<Rightarrow> nat" where
  "awake_left s = sum_list (map awake_weight (tq_pcs s))"

lemma sum_list_map_update:
  "i < length ps \<Longrightarrow> sum_list (map f (ps[i := p])) + f (ps ! i) = sum_list (map f ps) + (f p :: nat)"
proof (induction ps arbitrary: i)
  case (Cons q ps)
  show ?case
  proof (cases i)
    case (Suc j)
    then show ?thesis using Cons.IH [of j] Cons.prems by simp
  qed simp
qed simp

lemma task_weight_wake [simp]: "task_weight (wake p) = task_weight p"
  by (cases p) simp_all

abbreviation less_work :: "'h task_queue \<Rightarrow> 'h task_queue \<Rightarrow> bool" where
  "less_work t s \<equiv> tasks_left t < tasks_left s \<or> tasks_left t = tasks_left s \<and> awake_left t < awake_left s"

lemma critical_decreases:
  assumes "i < length (tq_pcs s)" and "tq_pcs s ! i = Top \<or> tq_pcs s ! i = Woken"
  shows "less_work (critical i s) s"
proof -
  have w: "task_weight (tq_pcs s ! i) = 0" "awake_weight (tq_pcs s ! i) = 1"
    using assms(2) by auto
  show ?thesis
  proof (cases "tq_queue s")
    case Nil
    let ?p = "if tq_stop s then Finished else Asleep :: 'a pc"
    have "task_weight ?p = 0" "awake_weight ?p = 0" by simp_all
    then show ?thesis
      using sum_list_map_update [OF assms(1), of task_weight ?p]
        sum_list_map_update [OF assms(1), of awake_weight ?p] w Nil
      by (simp add: critical_def tasks_left_def awake_left_def)
  next
    case (Cons h q)
    then show ?thesis
      using sum_list_map_update [OF assms(1), of task_weight "Taken h"] w
      by (simp add: critical_def tasks_left_def)
  qed
qed

lemma work_decreases:
  assumes "work s t"
  shows "less_work t s"
proof -
  from assms obtain i where m: "movable i s" and t: "t = worker_step i s"
    by (auto elim: workE)
  then have i: "i < length (tq_pcs s)" by (simp add: movable_def)
  show ?thesis
  proof (cases "tq_pcs s ! i")
    case (Taken h)
    then show ?thesis
      using sum_list_map_update [OF i, of task_weight "Calling h"]
      by (simp add: t tasks_left_def worker_step_def notify_all_def comp_def)
  next
    case (Calling h)
    then show ?thesis
      using sum_list_map_update [OF i, of task_weight Top]
      by (simp add: t tasks_left_def worker_step_def)
  qed (use m i critical_decreases [OF i] in \<open>simp_all add: movable_def t worker_step_def\<close>)
qed

lemma work_wf: "wfp work\<inverse>\<inverse>"
proof (rule wfp_if_convertible_to_wfp)
  show "wfp (\<lambda>a b. (a, b) \<in> less_than <*lex*> (less_than :: (nat \<times> nat) set))"
    using wf_lex_prod [OF wf_less_than wf_less_than] by (simp add: wfp_def)
next
  fix t s :: "'a task_queue"
  assume "work\<inverse>\<inverse> t s"
  then show "((tasks_left t, awake_left t), (tasks_left s, awake_left s)) \<in> less_than <*lex*> less_than"
    using work_decreases by auto
qed

lemma work_steps: "work\<^sup>*\<^sup>* s t \<Longrightarrow> tq_step\<^sup>*\<^sup>* s t"
  by (rule rtranclp_mono [THEN predicate2D]) (auto intro: step_work)

lemma worker_step_frame:
  "tq_added (worker_step i s) = tq_added s" "tq_stop (worker_step i s) = tq_stop s"
  "tq_late (worker_step i s) = tq_late s"
  by (simp_all add: worker_step_def critical_def notify_all_def split: pc.splits list.splits)

lemma work_frame:
  "work\<^sup>*\<^sup>* s t \<Longrightarrow> tq_added t = tq_added s \<and> tq_stop t = tq_stop s \<and> tq_late t = tq_late s"
  by (induction rule: rtranclp_induct) (auto elim: workE simp: worker_step_frame)

lemma stuck_pcs:
  assumes "\<And>u. \<not> work t u" and "p \<in> set (tq_pcs t)"
  shows "p = Asleep \<or> p = Finished"
proof -
  obtain i where "i < length (tq_pcs t)" "tq_pcs t ! i = p"
    using assms(2) by (auto simp: in_set_conv_nth)
  then show ?thesis
    using assms(1) work [of i t] by (auto simp: movable_def)
qed

lemma stuck_drained:
  assumes inv: "tq_inv n t" and "0 < n" and stuck: "\<And>u. \<not> work t u" and "\<not> tq_late t"
  shows "mset (tq_run t) = mset (tq_added t)" and "if tq_stop t then joinable t else set (tq_pcs t) = {Asleep}"
proof -
  have pcs: "tq_pcs t \<noteq> []" using inv assms(2) by (auto simp: tq_inv_def)
  have "\<not> alert p" if "p \<in> set (tq_pcs t)" for p
    using stuck_pcs [OF stuck that] by auto
  moreover have "Asleep \<in> set (tq_pcs t) \<or> Finished \<in> set (tq_pcs t)"
    using pcs stuck_pcs [OF stuck] by (cases "tq_pcs t") auto
  ultimately have q: "tq_queue t = []"
    using inv assms(4) unfolding tq_inv_def by blast
  have "held p = []" if "p \<in> set (tq_pcs t)" for p
    using stuck_pcs [OF stuck that] by auto
  then have "concat (map held (tq_pcs t)) = []" by simp
  with q inv show "mset (tq_run t) = mset (tq_added t)"
    by (simp add: tq_inv_def)
  show "if tq_stop t then joinable t else set (tq_pcs t) = {Asleep}"
    using inv pcs stuck_pcs [OF stuck] unfolding tq_inv_def joinable_def list_all_iff
    by (cases "tq_pcs t") auto
qed

section \<open>Properties\<close>

text \<open>C19. In every reachable state of a pool of \<open>n\<close> workers and any number of clients, tasks are
  taken in exactly the order in which they were added, none is lost or taken twice, every taken
  task has been called once or is held by exactly one worker, and no worker sleeps through work:
  while a task waits and a worker sleeps, another worker is on its way to the queue.\<close>

theorem tasks_fifo_once:
  assumes "reach (tq_init n) tq_step s"
  shows "tq_added s = tq_taken s @ tq_queue s \<and>
         mset (tq_taken s) = mset (tq_run s) + mset (concat (map held (tq_pcs s))) \<and>
         (tq_queue s \<noteq> [] \<and> Asleep \<in> set (tq_pcs s) \<longrightarrow> (\<exists>p\<in>set (tq_pcs s). alert p))"
  using tq.reach_inv [OF assms] by (simp add: tq_inv_def)

text \<open>C20. The workers finish the work: their own steps cannot go on for ever, so from every reachable
  state and under every schedule they reach a state where none of them can move; in every such state all tasks added (none after \<open>stop\<close>)
  have been called, exactly once each, and the workers have ended if \<open>stop\<close> was called, so that
  its \<open>join\<close> returns, and otherwise are all asleep.\<close>

theorem tasks_all_run:
  fixes s :: "'h task_queue"
  assumes "reach (tq_init n) tq_step s" and "0 < n" and "\<not> tq_late s"
  shows "wfp (work\<inverse>\<inverse> :: 'h task_queue \<Rightarrow> 'h task_queue \<Rightarrow> bool) \<and>
         (\<exists>t. work\<^sup>*\<^sup>* s t \<and> (\<forall>u. \<not> work t u)) \<and>
         (\<forall>t. work\<^sup>*\<^sup>* s t \<and> (\<forall>u. \<not> work t u) \<longrightarrow>
            mset (tq_run t) = mset (tq_added s) \<and>
            (if tq_stop s then joinable t else set (tq_pcs t) = {Asleep}))"
proof (intro conjI allI impI)
  show "wfp (work\<inverse>\<inverse> :: 'h task_queue \<Rightarrow> 'h task_queue \<Rightarrow> bool)" by (rule work_wf)
  show "\<exists>t. work\<^sup>*\<^sup>* s t \<and> (\<forall>u. \<not> work t u)"
    using ex_terminating_rtranclp [OF work_wf, of s] by simp
next
  fix t assume t: "work\<^sup>*\<^sup>* s t \<and> (\<forall>u. \<not> work t u)"
  have inv: "tq_inv n t"
    using tq.steps_inv [OF work_steps] t tq.reach_inv [OF assms(1)] by blast
  have f: "tq_added t = tq_added s" "tq_stop t = tq_stop s" "\<not> tq_late t"
    using work_frame t assms(3) by blast+
  show "mset (tq_run t) = mset (tq_added s)"
    using stuck_drained(1) [OF inv assms(2) _ f(3)] t f(1) by simp
  show "if tq_stop s then joinable t else set (tq_pcs t) = {Asleep}"
    using stuck_drained(2) [OF inv assms(2) _ f(3)] t f(2) by simp
qed

text \<open>A run of two workers: one sleeps, two tasks come, and the pool is stopped.\<close>

definition sample_pool :: "nat task_queue" where
  "sample_pool = stop_queue (add_tasks [8] (worker_step 0 (add_task 0 7 (worker_step 0 (task_queue_new 2)))))"

lemma sample_pool_reach: "reach (tq_init 2) tq_step sample_pool"
proof -
  let ?s0 = "task_queue_new 2 :: nat task_queue"
  let ?s1 = "worker_step 0 ?s0" let ?s2 = "add_task 0 7 ?s1" let ?s3 = "worker_step 0 ?s2"
  have "reach (tq_init 2) tq_step ?s0" by (auto simp: tq_init_def)
  moreover have "tq_step ?s0 ?s1"
    by (intro step_work work) (simp add: movable_def task_queue_new_def)
  moreover have "tq_step ?s1 ?s2"
    by (rule step_add) (simp add: task_queue_new_def worker_step_def critical_def)
  moreover have "tq_step ?s2 ?s3"
    by (intro step_work work)
      (simp add: movable_def task_queue_new_def worker_step_def critical_def add_task_def notify_one_def numeral_2_eq_2)
  moreover have "tq_step ?s3 (add_tasks [8] ?s3)" by (rule step_adds)
  moreover have "tq_step (add_tasks [8] ?s3) sample_pool"
    unfolding sample_pool_def by (rule step_stop)
  ultimately show ?thesis by (meson reach_step)
qed

lemma sample_pool_value:
  "tq_added sample_pool = [7, 8]" "tq_stop sample_pool" "\<not> tq_late sample_pool"
  "tq_taken sample_pool = [7]" "tq_queue sample_pool = [8]"
  by (simp_all add: sample_pool_def stop_queue_def add_tasks_def add_task_def push_task_def notify_all_def
      notify_one_def worker_step_def critical_def task_queue_new_def numeral_2_eq_2)

theorem tasks_fifo_once_witness:
  "[7, 8] = [7] @ tq_queue sample_pool \<and>
   mset [7] = mset (tq_run sample_pool) + mset (concat (map held (tq_pcs sample_pool)))"
  using tasks_fifo_once [OF sample_pool_reach] by (simp add: sample_pool_value)

theorem tasks_all_run_witness:
  "\<exists>t. work\<^sup>*\<^sup>* sample_pool t \<and> mset (tq_run t) = mset [7, 8] \<and> joinable t"
  using tasks_all_run [OF sample_pool_reach] by (auto simp: sample_pool_value)

end
