(* ===== verification/Scheduler.thy ===== *)
theory Scheduler
  imports Numeric_Utils "HOL-Library.Sublist"
begin

text \<open>
  The timed scheduler of \<open>src/src/include/cppev/scheduler.h\<close>. A timer task is its interval in
  nanoseconds (the truncated quotient of $10^9$ by its frequency, which is computed in floating
  point and is an input here), its priority and its handler. Times are integers of nanoseconds.
\<close>

section \<open>Construction\<close>

type_synonym 'h timer_task = "int \<times> priority \<times> 'h"

text \<open>\<open>tasks_\<close> is an ordered map from time stamps to indices of \<open>timer_handlers_\<close>.\<close>

record 'h scheduler =
  sd_interval :: int
  sd_handlers :: "'h list"
  sd_tasks :: "(int \<times> nat list) list"

text \<open>
  The heap orders by priority alone: it pops the indices of the tasks in some order of descending
  priority. The order it chooses among equal priorities is a parameter.
\<close>

definition heap_order :: "'h timer_task list \<Rightarrow> nat list \<Rightarrow> bool" where
  "heap_order tasks order \<longleftrightarrow>
     mset order = mset [0..<length tasks] \<and>
     sorted_wrt (\<lambda>i j. prio_val (fst (snd (tasks ! i))) \<ge> prio_val (fst (snd (tasks ! j)))) order"

text \<open>\<open>tasks_[stamp].push_back(j)\<close>\<close>

fun tasks_push :: "int \<Rightarrow> nat \<Rightarrow> (int \<times> nat list) list \<Rightarrow> (int \<times> nat list) list" where
  "tasks_push stamp j [] = [(stamp, [j])]"
| "tasks_push stamp j ((s, js) # m) =
     (if stamp < s then (stamp, [j]) # (s, js) # m
      else if stamp = s then (s, js @ [j]) # m
      else (s, js) # tasks_push stamp j m)"

text \<open>\<open>for (stamp = 0; stamp < lcm; stamp += gcd)\<close>\<close>

function stamp_loop ::
  "int \<Rightarrow> int \<Rightarrow> int \<Rightarrow> nat \<Rightarrow> int \<Rightarrow> (int \<times> nat list) list \<Rightarrow> (int \<times> nat list) list res"
where
  "stamp_loop l g interval j stamp m =
     (if stamp < l
      then rbind (c_mod stamp interval) (\<lambda>r.
           let m = (if r = 0 then tasks_push stamp j m else m) in
           if g = 0 then Inl Diverges
           else rbind (chk64 (stamp + g)) (\<lambda>stamp'. stamp_loop l g interval j stamp' m))
      else Inr m)"
  by pat_completeness auto
termination
  by (relation "measure (\<lambda>(l, g, interval, j, stamp, m).
        if 0 < g then nat (l - stamp) else nat (stamp - int64_min))")
     (auto simp: chk64_def int_limits split: if_splits)

declare stamp_loop.simps [simp del]

text \<open>\<open>while (!timer_tasks_heap.empty())\<close>; \<open>order\<close> are the indices the heap still holds.\<close>

fun fill_tasks ::
  "'h timer_task list \<Rightarrow> int \<Rightarrow> int \<Rightarrow> nat list \<Rightarrow> 'h list \<Rightarrow> (int \<times> nat list) list \<Rightarrow>
   ('h list \<times> (int \<times> nat list) list) res"
where
  "fill_tasks tasks l g [] hs m = Inr (hs, m)"
| "fill_tasks tasks l g (idx # order) hs m =
     rbind (rd_at tasks (int idx)) (\<lambda>(interval, prio, h).
     let hs = hs @ [h] in
     rbind (stamp_loop l g interval (length hs - 1) 0 m) (\<lambda>m.
     fill_tasks tasks l g order hs m))"

definition scheduler_new :: "'h timer_task list \<Rightarrow> nat list \<Rightarrow> 'h scheduler res" where
  "scheduler_new tasks order =
     (let intervals = map fst tasks in
      rbind (rd_at intervals 0) (\<lambda>first.
      rbind (if length intervals \<ge> 2
             then rbind (lcm_vector intervals) (\<lambda>l. rbind (gcd_vector intervals) (\<lambda>g. Inr (l, g)))
             else Inr (first, first)) (\<lambda>(l, g).
      rbind (fill_tasks tasks l g order [] []) (\<lambda>(hs, m).
      Inr \<lparr>sd_interval = l, sd_handlers = hs, sd_tasks = m\<rparr>))))"

text \<open>The constructor for one task; the frequency is a double, and \<open>interval\<close> what it becomes.\<close>

definition scheduler_single :: "int \<Rightarrow> 'h \<Rightarrow> nat list \<Rightarrow> 'h scheduler res" where
  "scheduler_single interval handler order = scheduler_new [(interval, p0, handler)] order"

section \<open>The thread\<close>

text \<open>
  The calls of the first \<open>n\<close> map entries the thread processes before it sees \<open>stop_\<close>: \<open>iter\<close> is
  the rest of the map in the current cycle, \<open>tp\<close> the current time point. A call is the time
  stamp passed and the handler. With an empty map the thread spins without calling anything.
\<close>

fun sched_loop :: "'h scheduler \<Rightarrow> (int \<times> nat list) list \<Rightarrow> nat \<Rightarrow> int \<Rightarrow> (int \<times> 'h) list" where
  "sched_loop s iter 0 tp = []"
| "sched_loop s iter (Suc n) tp =
     (case (if iter = [] then sd_tasks s else iter) of
        [] \<Rightarrow> []
      | (stamp, js) # next_iter \<Rightarrow>
          (let span = (case next_iter of
                         [] \<Rightarrow> sd_interval s - stamp
                       | (stamp', _) # _ \<Rightarrow> stamp' - stamp)
           in map (\<lambda>j. (tp, sd_handlers s ! j)) js @ sched_loop s next_iter n (tp + span)))"

datatype 'h sched_event = Init_task nat | Timed_task int 'h | Exit_task nat

text \<open>The whole thread, when \<open>stop_\<close> is seen after \<open>n\<close> entries; \<open>now\<close> is the clock at its start.\<close>

definition sched_thread :: "'h scheduler \<Rightarrow> nat \<Rightarrow> nat \<Rightarrow> bool \<Rightarrow> int \<Rightarrow> nat \<Rightarrow> 'h sched_event list res" where
  "sched_thread s init_tasks exit_tasks align now n =
     rbind (if align then ceil_time_point now else Inr now) (\<lambda>tp.
     Inr (map Init_task [0..<init_tasks] @
          map (\<lambda>(t, h). Timed_task t h) (sched_loop s [] n tp) @
          map Exit_task [0..<exit_tasks]))"

section \<open>The task table\<close>

text \<open>A table with the entries \<open>f t\<close> at the stamps \<open>t\<close> where they are not empty.\<close>

definition table :: "(int \<Rightarrow> nat list) \<Rightarrow> int list \<Rightarrow> (int \<times> nat list) list" where
  "table f ts = map (\<lambda>t. (t, f t)) (filter (\<lambda>t. f t \<noteq> []) ts)"

lemma table_push:
  assumes "sorted_wrt (<) ts" and "t \<in> set ts"
  shows "tasks_push t j (table f ts) = table (f(t := f t @ [j])) ts"
  using assms
proof (induction ts)
  case (Cons s ts)
  have other: "table (f(t := f t @ [j])) us = table f us" if "t \<notin> set us" for us
    unfolding table_def using that by (intro map_cong filter_cong) auto
  show ?case
  proof (cases "s = t")
    case True
    then have "t \<notin> set ts" and later: "\<And>u. u \<in> set ts \<Longrightarrow> t < u"
      using Cons.prems(1) by auto
    moreover have "tasks_push t j (table f ts) = (t, [j]) # table f ts"
      using later unfolding table_def by (cases "filter (\<lambda>t. f t \<noteq> []) ts") (auto simp: filter_eq_Cons_iff)
    ultimately show ?thesis
      using True other [of ts] by (cases "f t = []") (simp_all add: table_def)
  next
    case False
    then have t: "t \<in> set ts" "s < t" "\<not> t < s" "t \<noteq> s"
      using Cons.prems by auto
    have "tasks_push t j (table f ts) = table (f(t := f t @ [j])) ts"
      by (rule Cons.IH) (use Cons.prems t(1) in auto)
    with t show ?thesis
      by (cases "f s = []") (simp_all add: table_def)
  qed
qed simp

definition stamps :: "int \<Rightarrow> nat \<Rightarrow> int list" where
  "stamps g N = map (\<lambda>k. g * int k) [0..<N]"

lemma sorted_stamps: "0 < g \<Longrightarrow> sorted_wrt (<) (stamps g N)"
  by (auto simp: stamps_def sorted_wrt_iff_nth_less)

lemma c_mod_nonneg:
  assumes "0 \<le> p" and "0 < r" and "p \<le> int64_max"
  shows "c_mod p r = Inr (p mod r)"
  using assms c_mod_pos [of p r] by (cases "p = 0") (simp_all add: c_mod_def int_limits)

lemma stamp_loop_table:
  assumes "0 < g" and "0 < iv" and l: "l = g * int N" and "l + g \<le> int64_max" and "k \<le> N"
  shows "stamp_loop l g iv j (g * int k) (table f (stamps g N))
         = Inr (table (\<lambda>t. if g * int k \<le> t \<and> t < l \<and> iv dvd t then f t @ [j] else f t) (stamps g N))"
  using assms(5)
proof (induction "N - k" arbitrary: k f)
  case 0
  then have "k = N" by simp
  then have "(\<lambda>t. if g * int k \<le> t \<and> t < l \<and> iv dvd t then f t @ [j] else f t) = f"
    using l by auto
  then show ?case
    using l \<open>k = N\<close> by (subst stamp_loop.simps) simp
next
  case (Suc n)
  then have k: "k < N" "Suc k \<le> N" "n = N - Suc k" by auto
  let ?t = "g * int k"
  have t: "0 \<le> ?t" "?t < l" "?t + g = g * int (Suc k)" "?t + g \<le> l"
    using assms(1) l k(1) mult_left_mono [of "int k + 1" "int N" g] by (auto simp: algebra_simps)
  let ?f = "if iv dvd ?t then f(?t := f ?t @ [j]) else f"
  have mem: "?t \<in> set (stamps g N)" using k(1) by (auto simp: stamps_def)
  have push: "(if ?t mod iv = 0 then tasks_push ?t j (table f (stamps g N)) else table f (stamps g N))
      = table ?f (stamps g N)"
    using table_push [OF sorted_stamps [OF assms(1)] mem] by (simp add: mod_eq_0_iff_dvd)
  have chk: "chk64 (g * int (Suc k)) = Inr (g * int (Suc k))"
  proof (rule chk64_in)
    have "0 \<le> g * int (Suc k)" using assms(1) by simp
    then show "int64_min \<le> g * int (Suc k)" unfolding int_limits by linarith
    show "g * int (Suc k) \<le> int64_max" using t(3,4) assms(1,4) unfolding int_limits by linarith
  qed
  have cm: "c_mod ?t iv = Inr (?t mod iv)"
    using t assms(1,2,4) by (intro c_mod_nonneg) simp_all
  have "stamp_loop l g iv j ?t (table f (stamps g N)) = stamp_loop l g iv j (g * int (Suc k)) (table ?f (stamps g N))"
    using t assms(1) push chk cm by (subst stamp_loop.simps) (simp add: Let_def)
  also have "\<dots> = Inr (table (\<lambda>t. if g * int (Suc k) \<le> t \<and> t < l \<and> iv dvd t then ?f t @ [j] else ?f t) (stamps g N))"
    using Suc.hyps(1) [OF k(3,2)] by simp
  also have "\<dots> = Inr (table (\<lambda>t. if ?t \<le> t \<and> t < l \<and> iv dvd t then f t @ [j] else f t) (stamps g N))"
  proof -
    have "(if g * int (Suc k) \<le> u \<and> u < l \<and> iv dvd u then ?f u @ [j] else ?f u)
        = (if ?t \<le> u \<and> u < l \<and> iv dvd u then f u @ [j] else f u)" if u: "u \<in> set (stamps g N)" for u
    proof -
      obtain i where i: "u = g * int i" using u by (auto simp: stamps_def)
      have "g * int (Suc k) \<le> u \<longleftrightarrow> Suc k \<le> i" "?t \<le> u \<longleftrightarrow> k \<le> i" "u = ?t \<longleftrightarrow> i = k"
        using assms(1) i by (simp_all only: i mult_le_cancel_left_pos of_nat_le_iff) simp
      then show ?thesis using t(2) by (auto simp: le_Suc_eq Suc_le_eq)
    qed
    then show ?thesis
      unfolding table_def by (intro arg_cong [of _ _ Inr] map_cong filter_cong) auto
  qed
  finally show ?case .
qed

section \<open>Filling the table\<close>

text \<open>The positions in \<open>order\<close>, from \<open>j\<close> on, of the tasks due at a stamp.\<close>

fun due_at :: "'h timer_task list \<Rightarrow> nat \<Rightarrow> nat list \<Rightarrow> int \<Rightarrow> nat list" where
  "due_at tasks j [] t = []"
| "due_at tasks j (idx # order) t =
     (if fst (tasks ! idx) dvd t then [j] else []) @ due_at tasks (Suc j) order t"

abbreviation handler_of :: "'h timer_task list \<Rightarrow> nat \<Rightarrow> 'h" where
  "handler_of tasks idx \<equiv> snd (snd (tasks ! idx))"

lemma table_cong: "(\<And>t. t \<in> set ts \<Longrightarrow> f t = g t) \<Longrightarrow> table f ts = table g ts"
  unfolding table_def by (intro map_cong filter_cong) auto

lemma stamps_range: "0 < g \<Longrightarrow> t \<in> set (stamps g N) \<Longrightarrow> 0 \<le> t \<and> t < g * int N"
  by (auto simp: stamps_def)

lemma fill_tasks_table:
  assumes "0 < g" and "l = g * int N" and "l + g \<le> int64_max"
    and "\<forall>idx\<in>set order. idx < length tasks \<and> 0 < fst (tasks ! idx)"
  shows "fill_tasks tasks l g order hs (table f (stamps g N))
         = Inr (hs @ map (handler_of tasks) order, table (\<lambda>t. f t @ due_at tasks (length hs) order t) (stamps g N))"
  using assms(4)
proof (induction order arbitrary: hs f)
  case (Cons idx order)
  obtain iv p h where task: "tasks ! idx = (iv, p, h)" by (metis prod_cases3)
  let ?f = "\<lambda>t. if iv dvd t then f t @ [length hs] else f t"
  have "stamp_loop l g iv (length hs) 0 (table f (stamps g N))
      = Inr (table (\<lambda>t. if 0 \<le> t \<and> t < l \<and> iv dvd t then f t @ [length hs] else f t) (stamps g N))"
    using stamp_loop_table [OF assms(1) _ assms(2,3), of iv 0] Cons.prems task by simp
  also have "\<dots> = Inr (table ?f (stamps g N))"
    using stamps_range [OF assms(1)] assms(2) by (intro arg_cong [of _ _ Inr] table_cong) auto
  finally have "fill_tasks tasks l g (idx # order) hs (table f (stamps g N))
      = fill_tasks tasks l g order (hs @ [h]) (table ?f (stamps g N))"
    using Cons.prems task by simp
  also have "\<dots> = Inr (hs @ map (handler_of tasks) (idx # order),
      table (\<lambda>t. ?f t @ due_at tasks (Suc (length hs)) order t) (stamps g N))"
    using Cons task by simp
  also have "table (\<lambda>t. ?f t @ due_at tasks (Suc (length hs)) order t) (stamps g N)
      = table (\<lambda>t. f t @ due_at tasks (length hs) (idx # order) t) (stamps g N)"
    using task by (intro table_cong) simp
  finally show ?case .
qed simp

lemma due_at_handlers:
  "map (\<lambda>j. (hs @ map (handler_of tasks) order) ! j) (due_at tasks (length hs) order t)
   = map (handler_of tasks) (filter (\<lambda>idx. fst (tasks ! idx) dvd t) order)"
proof (induction order arbitrary: hs)
  case (Cons idx order)
  show ?case
    using Cons [of "hs @ [handler_of tasks idx]"] by (simp add: nth_append)
qed simp

section \<open>The timeline\<close>

abbreviation entry_calls :: "'h scheduler \<Rightarrow> int \<Rightarrow> int \<times> nat list \<Rightarrow> (int \<times> 'h) list" where
  "entry_calls s tp e \<equiv> map (\<lambda>j. (tp + fst e, sd_handlers s ! j)) (snd e)"

lemma sched_loop_cycle:
  "sched_loop s ((st, js) # rest) (length rest + Suc n) (tp + st)
   = concat (map (entry_calls s tp) ((st, js) # rest)) @ sched_loop s [] n (tp + sd_interval s)"
proof (induction rest arbitrary: st js)
  case (Cons e rest)
  obtain st' js' where e: "e = (st', js')" by fastforce
  show ?case using Cons [of st' js'] by (simp add: e)
qed simp

lemma sched_loop_cycles:
  assumes "sd_tasks s = (0, js) # rest"
  shows "sched_loop s [] (C * length (sd_tasks s)) tp
         = concat (map (\<lambda>c. concat (map (entry_calls s (tp + int c * sd_interval s)) (sd_tasks s))) [0..<C])"
proof (induction C arbitrary: tp)
  case (Suc C)
  have "sched_loop s [] (Suc C * length (sd_tasks s)) tp
      = sched_loop s (sd_tasks s) (length rest + Suc (C * length (sd_tasks s))) (tp + 0)"
    using assms by (simp add: add.left_commute)
  also have "\<dots> = concat (map (entry_calls s tp) (sd_tasks s))
      @ sched_loop s [] (C * length (sd_tasks s)) (tp + sd_interval s)"
    using sched_loop_cycle [of s 0 js rest "C * length (sd_tasks s)" tp] unfolding assms .
  also have "\<dots> = concat (map (\<lambda>c. concat (map (entry_calls s (tp + int c * sd_interval s)) (sd_tasks s))) [0..<Suc C])"
    by (simp only: Suc upt_conv_Cons map_Suc_upt [symmetric] zero_less_Suc map_map comp_def concat.simps list.map)
       (simp add: algebra_simps)
  finally show ?case .
qed simp

lemma concat_map_filter: "(\<And>x. x \<in> set xs \<Longrightarrow> \<not> P x \<Longrightarrow> F x = []) \<Longrightarrow> concat (map F (filter P xs)) = concat (map F xs)"
  by (induction xs) auto

lemma stamps_filter: "0 < g \<Longrightarrow> stamps g N = filter (\<lambda>t. g dvd t) [0..g * int N - 1]"
proof (rule sorted_distinct_set_unique)
  assume g: "0 < g"
  show "sorted (stamps g N)" "distinct (stamps g N)"
    using sorted_stamps [OF g, of N] strict_sorted_iff by auto
  show "sorted (filter (\<lambda>t. g dvd t) [0..g * int N - 1])" by (simp add: sorted_wrt_filter)
  show "set (stamps g N) = set (filter (\<lambda>t. g dvd t) [0..g * int N - 1])"
  proof (intro set_eqI iffI)
    fix t assume "t \<in> set (filter (\<lambda>t. g dvd t) [0..g * int N - 1])"
    then obtain k where k: "t = g * k" "0 \<le> t" "t < g * int N" by auto
    then have "0 \<le> k" "k < int N" using g by (auto simp: zero_le_mult_iff)
    then show "t \<in> set (stamps g N)"
      using k(1) by (auto simp: stamps_def intro!: image_eqI [of _ _ "nat k"])
  qed (use stamps_range [OF g] in \<open>auto simp: stamps_def\<close>)
qed simp

lemma concat_table:
  "concat (map (\<lambda>e. map (\<lambda>j. (tp + fst e, H j)) (snd e)) (table f ts))
   = concat (map (\<lambda>t. map (\<lambda>j. (tp + t, H j)) (f t)) ts)"
  by (induction ts) (auto simp: table_def)

lemma map_add_upto: "map (\<lambda>x. x + c) [a..b] = [a + c..b + c]"
  by (induction a b rule: upto.induct) (subst (1 2) upto.simps, simp add: add.commute add.left_commute)

lemma concat_blocks:
  assumes "0 < l"
  shows "concat (map (\<lambda>c. concat (map (\<lambda>T. F (T + int c * l)) [0..l - 1])) [0..<C]) = concat (map F [0..int C * l - 1])"
proof (induction C)
  case (Suc C)
  have block: "map (\<lambda>T. F (T + int C * l)) [0..l - 1] = map F [int C * l..int (Suc C) * l - 1]"
  proof -
    have "map (\<lambda>T. F (T + int C * l)) [0..l - 1] = map F (map (\<lambda>T. T + int C * l) [0..l - 1])"
      by simp
    also have "map (\<lambda>T. T + int C * l) [0..l - 1] = [int C * l..int (Suc C) * l - 1]"
      unfolding map_add_upto by (simp add: algebra_simps)
    finally show ?thesis .
  qed
  have "0 \<le> int C * l" "int C * l \<le> int (Suc C) * l - 1"
    using assms by (simp_all add: algebra_simps)
  then have "[0..int (Suc C) * l - 1] = [0..int C * l - 1] @ [int C * l..int (Suc C) * l - 1]"
    by (rule upto_split1)
  then show ?case
    using Suc block by simp
qed simp

text \<open>The calls due \<open>T\<close> nanoseconds after the start, by descending priority.\<close>

definition calls_at :: "'h timer_task list \<Rightarrow> nat list \<Rightarrow> int \<Rightarrow> int \<Rightarrow> (int \<times> 'h) list" where
  "calls_at tasks order tp T =
     map (\<lambda>idx. (tp + T, handler_of tasks idx)) (filter (\<lambda>idx. fst (tasks ! idx) dvd T) order)"

lemma calls_at_shift:
  assumes "\<forall>idx\<in>set order. fst (tasks ! idx) dvd l"
  shows "calls_at tasks order (tp + c * l) T = calls_at tasks order tp (T + c * l)"
proof -
  have "fst (tasks ! idx) dvd T + c * l \<longleftrightarrow> fst (tasks ! idx) dvd T" if "idx \<in> set order" for idx
    using assms that by (simp add: dvd_add_left_iff)
  then have "filter (\<lambda>idx. fst (tasks ! idx) dvd T + c * l) order = filter (\<lambda>idx. fst (tasks ! idx) dvd T) order"
    by (intro filter_cong) auto
  then show ?thesis by (simp add: calls_at_def algebra_simps)
qed

lemma lcm_gcd_ok:
  assumes "tasks \<noteq> []" and "\<forall>x\<in>set (map fst tasks). 0 < x \<and> x \<le> int64_max"
    and "Lcm (set (map fst tasks)) \<le> int64_max"
  shows "(if length (map fst tasks) \<ge> 2
          then rbind (lcm_vector (map fst tasks)) (\<lambda>l. rbind (gcd_vector (map fst tasks)) (\<lambda>g. Inr (l, g)))
          else Inr (fst (hd tasks), fst (hd tasks)))
         = Inr (Lcm (set (map fst tasks)), Gcd (set (map fst tasks)))"
proof (cases "length (map fst tasks) \<ge> 2")
  case True
  have "0 \<le> Lcm (set (map fst tasks))" by simp
  then have "int64_min \<le> Lcm (set (map fst tasks))" unfolding int_limits by linarith
  with True vector_gcd_lcm [OF True assms(2)] assms(3) show ?thesis
    by simp
next
  case False
  then obtain t where "tasks = [t]"
    using assms(1) by (cases tasks; cases "tl tasks") auto
  then show ?thesis using assms(2) by simp
qed

lemma scheduler_new_ok:
  fixes tasks :: "'h timer_task list"
  defines "l \<equiv> Lcm (set (map fst tasks))" and "g \<equiv> Gcd (set (map fst tasks))"
  assumes "tasks \<noteq> []" and pos: "\<forall>x\<in>set (map fst tasks). 0 < x \<and> x \<le> int64_max"
    and "l + g \<le> int64_max" and "heap_order tasks order"
  shows "0 < g \<and> 0 < l \<and> g dvd l \<and>
    scheduler_new tasks order = Inr \<lparr>sd_interval = l, sd_handlers = map (handler_of tasks) order,
      sd_tasks = table (due_at tasks 0 order) (stamps g (nat (l div g)))\<rparr>"
proof -
  obtain x where x: "x \<in> set (map fst tasks)" using assms(3) by (cases tasks) auto
  have "g \<noteq> 0" using x pos unfolding g_def Gcd_0_iff by fastforce
  moreover have "0 \<le> g" unfolding g_def by simp
  ultimately have g: "0 < g" by simp
  have "l \<noteq> 0" using pos unfolding l_def by (auto simp: Lcm_0_iff)
  moreover have "0 \<le> l" unfolding l_def by simp
  ultimately have l: "0 < l" by simp
  have dvd: "g dvd l"
    using x unfolding g_def l_def by (meson Gcd_dvd dvd_Lcm dvd_trans)
  have N: "l = g * int (nat (l div g))"
    using g l dvd by (simp add: pos_imp_zdiv_nonneg_iff)
  have "set order = set [0..<length tasks]"
    using assms(6) unfolding heap_order_def by (metis set_mset_mset)
  then have idx: "\<forall>idx\<in>set order. idx < length tasks \<and> 0 < fst (tasks ! idx)"
    using pos by auto
  have "l \<le> int64_max" using assms(5) g by linarith
  have first: "rd_at (map fst tasks) 0 = Inr (fst (hd tasks))"
    using assms(3) by (cases tasks) simp_all
  have fill: "fill_tasks tasks l g order [] [] = Inr (map (handler_of tasks) order,
      table (due_at tasks 0 order) (stamps g (nat (l div g))))"
    using fill_tasks_table [OF g N assms(5) idx, of "[]" "\<lambda>_. []"] by (simp add: table_def)
  have "scheduler_new tasks order = rbind (fill_tasks tasks l g order [] []) (\<lambda>(hs, m).
      Inr \<lparr>sd_interval = l, sd_handlers = hs, sd_tasks = m\<rparr>)"
    unfolding scheduler_new_def Let_def first rbind_Inr
    using lcm_gcd_ok [OF assms(3) pos] \<open>l \<le> int64_max\<close>
    by (simp only: l_def [symmetric] g_def [symmetric] simp_thms rbind_Inr case_prod_conv)
  with fill g l dvd show ?thesis by simp
qed

lemma timeline:
  fixes tasks :: "'h timer_task list"
  assumes "tasks \<noteq> []" and "\<forall>x\<in>set (map fst tasks). 0 < x \<and> x \<le> int64_max"
    and "Lcm (set (map fst tasks)) + Gcd (set (map fst tasks)) \<le> int64_max" and "heap_order tasks order"
  shows "\<exists>s. scheduler_new tasks order = Inr s \<and> sd_interval s = Lcm (set (map fst tasks)) \<and>
    sched_loop s [] (C * length (sd_tasks s)) tp
      = concat (map (calls_at tasks order tp) [0..int C * sd_interval s - 1]) \<and>
    sorted_wrt (\<lambda>i j. prio_val (fst (snd (tasks ! i))) \<ge> prio_val (fst (snd (tasks ! j)))) order"
proof -
  define l where "l = Lcm (set (map fst tasks))"
  define g where "g = Gcd (set (map fst tasks))"
  define ts where "ts = stamps g (nat (l div g))"
  define s where "s = \<lparr>sd_interval = l, sd_handlers = map (handler_of tasks) order,
      sd_tasks = table (due_at tasks 0 order) ts\<rparr>"
  have new: "0 < g" "0 < l" "g dvd l" "scheduler_new tasks order = Inr s"
    using scheduler_new_ok [OF assms] by (simp_all add: l_def g_def s_def ts_def)
  have set_order: "set order = set [0..<length tasks]"
    using assms(4) unfolding heap_order_def by (metis set_mset_mset)
  then have iv: "\<forall>idx\<in>set order. g dvd fst (tasks ! idx) \<and> fst (tasks ! idx) dvd l"
    unfolding g_def l_def by auto
  have calls: "map (\<lambda>j. (tp' + T, sd_handlers s ! j)) (due_at tasks 0 order T) = calls_at tasks order tp' T" for tp' T
  proof -
    have "map (\<lambda>j. (tp' + T, sd_handlers s ! j)) (due_at tasks 0 order T)
        = map (Pair (tp' + T)) (map (\<lambda>j. map (handler_of tasks) order ! j) (due_at tasks 0 order T))"
      by (simp add: s_def)
    also have "\<dots> = map (Pair (tp' + T)) (map (handler_of tasks) (filter (\<lambda>idx. fst (tasks ! idx) dvd T) order))"
      using due_at_handlers [of "[]" tasks order T] by simp
    finally show ?thesis by (simp add: calls_at_def)
  qed
  have N: "g * int (nat (l div g)) = l"
    using new(1-3) by (simp add: pos_imp_zdiv_nonneg_iff)
  have cycle: "concat (map (entry_calls s tp') (sd_tasks s)) = concat (map (calls_at tasks order tp') [0..l - 1])" for tp'
  proof -
    have "sd_tasks s = table (due_at tasks 0 order) ts" by (simp add: s_def)
    then have "concat (map (entry_calls s tp') (sd_tasks s)) = concat (map (calls_at tasks order tp') ts)"
      by (simp add: concat_table calls)
    also have "ts = filter (\<lambda>t. g dvd t) [0..l - 1]"
      using stamps_filter [OF new(1), of "nat (l div g)"] N by (simp add: ts_def)
    also have "concat (map (calls_at tasks order tp') (filter (\<lambda>t. g dvd t) [0..l - 1]))
        = concat (map (calls_at tasks order tp') [0..l - 1])"
      using iv by (intro concat_map_filter) (auto simp: calls_at_def filter_empty_conv intro: dvd_trans)
    finally show ?thesis .
  qed
  have ne: "due_at tasks 0 order 0 \<noteq> []"
    using set_order assms(1) by (cases order) auto
  have "0 < nat (l div g)" using N new(2) by (cases "nat (l div g)") auto
  then have ts: "ts = 0 # tl ts" by (simp add: ts_def stamps_def upt_conv_Cons)
  have "table (due_at tasks 0 order) (0 # tl ts) = (0, due_at tasks 0 order 0) # table (due_at tasks 0 order) (tl ts)"
    using ne by (simp add: table_def)
  then have first: "sd_tasks s = (0, due_at tasks 0 order 0) # table (due_at tasks 0 order) (tl ts)"
    by (simp add: s_def ts [symmetric])
  have shift: "calls_at tasks order (tp + int c * l) = (\<lambda>T. calls_at tasks order tp (T + int c * l))" for c
    using iv by (intro ext calls_at_shift) blast
  have "sched_loop s [] (C * length (sd_tasks s)) tp
      = concat (map (\<lambda>c. concat (map (calls_at tasks order (tp + int c * l)) [0..l - 1])) [0..<C])"
    using sched_loop_cycles [OF first, of C tp] by (simp add: cycle) (simp add: s_def)
  also have "\<dots> = concat (map (\<lambda>c. concat (map (\<lambda>T. calls_at tasks order tp (T + int c * l)) [0..l - 1])) [0..<C])"
    by (simp only: shift)
  also have "\<dots> = concat (map (calls_at tasks order tp) [0..int C * l - 1])"
    using concat_blocks [OF new(2), of "calls_at tasks order tp" C] by simp
  finally show ?thesis
    using new(4) assms(4) unfolding heap_order_def by (intro exI [of _ s]) (simp add: s_def l_def)
qed

section \<open>Properties\<close>

text \<open>C21. The timeline of the scheduler: its construction succeeds whenever the least common multiple
  of the intervals (plus their greatest common divisor) fits 64 bits, and then for any number
  \<open>C\<close> of cycles the thread calls exactly the tasks whose interval divides the time since the
  start, at exactly that time, for all times of the \<open>C\<close> cycles in order, and by descending
  priority at each of them. Nothing drifts from one cycle to the next.\<close>

theorem scheduler_timeline:
  fixes tasks :: "'h timer_task list"
  assumes "tasks \<noteq> []" and "\<forall>x\<in>set (map fst tasks). 0 < x \<and> x \<le> int64_max"
    and "Lcm (set (map fst tasks)) + Gcd (set (map fst tasks)) \<le> int64_max" and "heap_order tasks order"
  shows "\<exists>s. scheduler_new tasks order = Inr s \<and> sd_interval s = Lcm (set (map fst tasks)) \<and>
    sched_loop s [] (C * length (sd_tasks s)) tp
      = concat (map (calls_at tasks order tp) [0..int C * sd_interval s - 1]) \<and>
    sorted_wrt (\<lambda>i j. prio_val (fst (snd (tasks ! i))) \<ge> prio_val (fst (snd (tasks ! j)))) order"
  using assms by (rule timeline)

text \<open>Two tasks of 2 and 3 nanoseconds, the slower with the higher priority.\<close>

theorem scheduler_timeline_witness:
  "\<exists>s. scheduler_new [(2, p1, ''a''), (3, p0, ''b'')] [1, 0] = Inr s \<and>
     sched_loop s [] (1 * length (sd_tasks s)) 100
       = [(100, ''b''), (100, ''a''), (102, ''a''), (103, ''b''), (104, ''a'')]"
proof -
  let ?tasks = "[(2 :: int, p1, ''a''), (3, p0, ''b'')]"
  have g: "gcd (2 :: int) 3 = 1" by (simp add: gcd_non_0_int)
  then have lcm: "Lcm (set (map fst ?tasks)) = 6" "Gcd (set (map fst ?tasks)) = 1"
    by (simp_all add: lcm_altdef_int)
  have "heap_order ?tasks [1, 0]" by (simp add: heap_order_def)
  then obtain s where s: "scheduler_new ?tasks [1, 0] = Inr s" "sd_interval s = 6"
      "sched_loop s [] (1 * length (sd_tasks s)) 100 = concat (map (calls_at ?tasks [1, 0] 100) [0..int 1 * sd_interval s - 1])"
    using scheduler_timeline [of ?tasks "[1, 0]" 1 100] lcm by (auto simp: int_limits)
  have "concat (map (calls_at ?tasks [1, 0] 100) [0..5])
      = [(100, ''b''), (100, ''a''), (102, ''a''), (103, ''b''), (104, ''a'')]"
    by (simp add: calls_at_def upto.simps)
  with s show ?thesis by auto
qed

lemma sched_loop_prefix: "prefix (sched_loop s iter n tp) (sched_loop s iter (n + m) tp)"
proof (induction n arbitrary: iter tp)
  case (Suc n)
  then show ?case by (auto simp: Let_def split: list.split)
qed simp

text \<open>The whole thread, stopped at any moment: it runs the init tasks, then a prefix of the
  timeline that starts at its start time (a whole second later than the clock when aligned),
  then the exit tasks.\<close>

theorem scheduler_thread_order:
  fixes tasks :: "'h timer_task list"
  assumes "tasks \<noteq> []" and "\<forall>x\<in>set (map fst tasks). 0 < x \<and> x \<le> int64_max"
    and "Lcm (set (map fst tasks)) + Gcd (set (map fst tasks)) \<le> int64_max" and "heap_order tasks order"
    and "0 \<le> now" and "now \<le> int64_max - 1000000000"
  shows "\<exists>s start calls. scheduler_new tasks order = Inr s \<and>
    sched_thread s inits exits align now n
      = Inr (map Init_task [0..<inits] @ map (\<lambda>(t, h). Timed_task t h) calls @ map Exit_task [0..<exits]) \<and>
    prefix calls (concat (map (calls_at tasks order start) [0..int n * sd_interval s - 1])) \<and>
    (if align then 1000000000 dvd start \<and> now < start \<and> start \<le> now + 1000000000 else start = now)"
proof -
  obtain start where start: "(if align then ceil_time_point now else Inr now) = Inr start"
      "if align then 1000000000 dvd start \<and> now < start \<and> start \<le> now + 1000000000 else start = now"
    using next_second [OF assms(5,6)] by (cases align) auto
  obtain s where s: "scheduler_new tasks order = Inr s"
      "sched_loop s [] (n * length (sd_tasks s)) start = concat (map (calls_at tasks order start) [0..int n * sd_interval s - 1])"
    using timeline [OF assms(1-4), of n start] by blast
  have "sched_loop s [] n start = [] \<or> 0 < length (sd_tasks s)"
    by (cases n; cases "sd_tasks s") auto
  then have "prefix (sched_loop s [] n start) (sched_loop s [] (n * length (sd_tasks s)) start)"
  proof
    assume "0 < length (sd_tasks s)"
    then have "n * length (sd_tasks s) = n + n * (length (sd_tasks s) - 1)"
      by (cases "length (sd_tasks s)") simp_all
    then show ?thesis by (metis sched_loop_prefix)
  qed simp
  then show ?thesis
    using s start by (intro exI [of _ s] exI [of _ start] exI [of _ "sched_loop s [] n start"])
      (simp add: sched_thread_def)
qed

theorem scheduler_thread_order_witness:
  "\<exists>s start calls. scheduler_new [(500000000, p0, ''a'')] [0] = Inr s \<and>
    sched_thread s 1 1 True 1500000000 3
      = Inr (map Init_task [0..<1] @ map (\<lambda>(t, h). Timed_task t h) calls @ map Exit_task [0..<1]) \<and>
    prefix calls (concat (map (calls_at [(500000000, p0, ''a'')] [0] start) [0..int 3 * sd_interval s - 1])) \<and>
    1000000000 dvd start \<and> 1500000000 < start \<and> start \<le> 2500000000"
  using scheduler_thread_order [of "[(500000000, p0, ''a'')]" "[0]" 1500000000 1 1 True 3]
  by (simp add: heap_order_def int_limits)

end
