(* ===== verification/Sync.thy ===== *)
theory Sync
  imports Prelude
begin

text \<open>
  The two process-shared synchronisers of \<open>src/src/lib/lock.cc\<close> that are built from a mutex and a
  condition variable: \<open>pshared_one_time_fence\<close> and \<open>pshared_barrier\<close>. As in the task queue a
  critical section is one step and a condition wait splits it in two; threads interleave
  arbitrarily and may wake up spuriously.
\<close>

section \<open>The one-time fence\<close>

text \<open>
  Control points of \<open>wait()\<close> and of \<open>notify()\<close>: before the test of \<open>ok_\<close> outside the lock, before
  the lock, asleep in the condition wait, awake and about to test again, returned.
\<close>

datatype fence_pc = Wait_start | Wait_lock | Wait_asleep | Wait_woken | Wait_done
  | Notify_start | Notify_lock | Notify_done

record fence =
  fn_ok :: bool
  fn_pcs :: "fence_pc list"

definition fence_new :: "fence_pc list \<Rightarrow> fence" where
  "fence_new pcs = \<lparr>fn_ok = False, fn_pcs = pcs\<rparr>"

definition fence_goto :: "nat \<Rightarrow> fence_pc \<Rightarrow> fence \<Rightarrow> fence" where
  "fence_goto i p s = s\<lparr>fn_pcs := (fn_pcs s)[i := p]\<rparr>"

definition fence_ok :: "fence \<Rightarrow> bool" where
  "fence_ok s = fn_ok s"

text \<open>\<open>cond_.notify_one()\<close>: one sleeper, the \<open>j\<close> chosen by the implementation, wakes up.\<close>

definition fence_notify_one :: "nat \<Rightarrow> fence \<Rightarrow> fence" where
  "fence_notify_one j s = (if Wait_asleep \<in> set (fn_pcs s) then fence_goto j Wait_woken s else s)"

definition fence_move :: "nat \<Rightarrow> nat \<Rightarrow> fence \<Rightarrow> fence" where
  "fence_move j i s =
     (case fn_pcs s ! i of
        Wait_start \<Rightarrow> fence_goto i (if fn_ok s then Wait_done else Wait_lock) s
      | Wait_lock \<Rightarrow> fence_goto i (if fn_ok s then Wait_done else Wait_asleep) s
      | Wait_woken \<Rightarrow> fence_goto i (if fn_ok s then Wait_done else Wait_asleep) s
      | Notify_start \<Rightarrow> fence_goto i (if fn_ok s then Notify_done else Notify_lock) s
      | Notify_lock \<Rightarrow> fence_goto i Notify_done (fence_notify_one j (s\<lparr>fn_ok := True\<rparr>))
      | _ \<Rightarrow> s)"

definition fence_movable :: "nat \<Rightarrow> fence \<Rightarrow> bool" where
  "fence_movable i s \<longleftrightarrow> i < length (fn_pcs s) \<and> fn_pcs s ! i \<notin> {Wait_asleep, Wait_done, Notify_done}"

inductive fence_step :: "fence \<Rightarrow> fence \<Rightarrow> bool" where
  fence_go: "fence_movable i s \<Longrightarrow>
     (Wait_asleep \<in> set (fn_pcs s) \<Longrightarrow> j < length (fn_pcs s) \<and> fn_pcs s ! j = Wait_asleep) \<Longrightarrow>
     fence_step s (fence_move j i s)"
| fence_spurious: "i < length (fn_pcs s) \<Longrightarrow> fn_pcs s ! i = Wait_asleep \<Longrightarrow>
     fence_step s (fence_goto i Wait_woken s)"

inductive_cases fence_stepE: "fence_step s t"

definition is_waiter :: "fence_pc \<Rightarrow> bool" where
  "is_waiter p \<longleftrightarrow> p \<in> {Wait_start, Wait_lock, Wait_asleep, Wait_woken, Wait_done}"

definition fence_init :: "nat \<Rightarrow> nat \<Rightarrow> fence \<Rightarrow> bool" where
  "fence_init waiters notifiers s \<longleftrightarrow>
     s = fence_new (replicate waiters Wait_start @ replicate notifiers Notify_start)"

section \<open>The barrier\<close>

datatype barrier_pc = Arriving | Sleeping | Awake | Passed | Threw

record barrier =
  br_count :: int
  br_pcs :: "barrier_pc list"

definition barrier_new :: "int \<Rightarrow> nat \<Rightarrow> barrier" where
  "barrier_new cnt threads = \<lparr>br_count = cnt, br_pcs = replicate threads Arriving\<rparr>"

definition barrier_goto :: "nat \<Rightarrow> barrier_pc \<Rightarrow> barrier \<Rightarrow> barrier" where
  "barrier_goto i p s = s\<lparr>br_pcs := (br_pcs s)[i := p]\<rparr>"

definition barrier_notify_all :: "barrier \<Rightarrow> barrier" where
  "barrier_notify_all s = s\<lparr>br_pcs := map (\<lambda>p. if p = Sleeping then Awake else p) (br_pcs s)\<rparr>"

text \<open>\<open>wait()\<close>: the section up to the condition wait, and the test after waking up.\<close>

definition barrier_move :: "nat \<Rightarrow> barrier \<Rightarrow> barrier" where
  "barrier_move i s =
     (case br_pcs s ! i of
        Arriving \<Rightarrow>
          (let s = s\<lparr>br_count := br_count s - 1\<rparr> in
           if br_count s = 0 then barrier_goto i Passed (barrier_notify_all s)
           else if br_count s > 0 then barrier_goto i Sleeping s
           else barrier_goto i Threw s)
      | Awake \<Rightarrow> barrier_goto i (if br_count s = 0 then Passed else Sleeping) s
      | _ \<Rightarrow> s)"

definition barrier_movable :: "nat \<Rightarrow> barrier \<Rightarrow> bool" where
  "barrier_movable i s \<longleftrightarrow> i < length (br_pcs s) \<and> br_pcs s ! i \<in> {Arriving, Awake}"

inductive barrier_step :: "barrier \<Rightarrow> barrier \<Rightarrow> bool" where
  barrier_go: "barrier_movable i s \<Longrightarrow> barrier_step s (barrier_move i s)"
| barrier_spurious: "i < length (br_pcs s) \<Longrightarrow> br_pcs s ! i = Sleeping \<Longrightarrow>
     barrier_step s (barrier_goto i Awake s)"

inductive_cases barrier_stepE: "barrier_step s t"

definition barrier_init :: "int \<Rightarrow> nat \<Rightarrow> barrier \<Rightarrow> bool" where
  "barrier_init cnt threads s \<longleftrightarrow> s = barrier_new cnt threads"

section \<open>The barrier with as many threads as its count\<close>

definition barrier_inv :: "nat \<Rightarrow> barrier \<Rightarrow> bool" where
  "barrier_inv n s \<longleftrightarrow>
     length (br_pcs s) = n \<and> br_count s = int (length (filter (\<lambda>p. p = Arriving) (br_pcs s))) \<and>
     Threw \<notin> set (br_pcs s) \<and>
     (Passed \<in> set (br_pcs s) \<longrightarrow> br_count s = 0) \<and> (br_count s = 0 \<longrightarrow> Sleeping \<notin> set (br_pcs s))"

lemma filter_update:
  "i < length ps \<Longrightarrow> int (length (filter P (ps[i := p])))
     = int (length (filter P ps)) - of_bool (P (ps ! i)) + of_bool (P p)"
proof (induction ps arbitrary: i)
  case (Cons q ps)
  then show ?case by (cases i) auto
qed simp

lemma barrier_goto_inv:
  assumes "barrier_inv n s" and "i < n" and "br_pcs s ! i \<noteq> Arriving"
    and "p \<in> {Awake, Sleeping, Passed}" and "p = Passed \<Longrightarrow> br_count s = 0" and "p = Sleeping \<Longrightarrow> br_count s \<noteq> 0"
  shows "barrier_inv n (barrier_goto i p s)"
  using assms filter_update [of i "br_pcs s" "\<lambda>p. p = Arriving" p]
  by (auto simp: barrier_inv_def barrier_goto_def dest: update_mem)

lemma notify_all_counts:
  "length (br_pcs (barrier_notify_all s)) = length (br_pcs s)"
  "filter (\<lambda>p. p = Arriving) (br_pcs (barrier_notify_all s)) = filter (\<lambda>p. p = Arriving) (br_pcs s)"
  "Sleeping \<notin> set (br_pcs (barrier_notify_all s))"
  "Threw \<in> set (br_pcs (barrier_notify_all s)) \<longleftrightarrow> Threw \<in> set (br_pcs s)"
  "br_count (barrier_notify_all s) = br_count s"
proof -
  have "filter (\<lambda>p. p = Arriving) (map (\<lambda>p. if p = Sleeping then Awake else p) ps) = filter (\<lambda>p. p = Arriving) ps" for ps
    by (induction ps) auto
  then show "filter (\<lambda>p. p = Arriving) (br_pcs (barrier_notify_all s)) = filter (\<lambda>p. p = Arriving) (br_pcs s)"
    by (simp add: barrier_notify_all_def)
qed (auto simp: barrier_notify_all_def image_iff)

lemma barrier_move_inv:
  assumes inv: "barrier_inv n s" and "barrier_movable i s"
  shows "barrier_inv n (barrier_move i s)"
proof -
  have i: "i < n" "i < length (br_pcs s)" using assms by (auto simp: barrier_movable_def barrier_inv_def)
  show ?thesis
  proof (cases "br_pcs s ! i")
    case Arriving
    note upd = filter_update [OF i(2), of "\<lambda>p. p = Arriving"]
    have pos: "0 < br_count s"
    proof -
      have "Arriving \<in> set (br_pcs s)" using Arriving i(2) by (metis nth_mem)
      then show ?thesis using inv by (auto simp: barrier_inv_def filter_empty_conv)
    qed
    then have np: "Passed \<notin> set (br_pcs s)" using inv by (auto simp: barrier_inv_def)
    show ?thesis
    proof (cases "br_count s = 1")
      case True
      let ?t = "barrier_notify_all (s\<lparr>br_count := 0\<rparr>)"
      have "br_pcs ?t ! i = Arriving" using Arriving i(2) by (simp add: barrier_notify_all_def)
      then have "length (filter (\<lambda>p. p = Arriving) ((br_pcs ?t)[i := Passed])) = 0"
        using filter_update [of i "br_pcs ?t" "\<lambda>p. p = Arriving" Passed] i(2) inv True
        by (simp add: notify_all_counts barrier_inv_def)
      then show ?thesis
        using inv True Arriving
        by (auto simp: barrier_inv_def barrier_move_def barrier_goto_def notify_all_counts Let_def dest: update_mem)
    next
      case False
      then show ?thesis
        using inv Arriving pos np upd [of Sleeping] i(2)
        by (auto simp: barrier_inv_def barrier_move_def barrier_goto_def Let_def dest: update_mem)
    qed
  next
    case Awake
    then show ?thesis
      by (auto simp: barrier_move_def intro!: barrier_goto_inv [OF inv i(1)])
  qed (use assms in \<open>auto simp: barrier_movable_def\<close>)
qed

interpretation br: invariant_system "barrier_init (int n) n" barrier_step "barrier_inv n"
proof unfold_locales
  fix s
  show "barrier_init (int n) n s \<Longrightarrow> barrier_inv n s"
    by (cases n) (auto simp: barrier_init_def barrier_new_def barrier_inv_def)
next
  fix s t
  assume inv: "barrier_inv n s" and step: "barrier_step s t"
  from step show "barrier_inv n t"
  proof cases
    case (barrier_spurious i)
    then show ?thesis
      using barrier_goto_inv [OF inv, of i Awake] inv by (auto simp: barrier_inv_def)
  qed (use inv barrier_move_inv in auto)
qed

section \<open>The fence with one waiter\<close>

definition fence_inv :: "nat \<Rightarrow> fence \<Rightarrow> bool" where
  "fence_inv w s \<longleftrightarrow>
     length (filter is_waiter (fn_pcs s)) = w \<and>
     (fn_ok s \<and> w \<le> 1 \<longrightarrow> Wait_asleep \<notin> set (fn_pcs s)) \<and>
     (Wait_done \<in> set (fn_pcs s) \<or> Notify_done \<in> set (fn_pcs s) \<longrightarrow> fn_ok s)"

lemma fence_goto_inv:
  assumes "fence_inv w s" and "i < length (fn_pcs s)" and "is_waiter p = is_waiter (fn_pcs s ! i)"
    and "p = Wait_asleep \<Longrightarrow> \<not> fn_ok s" and "p = Wait_done \<or> p = Notify_done \<Longrightarrow> fn_ok s"
  shows "fence_inv w (fence_goto i p s)"
  using assms filter_update [of i "fn_pcs s" is_waiter p]
  by (auto simp: fence_inv_def fence_goto_def dest: update_mem)

lemma one_waiter:
  assumes "length (filter P xs) \<le> 1" and "i < length xs" "P (xs ! i)" and "j < length xs" "P (xs ! j)"
  shows "i = j"
  using assms
proof (induction xs arbitrary: i j)
  case (Cons x xs)
  have none: "\<not> P (xs ! k)" if "k < length xs" "P x" for k
    using Cons.prems(1) that by (auto simp: filter_empty_conv)
  show ?case
  proof (cases i; cases j)
    fix a b assume "i = Suc a" "j = Suc b"
    then show ?thesis using Cons.IH [of a b] Cons.prems by (auto split: if_splits)
  qed (use Cons.prems none in auto)
qed simp

lemma notify_inv:
  assumes inv: "fence_inv w s"
    and j: "Wait_asleep \<in> set (fn_pcs s) \<Longrightarrow> j < length (fn_pcs s) \<and> fn_pcs s ! j = Wait_asleep"
  shows "fence_inv w (fence_notify_one j (s\<lparr>fn_ok := True\<rparr>))"
proof (cases "Wait_asleep \<in> set (fn_pcs s)")
  case True
  then have j: "j < length (fn_pcs s)" "fn_pcs s ! j = Wait_asleep" using assms(2) by auto
  have "Wait_asleep \<notin> set ((fn_pcs s)[j := Wait_woken])" if "w \<le> 1"
  proof
    assume "Wait_asleep \<in> set ((fn_pcs s)[j := Wait_woken])"
    then obtain i where i: "i < length (fn_pcs s)" "(fn_pcs s)[j := Wait_woken] ! i = Wait_asleep"
      by (auto simp: in_set_conv_nth)
    then have "i \<noteq> j" using j(1) by auto
    with i have "fn_pcs s ! i = Wait_asleep" by simp
    with i(1) j \<open>i \<noteq> j\<close> show False
      using one_waiter [of is_waiter "fn_pcs s" i j] inv that by (auto simp: fence_inv_def is_waiter_def)
  qed
  then show ?thesis
    using inv True filter_update [OF j(1), of is_waiter Wait_woken] j
    by (auto simp: fence_inv_def fence_notify_one_def fence_goto_def is_waiter_def dest: update_mem)
next
  case False
  with inv show ?thesis by (auto simp: fence_inv_def fence_notify_one_def)
qed

lemma fence_move_inv:
  assumes inv: "fence_inv w s" and mv: "fence_movable i s"
    and j: "Wait_asleep \<in> set (fn_pcs s) \<Longrightarrow> j < length (fn_pcs s) \<and> fn_pcs s ! j = Wait_asleep"
  shows "fence_inv w (fence_move j i s)"
proof -
  have i: "i < length (fn_pcs s)" using mv by (simp add: fence_movable_def)
  show ?thesis
  proof (cases "fn_pcs s ! i")
    case Notify_lock
    let ?t = "fence_notify_one j (s\<lparr>fn_ok := True\<rparr>)"
    have ok: "fn_ok ?t" "length (fn_pcs ?t) = length (fn_pcs s)"
      by (simp_all add: fence_notify_one_def fence_goto_def)
    have "fn_pcs ?t ! i = Notify_lock"
      using Notify_lock j by (cases "i = j") (auto simp: fence_notify_one_def fence_goto_def)
    then have "fence_inv w (fence_goto i Notify_done ?t)"
      using fence_goto_inv [OF notify_inv [OF inv j], of i Notify_done] i ok by (simp add: is_waiter_def)
    with Notify_lock show ?thesis by (simp add: fence_move_def)
  qed (use mv in \<open>auto simp: fence_move_def fence_movable_def is_waiter_def intro!: fence_goto_inv [OF inv i]\<close>)
qed

interpretation fn: invariant_system "fence_init w m" fence_step "fence_inv w"
proof unfold_locales
  fix s
  show "fence_init w m s \<Longrightarrow> fence_inv w s"
    by (auto simp: fence_init_def fence_new_def fence_inv_def is_waiter_def)
next
  fix s t
  assume inv: "fence_inv w s" and step: "fence_step s t"
  from step show "fence_inv w t"
  proof cases
    case (fence_spurious i)
    then show ?thesis
      using fence_goto_inv [OF inv, of i Wait_woken] by (simp add: is_waiter_def)
  qed (use inv fence_move_inv in auto)
qed

lemma fence_length: "reach (fence_init w m) fence_step s \<Longrightarrow> length (fn_pcs s) = w + m"
proof (induction rule: reach.induct)
  case (reach_step s t)
  from reach_step.hyps(2) have "length (fn_pcs t) = length (fn_pcs s)"
    by cases (auto simp: fence_move_def fence_goto_def fence_notify_one_def split: fence_pc.splits)
  with reach_step show ?case by simp
qed (simp add: fence_init_def fence_new_def)

section \<open>Properties\<close>

lemma barrier_stuckI: "\<forall>p\<in>set (br_pcs s). p \<noteq> Arriving \<and> p \<noteq> Awake \<Longrightarrow> \<forall>i. \<not> barrier_movable i s"
  by (auto simp: barrier_movable_def)

lemma fence_stuckI:
  "\<forall>p\<in>set (fn_pcs s). p \<in> {Wait_asleep, Wait_done, Notify_done} \<Longrightarrow> \<forall>i. \<not> fence_movable i s"
  by (auto simp: fence_movable_def)

lemma stuck_barrier:
  assumes "\<And>i. \<not> barrier_movable i s" and "p \<in> set (br_pcs s)"
  shows "p \<noteq> Arriving \<and> p \<noteq> Awake"
  using assms by (force simp: in_set_conv_nth barrier_movable_def)

text \<open>C22. A barrier for \<open>n\<close> used by \<open>n\<close> threads: no thread passes before all have arrived, none is
  told that there are too many, and when no thread can move any more all of them have passed.\<close>

theorem barrier_releases_all:
  assumes "reach (barrier_init (int n) n) barrier_step s"
  shows "(Passed \<in> set (br_pcs s) \<longrightarrow> Arriving \<notin> set (br_pcs s)) \<and> Threw \<notin> set (br_pcs s) \<and>
         ((\<forall>i. \<not> barrier_movable i s) \<longrightarrow> br_pcs s = replicate n Passed)"
proof -
  have inv: "barrier_inv n s" using br.reach_inv [OF assms] .
  then have none: "br_count s = 0 \<longleftrightarrow> Arriving \<notin> set (br_pcs s)"
    by (auto simp: barrier_inv_def filter_empty_conv)
  moreover have "br_pcs s = replicate n Passed" if "\<forall>i. \<not> barrier_movable i s"
  proof (rule replicate_eqI)
    fix p assume p: "p \<in> set (br_pcs s)"
    have "br_count s = 0" using none stuck_barrier that by blast
    then show "p = Passed"
      using inv p stuck_barrier [of s p] that by (cases p) (auto simp: barrier_inv_def)
  qed (use inv in \<open>simp add: barrier_inv_def\<close>)
  ultimately show ?thesis using inv by (auto simp: barrier_inv_def)
qed

lemmas barrier_eval = barrier_init_def barrier_new_def barrier_move_def barrier_goto_def
  barrier_notify_all_def barrier_movable_def numeral_3_eq_3 numeral_2_eq_2

lemma barrier_two_run:
  "reach (barrier_init 2 2) barrier_step
     (barrier_move 0 (barrier_move 1 (barrier_move 0 (barrier_new 2 2))))"
proof -
  let ?s = "barrier_new 2 2"
  have "reach (barrier_init 2 2) barrier_step ?s" by (auto simp: barrier_init_def)
  moreover have "barrier_step ?s (barrier_move 0 ?s)"
    by (rule barrier_go) (simp add: barrier_eval)
  moreover have "barrier_step (barrier_move 0 ?s) (barrier_move 1 (barrier_move 0 ?s))"
    by (rule barrier_go) (simp add: barrier_eval)
  moreover have "barrier_step (barrier_move 1 (barrier_move 0 ?s)) (barrier_move 0 (barrier_move 1 (barrier_move 0 ?s)))"
    by (rule barrier_go) (simp add: barrier_eval)
  ultimately show ?thesis by (meson reach_step)
qed

theorem barrier_releases_all_witness:
  "br_pcs (barrier_move 0 (barrier_move 1 (barrier_move 0 (barrier_new 2 2)))) = replicate 2 Passed"
proof -
  have "\<forall>i. \<not> barrier_movable i (barrier_move 0 (barrier_move 1 (barrier_move 0 (barrier_new 2 2))))"
    by (rule barrier_stuckI) (simp add: barrier_eval)
  with barrier_releases_all [of 2 "barrier_move 0 (barrier_move 1 (barrier_move 0 (barrier_new 2 2)))"] barrier_two_run
  show ?thesis by simp
qed

text \<open>A third thread at a barrier for two can strand a thread that arrived in time: the extra
  arrival counts the barrier down to -1 before it throws, so a sleeper that was woken finds its
  condition \<open>count_ == 0\<close> false and sleeps for ever, although the barrier had opened.\<close>

theorem barrier_extra_strands:
  "\<exists>s. reach (barrier_init 2 3) barrier_step s \<and> (\<forall>i. \<not> barrier_movable i s) \<and>
       br_pcs s = [Sleeping, Passed, Threw] \<and> br_count s = - 1"
proof -
  let ?s0 = "barrier_new 2 3"
  let ?s1 = "barrier_move 0 ?s0" let ?s2 = "barrier_move 1 ?s1"
  let ?s3 = "barrier_move 2 ?s2" let ?s4 = "barrier_move 0 ?s3"
  have "reach (barrier_init 2 3) barrier_step ?s0" by (auto simp: barrier_init_def)
  moreover have "barrier_step ?s0 ?s1" by (rule barrier_go) (simp add: barrier_eval)
  moreover have "barrier_step ?s1 ?s2" by (rule barrier_go) (simp add: barrier_eval)
  moreover have "barrier_step ?s2 ?s3" by (rule barrier_go) (simp add: barrier_eval)
  moreover have "barrier_step ?s3 ?s4" by (rule barrier_go) (simp add: barrier_eval)
  ultimately have "reach (barrier_init 2 3) barrier_step ?s4" by (meson reach_step)
  moreover have "\<forall>i. \<not> barrier_movable i ?s4" by (rule barrier_stuckI) (simp add: barrier_eval)
  moreover have "br_pcs ?s4 = [Sleeping, Passed, Threw]" "br_count ?s4 = - 1"
    by (simp_all add: barrier_eval)
  ultimately show ?thesis by blast
qed

lemma stuck_fence:
  assumes "\<And>i. \<not> fence_movable i s" and "p \<in> set (fn_pcs s)"
  shows "p \<in> {Wait_asleep, Wait_done, Notify_done}"
  using assms by (force simp: in_set_conv_nth fence_movable_def)

text \<open>A fence with one waiter and any number of notifiers: \<open>wait\<close> returns only after the fence is
  open, and no notification is lost: when no thread can move any more the waiter has returned,
  provided there is a notifier.\<close>

theorem fence_one_waiter:
  assumes "reach (fence_init 1 (Suc m)) fence_step s"
  shows "(Wait_done \<in> set (fn_pcs s) \<longrightarrow> fn_ok s) \<and>
         ((\<forall>i. \<not> fence_movable i s) \<longrightarrow> (\<forall>p\<in>set (fn_pcs s). p = Wait_done \<or> p = Notify_done))"
proof -
  have inv: "fence_inv 1 s" using fn.reach_inv [OF assms] .
  have len: "length (fn_pcs s) = Suc (Suc m)"
    using fence_length [OF assms] by simp
  have "p = Wait_done \<or> p = Notify_done" if stuck: "\<forall>i. \<not> fence_movable i s" and p: "p \<in> set (fn_pcs s)" for p
  proof -
    have "fn_ok s"
    proof (rule ccontr)
      assume "\<not> fn_ok s"
      then have "\<forall>q\<in>set (fn_pcs s). is_waiter q"
        using inv stuck_fence [of s] stuck by (force simp: fence_inv_def is_waiter_def)
      then have "filter is_waiter (fn_pcs s) = fn_pcs s" by simp
      then show False using inv len by (simp add: fence_inv_def)
    qed
    then show ?thesis
      using inv stuck_fence [of s p] stuck p by (auto simp: fence_inv_def)
  qed
  with inv show ?thesis by (auto simp: fence_inv_def)
qed

lemmas fence_eval = fence_init_def fence_new_def fence_move_def fence_goto_def fence_notify_one_def
  fence_movable_def numeral_2_eq_2

theorem fence_one_waiter_witness:
  "\<exists>s. reach (fence_init 1 (Suc 0)) fence_step s \<and> fn_pcs s = [Wait_done, Notify_done]"
proof -
  let ?s0 = "fence_new [Wait_start, Notify_start]"
  let ?s1 = "fence_move 0 1 ?s0" let ?s2 = "fence_move 0 1 ?s1" let ?s3 = "fence_move 0 0 ?s2"
  have "reach (fence_init 1 (Suc 0)) fence_step ?s0" by (auto simp: fence_init_def)
  moreover have "fence_step ?s0 ?s1" by (rule fence_go) (simp_all add: fence_eval)
  moreover have "fence_step ?s1 ?s2" by (rule fence_go) (simp_all add: fence_eval)
  moreover have "fence_step ?s2 ?s3" by (rule fence_go) (simp_all add: fence_eval)
  ultimately have r: "reach (fence_init 1 (Suc 0)) fence_step ?s3" by (meson reach_step)
  have "\<forall>i. \<not> fence_movable i ?s3" by (rule fence_stuckI) (simp add: fence_eval)
  with fence_one_waiter [OF r] have "\<forall>p\<in>set (fn_pcs ?s3). p = Wait_done \<or> p = Notify_done"
    by blast
  moreover have "length (fn_pcs ?s3) = 2" "\<not> is_waiter (fn_pcs ?s3 ! 1)" "is_waiter (fn_pcs ?s3 ! 0)"
    by (simp_all add: fence_eval is_waiter_def)
  ultimately have "fn_pcs ?s3 = [Wait_done, Notify_done]"
    by (auto simp: is_waiter_def numeral_2_eq_2 length_Suc_conv)
  with r show ?thesis by blast
qed

text \<open>C35. A fence with two waiters: \<open>notify\<close> wakes only one of them, and later notifications do nothing
  because the fence is already open, so the other waiter sleeps for ever behind an open fence.\<close>

theorem fence_strands_waiter:
  "\<exists>s. reach (fence_init 2 2) fence_step s \<and> (\<forall>i. \<not> fence_movable i s) \<and> fn_ok s \<and>
       fn_pcs s = [Wait_done, Wait_asleep, Notify_done, Notify_done]"
proof -
  let ?s0 = "fence_new [Wait_start, Wait_start, Notify_start, Notify_start]"
  let ?s1 = "fence_move 0 0 ?s0" let ?s2 = "fence_move 0 0 ?s1"
  let ?s3 = "fence_move 0 1 ?s2" let ?s4 = "fence_move 0 1 ?s3"
  let ?s5 = "fence_move 0 2 ?s4" let ?s6 = "fence_move 0 2 ?s5"
  let ?s7 = "fence_move 1 3 ?s6" let ?s8 = "fence_move 1 0 ?s7"
  have "reach (fence_init 2 2) fence_step ?s0" by (auto simp: fence_init_def numeral_2_eq_2)
  moreover have "fence_step ?s0 ?s1" by (rule fence_go) (simp_all add: fence_eval)
  moreover have "fence_step ?s1 ?s2" by (rule fence_go) (simp_all add: fence_eval)
  moreover have "fence_step ?s2 ?s3" by (rule fence_go) (simp_all add: fence_eval)
  moreover have "fence_step ?s3 ?s4" by (rule fence_go) (simp_all add: fence_eval)
  moreover have "fence_step ?s4 ?s5" by (rule fence_go) (simp_all add: fence_eval)
  moreover have "fence_step ?s5 ?s6" by (rule fence_go) (simp_all add: fence_eval)
  moreover have "fence_step ?s6 ?s7" by (rule fence_go) (simp_all add: fence_eval)
  moreover have "fence_step ?s7 ?s8" by (rule fence_go) (simp_all add: fence_eval)
  ultimately have "reach (fence_init 2 2) fence_step ?s8" by (meson reach_step)
  moreover have "\<forall>i. \<not> fence_movable i ?s8" by (rule fence_stuckI) (simp add: fence_eval)
  moreover have "fn_pcs ?s8 = [Wait_done, Wait_asleep, Notify_done, Notify_done]" "fn_ok ?s8"
    by (simp_all add: fence_eval)
  ultimately show ?thesis by blast
qed

end
