(* ===== verification/Locks.thy ===== *)
theory Locks
  imports Prelude
begin

text \<open>
  The lock classes of \<open>src/src/include/cppev/lock.h\<close> and \<open>src/src/lib/lock.cc\<close> that wrap a POSIX
  thread object, in the configuration the library uses on Linux, and the guards of the
  reader-writer lock. The POSIX calls are parameters: each takes the kernel and the number of
  the object and answers \<open>None\<close> for 0 or the error it returns.
\<close>

section \<open>POSIX calls\<close>

type_synonym 'k pcall = "'k \<Rightarrow> nat \<Rightarrow> errno option \<times> 'k"

record 'k lock_api =
  pl_spin_init :: "'k pcall"
  pl_spin_destroy :: "'k pcall"
  pl_spin_lock :: "'k pcall"
  pl_spin_unlock :: "'k pcall"
  pl_spin_trylock :: "'k pcall"
  pl_mutexattr_init :: "'k pcall"
  pl_mutexattr_settype :: "'k pcall"
  pl_mutexattr_setprotocol :: "'k pcall"
  pl_mutexattr_setpshared :: "'k pcall"
  pl_mutexattr_destroy :: "'k pcall"
  pl_mutex_init :: "'k pcall"
  pl_mutex_destroy :: "'k pcall"
  pl_mutex_lock :: "'k pcall"
  pl_mutex_trylock :: "'k pcall"
  pl_mutex_unlock :: "'k pcall"
  pl_condattr_init :: "'k pcall"
  pl_condattr_setpshared :: "'k pcall"
  pl_condattr_destroy :: "'k pcall"
  pl_cond_init :: "'k pcall"
  pl_cond_destroy :: "'k pcall"
  pl_cond_signal :: "'k pcall"
  pl_cond_broadcast :: "'k pcall"
  pl_rwlockattr_init :: "'k pcall"
  pl_rwlockattr_setpshared :: "'k pcall"
  pl_rwlockattr_destroy :: "'k pcall"
  pl_rwlock_init :: "'k pcall"
  pl_rwlock_destroy :: "'k pcall"
  pl_rwlock_unlock :: "'k pcall"
  pl_rwlock_rdlock :: "'k pcall"
  pl_rwlock_wrlock :: "'k pcall"
  pl_rwlock_tryrdlock :: "'k pcall"
  pl_rwlock_trywrlock :: "'k pcall"
  pl_cond_wait :: "'k \<Rightarrow> nat \<Rightarrow> nat \<Rightarrow> errno option \<times> 'k"

text \<open>\<open>if (ret != 0) throw_system_error(msg, ret)\<close>\<close>

definition must :: "string \<Rightarrow> errno option \<times> 'k \<Rightarrow> 'k \<times> unit res" where
  "must msg r = (case r of (None, k) \<Rightarrow> (k, Inr ()) | (Some e, k) \<Rightarrow> (k, Inl (System_error msg e)))"

text \<open>Checked calls one after the other; the first failure ends the sequence.\<close>

fun must_all :: "(string \<times> 'k pcall) list \<Rightarrow> nat \<Rightarrow> 'k \<Rightarrow> 'k \<times> unit res" where
  "must_all [] l k = (k, Inr ())"
| "must_all ((msg, call) # calls) l k =
     (case must msg (call k l) of
        (k, Inl e) \<Rightarrow> (k, Inl e)
      | (k, Inr _) \<Rightarrow> must_all calls l k)"

text \<open>A try-lock: true when acquired, false on one of the \<open>busy\<close> errors, else an exception.\<close>

definition try_with :: "string \<Rightarrow> errno list \<Rightarrow> errno option \<times> 'k \<Rightarrow> 'k \<times> bool res" where
  "try_with msg busy r =
     (case r of
        (None, k) \<Rightarrow> (k, Inr True)
      | (Some e, k) \<Rightarrow> if e \<in> set busy then (k, Inr False) else (k, Inl (System_error msg e)))"

section \<open>spinlock, pshared_lock, pshared_cond\<close>

definition spinlock_new :: "('k, 'z) lock_api_scheme \<Rightarrow> nat \<Rightarrow> 'k \<Rightarrow> 'k \<times> unit res" where
  "spinlock_new sys l k = must ''pthread_spin_init error'' (pl_spin_init sys k l)"

definition spinlock_destroy :: "('k, 'z) lock_api_scheme \<Rightarrow> nat \<Rightarrow> 'k \<Rightarrow> 'k" where
  "spinlock_destroy sys l k = snd (pl_spin_destroy sys k l)"

definition spinlock_lock :: "('k, 'z) lock_api_scheme \<Rightarrow> nat \<Rightarrow> 'k \<Rightarrow> 'k \<times> unit res" where
  "spinlock_lock sys l k = must ''pthread_spin_lock error'' (pl_spin_lock sys k l)"

definition spinlock_unlock :: "('k, 'z) lock_api_scheme \<Rightarrow> nat \<Rightarrow> 'k \<Rightarrow> 'k \<times> unit res" where
  "spinlock_unlock sys l k = must ''pthread_spin_unlock error'' (pl_spin_unlock sys k l)"

definition spinlock_trylock :: "('k, 'z) lock_api_scheme \<Rightarrow> nat \<Rightarrow> 'k \<Rightarrow> 'k \<times> bool res" where
  "spinlock_trylock sys l k = try_with ''pthread_spin_trylock error'' [EBUSY] (pl_spin_trylock sys k l)"

definition pshared_lock_new :: "('k, 'z) lock_api_scheme \<Rightarrow> nat \<Rightarrow> 'k \<Rightarrow> 'k \<times> unit res" where
  "pshared_lock_new sys l k = must_all
     [(''pthread_mutexattr_init error'', pl_mutexattr_init sys),
      (''pthread_mutexattr_settype error'', pl_mutexattr_settype sys),
      (''pthread_mutexattr_setprotocol error'', pl_mutexattr_setprotocol sys),
      (''pthread_mutexattr_setpshared error'', pl_mutexattr_setpshared sys),
      (''pthread_mutex_init error'', pl_mutex_init sys),
      (''pthread_mutexattr_destroy error'', pl_mutexattr_destroy sys)] l k"

definition pshared_lock_destroy :: "('k, 'z) lock_api_scheme \<Rightarrow> nat \<Rightarrow> 'k \<Rightarrow> 'k" where
  "pshared_lock_destroy sys l k = snd (pl_mutex_destroy sys k l)"

definition pshared_lock_lock :: "('k, 'z) lock_api_scheme \<Rightarrow> nat \<Rightarrow> 'k \<Rightarrow> 'k \<times> unit res" where
  "pshared_lock_lock sys l k = must ''pthread_mutex_lock error'' (pl_mutex_lock sys k l)"

definition pshared_lock_try_lock :: "('k, 'z) lock_api_scheme \<Rightarrow> nat \<Rightarrow> 'k \<Rightarrow> 'k \<times> bool res" where
  "pshared_lock_try_lock sys l k = try_with ''pthread_mutex_trylock error'' [EBUSY] (pl_mutex_trylock sys k l)"

definition pshared_lock_unlock :: "('k, 'z) lock_api_scheme \<Rightarrow> nat \<Rightarrow> 'k \<Rightarrow> 'k \<times> unit res" where
  "pshared_lock_unlock sys l k = must ''pthread_mutex_unlock error'' (pl_mutex_unlock sys k l)"

definition pshared_cond_new :: "('k, 'z) lock_api_scheme \<Rightarrow> nat \<Rightarrow> 'k \<Rightarrow> 'k \<times> unit res" where
  "pshared_cond_new sys l k = must_all
     [(''pthread_condattr_init error'', pl_condattr_init sys),
      (''pthread_condattr_setpshared error'', pl_condattr_setpshared sys),
      (''pthread_cond_init error'', pl_cond_init sys),
      (''pthread_condattr_destroy error'', pl_condattr_destroy sys)] l k"

definition pshared_cond_destroy :: "('k, 'z) lock_api_scheme \<Rightarrow> nat \<Rightarrow> 'k \<Rightarrow> 'k" where
  "pshared_cond_destroy sys l k = snd (pl_cond_destroy sys k l)"

text \<open>\<open>wait(lock)\<close>, with the condition variable \<open>c\<close> and the mutex \<open>l\<close> the lock owns.\<close>

definition pshared_cond_wait ::
  "('k, 'z) lock_api_scheme \<Rightarrow> nat \<Rightarrow> nat \<Rightarrow> 'k \<Rightarrow> 'k \<times> unit res"
where
  "pshared_cond_wait sys c l k = must ''pthread_cond_wait error'' (pl_cond_wait sys k c l)"

text \<open>\<open>while (!cond()) wait(lock)\<close>; a wait that never returns is \<open>None\<close>.\<close>

partial_function (option) pshared_cond_wait_until ::
  "('k, 'z) lock_api_scheme \<Rightarrow> nat \<Rightarrow> nat \<Rightarrow> ('k \<Rightarrow> bool) \<Rightarrow> 'k \<Rightarrow> ('k \<times> unit res) option"
where
  "pshared_cond_wait_until sys c l cond k =
     (if cond k then Some (k, Inr ())
      else case pshared_cond_wait sys c l k of
        (k, Inl e) \<Rightarrow> Some (k, Inl e)
      | (k, Inr _) \<Rightarrow> pshared_cond_wait_until sys c l cond k)"

definition pshared_cond_notify_one :: "('k, 'z) lock_api_scheme \<Rightarrow> nat \<Rightarrow> 'k \<Rightarrow> 'k \<times> unit res" where
  "pshared_cond_notify_one sys l k = must ''pthread_cond_signal error'' (pl_cond_signal sys k l)"

definition pshared_cond_notify_all :: "('k, 'z) lock_api_scheme \<Rightarrow> nat \<Rightarrow> 'k \<Rightarrow> 'k \<times> unit res" where
  "pshared_cond_notify_all sys l k = must ''pthread_cond_broadcast error'' (pl_cond_broadcast sys k l)"

section \<open>pshared_rwlock and its guards\<close>

definition pshared_rwlock_new :: "('k, 'z) lock_api_scheme \<Rightarrow> nat \<Rightarrow> 'k \<Rightarrow> 'k \<times> unit res" where
  "pshared_rwlock_new sys l k = must_all
     [(''pthread_rwlockattr_init error'', pl_rwlockattr_init sys),
      (''pthread_rwlockattr_setpshared error'', pl_rwlockattr_setpshared sys),
      (''pthread_rwlock_init error'', pl_rwlock_init sys),
      (''pthread_rwlockattr_destroy error'', pl_rwlockattr_destroy sys)] l k"

definition pshared_rwlock_destroy :: "('k, 'z) lock_api_scheme \<Rightarrow> nat \<Rightarrow> 'k \<Rightarrow> 'k" where
  "pshared_rwlock_destroy sys l k = snd (pl_rwlock_destroy sys k l)"

definition pshared_rwlock_unlock :: "('k, 'z) lock_api_scheme \<Rightarrow> nat \<Rightarrow> 'k \<Rightarrow> 'k \<times> unit res" where
  "pshared_rwlock_unlock sys l k = must ''pthread_rwlock_unlock error'' (pl_rwlock_unlock sys k l)"

definition pshared_rwlock_rdlock :: "('k, 'z) lock_api_scheme \<Rightarrow> nat \<Rightarrow> 'k \<Rightarrow> 'k \<times> unit res" where
  "pshared_rwlock_rdlock sys l k = must ''pthread_rwlock_rdlock error'' (pl_rwlock_rdlock sys k l)"

definition pshared_rwlock_wrlock :: "('k, 'z) lock_api_scheme \<Rightarrow> nat \<Rightarrow> 'k \<Rightarrow> 'k \<times> unit res" where
  "pshared_rwlock_wrlock sys l k = must ''pthread_rwlock_wrlock error'' (pl_rwlock_wrlock sys k l)"

definition pshared_rwlock_try_rdlock :: "('k, 'z) lock_api_scheme \<Rightarrow> nat \<Rightarrow> 'k \<Rightarrow> 'k \<times> bool res" where
  "pshared_rwlock_try_rdlock sys l k = try_with ''pthread_rwlock_tryrdlock error'' [EBUSY, EAGAIN] (pl_rwlock_tryrdlock sys k l)"

definition pshared_rwlock_try_wrlock :: "('k, 'z) lock_api_scheme \<Rightarrow> nat \<Rightarrow> 'k \<Rightarrow> 'k \<times> bool res" where
  "pshared_rwlock_try_wrlock sys l k = try_with ''pthread_rwlock_trywrlock error'' [EBUSY] (pl_rwlock_trywrlock sys k l)"

text \<open>A guard is the pointer to its lock; \<open>None\<close> after it was moved from.\<close>

type_synonym guard = "nat option"

definition rdlockguard_new :: "('k, 'z) lock_api_scheme \<Rightarrow> nat \<Rightarrow> 'k \<Rightarrow> 'k \<times> guard res" where
  "rdlockguard_new sys l k =
     (case pshared_rwlock_rdlock sys l k of (k, r) \<Rightarrow> (k, rbind r (\<lambda>_. Inr (Some l))))"

text \<open>Move constructor and move assignment: the new guard and what is left of the other.\<close>

definition rdlockguard_move :: "guard \<Rightarrow> guard \<times> guard" where
  "rdlockguard_move other = (other, None)"

definition rdlockguard_assign :: "guard \<Rightarrow> guard \<Rightarrow> guard \<times> guard" where
  "rdlockguard_assign this other = (other, None)"

definition rdlockguard_destroy :: "('k, 'z) lock_api_scheme \<Rightarrow> guard \<Rightarrow> 'k \<Rightarrow> 'k" where
  "rdlockguard_destroy sys g k = (case g of None \<Rightarrow> k | Some l \<Rightarrow> fst (pshared_rwlock_unlock sys l k))"

definition rdlockguard_lock :: "('k, 'z) lock_api_scheme \<Rightarrow> guard \<Rightarrow> 'k \<Rightarrow> 'k \<times> unit res" where
  "rdlockguard_lock sys g k =
     (case g of None \<Rightarrow> (k, Inl (Undefined Null_deref)) | Some l \<Rightarrow> pshared_rwlock_rdlock sys l k)"

definition rdlockguard_unlock :: "('k, 'z) lock_api_scheme \<Rightarrow> guard \<Rightarrow> 'k \<Rightarrow> 'k \<times> unit res" where
  "rdlockguard_unlock sys g k =
     (case g of None \<Rightarrow> (k, Inl (Undefined Null_deref)) | Some l \<Rightarrow> pshared_rwlock_unlock sys l k)"

definition wrlockguard_new :: "('k, 'z) lock_api_scheme \<Rightarrow> nat \<Rightarrow> 'k \<Rightarrow> 'k \<times> guard res" where
  "wrlockguard_new sys l k =
     (case pshared_rwlock_wrlock sys l k of (k, r) \<Rightarrow> (k, rbind r (\<lambda>_. Inr (Some l))))"

text \<open>Move constructor and move assignment: the new guard and what is left of the other.\<close>

definition wrlockguard_move :: "guard \<Rightarrow> guard \<times> guard" where
  "wrlockguard_move other = (other, None)"

definition wrlockguard_assign :: "guard \<Rightarrow> guard \<Rightarrow> guard \<times> guard" where
  "wrlockguard_assign this other = (other, None)"

definition wrlockguard_destroy :: "('k, 'z) lock_api_scheme \<Rightarrow> guard \<Rightarrow> 'k \<Rightarrow> 'k" where
  "wrlockguard_destroy sys g k = (case g of None \<Rightarrow> k | Some l \<Rightarrow> fst (pshared_rwlock_unlock sys l k))"

definition wrlockguard_lock :: "('k, 'z) lock_api_scheme \<Rightarrow> guard \<Rightarrow> 'k \<Rightarrow> 'k \<times> unit res" where
  "wrlockguard_lock sys g k =
     (case g of None \<Rightarrow> (k, Inl (Undefined Null_deref)) | Some l \<Rightarrow> pshared_rwlock_wrlock sys l k)"

definition wrlockguard_unlock :: "('k, 'z) lock_api_scheme \<Rightarrow> guard \<Rightarrow> 'k \<Rightarrow> 'k \<times> unit res" where
  "wrlockguard_unlock sys g k =
     (case g of None \<Rightarrow> (k, Inl (Undefined Null_deref)) | Some l \<Rightarrow> pshared_rwlock_unlock sys l k)"

section \<open>Properties\<close>

text \<open>A reader-writer lock: \<open>rd k l\<close> readers hold it, \<open>wr k l\<close> says whether a writer does.\<close>

definition rw_kernel ::
  "('k, 'z) lock_api_scheme \<Rightarrow> ('k \<Rightarrow> nat \<Rightarrow> nat) \<Rightarrow> ('k \<Rightarrow> nat \<Rightarrow> bool) \<Rightarrow> bool"
where
  "rw_kernel sys rd wr \<longleftrightarrow>
     (\<forall>k l. \<not> wr k l \<longrightarrow> (\<exists>k'. pl_rwlock_rdlock sys k l = (None, k') \<and>
        rd k' = (rd k)(l := rd k l + 1) \<and> wr k' = wr k)) \<and>
     (\<forall>k l. \<not> wr k l \<and> rd k l = 0 \<longrightarrow> (\<exists>k'. pl_rwlock_wrlock sys k l = (None, k') \<and>
        rd k' = rd k \<and> wr k' = (wr k)(l := True))) \<and>
     (\<forall>k l. 0 < rd k l \<and> \<not> wr k l \<longrightarrow> (\<exists>k'. pl_rwlock_unlock sys k l = (None, k') \<and>
        rd k' = (rd k)(l := rd k l - 1) \<and> wr k' = wr k)) \<and>
     (\<forall>k l. wr k l \<longrightarrow> (\<exists>k'. pl_rwlock_unlock sys k l = (None, k') \<and>
        rd k' = rd k \<and> wr k' = (wr k)(l := False)))"

lemma rdlock_ok:
  assumes "rw_kernel sys rd wr" and "\<not> wr k l"
  shows "\<exists>k'. rdlockguard_new sys l k = (k', Inr (Some l)) \<and> rd k' = (rd k)(l := rd k l + 1) \<and> wr k' = wr k"
proof -
  obtain k' where "pl_rwlock_rdlock sys k l = (None, k')" "rd k' = (rd k)(l := rd k l + 1)" "wr k' = wr k"
    using assms unfolding rw_kernel_def by blast
  then show ?thesis
    by (simp add: rdlockguard_new_def pshared_rwlock_rdlock_def must_def)
qed

lemma rd_release:
  assumes "rw_kernel sys rd wr" and "\<not> wr k l" and "0 < rd k l"
  shows "rd (rdlockguard_destroy sys (Some l) k) = (rd k)(l := rd k l - 1) \<and>
         wr (rdlockguard_destroy sys (Some l) k) = wr k"
proof -
  obtain k' where "pl_rwlock_unlock sys k l = (None, k')" "rd k' = (rd k)(l := rd k l - 1)" "wr k' = wr k"
    using assms unfolding rw_kernel_def by blast
  then show ?thesis
    by (simp add: rdlockguard_destroy_def pshared_rwlock_unlock_def must_def)
qed

text \<open>Read guards: a guard moved by construction releases its lock exactly once, whichever of the
  two guards is destroyed first; a guard that is assigned to while it holds a lock forgets that
  lock, which then stays read-locked after both guards are gone.\<close>

theorem read_guard_balance:
  assumes "rw_kernel sys rd wr" and "\<not> wr k l1" and "\<not> wr k l2" and "l1 \<noteq> l2"
  shows "\<exists>k1 g1 k2 g2. rdlockguard_new sys l1 k = (k1, Inr g1) \<and> rd k1 l1 = rd k l1 + 1 \<and>
    (case rdlockguard_move g1 of (n, m) \<Rightarrow>
       rd (rdlockguard_destroy sys m (rdlockguard_destroy sys n k1)) = rd k \<and>
       rd (rdlockguard_destroy sys n (rdlockguard_destroy sys m k1)) = rd k) \<and>
    rdlockguard_new sys l2 k1 = (k2, Inr g2) \<and>
    (case rdlockguard_assign g1 g2 of (n, m) \<Rightarrow>
       rd (rdlockguard_destroy sys m (rdlockguard_destroy sys n k2)) = (rd k)(l1 := rd k l1 + 1))"
proof -
  obtain k1 where k1: "rdlockguard_new sys l1 k = (k1, Inr (Some l1))"
      "rd k1 = (rd k)(l1 := rd k l1 + 1)" "wr k1 = wr k"
    using rdlock_ok [OF assms(1,2)] by blast
  obtain k2 where k2: "rdlockguard_new sys l2 k1 = (k2, Inr (Some l2))"
      "rd k2 = (rd k1)(l2 := rd k1 l2 + 1)" "wr k2 = wr k1"
    using rdlock_ok [OF assms(1), of k1 l2] assms(3) k1(3) by auto
  have none: "rdlockguard_destroy sys None k = k" for k :: 'a
    by (simp add: rdlockguard_destroy_def)
  have "rd (rdlockguard_destroy sys (Some l1) k1) = rd k"
    using rd_release [OF assms(1), of k1 l1] k1 assms(2) by (simp add: fun_upd_idem)
  moreover have "rd (rdlockguard_destroy sys (Some l2) k2) = (rd k)(l1 := rd k l1 + 1)"
    using rd_release [OF assms(1), of k2 l2] k2 k1 assms(3,4) by (simp add: fun_upd_idem)
  ultimately show ?thesis
    using k1 k2 none by (simp add: rdlockguard_move_def rdlockguard_assign_def)
qed

text \<open>A concrete lock: readers and writer of each lock.\<close>

definition rw_sample :: "((nat \<Rightarrow> nat) \<times> (nat \<Rightarrow> bool)) lock_api" where
  "rw_sample = (let no = (\<lambda>k l. (None, k)) in
    \<lparr>pl_spin_init = no, pl_spin_destroy = no, pl_spin_lock = no, pl_spin_unlock = no, pl_spin_trylock = no,
     pl_mutexattr_init = no, pl_mutexattr_settype = no, pl_mutexattr_setprotocol = no, pl_mutexattr_setpshared = no,
     pl_mutexattr_destroy = no, pl_mutex_init = no, pl_mutex_destroy = no, pl_mutex_lock = no, pl_mutex_trylock = no,
     pl_mutex_unlock = no, pl_condattr_init = no, pl_condattr_setpshared = no, pl_condattr_destroy = no,
     pl_cond_init = no, pl_cond_destroy = no, pl_cond_signal = no, pl_cond_broadcast = no,
     pl_rwlockattr_init = no, pl_rwlockattr_setpshared = no, pl_rwlockattr_destroy = no, pl_rwlock_init = no,
     pl_rwlock_destroy = no,
     pl_rwlock_unlock = (\<lambda>(r, w) l. if w l then (None, (r, w(l := False)))
       else if 0 < r l then (None, (r(l := r l - 1), w)) else (Some EPERM, (r, w))),
     pl_rwlock_rdlock = (\<lambda>(r, w) l. if w l then (Some EDEADLK, (r, w)) else (None, (r(l := r l + 1), w))),
     pl_rwlock_wrlock = (\<lambda>(r, w) l. if w l \<or> 0 < r l then (Some EDEADLK, (r, w)) else (None, (r, w(l := True)))),
     pl_rwlock_tryrdlock = no, pl_rwlock_trywrlock = no, pl_cond_wait = (\<lambda>k c l. (None, k))\<rparr>)"

theorem read_guard_balance_witness:
  "\<exists>k1 g1 k2 g2. rdlockguard_new rw_sample 1 (\<lambda>_. 0, \<lambda>_. False) = (k1, Inr g1) \<and>
    rdlockguard_new rw_sample 2 k1 = (k2, Inr g2) \<and>
    (case rdlockguard_assign g1 g2 of (n, m) \<Rightarrow>
       fst (rdlockguard_destroy rw_sample m (rdlockguard_destroy rw_sample n k2)) = (\<lambda>_. 0)(1 := 1))"
proof -
  have "rw_kernel rw_sample fst snd"
    by (auto simp: rw_kernel_def rw_sample_def Let_def)
  from read_guard_balance [OF this, of "(\<lambda>_. 0, \<lambda>_. False)" 1 2] show ?thesis by auto
qed

end
