(* ===== verification/Reactor.thy ===== *)
theory Reactor
  imports Event_Loop
begin

text \<open>
  The reactor of \<open>src/src/include/cppev/tcp.h\<close> and \<open>src/src/lib/tcp.cc\<close>: io handlers, acceptors and
  connectors, each around an event loop of its own, the load balancing between the loops of the
  workers, and the callbacks that drive a connection. The state holds the loops, the nio objects
  and the copies of the callbacks by address, and the kernel; a callback runs to its end before
  the next one starts.
\<close>

section \<open>State\<close>

text \<open>
  The objects a loop holds are streams (the ends of a connector's pipe) or tcp sockets, which
  have a socket part besides.
\<close>

record robj = nstream +
  ro_sock :: "sockpart option"

definition of_stream :: "nstream \<Rightarrow> robj" where
  "of_stream s = nstream.extend s \<lparr>ro_sock = None\<rparr>"

definition of_tcp :: "nsocktcp \<Rightarrow> robj" where
  "of_tcp s = nstream.extend (nstream.truncate s) \<lparr>ro_sock = Some (tcp_sock s)\<rparr>"

definition tcp_of :: "robj \<Rightarrow> nsocktcp option" where
  "tcp_of s = map_option (\<lambda>p. nstream.extend (nstream.truncate s) \<lparr>tcp_sock = p\<rparr>) (ro_sock s)"

datatype callback =
    On_readable | On_writable | On_acpt_writable | On_cont_writable
  | On_acpt_readable | On_pipe_readable | On_stop

text \<open>
  The owner of a loop (\<open>back()\<close>) is found by the address of the loop. \<open>unordered_map\<close>s are association
  lists with distinct keys; their order carries no meaning.
\<close>

type_synonym host_map = "(endpoint \<times> int) list"

record connector =
  cn_rdp :: nat
  cn_wrp :: nat
  cn_hosts :: host_map
  cn_failures :: host_map

record 'k reactor =
  rt_loops :: "nat \<Rightarrow> loop_state"
  rt_objs :: "nat \<Rightarrow> robj"
  rt_code :: "nat \<Rightarrow> callback"
  rt_k :: 'k
  rt_next :: nat
  rt_evls :: "nat list"
  rt_failures :: "nat \<Rightarrow> host_map"
  rt_acpts :: "nat \<Rightarrow> nat option"
  rt_conts :: "nat \<Rightarrow> connector"

text \<open>The operating system with the constants of \<open>sysconfig\<close> and \<open>SOMAXCONN\<close>.\<close>

record 'k os =
  os_sys :: "'k sock_api"
  os_ep :: "'k epoll_api"
  os_step :: int
  os_events :: int
  os_backlog :: int

type_synonym ('k, 'a) act = "'k reactor \<Rightarrow> 'k reactor \<times> 'a res"

type_synonym 'k tcp_event_handler = "nat \<Rightarrow> ('k, unit) act"

text \<open>The handlers in \<open>tp_shared_data\<close>.\<close>

record 'k tp_shared_data =
  on_accept :: "'k tcp_event_handler"
  on_connect :: "'k tcp_event_handler"
  on_read_complete :: "'k tcp_event_handler"
  on_write_complete :: "'k tcp_event_handler"
  on_closed :: "'k tcp_event_handler"

definition idle_handler :: "'k tcp_event_handler" where
  "idle_handler n st = (st, Inr ())"

definition idle_data :: "'k tp_shared_data" where
  "idle_data = \<lparr>on_accept = idle_handler, on_connect = idle_handler, on_read_complete = idle_handler,
     on_write_complete = idle_handler, on_closed = idle_handler\<rparr>"

section \<open>Sequencing, and operations of one loop\<close>

text \<open>The setters of \<open>tcp_server\<close> and \<open>tcp_client\<close>, one for each handler.\<close>

definition set_on_accept :: "'k tcp_event_handler \<Rightarrow> 'k tp_shared_data \<Rightarrow> 'k tp_shared_data" where
  "set_on_accept handler dp = dp\<lparr>on_accept := handler\<rparr>"

definition set_on_connect :: "'k tcp_event_handler \<Rightarrow> 'k tp_shared_data \<Rightarrow> 'k tp_shared_data" where
  "set_on_connect handler dp = dp\<lparr>on_connect := handler\<rparr>"

definition set_on_read_complete :: "'k tcp_event_handler \<Rightarrow> 'k tp_shared_data \<Rightarrow> 'k tp_shared_data" where
  "set_on_read_complete handler dp = dp\<lparr>on_read_complete := handler\<rparr>"

definition set_on_write_complete :: "'k tcp_event_handler \<Rightarrow> 'k tp_shared_data \<Rightarrow> 'k tp_shared_data" where
  "set_on_write_complete handler dp = dp\<lparr>on_write_complete := handler\<rparr>"

definition set_on_closed :: "'k tcp_event_handler \<Rightarrow> 'k tp_shared_data \<Rightarrow> 'k tp_shared_data" where
  "set_on_closed handler dp = dp\<lparr>on_closed := handler\<rparr>"

definition andthen :: "('k, 'a) act \<Rightarrow> ('a \<Rightarrow> ('k, 'b) act) \<Rightarrow> ('k, 'b) act" where
  "andthen m f st = (case m st of (st, Inl e) \<Rightarrow> (st, Inl e) | (st, Inr x) \<Rightarrow> f x st)"

definition return :: "'a \<Rightarrow> ('k, 'a) act" where
  "return x st = (st, Inr x)"

definition throw :: "fault \<Rightarrow> ('k, 'a) act" where
  "throw e st = (st, Inl e)"

type_synonym 'k rworld = "(callback, 'k, (unit robj_ext) nstream_ext) world"

definition enter :: "nat \<Rightarrow> 'k reactor \<Rightarrow> 'k rworld" where
  "enter j st = \<lparr>w_loop = rt_loops st j, w_nios = rt_objs st, w_code = rt_code st, w_k = rt_k st\<rparr>"

definition leave :: "nat \<Rightarrow> 'k rworld \<Rightarrow> 'k reactor \<Rightarrow> 'k reactor" where
  "leave j w st = st\<lparr>rt_loops := (rt_loops st)(j := w_loop w), rt_objs := w_nios w,
     rt_code := w_code w, rt_k := w_k w\<rparr>"

definition on_loop :: "nat \<Rightarrow> ('k rworld \<Rightarrow> 'k rworld \<times> 'a res) \<Rightarrow> ('k, 'a) act" where
  "on_loop j f st = (case f (enter j st) of (w, r) \<Rightarrow> (leave j w st, r))"

definition alloc :: "('k, nat) act" where
  "alloc st = (st\<lparr>rt_next := Suc (rt_next st)\<rparr>, Inr (rt_next st))"

definition new_obj :: "robj \<Rightarrow> ('k, nat) act" where
  "new_obj s = andthen alloc (\<lambda>n st. (st\<lparr>rt_objs := (rt_objs st)(n := s)\<rparr>, Inr n))"

definition loop_register ::
  "'k os \<Rightarrow> nat \<Rightarrow> nat \<Rightarrow> fd_event \<Rightarrow> callback option \<Rightarrow> bool \<Rightarrow> ('k, unit) act"
where
  "loop_register os j n ev cb activate =
     andthen alloc (\<lambda>a. on_loop j (fd_register (os_ep os) a n ev cb activate p0))"

text \<open>\<open>iop->evlp()\<close> dereferences the pointer to the loop.\<close>

definition evlp_of :: "nat \<Rightarrow> ('k, nat) act" where
  "evlp_of n st =
     (st, case io_evlp (rt_objs st n) of None \<Rightarrow> Inl (Undefined Null_deref) | Some j \<Rightarrow> Inr j)"

definition evlp_register ::
  "'k os \<Rightarrow> nat \<Rightarrow> fd_event \<Rightarrow> callback option \<Rightarrow> bool \<Rightarrow> ('k, unit) act"
where
  "evlp_register os n ev cb activate =
     andthen (evlp_of n) (\<lambda>j. loop_register os j n ev cb activate)"

definition evlp_remove :: "'k os \<Rightarrow> nat \<Rightarrow> bool \<Rightarrow> bool \<Rightarrow> ('k, unit) act" where
  "evlp_remove os n clean deactivate =
     andthen (evlp_of n) (\<lambda>j. on_loop j (fd_remove (os_ep os) n clean deactivate))"

text \<open>\<open>dynamic_pointer_cast<nsocktcp>\<close>\<close>

definition cast_tcp :: "nat \<Rightarrow> ('k, nsocktcp) act" where
  "cast_tcp n st =
     (st, case tcp_of (rt_objs st n) of
            None \<Rightarrow> Inl (Logic_error ''dynamic_pointer_cast error'') | Some s \<Rightarrow> Inr s)"

definition obj_io ::
  "('k \<Rightarrow> robj \<Rightarrow> ('k \<times> robj \<times> int res) option) \<Rightarrow> nat \<Rightarrow> ('k, int) act"
where
  "obj_io f n st =
     (case f (rt_k st) (rt_objs st n) of
        None \<Rightarrow> (st, Inl Diverges)
      | Some (k, s, r) \<Rightarrow> (st\<lparr>rt_k := k, rt_objs := (rt_objs st)(n := s)\<rparr>, r))"

definition obj_write_all :: "'k os \<Rightarrow> int \<Rightarrow> nat \<Rightarrow> ('k, int) act" where
  "obj_write_all os step = obj_io (\<lambda>k s. write_all (os_sys os) k s step)"

definition obj_read_all :: "'k os \<Rightarrow> int \<Rightarrow> nat \<Rightarrow> ('k, int) act" where
  "obj_read_all os step = obj_io (\<lambda>k s. read_all (os_sys os) k s step)"

definition obj_buf ::
  "(robj \<Rightarrow> robj res) \<Rightarrow> nat \<Rightarrow> ('k, unit) act"
where
  "obj_buf f n st =
     (case f (rt_objs st n) of
        Inl e \<Rightarrow> (st, Inl e)
      | Inr s \<Rightarrow> (st\<lparr>rt_objs := (rt_objs st)(n := s)\<rparr>, Inr ()))"

definition rbuf_clear :: "nat \<Rightarrow> ('k, unit) act" where
  "rbuf_clear = obj_buf (\<lambda>s. rbind (clear (io_rbuf s)) (\<lambda>b. Inr (s\<lparr>io_rbuf := b\<rparr>)))"

definition wbuf_put :: "char list \<Rightarrow> nat \<Rightarrow> ('k, unit) act" where
  "wbuf_put bs = obj_buf (\<lambda>s. rbind (put_string (io_wbuf s) bs) (\<lambda>b. Inr (s\<lparr>io_wbuf := b\<rparr>)))"

section \<open>tp_shared_data\<close>

text \<open>The draw of \<open>random_get_evlp\<close> is a parameter; an empty vector makes the distribution's range invalid.\<close>

definition random_get_evlp :: "nat \<Rightarrow> ('k, nat) act" where
  "random_get_evlp draw st =
     (st, if rt_evls st = [] then Inl (Undefined Out_of_bounds)
          else Inr (rt_evls st ! (draw mod length (rt_evls st))))"

fun minloads_loop :: "(nat \<Rightarrow> int) \<Rightarrow> nat list \<Rightarrow> int \<Rightarrow> nat option \<Rightarrow> nat option" where
  "minloads_loop loads [] minloads evlp = evlp"
| "minloads_loop loads (j # js) minloads evlp =
     (if loads j < minloads then minloads_loop loads js (loads j) (Some j)
      else minloads_loop loads js minloads evlp)"

definition minloads_get_evlp :: "'k reactor \<Rightarrow> nat option" where
  "minloads_get_evlp st = minloads_loop (\<lambda>j. ev_loads (rt_loops st j)) (rt_evls st) int_max None"

text \<open>\<open>dp->minloads_get_evlp()->fd_register(...)\<close>\<close>

definition minloads_register :: "'k os \<Rightarrow> nat \<Rightarrow> callback \<Rightarrow> ('k, unit) act" where
  "minloads_register os n cb st =
     (case minloads_get_evlp st of
        None \<Rightarrow> (st, Inl (Undefined Null_deref))
      | Some j \<Rightarrow> loop_register os j n fd_writable (Some cb) True st)"

section \<open>async_write and safely_close\<close>

definition async_write :: "'k os \<Rightarrow> 'k tp_shared_data \<Rightarrow> nat \<Rightarrow> ('k, unit) act" where
  "async_write os dp n =
     andthen (evlp_of n) (\<lambda>_.
     andthen (obj_write_all os (os_step os) n) (\<lambda>_ st.
     if buf_size (io_wbuf (rt_objs st n)) = 0 then on_write_complete dp n st
     else andthen (evlp_remove os n False True) (\<lambda>_.
          evlp_register os n fd_writable None True) st))"

definition safely_close :: "'k os \<Rightarrow> nat \<Rightarrow> ('k, unit) act" where
  "safely_close os n =
     andthen (evlp_remove os n True False) (\<lambda>_ st.
     case nio_close (os_sys os) (rt_k st) (rt_objs st n) of
       (k, s) \<Rightarrow> (st\<lparr>rt_k := k, rt_objs := (rt_objs st)(n := s)\<rparr>, Inr ()))"

section \<open>iohandler\<close>

definition on_readable :: "'k os \<Rightarrow> 'k tp_shared_data \<Rightarrow> nat \<Rightarrow> ('k, unit) act" where
  "on_readable os dp n =
     andthen (cast_tcp n) (\<lambda>_.
     andthen (evlp_of n) (\<lambda>_.
     andthen (obj_read_all os (os_step os) n) (\<lambda>_.
     andthen (on_read_complete dp n) (\<lambda>_.
     andthen (rbuf_clear n) (\<lambda>_ st.
     if st_eof (rt_objs st n) \<or> st_reset (rt_objs st n)
     then andthen (on_closed dp n) (\<lambda>_. evlp_remove os n True True) st
     else (st, Inr ()))))))"

definition on_writable :: "'k os \<Rightarrow> 'k tp_shared_data \<Rightarrow> nat \<Rightarrow> ('k, unit) act" where
  "on_writable os dp n =
     andthen (cast_tcp n) (\<lambda>_.
     andthen (evlp_of n) (\<lambda>_.
     andthen (obj_write_all os (os_step os) n) (\<lambda>_.
     andthen (\<lambda>st.
       if buf_size (io_wbuf (rt_objs st n)) = 0
       then andthen (evlp_remove os n False True) (\<lambda>_.
            andthen (on_write_complete dp n) (\<lambda>_ st.
            if \<not> io_closed (rt_objs st n) then evlp_register os n fd_readable None True st
            else (st, Inr ()))) st
       else (st, Inr ())) (\<lambda>_ st.
     if st_eop (rt_objs st n) \<or> st_reset (rt_objs st n)
     then andthen (on_closed dp n) (\<lambda>_. evlp_remove os n True True) st
     else (st, Inr ())))))"

text \<open>What both first callbacks of a connection do after they removed themselves.\<close>

definition conn_init :: "'k os \<Rightarrow> 'k tcp_event_handler \<Rightarrow> nat \<Rightarrow> ('k, unit) act" where
  "conn_init os handler n =
     andthen (evlp_register os n fd_writable (Some On_writable) False) (\<lambda>_.
     andthen (handler n) (\<lambda>_.
     evlp_register os n fd_readable (Some On_readable) True))"

definition on_acpt_writable :: "'k os \<Rightarrow> 'k tp_shared_data \<Rightarrow> nat \<Rightarrow> ('k, unit) act" where
  "on_acpt_writable os dp n =
     andthen (cast_tcp n) (\<lambda>_.
     andthen (evlp_of n) (\<lambda>_.
     andthen (evlp_remove os n True True) (\<lambda>_.
     conn_init os (on_accept dp) n)))"

text \<open>\<open>failures_[h] += 1\<close> and \<open>hosts_[h] += t\<close>, where a missing entry counts 0.\<close>

fun host_add :: "endpoint \<Rightarrow> int \<Rightarrow> host_map \<Rightarrow> host_map res" where
  "host_add h t [] = Inr [(h, t)]"
| "host_add h t ((h', n) # m) =
     (if h' = h then rbind (chk32 (n + t)) (\<lambda>n. Inr ((h', n) # m))
      else rbind (host_add h t m) (\<lambda>m. Inr ((h', n) # m)))"

definition on_cont_writable :: "'k os \<Rightarrow> 'k tp_shared_data \<Rightarrow> nat \<Rightarrow> ('k, unit) act" where
  "on_cont_writable os dp n =
     andthen (cast_tcp n) (\<lambda>s.
     andthen (evlp_of n) (\<lambda>j.
     andthen (evlp_remove os n True True) (\<lambda>_.
     andthen (\<lambda>st. case check_connect (os_sys os) (rt_k st) s of (k, r) \<Rightarrow> (st\<lparr>rt_k := k\<rparr>, r)) (\<lambda>ok.
     if \<not> ok
     then (\<lambda>st. case host_add (tcp_connpeer s) 1 (rt_failures st j) of
                  Inl e \<Rightarrow> (st, Inl e)
                | Inr m \<Rightarrow> (st\<lparr>rt_failures := (rt_failures st)(j := m)\<rparr>, Inr ()))
     else conn_init os (on_connect dp) n))))"

section \<open>acceptor\<close>

text \<open>The socket is stored before it is bound.\<close>

definition acceptor_listen ::
  "'k os \<Rightarrow> nat \<Rightarrow> int \<Rightarrow> family \<Rightarrow> string option \<Rightarrow> ('k, unit) act"
where
  "acceptor_listen os j port f ip st =
     (case get_nsocktcp (os_sys os) (rt_k st) f of
        (k, Inl e) \<Rightarrow> (st\<lparr>rt_k := k\<rparr>, Inl e)
      | (k, Inr s) \<Rightarrow>
          andthen (new_obj (of_tcp s)) (\<lambda>n st.
          let st = st\<lparr>rt_acpts := (rt_acpts st)(j := Some n)\<rparr> in
          case nsock_bind (os_sys os) (rt_k st) (io_fd s) (tcp_sock s) ip port of
            (k, Inl e) \<Rightarrow> (st\<lparr>rt_k := k\<rparr>, Inl e)
          | (k, Inr _) \<Rightarrow>
              (case tcp_listen (os_sys os) k s (os_backlog os) of
                 (k, r) \<Rightarrow> (st\<lparr>rt_k := k\<rparr>, r))) (st\<lparr>rt_k := k\<rparr>))"

definition acceptor_listen_unix :: "'k os \<Rightarrow> nat \<Rightarrow> string \<Rightarrow> bool \<Rightarrow> ('k, unit) act" where
  "acceptor_listen_unix os j path rem st =
     (case get_nsocktcp (os_sys os) (rt_k st) local_family of
        (k, Inl e) \<Rightarrow> (st\<lparr>rt_k := k\<rparr>, Inl e)
      | (k, Inr s) \<Rightarrow>
          (case nsock_bind_unix (os_sys os) k (io_fd s) (tcp_sock s) path rem of
             (k, p, r) \<Rightarrow>
               andthen (new_obj (of_tcp (s\<lparr>tcp_sock := p\<rparr>))) (\<lambda>n st.
               let st = st\<lparr>rt_acpts := (rt_acpts st)(j := Some n)\<rparr> in
               case r of
                 Inl e \<Rightarrow> (st, Inl e)
               | Inr _ \<Rightarrow>
                   (case tcp_listen (os_sys os) (rt_k st) s (os_backlog os) of
                      (k, r) \<Rightarrow> (st\<lparr>rt_k := k\<rparr>, r))) (st\<lparr>rt_k := k\<rparr>)))"

text \<open>An exception on the way ends the acceptor's thread, and with it the process.\<close>

fun assign_conns :: "'k os \<Rightarrow> nsocktcp list \<Rightarrow> ('k, unit) act" where
  "assign_conns os [] = return ()"
| "assign_conns os (t # ts) =
     andthen (new_obj (of_tcp t)) (\<lambda>n.
     andthen (minloads_register os n On_acpt_writable) (\<lambda>_.
     assign_conns os ts))"

definition on_acpt_readable :: "'k os \<Rightarrow> nat \<Rightarrow> ('k, unit) act" where
  "on_acpt_readable os n =
     andthen (cast_tcp n) (\<lambda>s.
     andthen (\<lambda>st. case tcp_accept (os_sys os) (rt_k st) s int_max of (k, r) \<Rightarrow> (st\<lparr>rt_k := k\<rparr>, r)) (\<lambda>conns.
     andthen (evlp_of n) (\<lambda>_.
     assign_conns os conns)))"

section \<open>connector\<close>

definition set_cont :: "nat \<Rightarrow> connector \<Rightarrow> 'k reactor \<Rightarrow> 'k reactor" where
  "set_cont j c st = st\<lparr>rt_conts := (rt_conts st)(j := c)\<rparr>"

definition connector_add :: "'k os \<Rightarrow> nat \<Rightarrow> endpoint \<Rightarrow> int \<Rightarrow> ('k, unit) act" where
  "connector_add os j h t st =
     (if t = 0 then (st, Inr ())
      else let c = rt_conts st j in
        case host_add h t (cn_hosts c) of
          Inl e \<Rightarrow> (st, Inl e)
        | Inr m \<Rightarrow>
            andthen (wbuf_put ''0'' (cn_wrp c)) (\<lambda>_.
            andthen (obj_write_all os 1 (cn_wrp c)) (\<lambda>_. return ()))
              (set_cont j (c\<lparr>cn_hosts := m\<rparr>) st))"

definition connector_add_unix :: "'k os \<Rightarrow> nat \<Rightarrow> string \<Rightarrow> int \<Rightarrow> ('k, unit) act" where
  "connector_add_unix os j path t = connector_add os j (path, 0, local_family) t"

text \<open>One attempt; a socket whose \<open>connect\<close> failed is destroyed.\<close>

definition connect_one :: "'k os \<Rightarrow> nat \<Rightarrow> endpoint \<Rightarrow> ('k, unit) act" where
  "connect_one os j h st =
     (case h of (ip, port, f) \<Rightarrow>
      case get_nsocktcp (os_sys os) (rt_k st) f of
        (k, Inl e) \<Rightarrow> (st\<lparr>rt_k := k\<rparr>, Inl e)
      | (k, Inr s) \<Rightarrow>
          (case (if f = local_family then tcp_connect_unix (os_sys os) k s ip
                 else tcp_connect (os_sys os) k s ip port) of
             (k, s, Inl e) \<Rightarrow> (st\<lparr>rt_k := nio_destroy (os_sys os) k s\<rparr>, Inl e)
           | (k, s, Inr True) \<Rightarrow>
               andthen (new_obj (of_tcp s)) (\<lambda>n. minloads_register os n On_cont_writable) (st\<lparr>rt_k := k\<rparr>)
           | (k, s, Inr False) \<Rightarrow>
               (let st = st\<lparr>rt_k := nio_destroy (os_sys os) k s\<rparr>; c = rt_conts st j in
                case host_add h 1 (cn_failures c) of
                  Inl e \<Rightarrow> (st, Inl e)
                | Inr m \<Rightarrow> (set_cont j (c\<lparr>cn_failures := m\<rparr>) st, Inr ()))))"

fun connect_times :: "'k os \<Rightarrow> nat \<Rightarrow> endpoint \<Rightarrow> nat \<Rightarrow> ('k, unit) act" where
  "connect_times os j h 0 = return ()"
| "connect_times os j h (Suc i) = andthen (connect_one os j h) (\<lambda>_. connect_times os j h i)"

fun connect_hosts :: "'k os \<Rightarrow> nat \<Rightarrow> host_map \<Rightarrow> ('k, unit) act" where
  "connect_hosts os j [] = return ()"
| "connect_hosts os j ((h, t) # m) =
     andthen (connect_times os j h (nat t)) (\<lambda>_. connect_hosts os j m)"

definition on_pipe_readable :: "'k os \<Rightarrow> nat \<Rightarrow> ('k, unit) act" where
  "on_pipe_readable os n =
     andthen (evlp_of n) (\<lambda>j.
     andthen (obj_read_all os 1 n) (\<lambda>_ st.
     let c = rt_conts st j in
     connect_hosts os j (cn_hosts c) (set_cont j (c\<lparr>cn_hosts := []\<rparr>) st)))"

section \<open>Dispatch and threads\<close>

fun run_callback :: "'k os \<Rightarrow> 'k tp_shared_data \<Rightarrow> callback \<Rightarrow> nat \<Rightarrow> ('k, unit) act" where
  "run_callback os dp On_readable n = on_readable os dp n"
| "run_callback os dp On_writable n = on_writable os dp n"
| "run_callback os dp On_acpt_writable n = on_acpt_writable os dp n"
| "run_callback os dp On_cont_writable n = on_cont_writable os dp n"
| "run_callback os dp On_acpt_readable n = on_acpt_readable os n"
| "run_callback os dp On_pipe_readable n = on_pipe_readable os n"
| "run_callback os dp On_stop n = evlp_remove os n True True"

text \<open>
  A loop of the reactor is an event loop whose world's environment is the rest of the reactor:
  its system calls act on the kernel inside it, and a callback leaves the loop, runs, and enters
  it again.
\<close>

definition reactor_ep :: "'k epoll_api \<Rightarrow> 'k reactor epoll_api" where
  "reactor_ep ep = \<lparr>ep_in = ep_in ep, ep_out = ep_out ep,
     ep_create = (\<lambda>st n. case ep_create ep (rt_k st) n of (r, k) \<Rightarrow> (r, st\<lparr>rt_k := k\<rparr>)),
     ep_add = (\<lambda>st e fd m. case ep_add ep (rt_k st) e fd m of (r, k) \<Rightarrow> (r, st\<lparr>rt_k := k\<rparr>)),
     ep_del = (\<lambda>st e fd. case ep_del ep (rt_k st) e fd of (r, k) \<Rightarrow> (r, st\<lparr>rt_k := k\<rparr>)),
     ep_wait = (\<lambda>st e n t. case ep_wait ep (rt_k st) e n t of (r, k) \<Rightarrow> (r, st\<lparr>rt_k := k\<rparr>))\<rparr>"

definition enter_all :: "nat \<Rightarrow> 'k reactor \<Rightarrow> 'k reactor rworld" where
  "enter_all j st = \<lparr>w_loop = rt_loops st j, w_nios = rt_objs st, w_code = rt_code st, w_k = st\<rparr>"

definition leave_all :: "nat \<Rightarrow> 'k reactor rworld \<Rightarrow> 'k reactor" where
  "leave_all j w = (w_k w)\<lparr>rt_loops := (rt_loops (w_k w))(j := w_loop w), rt_objs := w_nios w,
     rt_code := w_code w\<rparr>"

definition run_in_loop ::
  "'k os \<Rightarrow> 'k tp_shared_data \<Rightarrow> nat \<Rightarrow> callback \<Rightarrow> nat \<Rightarrow> 'k reactor rworld \<Rightarrow> 'k reactor rworld \<times> unit res"
where
  "run_in_loop os dp j cb n w =
     (case run_callback os dp cb n (leave_all j w) of (st, r) \<Rightarrow> (enter_all j st, r))"

definition reactor_loop ::
  "'k os \<Rightarrow> 'k tp_shared_data \<Rightarrow> nat \<Rightarrow> 'k reactor \<Rightarrow> ('k reactor \<times> unit res) option"
where
  "reactor_loop os dp j st =
     map_option (\<lambda>(w, r). (leave_all j w, r))
       (loop_forever (reactor_ep (os_ep os)) (os_events os) (run_in_loop os dp j) (- 1) (enter_all j st))"

definition iohandler_run ::
  "'k os \<Rightarrow> 'k tp_shared_data \<Rightarrow> nat \<Rightarrow> 'k reactor \<Rightarrow> ('k reactor \<times> unit res) option"
where
  "iohandler_run os dp j st = reactor_loop os dp j st"

definition acceptor_run ::
  "'k os \<Rightarrow> 'k tp_shared_data \<Rightarrow> nat \<Rightarrow> 'k reactor \<Rightarrow> ('k reactor \<times> unit res) option"
where
  "acceptor_run os dp j st =
     (case rt_acpts st j of
        None \<Rightarrow> Some (st, Inl (Undefined Null_deref))
      | Some n \<Rightarrow>
          (case loop_register os j n fd_readable (Some On_acpt_readable) True st of
             (st, Inl e) \<Rightarrow> Some (st, Inl e)
           | (st, Inr _) \<Rightarrow> reactor_loop os dp j st))"

definition connector_run ::
  "'k os \<Rightarrow> 'k tp_shared_data \<Rightarrow> nat \<Rightarrow> 'k reactor \<Rightarrow> ('k reactor \<times> unit res) option"
where
  "connector_run os dp j st =
     (case loop_register os j (cn_rdp (rt_conts st j)) fd_readable (Some On_pipe_readable) True st of
        (st, Inl e) \<Rightarrow> Some (st, Inl e)
      | (st, Inr _) \<Rightarrow> reactor_loop os dp j st)"

text \<open>\<open>shutdown\<close> of an io handler, an acceptor and a connector: it stops the loop.\<close>

definition loop_shutdown :: "'k os \<Rightarrow> nat \<Rightarrow> ('k, unit) act" where
  "loop_shutdown os j =
     andthen alloc (\<lambda>n. andthen alloc (\<lambda>a.
       on_loop j (stop_loop_forever (os_sys os) (os_ep os) of_stream n a On_stop)))"

section \<open>tcp_server and tcp_client\<close>

definition new_loop :: "'k os \<Rightarrow> ('k, nat) act" where
  "new_loop os =
     andthen alloc (\<lambda>j st.
     case event_loop_new (os_ep os) (os_events os) j (rt_k st) of
       (k, Inl e) \<Rightarrow> (st\<lparr>rt_k := k\<rparr>, Inl e)
     | (k, Inr l) \<Rightarrow> (st\<lparr>rt_k := k, rt_loops := (rt_loops st)(j := l)\<rparr>, Inr j))"

definition iohandler_new :: "'k os \<Rightarrow> ('k, nat) act" where
  "iohandler_new os =
     andthen (new_loop os) (\<lambda>j st. (st\<lparr>rt_failures := (rt_failures st)(j := [])\<rparr>, Inr j))"

definition acceptor_new :: "'k os \<Rightarrow> ('k, nat) act" where
  "acceptor_new os =
     andthen (new_loop os) (\<lambda>j st. (st\<lparr>rt_acpts := (rt_acpts st)(j := None)\<rparr>, Inr j))"

definition connector_new :: "'k os \<Rightarrow> ('k, nat) act" where
  "connector_new os =
     andthen (new_loop os) (\<lambda>j.
     andthen (\<lambda>st. case get_pipes (os_sys os) (rt_k st) of (k, r) \<Rightarrow> (st\<lparr>rt_k := k\<rparr>, r)) (\<lambda>pipes.
     case pipes of
       [rd, wr] \<Rightarrow>
         andthen (new_obj (of_stream rd)) (\<lambda>r.
         andthen (new_obj (of_stream wr)) (\<lambda>x st.
         (set_cont j \<lparr>cn_rdp = r, cn_wrp = x, cn_hosts = [], cn_failures = []\<rparr> st, Inr j)))
     | _ \<Rightarrow> throw (Undefined Out_of_bounds)))"

text \<open>\<open>n\<close> objects made one after the other; their loops' addresses.\<close>

fun make_n :: "('k, nat) act \<Rightarrow> nat \<Rightarrow> ('k, nat list) act" where
  "make_n new 0 = return []"
| "make_n new (Suc n) = andthen new (\<lambda>j. andthen (make_n new n) (\<lambda>js. return (j # js)))"

definition server_new :: "'k os \<Rightarrow> int \<Rightarrow> ('k, unit) act" where
  "server_new os thr_num =
     andthen (make_n (iohandler_new os) (nat thr_num)) (\<lambda>js st. (st\<lparr>rt_evls := js\<rparr>, Inr ()))"

definition server_listen ::
  "'k os \<Rightarrow> nat list \<Rightarrow> int \<Rightarrow> family \<Rightarrow> string option \<Rightarrow> ('k, nat list) act"
where
  "server_listen os acpts port f ip =
     andthen (acceptor_new os) (\<lambda>j.
     andthen (acceptor_listen os j port f ip) (\<lambda>_. return (acpts @ [j])))"

definition server_listen_unix :: "'k os \<Rightarrow> nat list \<Rightarrow> string \<Rightarrow> bool \<Rightarrow> ('k, nat list) act" where
  "server_listen_unix os acpts path rem =
     andthen (acceptor_new os) (\<lambda>j.
     andthen (acceptor_listen_unix os j path rem) (\<lambda>_. return (acpts @ [j])))"

definition client_new :: "'k os \<Rightarrow> int \<Rightarrow> int \<Rightarrow> ('k, nat list) act" where
  "client_new os thr_num cont_num =
     andthen (make_n (iohandler_new os) (nat thr_num)) (\<lambda>js.
     andthen (\<lambda>st. (st\<lparr>rt_evls := js\<rparr>, Inr ())) (\<lambda>_.
     make_n (connector_new os) (nat cont_num)))"

fun add_each :: "'k os \<Rightarrow> nat list \<Rightarrow> endpoint \<Rightarrow> int \<Rightarrow> ('k, unit) act" where
  "add_each os [] h t = return ()"
| "add_each os (j # js) h t = andthen (connector_add os j h t) (\<lambda>_. add_each os js h t)"

text \<open>\<open>t / conts_.size()\<close> and \<open>t % conts_.size()\<close> are computed as \<open>size_t\<close> and stored as \<open>int\<close>.\<close>

definition client_add :: "'k os \<Rightarrow> nat list \<Rightarrow> endpoint \<Rightarrow> int \<Rightarrow> ('k, unit) act" where
  "client_add os conts h t =
     (case conts of
        [] \<Rightarrow> throw (Undefined Division_ub)
      | [j] \<Rightarrow> connector_add os j h t
      | j # _ \<Rightarrow>
          (let n = int (length conts);
               num = to_int (usize t div n);
               m = to_int (usize t mod n)
           in andthen (add_each os conts h num) (\<lambda>_. connector_add os j h m)))"

definition client_add_unix :: "'k os \<Rightarrow> nat list \<Rightarrow> string \<Rightarrow> int \<Rightarrow> ('k, unit) act" where
  "client_add_unix os conts path t = client_add os conts (path, 0, local_family) t"

section \<open>Total correctness of a sequence\<close>

text \<open>From every state in \<open>P\<close> the action returns, without an exception, and leads into \<open>Q\<close>.\<close>

definition ensures :: "('k reactor \<Rightarrow> bool) \<Rightarrow> ('k, 'a) act \<Rightarrow> ('a \<Rightarrow> 'k reactor \<Rightarrow> bool) \<Rightarrow> bool" where
  "ensures P m Q \<longleftrightarrow> (\<forall>st. P st \<longrightarrow> (\<exists>st' x. m st = (st', Inr x) \<and> Q x st'))"

named_theorems acts \<open>actions that return\<close>

lemma ensuresI: "(\<And>st. P st \<Longrightarrow> \<exists>st' x. m st = (st', Inr x) \<and> Q x st') \<Longrightarrow> ensures P m Q"
  by (simp add: ensures_def)

lemma ensuresD: "ensures P m Q \<Longrightarrow> P st \<Longrightarrow> \<exists>st' x. m st = (st', Inr x) \<and> Q x st'"
  by (simp add: ensures_def)

lemma ensures_andthen:
  assumes "ensures P m R" and "\<And>x. ensures (R x) (f x) Q"
  shows "ensures P (andthen m f) Q"
proof (rule ensuresI)
  fix st
  assume "P st"
  then obtain st1 x where "m st = (st1, Inr x)" "R x st1"
    using ensuresD [OF assms(1)] by blast
  moreover then obtain st2 y where "f x st1 = (st2, Inr y)" "Q y st2"
    using ensuresD [OF assms(2)] by blast
  ultimately show "\<exists>st' y. andthen m f st = (st', Inr y) \<and> Q y st'"
    by (simp add: andthen_def)
qed

lemma ensures_weaken:
  assumes "ensures P m Q" and "\<And>st. P' st \<Longrightarrow> P st" and "\<And>x st. Q x st \<Longrightarrow> Q' x st"
  shows "ensures P' m Q'"
  using assms unfolding ensures_def by blast

lemma ensures_if:
  assumes "ensures (\<lambda>st. P st \<and> c st) m Q" and "ensures (\<lambda>st. P st \<and> \<not> c st) m' Q"
  shows "ensures P (\<lambda>st. if c st then m st else m' st) Q"
  using assms unfolding ensures_def by simp

lemma ensures_if_const:
  assumes "c \<Longrightarrow> ensures P m Q" and "\<not> c \<Longrightarrow> ensures P m' Q"
  shows "ensures P (if c then m else m') Q"
  using assms by simp

lemma ensures_return: "ensures (Q x) (return x) Q"
  by (simp add: ensures_def return_def)

lemma ensures_skip: "ensures (Q ()) (\<lambda>st. (st, Inr ())) Q"
  by (simp add: ensures_def)

section \<open>Registrations of the reactor\<close>

text \<open>What a registration and a removal do to everything but the kernel.\<close>

definition registered :: "nat \<Rightarrow> nat \<Rightarrow> fd_event \<Rightarrow> callback option \<Rightarrow> 'k reactor \<Rightarrow> 'k reactor" where
  "registered j n ev cb st =
     (let l = rt_loops st j; s = set_evlp (el_id l) (rt_objs st n); a = rt_next st in
      st\<lparr>rt_next := Suc a, rt_objs := (rt_objs st)(n := s),
        rt_loops := (rt_loops st)(j := (case cb of
          None \<Rightarrow> l | Some h \<Rightarrow> l\<lparr>el_fds := (io_fd s, prio_val p0, n, a, ev) # el_fds l\<rparr>)),
        rt_code := (case cb of None \<Rightarrow> rt_code st | Some h \<Rightarrow> (rt_code st)(a := h))\<rparr>)"

definition erased :: "nat \<Rightarrow> int \<Rightarrow> 'k reactor \<Rightarrow> 'k reactor" where
  "erased j fd st = st\<lparr>rt_loops := (rt_loops st)(j := (rt_loops st j)
     \<lparr>el_fds := filter (\<lambda>(fd', r). fd' \<noteq> fd) (el_fds (rt_loops st j))\<rparr>)\<rparr>"

lemma leave_enter [simp]: "leave j (enter j st) st = st"
  by (simp add: leave_def enter_def)

lemma loop_register_eq:
  "loop_register os j n ev cb activate st =
     (if activate then
        (case ep_add (os_ep os) (rt_k st) (el_fd (rt_loops st j)) (io_fd (rt_objs st n)) (fd_map_to_sys (os_ep os) ev) of
           (Some e, k) \<Rightarrow> ((registered j n ev cb st)\<lparr>rt_k := k\<rparr>, Inl (System_error ''epoll_ctl add error'' e))
         | (None, k) \<Rightarrow> ((registered j n ev cb st)\<lparr>rt_k := k\<rparr>, Inr ()))
      else (registered j n ev cb st, Inr ()))"
  by (auto simp: loop_register_def andthen_def alloc_def on_loop_def fd_register_def enter_def leave_def
      registered_def Let_def split: option.split prod.split)

lemma loop_remove_eq:
  "on_loop j (fd_remove (os_ep os) n clean deactivate) st =
     (let erase = (\<lambda>st. if clean then erased j (io_fd (rt_objs st n)) st else st) in
      if deactivate then
        (case ep_del (os_ep os) (rt_k st) (el_fd (rt_loops st j)) (io_fd (rt_objs st n)) of
           (Some e, k) \<Rightarrow> (st\<lparr>rt_k := k\<rparr>, Inl (System_error ''epoll_ctl del error'' e))
         | (None, k) \<Rightarrow> (erase (st\<lparr>rt_k := k\<rparr>), Inr ()))
      else (erase st, Inr ()))"
  by (auto simp: on_loop_def fd_remove_def enter_def leave_def erased_def Let_def
      split: option.split prod.split)

section \<open>One connection\<close>

text \<open>
  Connection \<open>n\<close> with descriptor \<open>fd\<close> belongs to loop \<open>j\<close>, which watches it through epoll
  instance \<open>efd\<close>: \<open>rs\<close> are its registered callbacks, newest first, and \<open>m\<close> is what epoll is asked
  to report of it.
\<close>

definition regs_of :: "nat \<Rightarrow> int \<Rightarrow> 'k reactor \<Rightarrow> (nat \<times> fd_event \<times> callback) list" where
  "regs_of j fd st = map (\<lambda>(fd', p, n, a, ev). (n, ev, rt_code st a))
     (filter (\<lambda>(fd', r). fd' = fd) (el_fds (rt_loops st j)))"

definition fresh_code :: "nat \<Rightarrow> 'k reactor \<Rightarrow> bool" where
  "fresh_code j st \<longleftrightarrow> (\<forall>(fd, p, n, a, ev) \<in> set (el_fds (rt_loops st j)). a < rt_next st)"

definition conn ::
  "('k \<Rightarrow> int \<Rightarrow> 32 word option) \<Rightarrow> nat \<Rightarrow> int \<Rightarrow> nat \<Rightarrow> int \<Rightarrow>
   (fd_event \<times> callback) list \<Rightarrow> 32 word option \<Rightarrow> 'k reactor \<Rightarrow> bool"
where
  "conn interest j efd n fd rs m st \<longleftrightarrow>
     (let s = rt_objs st n; l = rt_loops st j in
      io_evlp s = Some j \<and> ro_sock s \<noteq> None \<and> \<not> io_closed s \<and> io_fd s = fd \<and>
      buf_ok (io_rbuf s) \<and> buf_ok (io_wbuf s) \<and>
      el_id l = j \<and> el_fd l = efd \<and> interest (rt_k st) fd = m \<and> fresh_code j st \<and>
      regs_of j fd st = map (\<lambda>(ev, cb). (n, ev, cb)) rs)"

lemma map_code_fresh:
  assumes "fresh_code j st"
  shows "map (\<lambda>(fd', p, n, a, ev). (n, ev, ((rt_code st)(rt_next st := h)) a)) (filter (\<lambda>(fd', r). fd' = fd) (el_fds (rt_loops st j)))
       = regs_of j fd st"
  unfolding regs_of_def using assms by (auto simp: fresh_code_def)

lemma conn_evlp: "conn interest j efd n fd rs m st \<Longrightarrow> evlp_of n st = (st, Inr j)"
  by (simp add: conn_def evlp_of_def Let_def)

lemma conn_registered:
  assumes "conn interest j efd n fd rs m st"
  shows "conn interest j efd n fd ((ev, cb) # rs) m (registered j n ev (Some cb) st)"
    and "conn interest j efd n fd rs m (registered j n ev None st)"
proof -
  have fresh: "fresh_code j st" and eq: "regs_of j fd st = map (\<lambda>(ev, cb). (n, ev, cb)) rs"
    using assms by (simp_all add: conn_def Let_def)
  have new: "regs_of j fd (registered j n ev (Some cb) st) = (n, ev, cb) # regs_of j fd st"
    "fresh_code j (registered j n ev (Some cb) st)"
    using assms map_code_fresh [OF fresh] fresh unfolding regs_of_def fresh_code_def
    by (auto simp: registered_def Let_def conn_def)
  have same: "regs_of j fd (registered j n ev None st) = regs_of j fd st"
    "fresh_code j (registered j n ev None st)"
    using fresh by (auto simp: regs_of_def fresh_code_def registered_def Let_def)
  show "conn interest j efd n fd ((ev, cb) # rs) m (registered j n ev (Some cb) st)"
    using assms new eq unfolding conn_def by (simp add: registered_def Let_def set_evlp_def)
  show "conn interest j efd n fd rs m (registered j n ev None st)"
    using assms same eq unfolding conn_def by (simp add: registered_def Let_def set_evlp_def)
qed

lemma conn_kernel_step:
  assumes "conn interest j efd n fd rs m st" and "interest k fd = m'"
  shows "conn interest j efd n fd rs m' (st\<lparr>rt_k := k\<rparr>)"
  using assms by (simp add: conn_def regs_of_def fresh_code_def Let_def)

lemma conn_erased:
  assumes "conn interest j efd n fd rs m st"
  shows "conn interest j efd n fd [] m (erased j fd st)"
  using assms by (auto simp: conn_def regs_of_def fresh_code_def erased_def Let_def filter_empty_conv)

lemma conn_obj:
  assumes "conn interest j efd n fd rs m st"
    and "io_evlp s = Some j" "ro_sock s \<noteq> None" "\<not> io_closed s" "io_fd s = fd" "buf_ok (io_rbuf s)" "buf_ok (io_wbuf s)"
  shows "conn interest j efd n fd rs m (st\<lparr>rt_objs := (rt_objs st)(n := s)\<rparr>)"
  using assms by (simp add: conn_def regs_of_def fresh_code_def Let_def)

lemma ensures_evlp: "ensures (conn interest j efd n fd rs m) (evlp_of n) (\<lambda>i st. i = j \<and> conn interest j efd n fd rs m st)"
  by (auto intro!: ensuresI simp: conn_evlp)

lemma ensures_cast: "ensures (conn interest j efd n fd rs m) (cast_tcp n) (\<lambda>_. conn interest j efd n fd rs m)"
  by (auto intro!: ensuresI simp: cast_tcp_def tcp_of_def conn_def Let_def)

text \<open>
  Registration without and with activation, and removal; they leave the object alone but for its
  pointer to the loop.
\<close>

definition view :: "nat \<Rightarrow> 'k reactor \<Rightarrow> robj" where
  "view n st = (rt_objs st n)\<lparr>io_evlp := None\<rparr>"

lemma view_registered [simp]: "view n (registered j n ev cb st) = view n st"
  by (simp add: view_def registered_def set_evlp_def Let_def)

lemma view_simps [simp]:
  "view n (st\<lparr>rt_k := k\<rparr>) = view n st" "view n (erased j fd st) = view n st"
  by (simp_all add: view_def erased_def)

lemma ensures_register_quiet:
  "ensures (\<lambda>st. conn interest j efd n fd rs m st \<and> V (view n st)) (evlp_register os n ev (Some cb) False)
     (\<lambda>_ st. conn interest j efd n fd ((ev, cb) # rs) m st \<and> V (view n st))"
  by (auto intro!: ensuresI conn_registered simp: evlp_register_def andthen_def conn_evlp loop_register_eq)

lemma ensures_register:
  assumes "ep_kernel (os_ep os) efd interest"
  shows "ensures (\<lambda>st. conn interest j efd n fd rs None st \<and> V (view n st)) (evlp_register os n ev cb True)
     (\<lambda>_ st. conn interest j efd n fd (case cb of None \<Rightarrow> rs | Some h \<Rightarrow> (ev, h) # rs) (Some (fd_map_to_sys (os_ep os) ev)) st \<and>
        V (view n st))"
proof (rule ensuresI)
  fix st
  assume a: "conn interest j efd n fd rs None st \<and> V (view n st)"
  then have c: "conn interest j efd n fd rs None st" by simp
  then have "interest (rt_k st) fd = None" by (simp add: conn_def Let_def)
  then obtain k' where k': "ep_add (os_ep os) (rt_k st) efd fd (fd_map_to_sys (os_ep os) ev) = (None, k')"
      "interest k' = (interest (rt_k st))(fd \<mapsto> fd_map_to_sys (os_ep os) ev)"
    using ep_kernel_None(1) [OF assms] by blast
  have "conn interest j efd n fd (case cb of None \<Rightarrow> rs | Some h \<Rightarrow> (ev, h) # rs) None (registered j n ev cb st)"
    using conn_registered [OF c] by (cases cb) simp_all
  then have "conn interest j efd n fd (case cb of None \<Rightarrow> rs | Some h \<Rightarrow> (ev, h) # rs)
      (Some (fd_map_to_sys (os_ep os) ev)) ((registered j n ev cb st)\<lparr>rt_k := k'\<rparr>)"
    by (rule conn_kernel_step) (simp add: k'(2))
  moreover have "evlp_register os n ev cb True st = ((registered j n ev cb st)\<lparr>rt_k := k'\<rparr>, Inr ())"
    using c k'(1) by (simp add: evlp_register_def andthen_def conn_evlp loop_register_eq) (simp add: conn_def Let_def)
  ultimately show "\<exists>st' x. evlp_register os n ev cb True st = (st', Inr x) \<and>
      conn interest j efd n fd (case cb of None \<Rightarrow> rs | Some h \<Rightarrow> (ev, h) # rs) (Some (fd_map_to_sys (os_ep os) ev)) st' \<and> V (view n st')"
    using a by simp
qed

lemma ensures_remove:
  assumes "ep_kernel (os_ep os) efd interest"
  shows "ensures (\<lambda>st. (\<exists>m. conn interest j efd n fd rs (Some m) st) \<and> V (view n st)) (evlp_remove os n clean True)
     (\<lambda>_ st. conn interest j efd n fd (if clean then [] else rs) None st \<and> V (view n st))"
proof (rule ensuresI)
  fix st
  assume a: "(\<exists>m. conn interest j efd n fd rs (Some m) st) \<and> V (view n st)"
  then obtain m where c: "conn interest j efd n fd rs (Some m) st" by blast
  then have i: "interest (rt_k st) fd = Some m" "io_fd (rt_objs st n) = fd" "el_fd (rt_loops st j) = efd"
    by (simp_all add: conn_def Let_def)
  then obtain k' where k': "ep_del (os_ep os) (rt_k st) efd fd = (None, k')" "interest k' = (interest (rt_k st))(fd := None)"
    using ep_kernel_Some(1) [OF assms] by blast
  have "conn interest j efd n fd rs None (st\<lparr>rt_k := k'\<rparr>)"
    using c by (rule conn_kernel_step) (simp add: k'(2))
  then have "conn interest j efd n fd (if clean then [] else rs) None
      (if clean then erased j fd (st\<lparr>rt_k := k'\<rparr>) else st\<lparr>rt_k := k'\<rparr>)"
    by (simp add: conn_erased)
  moreover have "evlp_remove os n clean True st = (if clean then erased j fd (st\<lparr>rt_k := k'\<rparr>) else st\<lparr>rt_k := k'\<rparr>, Inr ())"
    using c k'(1) i by (simp add: evlp_remove_def andthen_def conn_evlp loop_remove_eq)
  ultimately show "\<exists>st' x. evlp_remove os n clean True st = (st', Inr x) \<and>
      conn interest j efd n fd (if clean then [] else rs) None st' \<and> V (view n st')"
    using a by simp
qed

text \<open>A connection epoll does not watch cannot be removed.\<close>

lemma remove_unwatched:
  assumes "ep_kernel (os_ep os) efd interest" and "conn interest j efd n fd rs None st"
  shows "evlp_remove os n clean True st = (st, Inl (System_error ''epoll_ctl del error'' ENOENT))"
proof -
  have i: "interest (rt_k st) fd = None" "io_fd (rt_objs st n) = fd" "el_fd (rt_loops st j) = efd"
    using assms(2) by (simp_all add: conn_def Let_def)
  show ?thesis
    using ep_kernel_None(2) [OF assms(1) i(1)] assms(2) i(2,3)
    by (simp add: evlp_remove_def andthen_def conn_evlp loop_remove_eq)
qed

section \<open>io of a connection\<close>

text \<open>
  The operating system under a connection: one epoll instance, a stream that takes and delivers
  bytes, and no other error than the ones \<open>read_all\<close> and \<open>write_all\<close> handle.
\<close>

definition conn_kernel ::
  "'k os \<Rightarrow> int \<Rightarrow> ('k \<Rightarrow> int \<Rightarrow> 32 word option) \<Rightarrow> int \<Rightarrow> ('k \<Rightarrow> char list) \<Rightarrow> ('k \<Rightarrow> char list) \<Rightarrow>
   ('k \<Rightarrow> nat) \<Rightarrow> ('k \<Rightarrow> nat) \<Rightarrow> bool"
where
  "conn_kernel os efd interest fd sent recv pend intr \<longleftrightarrow>
     0 < os_step os \<and> ep_kernel (os_ep os) efd interest \<and>
     tx_kernel (os_sys os) fd sent intr \<and> rx_kernel (os_sys os) fd recv pend intr \<and>
     wr_keeps interest (os_sys os) \<and> rd_keeps interest (os_sys os) \<and>
     (\<forall>k bs e k'. px_write (os_sys os) k fd bs = (Inl e, k') \<longrightarrow>
        e \<in> {EINTR, EAGAIN, EWOULDBLOCK, EPIPE, ECONNRESET}) \<and>
     (\<forall>k n e k'. px_read (os_sys os) k fd n = (Inl e, k') \<longrightarrow>
        e \<in> {EINTR, EAGAIN, EWOULDBLOCK, ECONNRESET})"

definition drained :: "nat \<Rightarrow> 'k reactor \<Rightarrow> bool" where
  "drained n st \<longleftrightarrow> contents (io_wbuf (rt_objs st n)) = []"

lemma drained_size:
  "conn interest j efd n fd rs m st \<Longrightarrow> buf_size (io_wbuf (rt_objs st n)) = 0 \<longleftrightarrow> drained n st"
  by (simp add: conn_def Let_def drained_def buf_ok_size)

text \<open>Writing to the connection's stream, whatever loop watches it.\<close>

lemma obj_write_all_ok:
  assumes "tx_kernel (os_sys os) (io_fd s) sent intr" and "rt_objs st n = s" and "buf_ok (io_wbuf s)" and "0 < step"
    and "\<And>k bs e k'. px_write (os_sys os) k (io_fd s) bs = (Inl e, k') \<Longrightarrow>
      e \<in> {EINTR, EAGAIN, EWOULDBLOCK, EPIPE, ECONNRESET}"
    and "wr_keeps I (os_sys os)"
  shows "\<exists>k' s' c. obj_write_all os step n st = (st\<lparr>rt_k := k', rt_objs := (rt_objs st)(n := s')\<rparr>, Inr c) \<and>
           sent k' @ contents (io_wbuf s') = sent (rt_k st) @ contents (io_wbuf s) \<and>
           buf_ok (io_wbuf s') \<and> tx_frame s s' \<and> I k' = I (rt_k st)"
proof -
  obtain k' s' c r where run: "write_all (os_sys os) (rt_k st) s step = Some (k', s', io_count c r)"
    and post: "sent k' @ contents (io_wbuf s') = sent (rt_k st) @ contents (io_wbuf s)"
      "buf_ok (io_wbuf s')" "tx_frame s s'"
    and stop: "r = Inr () \<or> (\<exists>k0 bs e. px_write (os_sys os) k0 (io_fd s) bs = (Inl e, k') \<and> tx_stop e s s' r)"
    using write_all_ok [OF assms(1,3,4), of "rt_k st"] by metis
  have "r = Inr ()"
    using stop assms(5) unfolding tx_stop_def by fastforce
  moreover have "I k' = I (rt_k st)"
    using write_all_keeps [OF run assms(6)] by simp
  moreover have "obj_write_all os step n st = (st\<lparr>rt_k := k', rt_objs := (rt_objs st)(n := s')\<rparr>, io_count c r)"
    using run assms(2) by (simp add: obj_write_all_def obj_io_def)
  ultimately show ?thesis
    using post by (simp add: io_count_def) blast
qed

lemma conn_io:
  assumes "conn interest j efd n fd rs m st" and "interest k = interest (rt_k st)"
    and "io_fd s' = io_fd s" "io_closed s' = io_closed s" "io_evlp s' = io_evlp s" "nstream.more s' = nstream.more s"
    and "s = rt_objs st n" "buf_ok (io_rbuf s')" "buf_ok (io_wbuf s')"
  shows "conn interest j efd n fd rs m (st\<lparr>rt_k := k, rt_objs := (rt_objs st)(n := s')\<rparr>)"
proof -
  have "ro_sock s' = ro_sock s"
    using assms(6) by (cases s; cases s') simp
  then show ?thesis
    using assms by (simp add: conn_def regs_of_def fresh_code_def Let_def)
qed

lemma ensures_write:
  assumes "conn_kernel os efd interest fd sent recv pend intr" and "0 < step"
  shows "ensures (conn interest j efd n fd rs m) (obj_write_all os step n) (\<lambda>_. conn interest j efd n fd rs m)"
proof (rule ensuresI)
  fix st
  assume c: "conn interest j efd n fd rs m st"
  let ?s = "rt_objs st n"
  have s: "io_fd ?s = fd" "buf_ok (io_wbuf ?s)" "buf_ok (io_rbuf ?s)"
    using c by (simp_all add: conn_def Let_def)
  obtain k' s' x where w: "obj_write_all os step n st = (st\<lparr>rt_k := k', rt_objs := (rt_objs st)(n := s')\<rparr>, Inr x)"
      "buf_ok (io_wbuf s')" "tx_frame ?s s'" "interest k' = interest (rt_k st)"
    using obj_write_all_ok [of os ?s sent intr st n step interest] assms s(1,2) unfolding conn_kernel_def by metis
  then have "conn interest j efd n fd rs m (st\<lparr>rt_k := k', rt_objs := (rt_objs st)(n := s')\<rparr>)"
    using s(3) by (intro conn_io [OF c, where s = ?s]) (simp_all add: tx_frame_def)
  with w(1) show "\<exists>st' x. obj_write_all os step n st = (st', Inr x) \<and> conn interest j efd n fd rs m st'"
    by blast
qed

definition has_room :: "'k os \<Rightarrow> ('k \<Rightarrow> nat) \<Rightarrow> nat \<Rightarrow> 'k reactor \<Rightarrow> bool" where
  "has_room os pend n st \<longleftrightarrow>
     b_offset (io_rbuf (rt_objs st n)) + int (pend (rt_k st)) + os_step os \<le> 1073741824"

text \<open>Room for a reply: the bytes that were read, and may still be, can be appended to the write buffer.\<close>

definition reply_fits :: "nat \<Rightarrow> 'k reactor \<Rightarrow> bool" where
  "reply_fits n st \<longleftrightarrow>
     b_offset (io_wbuf (rt_objs st n)) + int (length (contents (io_rbuf (rt_objs st n)))) \<le> 1073741824"

definition reply_room :: "('k \<Rightarrow> nat) \<Rightarrow> nat \<Rightarrow> 'k reactor \<Rightarrow> bool" where
  "reply_room pend n st \<longleftrightarrow> b_offset (io_wbuf (rt_objs st n)) +
     int (length (contents (io_rbuf (rt_objs st n))) + pend (rt_k st)) \<le> 1073741824"

lemma obj_read_all_ok:
  assumes rx: "rx_kernel (os_sys os) (io_fd s) recv pend intr" and obj: "rt_objs st n = s" and ok: "buf_ok (io_rbuf s)" and step: "0 < step"
    and room: "b_offset (io_rbuf s) + int (pend (rt_k st)) + step \<le> 1073741824"
    and err: "\<And>k n e k'. px_read (os_sys os) k (io_fd s) n = (Inl e, k') \<Longrightarrow> e \<in> {EINTR, EAGAIN, EWOULDBLOCK, ECONNRESET}"
    and keep: "rd_keeps I (os_sys os)"
  shows "\<exists>k' s' c. obj_read_all os step n st = (st\<lparr>rt_k := k', rt_objs := (rt_objs st)(n := s')\<rparr>, Inr c) \<and>
           buf_ok (io_rbuf s') \<and> rx_frame s s' \<and> I k' = I (rt_k st)"
proof -
  obtain k' s' r k0 l reply and bs :: "char list" where run: "read_all (os_sys os) (rt_k st) s step = Some (k', s', io_count (length bs) r)"
    and post: "buf_ok (io_rbuf s')" "rx_frame s s'"
    and stop: "px_read (os_sys os) k0 (io_fd s) l = (reply, k')" "rx_stop reply s s' r"
    using read_all_ok [OF rx ok step room] by (elim exE conjE) (rule that)
  have "r = Inr ()"
    using stop err unfolding rx_stop_def by (cases reply) fastforce+
  moreover have "obj_read_all os step n st = (st\<lparr>rt_k := k', rt_objs := (rt_objs st)(n := s')\<rparr>, io_count (length bs) r)"
    using run obj by (simp add: obj_read_all_def obj_io_def)
  moreover have "I k' = I (rt_k st)"
    using read_all_keeps [OF run keep] by simp
  ultimately show ?thesis
    using post by (simp add: io_count_def) blast
qed

lemma obj_read_all_amount:
  assumes rx: "rx_kernel (os_sys os) (io_fd s) recv pend intr" and obj: "rt_objs st n = s" and ok: "buf_ok (io_rbuf s)" and step: "0 < step"
    and room: "b_offset (io_rbuf s) + int (pend (rt_k st)) + step \<le> 1073741824"
    and run: "obj_read_all os step n st = (st', r)"
  shows "length (contents (io_rbuf (rt_objs st' n))) \<le> length (contents (io_rbuf s)) + pend (rt_k st)"
proof -
  obtain k' s' bs r' where "read_all (os_sys os) (rt_k st) s step = Some (k', s', io_count (length bs) r')"
    and "rx_outcome (os_sys os) (io_fd s) recv pend intr (rt_k st) s (int (pend (rt_k st)) + step) k' s' bs r'"
    using read_all_outcome [OF rx ok step room] by blast
  with run obj show ?thesis
    by (auto simp: obj_read_all_def obj_io_def rx_outcome_def)
qed

lemma ensures_read:
  assumes "conn_kernel os efd interest fd sent recv pend intr"
  shows "ensures (\<lambda>st. conn interest j efd n fd rs m st \<and> has_room os pend n st \<and> drained n st \<and> (fits \<longrightarrow> reply_room pend n st))
     (obj_read_all os (os_step os) n)
     (\<lambda>_ st. conn interest j efd n fd rs m st \<and> drained n st \<and> (fits \<longrightarrow> reply_fits n st))"
proof (rule ensuresI)
  fix st
  assume p: "conn interest j efd n fd rs m st \<and> has_room os pend n st \<and> drained n st \<and> (fits \<longrightarrow> reply_room pend n st)"
  then have c: "conn interest j efd n fd rs m st" and room: "has_room os pend n st" and d: "drained n st" by simp_all
  let ?s = "rt_objs st n"
  have s: "io_fd ?s = fd" "buf_ok (io_wbuf ?s)" "buf_ok (io_rbuf ?s)"
    using c by (simp_all add: conn_def Let_def)
  obtain k' s' x where w: "obj_read_all os (os_step os) n st = (st\<lparr>rt_k := k', rt_objs := (rt_objs st)(n := s')\<rparr>, Inr x)"
      "buf_ok (io_rbuf s')" "rx_frame ?s s'" "interest k' = interest (rt_k st)"
    using obj_read_all_ok [of os ?s recv pend intr st n "os_step os" interest] assms s(1,3) room
    unfolding conn_kernel_def has_room_def by metis
  then have "conn interest j efd n fd rs m (st\<lparr>rt_k := k', rt_objs := (rt_objs st)(n := s')\<rparr>)"
    using s(2) by (intro conn_io [OF c, where s = ?s]) (simp_all add: rx_frame_def)
  moreover have "drained n (st\<lparr>rt_k := k', rt_objs := (rt_objs st)(n := s')\<rparr>)"
    using d w(3) by (simp add: drained_def rx_frame_def)
  moreover have "length (contents (io_rbuf s')) \<le> length (contents (io_rbuf ?s)) + pend (rt_k st)"
    using obj_read_all_amount [OF _ refl s(3) _ _ w(1), of recv pend intr] assms s(1) room by (simp add: conn_kernel_def has_room_def)
  then have "fits \<longrightarrow> reply_fits n (st\<lparr>rt_k := k', rt_objs := (rt_objs st)(n := s')\<rparr>)"
    using p w(3) by (auto simp: reply_fits_def reply_room_def rx_frame_def)
  ultimately show "\<exists>st' x. obj_read_all os (os_step os) n st = (st', Inr x) \<and> conn interest j efd n fd rs m st' \<and> drained n st' \<and>
      (fits \<longrightarrow> reply_fits n st')"
    using w(1) by blast
qed

lemma ensures_clear:
  "ensures (\<lambda>st. conn interest j efd n fd rs (m (drained n st)) st) (rbuf_clear n)
     (\<lambda>_ st. conn interest j efd n fd rs (m (drained n st)) st)"
proof (rule ensuresI)
  fix st
  assume c: "conn interest j efd n fd rs (m (drained n st)) st"
  then have "buf_ok (io_rbuf (rt_objs st n))" by (simp add: conn_def Let_def)
  then obtain b where b: "clear (io_rbuf (rt_objs st n)) = Inr b" "buf_ok b"
    using clear_ok by blast
  let ?st = "st\<lparr>rt_objs := (rt_objs st)(n := (rt_objs st n)\<lparr>io_rbuf := b\<rparr>)\<rparr>"
  have "conn interest j efd n fd rs (m (drained n st)) ?st"
    using c b(2) by (intro conn_obj) (simp_all add: conn_def Let_def)
  moreover have "drained n ?st = drained n st" by (simp add: drained_def)
  moreover have "rbuf_clear n st = (?st, Inr ())"
    using b(1) by (simp add: rbuf_clear_def obj_buf_def)
  ultimately show "\<exists>st' x. rbuf_clear n st = (st', Inr x) \<and> conn interest j efd n fd rs (m (drained n st')) st'"
    by auto
qed

section \<open>The life of a connection\<close>

definition io_regs :: "(fd_event \<times> callback) list" where
  "io_regs = [(fd_readable, On_readable), (fd_writable, On_writable)]"

text \<open>
  Between two callbacks a connection waits to be writable as long as it has bytes to send, and to
  be readable otherwise; when it has ended, nothing of it is registered.
\<close>

definition settled ::
  "'k os \<Rightarrow> ('k \<Rightarrow> int \<Rightarrow> 32 word option) \<Rightarrow> nat \<Rightarrow> int \<Rightarrow> nat \<Rightarrow> int \<Rightarrow> 'k reactor \<Rightarrow> bool"
where
  "settled os interest j efd n fd st \<longleftrightarrow>
     conn interest j efd n fd io_regs
       (Some (if drained n st then ep_in (os_ep os) else ep_out (os_ep os))) st"

definition released ::
  "('k \<Rightarrow> int \<Rightarrow> 32 word option) \<Rightarrow> nat \<Rightarrow> int \<Rightarrow> nat \<Rightarrow> int \<Rightarrow> 'k reactor \<Rightarrow> bool"
where
  "released interest j efd n fd st \<longleftrightarrow> conn interest j efd n fd [] None st"

definition stream_flags :: "nat \<Rightarrow> 'k reactor \<Rightarrow> bool \<times> bool \<times> bool" where
  "stream_flags n st = (st_eof (rt_objs st n), st_eop (rt_objs st n), st_reset (rt_objs st n))"

lemma drained_view: "drained n st \<longleftrightarrow> contents (io_wbuf (view n st)) = []"
  by (simp add: drained_def view_def)

lemma flags_view: "stream_flags n st = (st_eof (view n st), st_eop (view n st), st_reset (view n st))"
  by (simp add: stream_flags_def view_def)

lemma sys_masks:
  "fd_map_to_sys ep fd_readable = ep_in ep" "fd_map_to_sys ep fd_writable = ep_out ep"
  by (simp_all add: fd_map_to_sys_def fd_readable_def fd_writable_def)

lemma ensures_async_write_to:
  assumes k: "conn_kernel os efd interest fd sent recv pend intr"
    and h: "ensures (\<lambda>st. settled os interest j efd n fd st \<and> drained n st) (on_write_complete dp n)
              (\<lambda>_. Q)"
    and q: "\<And>st. settled os interest j efd n fd st \<Longrightarrow> \<not> drained n st \<Longrightarrow> Q st"
  shows "ensures (conn interest j efd n fd io_regs (Some (ep_in (os_ep os)))) (async_write os dp n)
           (\<lambda>_. Q)"
proof -
  have step: "0 < os_step os" and ep: "ep_kernel (os_ep os) efd interest"
    using k by (simp_all add: conn_kernel_def)
  let ?c = "conn interest j efd n fd io_regs"
  let ?V = "\<lambda>s. contents (io_wbuf s) \<noteq> []"
  show ?thesis
    unfolding async_write_def
  proof (rule ensures_andthen [OF ensures_evlp], rule ensures_andthen [where R = "\<lambda>_. ?c (Some (ep_in (os_ep os)))"])
    show "ensures (\<lambda>st. x = j \<and> ?c (Some (ep_in (os_ep os))) st) (obj_write_all os (os_step os) n)
        (\<lambda>_. ?c (Some (ep_in (os_ep os))))" for x
      by (rule ensures_weaken [OF ensures_write [OF k step, of j n io_regs "Some (ep_in (os_ep os))"]]) simp_all
    show "ensures (?c (Some (ep_in (os_ep os)))) (\<lambda>st. if buf_size (io_wbuf (rt_objs st n)) = 0 then on_write_complete dp n st
        else andthen (evlp_remove os n False True) (\<lambda>_. evlp_register os n fd_writable None True) st)
        (\<lambda>_. Q)" for x
    proof (rule ensures_if)
      show "ensures (\<lambda>st. ?c (Some (ep_in (os_ep os))) st \<and> buf_size (io_wbuf (rt_objs st n)) = 0)
          (on_write_complete dp n) (\<lambda>_. Q)"
        by (rule ensures_weaken [OF h]) (auto simp: settled_def drained_size)
      have "ensures (\<lambda>st. (\<exists>m. ?c (Some m) st) \<and> ?V (view n st))
          (andthen (evlp_remove os n False True) (\<lambda>_. evlp_register os n fd_writable None True))
          (\<lambda>_ st. ?c (Some (ep_out (os_ep os))) st \<and> ?V (view n st))"
        using ensures_remove [OF ep, where V = ?V and clean = False and rs = io_regs]
          ensures_register [OF ep, where V = ?V and cb = None and rs = io_regs and ev = fd_writable]
        by (intro ensures_andthen) (simp_all add: sys_masks)
      then show "ensures (\<lambda>st. ?c (Some (ep_in (os_ep os))) st \<and> buf_size (io_wbuf (rt_objs st n)) \<noteq> 0)
          (andthen (evlp_remove os n False True) (\<lambda>_. evlp_register os n fd_writable None True))
          (\<lambda>_. Q)"
        by (rule ensures_weaken) (auto intro: q simp: settled_def drained_size drained_view)
    qed
  qed
qed

lemma ensures_async_write:
  assumes "conn_kernel os efd interest fd sent recv pend intr"
    and "ensures (\<lambda>st. settled os interest j efd n fd st \<and> drained n st) (on_write_complete dp n)
              (\<lambda>_. settled os interest j efd n fd)"
  shows "ensures (conn interest j efd n fd io_regs (Some (ep_in (os_ep os)))) (async_write os dp n)
           (\<lambda>_. settled os interest j efd n fd)"
  by (rule ensures_async_write_to [OF assms])

text \<open>The end that both io callbacks share.\<close>

lemma ensures_closing:
  assumes ep: "ep_kernel (os_ep os) efd interest"
    and h: "\<And>f. ensures (\<lambda>st. settled os interest j efd n fd st \<and> stream_flags n st = f) (on_closed dp n)
              (\<lambda>_ st. settled os interest j efd n fd st \<and> stream_flags n st = f)"
  shows "ensures (settled os interest j efd n fd)
     (\<lambda>st. if g (stream_flags n st) then andthen (on_closed dp n) (\<lambda>_. evlp_remove os n True True) st else (st, Inr ()))
     (\<lambda>_ st. if g (stream_flags n st) then released interest j efd n fd st else settled os interest j efd n fd st)"
proof (rule ensuresI)
  fix st
  assume s: "settled os interest j efd n fd st"
  let ?f = "stream_flags n st"
  let ?V = "\<lambda>s. (st_eof s, st_eop s, st_reset s) = ?f"
  have "ensures (\<lambda>st. settled os interest j efd n fd st \<and> stream_flags n st = ?f)
      (andthen (on_closed dp n) (\<lambda>_. evlp_remove os n True True))
      (\<lambda>_ st. conn interest j efd n fd [] None st \<and> ?V (view n st))"
    by (rule ensures_andthen [OF h], rule ensures_weaken [OF ensures_remove [OF ep, where V = ?V and clean = True and rs = io_regs]])
      (auto simp: settled_def flags_view)
  from ensuresD [OF this, of st] s obtain st' where
    "andthen (on_closed dp n) (\<lambda>_. evlp_remove os n True True) st = (st', Inr ())"
    "released interest j efd n fd st'" "stream_flags n st' = ?f"
    by (auto simp: released_def flags_view)
  with s show "\<exists>st' x. (if g ?f then andthen (on_closed dp n) (\<lambda>_. evlp_remove os n True True) st else (st, Inr ())) = (st', Inr x) \<and>
      (if g (stream_flags n st') then released interest j efd n fd st' else settled os interest j efd n fd st')"
    by auto
qed

text \<open>
  What the library asks of the handlers a user registers, for one connection: they keep to the
  states the callbacks call them in. \<open>on_read_complete\<close> may send, and can count on room for as much as
  was read; \<open>on_closed\<close> leaves the flags of
  the stream alone.
\<close>

definition conn_handlers ::
  "'k os \<Rightarrow> ('k \<Rightarrow> int \<Rightarrow> 32 word option) \<Rightarrow> nat \<Rightarrow> int \<Rightarrow> nat \<Rightarrow> int \<Rightarrow> 'k tp_shared_data \<Rightarrow> bool"
where
  "conn_handlers os interest j efd n fd dp \<longleftrightarrow>
     ensures (\<lambda>st. conn interest j efd n fd [(fd_writable, On_writable)] None st \<and> drained n st) (on_accept dp n)
       (\<lambda>_ st. conn interest j efd n fd [(fd_writable, On_writable)] None st \<and> drained n st) \<and>
     ensures (\<lambda>st. settled os interest j efd n fd st \<and> drained n st \<and> reply_fits n st) (on_read_complete dp n)
       (\<lambda>_. settled os interest j efd n fd) \<and>
     ensures (\<lambda>st. conn interest j efd n fd io_regs None st \<and> drained n st) (on_write_complete dp n)
       (\<lambda>_ st. conn interest j efd n fd io_regs None st \<and> drained n st) \<and>
     (\<forall>f. ensures (\<lambda>st. settled os interest j efd n fd st \<and> stream_flags n st = f) (on_closed dp n)
       (\<lambda>_ st. settled os interest j efd n fd st \<and> stream_flags n st = f))"

lemma ensures_on_acpt_writable:
  assumes ep: "ep_kernel (os_ep os) efd interest" and h: "conn_handlers os interest j efd n fd dp"
  shows "ensures (\<lambda>st. (\<exists>m. conn interest j efd n fd [(fd_writable, On_acpt_writable)] (Some m) st) \<and> drained n st)
           (on_acpt_writable os dp n) (\<lambda>_ st. settled os interest j efd n fd st \<and> drained n st)"
proof -
  let ?V = "\<lambda>s. contents (io_wbuf s) = []"
  let ?P = "\<lambda>st. (\<exists>m. conn interest j efd n fd [(fd_writable, On_acpt_writable)] (Some m) st) \<and> ?V (view n st)"
  have cast: "ensures ?P (cast_tcp n) (\<lambda>_. ?P)" and evlp: "ensures ?P (evlp_of n) (\<lambda>_. ?P)"
    using ensures_cast ensures_evlp unfolding ensures_def cast_tcp_def evlp_of_def by fastforce+
  have acc: "ensures (\<lambda>st. conn interest j efd n fd [(fd_writable, On_writable)] None st \<and> ?V (view n st)) (on_accept dp n)
       (\<lambda>_ st. conn interest j efd n fd [(fd_writable, On_writable)] None st \<and> ?V (view n st))"
    using h by (simp add: conn_handlers_def drained_view)
  have rm: "ensures ?P (evlp_remove os n True True) (\<lambda>_ st. conn interest j efd n fd [] None st \<and> ?V (view n st))"
    using ensures_remove [OF ep, where V = ?V and clean = True and rs = "[(fd_writable, On_acpt_writable)]"] by simp
  have q: "ensures (\<lambda>st. conn interest j efd n fd [] None st \<and> ?V (view n st))
      (evlp_register os n fd_writable (Some On_writable) False)
      (\<lambda>_ st. conn interest j efd n fd [(fd_writable, On_writable)] None st \<and> ?V (view n st))"
    by (rule ensures_register_quiet [where V = ?V])
  have "ensures ?P (on_acpt_writable os dp n)
      (\<lambda>_ st. conn interest j efd n fd io_regs (Some (ep_in (os_ep os))) st \<and> ?V (view n st))"
    unfolding on_acpt_writable_def conn_init_def
    by (rule ensures_andthen [OF cast], rule ensures_andthen [OF evlp],
        rule ensures_andthen [OF rm], rule ensures_andthen [OF q], rule ensures_andthen [OF acc])
      (use ensures_register [OF ep, where V = ?V and cb = "Some On_readable" and ev = fd_readable and rs = "[(fd_writable, On_writable)]"]
       in \<open>simp add: io_regs_def sys_masks\<close>)
  then show ?thesis
    by (rule ensures_weaken) (auto simp: settled_def drained_view)
qed

lemma ensures_on_readable:
  assumes k: "conn_kernel os efd interest fd sent recv pend intr" and h: "conn_handlers os interest j efd n fd dp"
  shows "ensures (\<lambda>st. settled os interest j efd n fd st \<and> drained n st \<and> has_room os pend n st \<and> reply_room pend n st)
           (on_readable os dp n)
           (\<lambda>_ st. if st_eof (rt_objs st n) \<or> st_reset (rt_objs st n)
                   then released interest j efd n fd st else settled os interest j efd n fd st)"
proof -
  have ep: "ep_kernel (os_ep os) efd interest"
    using k by (simp add: conn_kernel_def)
  let ?in = "Some (ep_in (os_ep os))"
  let ?P = "\<lambda>st. conn interest j efd n fd io_regs ?in st \<and> has_room os pend n st \<and> drained n st \<and> (True \<longrightarrow> reply_room pend n st)"
  have cast: "ensures ?P (cast_tcp n) (\<lambda>_. ?P)" and evlp: "ensures ?P (evlp_of n) (\<lambda>_. ?P)"
    using ensures_cast ensures_evlp unfolding ensures_def cast_tcp_def evlp_of_def by fastforce+
  have rc: "ensures (\<lambda>st. conn interest j efd n fd io_regs ?in st \<and> drained n st \<and> (True \<longrightarrow> reply_fits n st)) (on_read_complete dp n)
      (\<lambda>_. settled os interest j efd n fd)"
    using h by (auto simp: conn_handlers_def settled_def elim!: ensures_weaken)
  have cl: "ensures (settled os interest j efd n fd) (rbuf_clear n) (\<lambda>_. settled os interest j efd n fd)"
    unfolding settled_def
    by (rule ensures_clear [where m = "\<lambda>d. Some (if d then ep_in (os_ep os) else ep_out (os_ep os))"])
  have oc: "ensures (\<lambda>st. settled os interest j efd n fd st \<and> stream_flags n st = f) (on_closed dp n)
       (\<lambda>_ st. settled os interest j efd n fd st \<and> stream_flags n st = f)" for f
    using h unfolding conn_handlers_def by blast
  have "ensures ?P (on_readable os dp n)
     (\<lambda>_ st. if st_eof (rt_objs st n) \<or> st_reset (rt_objs st n)
             then released interest j efd n fd st else settled os interest j efd n fd st)"
    unfolding on_readable_def
    by (rule ensures_andthen [OF cast], rule ensures_andthen [OF evlp],
        rule ensures_andthen [OF ensures_read [OF k]], rule ensures_andthen [OF rc], rule ensures_andthen [OF cl])
      (use ensures_closing [OF ep oc, where g = "\<lambda>(eof, eop, reset). eof \<or> reset"] in \<open>simp add: stream_flags_def\<close>)
  then show ?thesis
    by (rule ensures_weaken) (auto simp: settled_def)
qed

lemma ensures_on_writable:
  assumes k: "conn_kernel os efd interest fd sent recv pend intr" and h: "conn_handlers os interest j efd n fd dp"
  shows "ensures (conn interest j efd n fd io_regs (Some (ep_out (os_ep os))))
           (on_writable os dp n)
           (\<lambda>_ st. if st_eop (rt_objs st n) \<or> st_reset (rt_objs st n)
                   then released interest j efd n fd st else settled os interest j efd n fd st)"
proof -
  have ep: "ep_kernel (os_ep os) efd interest" and step: "0 < os_step os"
    using k by (simp_all add: conn_kernel_def)
  let ?V = "\<lambda>s. contents (io_wbuf s) = []"
  let ?P = "conn interest j efd n fd io_regs (Some (ep_out (os_ep os)))"
  have evlp: "ensures ?P (evlp_of n) (\<lambda>_. ?P)"
    by (rule ensures_weaken [OF ensures_evlp]) simp_all
  have wc: "ensures (\<lambda>st. conn interest j efd n fd io_regs None st \<and> ?V (view n st)) (on_write_complete dp n)
      (\<lambda>_ st. conn interest j efd n fd io_regs None st \<and> ?V (view n st))"
    using h by (simp add: conn_handlers_def drained_view)
  have oc: "ensures (\<lambda>st. settled os interest j efd n fd st \<and> stream_flags n st = f) (on_closed dp n)
       (\<lambda>_ st. settled os interest j efd n fd st \<and> stream_flags n st = f)" for f
    using h unfolding conn_handlers_def by blast
  let ?reg = "\<lambda>st. if \<not> io_closed (rt_objs st n) then evlp_register os n fd_readable None True st else (st, Inr ())"
  have reg: "ensures (\<lambda>st. conn interest j efd n fd io_regs None st \<and> ?V (view n st)) ?reg
      (\<lambda>_. settled os interest j efd n fd)"
    by (rule ensures_if, rule ensures_weaken [OF ensures_register [OF ep, where V = ?V and cb = None and rs = io_regs and ev = fd_readable]])
      (auto simp: settled_def drained_view sys_masks conn_def Let_def ensures_def)
  have mid: "ensures ?P (\<lambda>st. if buf_size (io_wbuf (rt_objs st n)) = 0
      then andthen (evlp_remove os n False True) (\<lambda>_. andthen (on_write_complete dp n) (\<lambda>_. ?reg)) st
      else (st, Inr ())) (\<lambda>_. settled os interest j efd n fd)"
  proof (rule ensures_if)
    have "ensures (\<lambda>st. (\<exists>m. conn interest j efd n fd io_regs (Some m) st) \<and> ?V (view n st))
        (andthen (evlp_remove os n False True) (\<lambda>_. andthen (on_write_complete dp n) (\<lambda>_. ?reg)))
        (\<lambda>_. settled os interest j efd n fd)"
      by (rule ensures_andthen [OF ensures_remove [OF ep, where V = ?V and clean = False, unfolded if_False]],
          rule ensures_andthen [OF wc reg])
    then show "ensures (\<lambda>st. ?P st \<and> buf_size (io_wbuf (rt_objs st n)) = 0)
        (andthen (evlp_remove os n False True) (\<lambda>_. andthen (on_write_complete dp n) (\<lambda>_. ?reg)))
        (\<lambda>_. settled os interest j efd n fd)"
      by (rule ensures_weaken) (auto simp: drained_size drained_view)
    show "ensures (\<lambda>st. ?P st \<and> buf_size (io_wbuf (rt_objs st n)) \<noteq> 0) (\<lambda>st. (st, Inr ()))
        (\<lambda>_. settled os interest j efd n fd)"
      by (auto simp: ensures_def settled_def drained_size)
  qed
  show ?thesis
    unfolding on_writable_def
    by (rule ensures_andthen [OF ensures_cast], rule ensures_andthen [OF evlp],
        rule ensures_andthen [OF ensures_write [OF k step]], rule ensures_andthen [OF mid])
      (use ensures_closing [OF ep oc, where g = "\<lambda>(eof, eop, reset). eop \<or> reset"] in \<open>simp add: stream_flags_def\<close>)
qed

text \<open>A first message in \<open>on_accept\<close> that the kernel does not take at once.\<close>

lemma wbuf_put_ok:
  assumes c: "conn interest j efd n fd rs m st" and d: "drained n st"
    and room: "b_offset (io_wbuf (rt_objs st n)) + int (length bs) \<le> 1073741824"
  shows "\<exists>st'. wbuf_put bs n st = (st', Inr ()) \<and> conn interest j efd n fd rs m st' \<and>
           contents (io_wbuf (rt_objs st' n)) = bs"
proof -
  have "buf_ok (io_wbuf (rt_objs st n))" "contents (io_wbuf (rt_objs st n)) = []"
    using c d by (simp_all add: conn_def Let_def drained_def)
  then obtain b where b: "put_string (io_wbuf (rt_objs st n)) bs = Inr b" "buf_ok b" "contents b = bs"
    using put_string_ok [OF _ room] by fastforce
  have "conn interest j efd n fd rs m (st\<lparr>rt_objs := (rt_objs st)(n := (rt_objs st n)\<lparr>io_wbuf := b\<rparr>)\<rparr>)"
    using c b(2) by (intro conn_obj [OF c]) (simp_all add: conn_def Let_def)
  with b show ?thesis
    by (simp add: wbuf_put_def obj_buf_def)
qed

lemma async_write_unwatched:
  assumes k: "conn_kernel os efd interest fd sent recv pend intr"
    and full: "\<And>k fd bs. px_write (os_sys os) k fd bs = (Inl EAGAIN, k)"
    and c: "conn interest j efd n fd rs None st" and d: "\<not> drained n st"
  shows "\<exists>st'. async_write os dp n st = (st', Inl (System_error ''epoll_ctl del error'' ENOENT)) \<and>
           conn interest j efd n fd rs None st' \<and>
           contents (io_wbuf (rt_objs st' n)) = contents (io_wbuf (rt_objs st n))"
proof -
  let ?s = "rt_objs st n"
  have s: "io_fd ?s = fd" "buf_ok (io_wbuf ?s)" "buf_ok (io_rbuf ?s)"
    using c by (simp_all add: conn_def Let_def)
  have kern: "tx_kernel (os_sys os) (io_fd ?s) sent intr" "0 < os_step os" "ep_kernel (os_ep os) efd interest"
    using k s(1) by (simp_all add: conn_kernel_def)
  have keeps: "wr_keeps (\<lambda>k. k) (os_sys os)"
    using full by (simp add: wr_keeps_def)
  obtain k' s' x where w: "obj_write_all os (os_step os) n st = (st\<lparr>rt_k := k', rt_objs := (rt_objs st)(n := s')\<rparr>, Inr x)"
      "sent k' @ contents (io_wbuf s') = sent (rt_k st) @ contents (io_wbuf ?s)"
      "buf_ok (io_wbuf s')" "tx_frame ?s s'" "k' = rt_k st"
    using obj_write_all_ok [OF kern(1) refl s(2) kern(2) _ keeps] full by fastforce
  let ?st = "st\<lparr>rt_k := k', rt_objs := (rt_objs st)(n := s')\<rparr>"
  have c': "conn interest j efd n fd rs None ?st"
    using w s(3) by (intro conn_io [OF c, where s = ?s]) (simp_all add: tx_frame_def)
  have same: "contents (io_wbuf s') = contents (io_wbuf ?s)"
    using w(2,5) by simp
  then have "buf_size (io_wbuf (rt_objs ?st n)) \<noteq> 0"
    using drained_size [OF c'] d by (simp add: drained_def)
  then have "async_write os dp n st = (?st, Inl (System_error ''epoll_ctl del error'' ENOENT))"
    using conn_evlp [OF c] w(1) remove_unwatched [OF kern(3) c', of False]
    by (simp add: async_write_def andthen_def)
  with c' same show ?thesis by simp
qed

section \<open>A concrete reactor\<close>

text \<open>One worker with loop 0, and an accepted connection, object 1, on descriptor 7.\<close>

definition sample_os :: "sock_state os" where
  "sample_os = \<lparr>os_sys = sock_sys, os_ep = sock_ep, os_step = 1024, os_events = 2048, os_backlog = 128\<rparr>"

definition empty_buffer :: buffer where
  "empty_buffer = \<lparr>b_cap = 1, b_start = 0, b_offset = 0, b_mem = Some [NUL]\<rparr>"

definition sample_obj :: robj where
  "sample_obj = \<lparr>io_fd = 7, io_closed = False, io_rbuf = sample_buffer, io_wbuf = empty_buffer,
     io_evlp = Some 0, st_reset = False, st_eof = False, st_eop = False,
     ro_sock = Some \<lparr>so_family = ipv4, so_peer = ([], 0)\<rparr>\<rparr>"

definition sample_reactor :: "sock_state reactor" where
  "sample_reactor = \<lparr>
     rt_loops = (\<lambda>_. \<lparr>el_id = 0, el_fd = 100, el_fds = [(7, prio_val p0, 1, 10, fd_writable)], el_cbs = [], el_events = (\<lambda>_. None), el_stop = False\<rparr>),
     rt_objs = (\<lambda>_. sample_obj), rt_code = (\<lambda>_. On_acpt_writable),
     rt_k = sample_sock_state\<lparr>ss_watch := (\<lambda>_ _. None)(100 := [7 \<mapsto> 4])\<rparr>, rt_next = 20, rt_evls = [0],
     rt_failures = (\<lambda>_. []), rt_acpts = (\<lambda>_. None),
     rt_conts = (\<lambda>_. \<lparr>cn_rdp = 0, cn_wrp = 0, cn_hosts = [], cn_failures = []\<rparr>)\<rparr>"

lemma sample_conn_kernel:
  "conn_kernel sample_os 100 (ss_interest 100) fd (\<lambda>_. []) (\<lambda>_. []) (\<lambda>_. 0) (\<lambda>_. 0)"
  using sock_ep_kernel
  by (auto simp: conn_kernel_def sample_os_def sock_sys_def tx_kernel_def rx_kernel_def wr_keeps_def rd_keeps_def)

lemma empty_buffer_ok: "buf_ok empty_buffer" "contents empty_buffer = []"
  by (simp_all add: empty_buffer_def buf_ok_def contents_def int_limits)

lemma sample_conn:
  "conn (ss_interest 100) 0 100 1 7 [(fd_writable, On_acpt_writable)] (Some 4) sample_reactor" "drained 1 sample_reactor"
  using sample_ok empty_buffer_ok
  by (simp_all add: conn_def sample_reactor_def sample_obj_def fresh_code_def regs_of_def drained_def)

text \<open>An \<open>on_read_complete\<close> that sends what is in the write buffer, and nothing else.\<close>

definition sample_data :: "sock_state tp_shared_data" where
  "sample_data = idle_data\<lparr>on_read_complete := async_write sample_os idle_data\<rparr>"

lemma ensures_idle: "ensures P (idle_handler n) (\<lambda>_. P)"
  by (simp add: ensures_def idle_handler_def)

lemma sample_handlers: "conn_handlers sample_os (ss_interest 100) 0 100 1 7 sample_data"
proof -
  have "ensures (conn (ss_interest 100) 0 100 1 7 io_regs (Some (ep_in (os_ep sample_os)))) (async_write sample_os idle_data 1)
      (\<lambda>_. settled sample_os (ss_interest 100) 0 100 1 7)"
    by (rule ensures_async_write [OF sample_conn_kernel]) (simp add: idle_data_def idle_handler_def ensures_def)
  then have "ensures (\<lambda>st. settled sample_os (ss_interest 100) 0 100 1 7 st \<and> drained 1 st \<and> reply_fits 1 st) (async_write sample_os idle_data 1)
      (\<lambda>_. settled sample_os (ss_interest 100) 0 100 1 7)"
    by (rule ensures_weaken) (auto simp: settled_def)
  then show ?thesis
    by (simp add: conn_handlers_def sample_data_def idle_data_def ensures_idle)
qed

section \<open>Properties\<close>

text \<open>C6. The life of a connection, for handlers that keep to their part: its first callback leaves
  it registered for reading and writing and watched for reading; every read and every write
  callback leaves it watched for writing exactly as long as bytes wait to be sent, for reading
  otherwise, or, once the peer is gone, with nothing registered; and none of them throws.\<close>

theorem conn_lifecycle:
  assumes "conn_kernel os efd interest fd sent recv pend intr" and "conn_handlers os interest j efd n fd dp"
  shows "ensures (\<lambda>st. (\<exists>m. conn interest j efd n fd [(fd_writable, On_acpt_writable)] (Some m) st) \<and> drained n st)
           (on_acpt_writable os dp n) (\<lambda>_ st. settled os interest j efd n fd st \<and> drained n st) \<and>
         ensures (\<lambda>st. settled os interest j efd n fd st \<and> drained n st \<and> has_room os pend n st \<and> reply_room pend n st)
           (on_readable os dp n)
           (\<lambda>_ st. if st_eof (rt_objs st n) \<or> st_reset (rt_objs st n)
                   then released interest j efd n fd st else settled os interest j efd n fd st) \<and>
         ensures (\<lambda>st. conn interest j efd n fd io_regs (Some (ep_out (os_ep os))) st)
           (on_writable os dp n)
           (\<lambda>_ st. if st_eop (rt_objs st n) \<or> st_reset (rt_objs st n)
                   then released interest j efd n fd st else settled os interest j efd n fd st)"
  using ensures_on_acpt_writable [OF _ assms(2)] ensures_on_readable [OF assms] ensures_on_writable [OF assms] assms(1)
  by (simp add: conn_kernel_def)

theorem conn_lifecycle_witness:
  "\<exists>st'. on_acpt_writable sample_os sample_data 1 sample_reactor = (st', Inr ()) \<and>
     settled sample_os (ss_interest 100) 0 100 1 7 st' \<and> drained 1 st'"
  using ensuresD [OF conjunct1 [OF conn_lifecycle [OF sample_conn_kernel sample_handlers]], of sample_reactor]
    sample_conn by auto



end
