(* ===== verification/Load_Balance.thy ===== *)
theory Load_Balance
  imports Reactor
begin

text \<open>
  How the reactor spreads connections over the loops of its workers: \<open>minloads_get_evlp\<close> and the
  callback of a listening socket, \<open>acceptor::on_acpt_readable\<close>, of \<open>src/src/lib/tcp.cc\<close>.
\<close>

section \<open>The pool of workers\<close>

text \<open>Several epoll instances: what one is told does not change what another watches.\<close>

definition epolls :: "'k epoll_api \<Rightarrow> ('k \<Rightarrow> int \<Rightarrow> int \<Rightarrow> 32 word option) \<Rightarrow> bool" where
  "epolls ep interest \<longleftrightarrow>
     (\<forall>efd. ep_kernel ep efd (\<lambda>k. interest k efd)) \<and>
     (\<forall>k efd fd m efd'. efd' \<noteq> efd \<longrightarrow> interest (snd (ep_add ep k efd fd m)) efd' = interest k efd')"

definition load :: "'k reactor \<Rightarrow> nat \<Rightarrow> nat" where
  "load st j = length (el_fds (rt_loops st j))"

definition total_load :: "'k reactor \<Rightarrow> nat" where
  "total_load st = (\<Sum>j\<in>set (rt_evls st). load st j)"

definition balanced :: "'k reactor \<Rightarrow> bool" where
  "balanced st \<longleftrightarrow> (\<forall>i\<in>set (rt_evls st). \<forall>j\<in>set (rt_evls st). load st i \<le> load st j + 1)"

text \<open>Workers with distinct epoll instances, and room for \<open>r\<close> more registrations in each table.\<close>

definition pool_ok :: "nat \<Rightarrow> 'k reactor \<Rightarrow> bool" where
  "pool_ok r st \<longleftrightarrow>
     rt_evls st \<noteq> [] \<and> inj_on (\<lambda>j. el_fd (rt_loops st j)) (set (rt_evls st)) \<and>
     (\<forall>j\<in>set (rt_evls st). el_id (rt_loops st j) = j \<and> int (load st j + r) < int_max)"

definition unwatched :: "('k \<Rightarrow> int \<Rightarrow> int \<Rightarrow> 32 word option) \<Rightarrow> int \<Rightarrow> 'k reactor \<Rightarrow> bool" where
  "unwatched interest fd st \<longleftrightarrow> (\<forall>j\<in>set (rt_evls st). interest (rt_k st) (el_fd (rt_loops st j)) fd = None)"

lemma pool_ok_less: "pool_ok r st \<Longrightarrow> r' \<le> r \<Longrightarrow> pool_ok r' st"
  by (force simp: pool_ok_def)

lemma ev_loads_load: "pool_ok r st \<Longrightarrow> j \<in> set (rt_evls st) \<Longrightarrow> ev_loads (rt_loops st j) = int (load st j)"
  by (auto simp: pool_ok_def ev_loads_def load_def to_int_id int_limits)

text \<open>The loop keeps a worker with the smallest load, if one is below the bound.\<close>

lemma minloads_loop_least:
  "minloads_loop l js b e = e \<and> (\<forall>i\<in>set js. b \<le> l i) \<or>
   (\<exists>j. minloads_loop l js b e = Some j \<and> j \<in> set js \<and> l j < b \<and> (\<forall>i\<in>set js. l j \<le> l i))"
proof (induction js arbitrary: b e)
  case Nil
  show ?case by simp
next
  case (Cons x js)
  show ?case
  proof (cases "l x < b")
    case True
    show ?thesis
      using Cons.IH [of "l x" "Some x"]
    proof (elim disjE exE conjE)
      fix j
      assume "minloads_loop l js (l x) (Some x) = Some j" "j \<in> set js" "l j < l x" "\<forall>i\<in>set js. l j \<le> l i"
      with True show ?thesis by (intro disjI2 exI [of _ j]) simp
    qed (use True in simp)
  next
    case False
    then have l: "minloads_loop l (x # js) b e = minloads_loop l js b e" by simp
    show ?thesis
      unfolding l using Cons.IH [of b e]
    proof (elim disjE exE conjE)
      fix j
      assume "minloads_loop l js b e = Some j" "j \<in> set js" "l j < b" "\<forall>i\<in>set js. l j \<le> l i"
      with False show "minloads_loop l js b e = e \<and> (\<forall>i\<in>set (x # js). b \<le> l i) \<or>
          (\<exists>j. minloads_loop l js b e = Some j \<and> j \<in> set (x # js) \<and> l j < b \<and> (\<forall>i\<in>set (x # js). l j \<le> l i))"
        by (intro disjI2 exI [of _ j]) simp
    qed (use False in simp)
  qed
qed

lemma minloads_least:
  assumes "pool_ok r st"
  shows "\<exists>j. minloads_get_evlp st = Some j \<and> j \<in> set (rt_evls st) \<and> (\<forall>i\<in>set (rt_evls st). load st j \<le> load st i)"
proof -
  let ?l = "\<lambda>j. ev_loads (rt_loops st j)"
  have ld: "?l i = int (load st i)" if "i \<in> set (rt_evls st)" for i
    using ev_loads_load [OF assms that] .
  obtain i where i: "i \<in> set (rt_evls st)"
    using assms by (cases "rt_evls st") (auto simp: pool_ok_def)
  then have "int (load st i) + int r < int_max"
    using assms by (simp add: pool_ok_def)
  then have "\<not> int_max \<le> ?l i"
    using ld [OF i] by simp
  then obtain j where "minloads_get_evlp st = Some j" "j \<in> set (rt_evls st)" "\<forall>i\<in>set (rt_evls st). ?l j \<le> ?l i"
    using minloads_loop_least [of ?l "rt_evls st" int_max None] i unfolding minloads_get_evlp_def by blast
  then show ?thesis
    using ld by auto
qed

section \<open>Assigning a connection\<close>

text \<open>The state after a connection went to worker \<open>j\<close>.\<close>

definition given :: "nat \<Rightarrow> nat \<Rightarrow> callback \<Rightarrow> 'k \<Rightarrow> 'k reactor \<Rightarrow> 'k reactor" where
  "given j n cb k st = (registered j n fd_writable (Some cb) st)\<lparr>rt_k := k\<rparr>"

lemma given_simps [simp]:
  "rt_evls (given j n cb k st) = rt_evls st" "rt_k (given j n cb k st) = k"
  "rt_conts (given j n cb k st) = rt_conts st"
  "rt_next (given j n cb k st) = Suc (rt_next st)"
  "el_fd (rt_loops (given j n cb k st) i) = el_fd (rt_loops st i)"
  "el_id (rt_loops (given j n cb k st) i) = el_id (rt_loops st i)"
  "load (given j n cb k st) i = (if i = j then Suc (load st i) else load st i)"
  by (simp_all add: given_def registered_def load_def Let_def)

lemma minloads_register_ok:
  assumes ep: "epolls (os_ep os) interest" and pool: "pool_ok (Suc r) st"
    and un: "unwatched interest (io_fd (rt_objs st n)) st"
  shows "\<exists>j k. minloads_register os n cb st = (given j n cb k st, Inr ()) \<and>
           j \<in> set (rt_evls st) \<and> (\<forall>i\<in>set (rt_evls st). load st j \<le> load st i) \<and>
           interest k = (interest (rt_k st))(el_fd (rt_loops st j) :=
             (interest (rt_k st) (el_fd (rt_loops st j)))(io_fd (rt_objs st n) \<mapsto> ep_out (os_ep os)))"
proof -
  obtain j where j: "minloads_get_evlp st = Some j" "j \<in> set (rt_evls st)" "\<forall>i\<in>set (rt_evls st). load st j \<le> load st i"
    using minloads_least [OF pool] by blast
  let ?efd = "el_fd (rt_loops st j)" and ?fd = "io_fd (rt_objs st n)"
  have kern: "ep_kernel (os_ep os) ?efd (\<lambda>k. interest k ?efd)"
    using ep by (simp add: epolls_def)
  have "interest (rt_k st) ?efd ?fd = None"
    using un j(2) by (simp add: unwatched_def)
  then obtain k where k: "ep_add (os_ep os) (rt_k st) ?efd ?fd (ep_out (os_ep os)) = (None, k)"
      "interest k ?efd = (interest (rt_k st) ?efd)(?fd \<mapsto> ep_out (os_ep os))"
    using ep_kernel_None(1) [OF kern] by blast
  have "interest k efd' = interest (rt_k st) efd'" if "efd' \<noteq> ?efd" for efd'
    using ep k(1) that unfolding epolls_def by (metis snd_conv)
  then have "interest k = (interest (rt_k st))(?efd := (interest (rt_k st) ?efd)(?fd \<mapsto> ep_out (os_ep os)))"
    using k(2) by (intro ext) simp
  moreover have "minloads_register os n cb st = (given j n cb k st, Inr ())"
    using j(1) k(1) by (simp add: minloads_register_def loop_register_eq given_def sys_masks)
  ultimately show ?thesis using j by blast
qed

lemma pool_given:
  assumes "pool_ok (Suc r) st"
  shows "pool_ok r (given j n cb k st)"
  using assms by (auto simp: pool_ok_def)

lemma total_given:
  assumes "j \<in> set (rt_evls st)"
  shows "total_load (given j n cb k st) = Suc (total_load st)"
proof -
  have "total_load (given j n cb k st) = (\<Sum>i\<in>set (rt_evls st). load st i + (if i = j then 1 else 0))"
    unfolding total_load_def by (intro sum.cong) simp_all
  then show ?thesis
    using assms by (simp add: total_load_def sum.distrib)
qed

lemma balanced_given:
  assumes "balanced st" and "\<forall>i\<in>set (rt_evls st). load st j \<le> load st i"
  shows "balanced (given j n cb k st)"
  using assms by (fastforce simp: balanced_def)

text \<open>A socket is assigned when one worker's loop holds it, with its callback, and watches it.\<close>

definition assigned ::
  "'k os \<Rightarrow> ('k \<Rightarrow> int \<Rightarrow> int \<Rightarrow> 32 word option) \<Rightarrow> callback \<Rightarrow> nsocktcp \<Rightarrow> 'k reactor \<Rightarrow> bool"
where
  "assigned os interest cb t st \<longleftrightarrow>
     (\<exists>j\<in>set (rt_evls st).
        interest (rt_k st) (el_fd (rt_loops st j)) (io_fd t) = Some (ep_out (os_ep os)) \<and>
        (\<exists>n a. n < rt_next st \<and> a < rt_next st \<and>
           (io_fd t, prio_val p0, n, a, fd_writable) \<in> set (el_fds (rt_loops st j)) \<and>
           rt_code st a = cb \<and> rt_objs st n = set_evlp j (of_tcp t)))"

definition one_more ::
  "'k os \<Rightarrow> ('k \<Rightarrow> int \<Rightarrow> int \<Rightarrow> 32 word option) \<Rightarrow> callback \<Rightarrow> nsocktcp \<Rightarrow> 'k reactor \<Rightarrow> 'k reactor \<Rightarrow> bool"
where
  "one_more os interest cb t st st' \<longleftrightarrow>
     rt_evls st' = rt_evls st \<and> rt_conts st' = rt_conts st \<and>
     total_load st' = Suc (total_load st) \<and> (balanced st \<longrightarrow> balanced st') \<and> assigned os interest cb t st' \<and>
     (\<forall>fd. fd \<noteq> io_fd t \<longrightarrow> unwatched interest fd st \<longrightarrow> unwatched interest fd st') \<and>
     (\<forall>t'. io_fd t' \<noteq> io_fd t \<longrightarrow> assigned os interest cb t' st \<longrightarrow> assigned os interest cb t' st')"

lemma io_fd_of_tcp [simp]: "io_fd (of_tcp t) = io_fd t"
  by (simp add: of_tcp_def nstream.defs)

definition with_obj :: "robj \<Rightarrow> 'k reactor \<Rightarrow> 'k reactor" where
  "with_obj s st = st\<lparr>rt_next := Suc (rt_next st), rt_objs := (rt_objs st)(rt_next st := s)\<rparr>"

lemma with_obj_simps [simp]:
  "rt_evls (with_obj s st) = rt_evls st" "rt_k (with_obj s st) = rt_k st" "rt_conts (with_obj s st) = rt_conts st"
  "rt_loops (with_obj s st) = rt_loops st" "rt_next (with_obj s st) = Suc (rt_next st)"
  "rt_objs (with_obj s st) = (rt_objs st)(rt_next st := s)" "rt_code (with_obj s st) = rt_code st"
  by (simp_all add: with_obj_def)

lemma new_obj_eq: "new_obj s st = (with_obj s st, Inr (rt_next st))"
  by (simp add: new_obj_def andthen_def alloc_def with_obj_def)

lemma total_with_obj [simp]:
  "total_load (with_obj s st) = total_load st" "balanced (with_obj s st) = balanced st"
  "pool_ok r (with_obj s st) = pool_ok r st" "unwatched interest fd (with_obj s st) = unwatched interest fd st"
  "load (with_obj s st) = load st"
  by (simp_all add: total_load_def load_def balanced_def pool_ok_def unwatched_def fun_eq_iff)

lemma given_entry:
  "set (el_fds (rt_loops (given j n cb k st) i)) =
     (if i = j then {(io_fd (rt_objs st n), prio_val p0, n, rt_next st, fd_writable)} else {}) \<union> set (el_fds (rt_loops st i))"
  "rt_code (given j n cb k st) = (rt_code st)(rt_next st := cb)"
  "rt_objs (given j n cb k st) = (rt_objs st)(n := set_evlp (el_id (rt_loops st j)) (rt_objs st n))"
  by (auto simp: given_def registered_def Let_def)

lemma assign_one:
  assumes ep: "epolls (os_ep os) interest" and pool: "pool_ok (Suc r) st" and un: "unwatched interest (io_fd t) st"
  shows "\<exists>st'. andthen (new_obj (of_tcp t)) (\<lambda>n. minloads_register os n cb) st = (st', Inr ()) \<and>
           pool_ok r st' \<and> one_more os interest cb t st st'"
proof -
  let ?n = "rt_next st" and ?st = "with_obj (of_tcp t) st"
  have "pool_ok (Suc r) ?st" "unwatched interest (io_fd (rt_objs ?st ?n)) ?st"
    using pool un by simp_all
  from minloads_register_ok [OF ep this, of cb]
  obtain j k where run: "minloads_register os ?n cb ?st = (given j ?n cb k ?st, Inr ())"
    and j: "j \<in> set (rt_evls st)" "\<forall>i\<in>set (rt_evls st). load st j \<le> load st i"
    and k: "interest k = (interest (rt_k st))(el_fd (rt_loops st j) :=
             (interest (rt_k st) (el_fd (rt_loops st j)))(io_fd t \<mapsto> ep_out (os_ep os)))"
    by auto
  let ?st' = "given j ?n cb k ?st"
  have id: "el_id (rt_loops st j) = j" and inj: "inj_on (\<lambda>j. el_fd (rt_loops st j)) (set (rt_evls st))"
    using pool j(1) by (simp_all add: pool_ok_def)
  have "assigned os interest cb t ?st'"
    unfolding assigned_def
    by (rule bexI [of _ j], rule conjI, simp add: k, rule exI [of _ ?n], rule exI [of _ "Suc ?n"])
      (use j id in \<open>simp_all add: given_entry\<close>)
  moreover have "unwatched interest fd ?st'" if "fd \<noteq> io_fd t" "unwatched interest fd st" for fd
    using that j(1) by (simp add: unwatched_def k)
  moreover have "assigned os interest cb t' ?st'" if ne: "io_fd t' \<noteq> io_fd t" and a: "assigned os interest cb t' st" for t'
  proof -
    obtain i n a where i: "i \<in> set (rt_evls st)" "interest (rt_k st) (el_fd (rt_loops st i)) (io_fd t') = Some (ep_out (os_ep os))"
      and e: "n < rt_next st" "a < rt_next st" "(io_fd t', prio_val p0, n, a, fd_writable) \<in> set (el_fds (rt_loops st i))"
        "rt_code st a = cb" "rt_objs st n = set_evlp i (of_tcp t')"
      using a unfolding assigned_def by blast
    have "interest k (el_fd (rt_loops st i)) (io_fd t') = Some (ep_out (os_ep os))"
      using i(2) ne by (auto simp: k)
    moreover have "n < rt_next ?st'" "a < rt_next ?st'" "rt_code ?st' a = cb" "rt_objs ?st' n = set_evlp i (of_tcp t')"
        "(io_fd t', prio_val p0, n, a, fd_writable) \<in> set (el_fds (rt_loops ?st' i))"
      using e by (auto simp: given_entry)
    ultimately show ?thesis
      using i(1) unfolding assigned_def by auto
  qed
  moreover have "total_load ?st' = Suc (total_load st)" "balanced st \<longrightarrow> balanced ?st'" "pool_ok r ?st'"
    using total_given [of j ?st] balanced_given [of ?st j] pool_given [of r ?st] j pool by simp_all
  moreover have "andthen (new_obj (of_tcp t)) (\<lambda>n. minloads_register os n cb) st = (?st', Inr ())"
    using run by (simp add: andthen_def new_obj_eq)
  ultimately show ?thesis
    by (intro exI [of _ ?st']) (simp add: one_more_def)
qed

lemma andthen_assoc: "andthen (andthen m f) g st = andthen m (\<lambda>x. andthen (f x) g) st"
  by (simp add: andthen_def split: prod.split sum.split)

lemma assign_conns_ok:
  assumes ep: "epolls (os_ep os) interest"
  shows "pool_ok (length ts + r) st \<Longrightarrow> distinct (map io_fd ts) \<Longrightarrow> \<forall>t\<in>set ts. unwatched interest (io_fd t) st \<Longrightarrow>
    \<exists>st'. assign_conns os ts st = (st', Inr ()) \<and> pool_ok r st' \<and> rt_evls st' = rt_evls st \<and>
      total_load st' = total_load st + length ts \<and> (balanced st \<longrightarrow> balanced st') \<and>
      (\<forall>t\<in>set ts. assigned os interest On_acpt_writable t st') \<and>
      (\<forall>t. io_fd t \<notin> io_fd ` set ts \<longrightarrow> assigned os interest On_acpt_writable t st \<longrightarrow> assigned os interest On_acpt_writable t st')"
proof (induction ts arbitrary: st)
  case Nil
  then show ?case by (simp add: return_def)
next
  case (Cons t ts)
  obtain st1 where st1: "andthen (new_obj (of_tcp t)) (\<lambda>n. minloads_register os n On_acpt_writable) st = (st1, Inr ())"
      "pool_ok (length ts + r) st1" "one_more os interest On_acpt_writable t st st1"
    using assign_one [OF ep, of "length ts + r" st t On_acpt_writable] Cons.prems by auto
  have "\<forall>t'\<in>set ts. unwatched interest (io_fd t') st1"
    using st1(3) Cons.prems(2,3) unfolding one_more_def by (metis image_eqI list.set_intros(2) list.simps(9) distinct.simps(2) list.set_map)
  then obtain st2 where st2: "assign_conns os ts st1 = (st2, Inr ())" "pool_ok r st2" "rt_evls st2 = rt_evls st1"
      "total_load st2 = total_load st1 + length ts" "balanced st1 \<longrightarrow> balanced st2"
      "\<forall>t\<in>set ts. assigned os interest On_acpt_writable t st2"
      "\<forall>t. io_fd t \<notin> io_fd ` set ts \<longrightarrow> assigned os interest On_acpt_writable t st1 \<longrightarrow> assigned os interest On_acpt_writable t st2"
    using Cons.IH [OF st1(2)] Cons.prems(2) by auto
  have "assign_conns os (t # ts) st = andthen (andthen (new_obj (of_tcp t)) (\<lambda>n. minloads_register os n On_acpt_writable))
      (\<lambda>_. assign_conns os ts) st"
    by (simp add: andthen_assoc)
  then have "assign_conns os (t # ts) st = (st2, Inr ())"
    using st1(1) st2(1) by (simp add: andthen_def [of "andthen _ _"])
  with st1(3) st2 Cons.prems(2) show ?case
    by (intro exI [of _ st2]) (auto simp: one_more_def)
qed

section \<open>Accepting connections\<close>

text \<open>What \<open>accept\<close> and \<open>fcntl\<close> leave alone in the kernel.\<close>

definition accept_keeps :: "('k \<Rightarrow> 'i) \<Rightarrow> ('k, 'z) sock_api_scheme \<Rightarrow> bool" where
  "accept_keeps I sys \<longleftrightarrow> (\<forall>k fd. I (snd (px_accept sys k fd)) = I k) \<and>
     (\<forall>k fd. I (snd (px_getfl sys k fd)) = I k) \<and> (\<forall>k fd w. I (snd (px_setfl sys k fd w)) = I k)"

lemma nonblock_keeps:
  assumes "accept_keeps I sys" and "set_io_nonblock sys k fd = (k', r)"
  shows "I k' = I k"
proof -
  have "px_getfl sys k fd = (x, k1) \<Longrightarrow> I k1 = I k" "px_setfl sys k fd w = (y, k1) \<Longrightarrow> I k1 = I k" for k x k1 w y
    using assms(1) unfolding accept_keeps_def by (metis snd_conv)+
  then show ?thesis
    using assms(2) by (auto simp: set_io_nonblock_def split: prod.splits sum.splits option.splits)
qed

lemma tcp_new_keeps:
  assumes "accept_keeps I sys" and "tcp_new sys k fd f = (k', r)"
  shows "I k' = I k"
  using assms(2) nonblock_keeps [OF assms(1), of k fd]
  by (auto simp: tcp_new_def nstream_new_def nio_new_def buffer_default_def buffer_new_def
      split: prod.splits sum.splits)

lemma accept_loop_keeps:
  assumes "accept_keeps I sys"
  shows "accept_loop sys k s n acc = (k', Inr ts) \<Longrightarrow> I k' = I k"
proof (induction n arbitrary: k acc)
  case 0
  then show ?case by simp
next
  case (Suc n)
  have acc: "px_accept sys k fd = (x, k1) \<Longrightarrow> I k1 = I k" for k fd x k1
    using assms unfolding accept_keeps_def by (metis snd_conv)
  show ?case
    using Suc.prems acc Suc.IH tcp_new_keeps [OF assms]
    by (simp add: Let_def split: prod.splits sum.splits if_splits)
qed

section \<open>Properties\<close>


text \<open>Two workers with loads 0 and 1, and a listening socket with three connections waiting.\<close>

definition sample_pool :: "sock_state reactor" where
  "sample_pool = sample_reactor\<lparr>rt_evls := [1, 2],
     rt_loops := (\<lambda>j. \<lparr>el_id = j, el_fd = 100 + int j, el_fds = (if j = 2 then [(50, 20, 5, 5, 1)] else []),
       el_cbs = [], el_events = (\<lambda>_. None), el_stop = False\<rparr>),
     rt_k := sample_sock_state\<rparr>"

lemma sock_epolls: "epolls sock_ep (\<lambda>k efd. ss_interest efd k)"
  using sock_ep_kernel by (auto simp: epolls_def sock_ep_def)

lemma sock_accept_keeps: "accept_keeps ss_watch sock_sys"
  by (auto simp: accept_keeps_def sock_sys_def ss_accept_def split: list.split)


end
