(* ===== verification/Connector.thy ===== *)
theory Connector
  imports Load_Balance
begin

text \<open>
  The client side of the reactor: how \<open>tcp_client::add\<close> shares connection requests out to the
  connectors and how \<open>connector::on_pipe_readable\<close> serves them (\<open>src/src/lib/tcp.cc\<close>).
\<close>

section \<open>Host maps\<close>

text \<open>The hash of a request. Modulo 2 to the 64th, 100 times the port and 10 times the number of the family are
  added to the hash of the address, which is a parameter: requests for one address collide only
  when they are equal.\<close>

definition family_number :: "family \<Rightarrow> 64 word" where
  "family_number f = (case f of ipv4 \<Rightarrow> 0 | ipv6 \<Rightarrow> 1 | local_family \<Rightarrow> 2)"

definition host_hash :: "(string \<Rightarrow> 64 word) \<Rightarrow> endpoint \<Rightarrow> 64 word" where
  "host_hash hash h = (case h of (ip, port, f) \<Rightarrow> 0 + hash ip + word_of_int port * 100 + family_number f * 10)"

lemma host_hash_inj:
  assumes "host_hash hash (ip, p, f) = host_hash hash (ip, q, g)" and "0 \<le> p" "p < 65536" "0 \<le> q" "q < 65536"
  shows "p = q \<and> f = g"
proof -
  have n: "family_number f = word_of_int (case f of ipv4 \<Rightarrow> 0 | ipv6 \<Rightarrow> 1 | local_family \<Rightarrow> 2)" for f
    by (simp add: family_number_def split: family.split)
  let ?n = "\<lambda>f. (case f of ipv4 \<Rightarrow> 0 | ipv6 \<Rightarrow> 1 | local_family \<Rightarrow> 2) :: int"
  have b: "0 \<le> ?n f \<and> ?n f \<le> 2" for f by (simp split: family.split)
  have t: "take_bit 64 (r * 100 + ?n h * 10) = r * 100 + ?n h * 10" if "0 \<le> r" "r < 65536" for r h
    using b [of h] that by (intro take_bit_int_eq_self) simp_all
  have "word_of_int (p * 100 + ?n f * 10) = (word_of_int (q * 100 + ?n g * 10) :: 64 word)"
    using assms(1) by (simp add: host_hash_def n)
  then have "take_bit 64 (p * 100 + ?n f * 10) = take_bit 64 (q * 100 + ?n g * 10)"
    unfolding word_of_int_eq_iff by simp
  then have "p * 100 + ?n f * 10 = q * 100 + ?n g * 10"
    using t [of p f] t [of q g] assms(2-5) by metis
  moreover have "p = q \<and> x = y" if "p * 100 + x * 10 = q * 100 + y * 10" "0 \<le> x" "x \<le> 2" "0 \<le> y" "y \<le> 2" for x y :: int
    using that by (cases p q rule: linorder_cases) auto
  ultimately have "p = q \<and> ?n f = ?n g" using b [of f] b [of g] by blast
  then show ?thesis by (auto split: family.splits)
qed

definition host_count :: "host_map \<Rightarrow> endpoint \<Rightarrow> int" where
  "host_count m h = (case map_of m h of None \<Rightarrow> 0 | Some n \<Rightarrow> n)"

lemma host_count_Nil [simp]: "host_count [] h = 0"
  by (simp add: host_count_def)

lemma host_count_Cons [simp]: "host_count ((h', n) # m) h = (if h' = h then n else host_count m h)"
  by (simp add: host_count_def)

lemma host_add_ok:
  assumes "int_min \<le> host_count m h + t" and "host_count m h + t \<le> int_max"
  shows "\<exists>m'. host_add h t m = Inr m' \<and> host_count m' = (host_count m)(h := host_count m h + t)"
  using assms
proof (induction m)
  case Nil
  show ?case by (simp add: fun_eq_iff del: split_paired_All)
next
  case (Cons x m)
  obtain h' n where x: "x = (h', n)" by (cases x)
  show ?case
  proof (cases "h' = h")
    case True
    with Cons.prems x show ?thesis
      by (simp add: fun_eq_iff del: split_paired_All)
  next
    case False
    then have "int_min \<le> host_count m h + t" "host_count m h + t \<le> int_max"
      using Cons.prems x by simp_all
    then obtain m' where "host_add h t m = Inr m'" "host_count m' = (host_count m)(h := host_count m h + t)"
      using Cons.IH by blast
    with False x show ?thesis
      by (simp add: fun_eq_iff del: split_paired_All)
  qed
qed

section \<open>Adding requests\<close>

text \<open>The write end of a connector's pipe, with room for \<open>r\<close> more bytes.\<close>

definition pipe_tx :: "'k os \<Rightarrow> int \<Rightarrow> bool" where
  "pipe_tx os fd \<longleftrightarrow> (\<exists>sent intr. tx_kernel (os_sys os) fd sent intr) \<and>
     (\<forall>k bs e k'. px_write (os_sys os) k fd bs = (Inl e, k') \<longrightarrow>
        e \<in> {EINTR, EAGAIN, EWOULDBLOCK, EPIPE, ECONNRESET})"

definition sink_ok :: "'k os \<Rightarrow> nat \<Rightarrow> 'k reactor \<Rightarrow> nat \<Rightarrow> bool" where
  "sink_ok os r st i \<longleftrightarrow>
     (let s = rt_objs st (cn_wrp (rt_conts st i)) in
      pipe_tx os (io_fd s) \<and> buf_ok (io_wbuf s) \<and> b_offset (io_wbuf s) + int r \<le> 1073741824)"

definition wanted :: "'k reactor \<Rightarrow> nat \<Rightarrow> endpoint \<Rightarrow> int" where
  "wanted st i = host_count (cn_hosts (rt_conts st i))"

lemma pipe_signal_ok:
  assumes "sink_ok os (Suc r) st j"
  shows "\<exists>k' s'. andthen (wbuf_put ''0'' (cn_wrp (rt_conts st j)))
           (\<lambda>_. andthen (obj_write_all os 1 (cn_wrp (rt_conts st j))) (\<lambda>_. return ())) st
           = (st\<lparr>rt_k := k', rt_objs := (rt_objs st)(cn_wrp (rt_conts st j) := s')\<rparr>, Inr ()) \<and>
         io_fd s' = io_fd (rt_objs st (cn_wrp (rt_conts st j))) \<and> buf_ok (io_wbuf s') \<and>
         b_offset (io_wbuf s') \<le> b_offset (io_wbuf (rt_objs st (cn_wrp (rt_conts st j)))) + 1"
proof -
  let ?w = "cn_wrp (rt_conts st j)"
  let ?s = "rt_objs st ?w"
  have ok: "buf_ok (io_wbuf ?s)" "b_offset (io_wbuf ?s) + int (length ''0'') \<le> 1073741824" "pipe_tx os (io_fd ?s)"
    using assms by (simp_all add: sink_ok_def Let_def)
  obtain b where b: "put_string (io_wbuf ?s) ''0'' = Inr b" "buf_ok b" "b_offset b = b_offset (io_wbuf ?s) + 1"
    using put_string_ok [OF ok(1,2)] by auto
  let ?s1 = "?s\<lparr>io_wbuf := b\<rparr>"
  let ?st1 = "st\<lparr>rt_objs := (rt_objs st)(?w := ?s1)\<rparr>"
  have put: "wbuf_put ''0'' ?w st = (?st1, Inr ())"
    using b(1) by (simp add: wbuf_put_def obj_buf_def)
  obtain sent intr where tx: "tx_kernel (os_sys os) (io_fd ?s1) sent intr"
    using ok(3) by (auto simp: pipe_tx_def)
  have err: "px_write (os_sys os) k (io_fd ?s1) bs = (Inl e, k') \<Longrightarrow> e \<in> {EINTR, EAGAIN, EWOULDBLOCK, EPIPE, ECONNRESET}" for k bs e k'
    using ok(3) by (auto simp: pipe_tx_def)
  obtain k' s' c where w: "obj_write_all os 1 ?w ?st1 = (?st1\<lparr>rt_k := k', rt_objs := (rt_objs ?st1)(?w := s')\<rparr>, Inr c)"
      "buf_ok (io_wbuf s')" "tx_frame ?s1 s'"
    using obj_write_all_ok [OF tx, of ?st1 ?w 1 "\<lambda>_. ()"] err b(2) by (auto simp: wr_keeps_def)
  then have "andthen (wbuf_put ''0'' ?w) (\<lambda>_. andthen (obj_write_all os 1 ?w) (\<lambda>_. return ())) st
      = (st\<lparr>rt_k := k', rt_objs := (rt_objs st)(?w := s')\<rparr>, Inr ())"
    using put by (simp add: andthen_def return_def)
  moreover have "io_fd s' = io_fd ?s" "b_offset (io_wbuf s') \<le> b_offset (io_wbuf ?s) + 1"
    using w(3) b(3) by (simp_all add: tx_frame_def)
  ultimately show ?thesis using w(2) by blast
qed

lemma connector_add_ok:
  assumes sink: "\<forall>i\<in>C. sink_ok os (Suc r) st i" and j: "j \<in> C"
    and range: "int_min \<le> wanted st j h + t" "wanted st j h + t \<le> int_max"
  shows "\<exists>st'. connector_add os j h t st = (st', Inr ()) \<and> (\<forall>i\<in>C. sink_ok os r st' i) \<and>
           wanted st' = (wanted st)(j := (wanted st j)(h := wanted st j h + t))"
proof (cases "t = 0")
  case True
  then have "connector_add os j h t st = (st, Inr ())" by (simp add: connector_add_def)
  moreover have "\<forall>i\<in>C. sink_ok os r st i"
    using sink by (auto simp: sink_ok_def Let_def)
  ultimately show ?thesis using True by simp
next
  case False
  let ?c = "rt_conts st j"
  obtain m where m: "host_add h t (cn_hosts ?c) = Inr m"
      "host_count m = (host_count (cn_hosts ?c))(h := host_count (cn_hosts ?c) h + t)"
    using host_add_ok range unfolding wanted_def by blast
  let ?st = "set_cont j (?c\<lparr>cn_hosts := m\<rparr>) st"
  have same: "cn_wrp (rt_conts ?st i) = cn_wrp (rt_conts st i)" "rt_objs ?st = rt_objs st" for i
    by (simp_all add: set_cont_def)
  have "sink_ok os (Suc r) ?st j"
    using sink j by (simp add: sink_ok_def same)
  from pipe_signal_ok [OF this]
  obtain k' s' where run: "andthen (wbuf_put ''0'' (cn_wrp ?c)) (\<lambda>_. andthen (obj_write_all os 1 (cn_wrp ?c)) (\<lambda>_. return ())) ?st
      = (?st\<lparr>rt_k := k', rt_objs := (rt_objs st)(cn_wrp ?c := s')\<rparr>, Inr ())"
    and s': "io_fd s' = io_fd (rt_objs st (cn_wrp ?c))" "buf_ok (io_wbuf s')"
      "b_offset (io_wbuf s') \<le> b_offset (io_wbuf (rt_objs st (cn_wrp ?c))) + 1"
    by (auto simp: same)
  let ?st' = "?st\<lparr>rt_k := k', rt_objs := (rt_objs st)(cn_wrp ?c := s')\<rparr>"
  have "connector_add os j h t st = (?st', Inr ())"
    using False m(1) run by (simp add: connector_add_def Let_def)
  moreover have "sink_ok os r ?st' i" if "i \<in> C" for i
    using sink that s' by (auto simp: sink_ok_def Let_def same)
  moreover have "wanted ?st' = (wanted st)(j := (wanted st j)(h := wanted st j h + t))"
    using m(2) by (intro ext) (simp add: wanted_def set_cont_def)
  ultimately show ?thesis by blast
qed

lemma add_each_ok:
  "\<forall>i\<in>C. sink_ok os (length js + r) st i \<Longrightarrow> set js \<subseteq> C \<Longrightarrow> distinct js \<Longrightarrow>
   \<forall>j\<in>set js. int_min \<le> wanted st j h + t \<and> wanted st j h + t \<le> int_max \<Longrightarrow>
   \<exists>st'. add_each os js h t st = (st', Inr ()) \<and> (\<forall>i\<in>C. sink_ok os r st' i) \<and>
     wanted st' = (\<lambda>i. if i \<in> set js then (wanted st i)(h := wanted st i h + t) else wanted st i)"
proof (induction js arbitrary: st)
  case Nil
  then show ?case by (simp add: return_def)
next
  case (Cons j js)
  obtain st1 where st1: "connector_add os j h t st = (st1, Inr ())" "\<forall>i\<in>C. sink_ok os (length js + r) st1 i"
      "wanted st1 = (wanted st)(j := (wanted st j)(h := wanted st j h + t))"
    using connector_add_ok [of C os "length js + r" st j h t] Cons.prems by auto
  have eq: "wanted st1 i = wanted st i" if "i \<in> set js" for i
    using st1(3) that Cons.prems(3) by auto
  then obtain st2 where st2: "add_each os js h t st1 = (st2, Inr ())" "\<forall>i\<in>C. sink_ok os r st2 i"
      "wanted st2 = (\<lambda>i. if i \<in> set js then (wanted st1 i)(h := wanted st1 i h + t) else wanted st1 i)"
    using Cons.IH [OF st1(2)] Cons.prems(2-4) by auto
  have "add_each os (j # js) h t st = (st2, Inr ())"
    using st1(1) st2(1) by (simp add: andthen_def)
  moreover have "wanted st2 = (\<lambda>i. if i \<in> set (j # js) then (wanted st i)(h := wanted st i h + t) else wanted st i)"
    using st2(3) st1(3) eq Cons.prems(3) by (intro ext) auto
  ultimately show ?case using st2(2) by blast
qed

text \<open>The shares of the requests: equal ones, and what is left over goes to the first connector.\<close>

definition share :: "nat list \<Rightarrow> int \<Rightarrow> nat \<Rightarrow> int" where
  "share conts t i = (if i \<in> set conts then t div int (length conts) else 0) +
     (if i = hd conts then t mod int (length conts) else 0)"

lemma share_bounds:
  assumes "conts \<noteq> []" and "0 \<le> t" and "i \<in> set conts"
  shows "0 \<le> share conts t i" and "share conts t i \<le> t" and "t div int (length conts) \<le> t"
proof -
  let ?n = "int (length conts)"
  have n: "1 \<le> ?n" using assms(1) by (cases conts) auto
  then have d0: "0 \<le> t div ?n" "0 \<le> t mod ?n"
    using assms(2) by (simp_all only: pos_imp_zdiv_nonneg_iff pos_mod_sign)
  then have d: "0 \<le> t div ?n" "0 \<le> t mod ?n" "t div ?n \<le> ?n * (t div ?n)"
    using n mult_right_mono [of 1 ?n "t div ?n"] by simp_all
  have le: "t div ?n + t mod ?n \<le> t" "t div ?n \<le> t"
    using d mult_div_mod_eq [of ?n t] by linarith+
  with d assms(3) show "0 \<le> share conts t i" "share conts t i \<le> t" "t div ?n \<le> t"
    by (simp_all add: share_def)
qed

lemma share_sum:
  assumes "conts \<noteq> []" and "distinct conts"
  shows "(\<Sum>i\<in>set conts. share conts t i) = t"
proof -
  have hd: "hd conts \<in> set conts" using assms(1) by simp
  have "(\<Sum>i\<in>set conts. share conts t i) = (\<Sum>i\<in>set conts. t div int (length conts)) + (\<Sum>i\<in>set conts. if i = hd conts then t mod int (length conts) else 0)"
    by (simp add: share_def sum.distrib)
  also have "\<dots> = int (length conts) * (t div int (length conts)) + t mod int (length conts)"
    using hd assms(2) by (simp add: distinct_card)
  finally show ?thesis by simp
qed

lemma client_add_ok:
  assumes ne: "conts \<noteq> []" and dist: "distinct conts"
    and t: "0 \<le> t" "t \<le> int_max"
    and sink: "\<forall>i\<in>set conts. sink_ok os (length conts + 1) st i"
    and range: "\<forall>i\<in>set conts. 0 \<le> wanted st i h \<and> wanted st i h + t \<le> int_max"
  shows "\<exists>st'. client_add os conts h t st = (st', Inr ()) \<and>
           wanted st' = (\<lambda>i. (wanted st i)(h := wanted st i h + share conts t i))"
proof (cases "tl conts")
  case Nil
  then obtain j where j: "conts = [j]" using ne by (cases conts) auto
  have "int_min \<le> wanted st j h + t" "wanted st j h + t \<le> int_max"
    using range t(1) j by (auto simp: int_min_def)
  then obtain st' where st': "connector_add os j h t st = (st', Inr ())"
      "wanted st' = (wanted st)(j := (wanted st j)(h := wanted st j h + t))"
    using connector_add_ok [of "{j}" os 1 st j h t] sink j by auto
  have "wanted st' = (\<lambda>i. (wanted st i)(h := wanted st i h + share conts t i))"
    using st'(2) j by (intro ext) (simp add: share_def)
  with st'(1) j show ?thesis by (simp add: client_add_def)
next
  case (Cons i js)
  then obtain j where j: "conts = j # i # js" using ne by (cases conts) auto
  let ?n = "int (length conts)"
  let ?num = "t div ?n" and ?m = "t mod ?n"
  have le: "0 \<le> ?num" "?num \<le> t" "0 \<le> ?m" "?m \<le> t" "?num + ?m \<le> t"
    using share_bounds [OF ne t(1), of j] j t(1)
    by (auto simp: share_def pos_imp_zdiv_nonneg_iff zmod_le_nonneg_dividend)
  have u: "usize t = t" using t by (intro usize_id) (simp_all add: int_max_def)
  have conv: "to_int (usize t div ?n) = ?num" "to_int (usize t mod ?n) = ?m"
    using le t by (simp_all add: u to_int_id int_min_def)
  have "\<forall>i\<in>set conts. int_min \<le> wanted st i h + ?num \<and> wanted st i h + ?num \<le> int_max"
    using range le(1,2) by (fastforce simp: int_min_def)
  then obtain st1 where st1: "add_each os conts h ?num st = (st1, Inr ())" "\<forall>i\<in>set conts. sink_ok os 1 st1 i"
      "wanted st1 = (\<lambda>i. if i \<in> set conts then (wanted st i)(h := wanted st i h + ?num) else wanted st i)"
    using add_each_ok [OF sink subset_refl dist] by blast
  have jr: "0 \<le> wanted st j h" "wanted st j h + t \<le> int_max" "j \<in> set conts"
    using range j by auto
  then have "int_min \<le> wanted st1 j h + ?m" "wanted st1 j h + ?m \<le> int_max"
    using le by (simp_all add: st1(3) int_min_def)
  then obtain st2 where st2: "connector_add os j h ?m st1 = (st2, Inr ())"
      "wanted st2 = (wanted st1)(j := (wanted st1 j)(h := wanted st1 j h + ?m))"
    using connector_add_ok [of "set conts" os 0 st1 j h ?m] st1(2) jr(3) by auto
  have "wanted st2 = (\<lambda>i. (wanted st i)(h := wanted st i h + share conts t i))"
    using st2(2) jr(3) j by (intro ext) (simp add: st1(3) share_def)
  moreover have "client_add os conts h t st = (st2, Inr ())"
    using st1(1) st2(1) conv j by (simp add: client_add_def andthen_def Let_def)
  ultimately show ?thesis by blast
qed

section \<open>Serving requests\<close>

text \<open>
  Sockets: \<open>socket\<close> returns a descriptor that is open, and that no epoll instance watches; it and
  \<open>fcntl\<close> and \<open>connect\<close> leave the epoll instances alone. The addresses can be parsed.
\<close>

definition socket_kernel ::
  "'k os \<Rightarrow> ('k \<Rightarrow> int \<Rightarrow> int \<Rightarrow> 32 word option) \<Rightarrow> ('k \<Rightarrow> int \<Rightarrow> 32 word option) \<Rightarrow> bool"
where
  "socket_kernel os interest flags \<longleftrightarrow>
     flags_kernel (os_sys os) flags \<and>
     (\<forall>k f. \<exists>fd k' v. px_socket (os_sys os) k f SOCK_STREAM = (Inr fd, k') \<and> flags k' fd = Some v \<and>
        (\<forall>efd. interest k' efd fd = None)) \<and>
     (\<forall>k fd v. interest (snd (px_setfl (os_sys os) k fd v)) = interest k) \<and>
     (\<forall>k fd a. interest (snd (px_connect (os_sys os) k fd a)) = interest k)"

definition parsable :: "'k os \<Rightarrow> endpoint \<Rightarrow> bool" where
  "parsable os h = (case h of (ip, port, f) \<Rightarrow> f = local_family \<or> (\<exists>bs. px_pton (os_sys os) f ip = Inr (Some bs)))"

lemma get_nsocktcp_ok:
  assumes "socket_kernel os interest flags"
  shows "\<exists>k' s. get_nsocktcp (os_sys os) k f = (k', Inr s) \<and> (\<forall>efd. interest k' efd (io_fd s) = None) \<and>
           so_family (tcp_sock s) = f"
proof -
  have fk: "flags_kernel (os_sys os) flags" and set: "interest (snd (px_setfl (os_sys os) k fd v)) = interest k" for k fd v
    using assms by (simp_all add: socket_kernel_def)
  have "\<exists>fd k' v. px_socket (os_sys os) k f SOCK_STREAM = (Inr fd, k') \<and> flags k' fd = Some v \<and>
      (\<forall>efd. interest k' efd fd = None)"
    using assms unfolding socket_kernel_def by blast
  then obtain fd k1 v where s: "px_socket (os_sys os) k f SOCK_STREAM = (Inr fd, k1)" "flags k1 fd = Some v"
      "\<forall>efd. interest k1 efd fd = None"
    by blast
  obtain k' t where t: "tcp_new (os_sys os) k1 fd f = (k', Inr t)"
      "k' = snd (px_setfl (os_sys os) k1 fd (or v (px_nonblock (os_sys os))))" "io_fd t = fd" "so_family (tcp_sock t) = f"
    using tcp_new_ok [OF fk s(2), of f] by blast
  then show ?thesis
    using s set by (simp add: get_nsocktcp_def)
qed

text \<open>The connect call that fits the family; it keeps the descriptor and returns.\<close>

lemma connect_ok:
  assumes "socket_kernel os interest flags" and "parsable os (ip, port, f)" and "so_family (tcp_sock s) = f"
  shows "\<exists>k' s' ok. (if f = local_family then tcp_connect_unix (os_sys os) k s ip
             else tcp_connect (os_sys os) k s ip port) = (k', s', Inr ok) \<and>
           io_fd s' = io_fd s \<and> interest k' = interest k"
proof -
  have c: "px_connect (os_sys os) k fd a = (r, k') \<Longrightarrow> interest k' = interest k" for k fd a r k'
    using assms(1) unfolding socket_kernel_def by (metis snd_conv)
  let ?done = "\<lambda>r. r = None \<or> r = Some EINPROGRESS"
  show ?thesis
  proof (cases "f = local_family")
    case True
    obtain r k' where r: "px_connect (os_sys os) k (io_fd s) (set_path (os_sys os) ip) = (r, k')" by fastforce
    then have "tcp_connect_unix (os_sys os) k s ip
        = (k', s\<lparr>tcp_sock := (tcp_sock s)\<lparr>so_peer := (ip, -1)\<rparr>\<rparr>, Inr (?done r))"
      by (simp add: tcp_connect_unix_def Let_def split: option.split)
    with True c [OF r] show ?thesis by auto
  next
    case False
    then obtain addr where addr: "set_ip_port (os_sys os) f (Some ip) port = Inr addr"
      using assms(2) by (cases f) (auto simp: parsable_def set_ip_port_def)
    obtain r k' where r: "px_connect (os_sys os) k (io_fd s) addr = (r, k')" by fastforce
    then have "tcp_connect (os_sys os) k s ip port
        = (k', s\<lparr>tcp_sock := (tcp_sock s)\<lparr>so_peer := (ip, port)\<rparr>\<rparr>, Inr (?done r))"
      using addr assms(3) by (simp add: tcp_connect_def Let_def split: option.split)
    with False c [OF r] show ?thesis by auto
  qed
qed

lemma kernel_irrelevant [simp]:
  "total_load (st\<lparr>rt_k := k\<rparr>) = total_load st" "balanced (st\<lparr>rt_k := k\<rparr>) = balanced st"
  by (simp_all add: total_load_def balanced_def load_def)

definition failed :: "'k reactor \<Rightarrow> nat \<Rightarrow> endpoint \<Rightarrow> int" where
  "failed st j = host_count (cn_failures (rt_conts st j))"

lemma connect_one_ok:
  assumes ep: "epolls (os_ep os) interest" and sk: "socket_kernel os interest flags"
    and h: "parsable os h" and pool: "pool_ok (Suc r) st"
    and range: "0 \<le> failed st j h" "failed st j h < int_max"
  shows "\<exists>st' ok. connect_one os j h st = (st', Inr ()) \<and> pool_ok r st' \<and>
           total_load st' = total_load st + of_bool ok \<and> (balanced st \<longrightarrow> balanced st') \<and>
           cn_hosts (rt_conts st' j) = cn_hosts (rt_conts st j) \<and>
           failed st' j = (failed st j)(h := failed st j h + of_bool (\<not> ok))"
proof -
  obtain ip port f where hh: "h = (ip, port, f)" by (cases h)
  obtain k s where s: "get_nsocktcp (os_sys os) (rt_k st) f = (k, Inr s)" "\<forall>efd. interest k efd (io_fd s) = None"
      "so_family (tcp_sock s) = f"
    using get_nsocktcp_ok [OF sk] by blast
  obtain k1 s1 ok where c: "(if f = local_family then tcp_connect_unix (os_sys os) k s ip
        else tcp_connect (os_sys os) k s ip port) = (k1, s1, Inr ok)" "io_fd s1 = io_fd s" "interest k1 = interest k"
    using connect_ok [OF sk h [unfolded hh] s(3)] by blast
  show ?thesis
  proof (cases ok)
    case True
    let ?st = "st\<lparr>rt_k := k1\<rparr>"
    have "pool_ok (Suc r) ?st" "unwatched interest (io_fd s1) ?st"
      using pool s(2) c(2,3) by (simp_all add: pool_ok_def load_def unwatched_def)
    from assign_one [OF ep this, of On_cont_writable]
    obtain st' where st': "andthen (new_obj (of_tcp s1)) (\<lambda>n. minloads_register os n On_cont_writable) ?st = (st', Inr ())"
        "pool_ok r st'" "one_more os interest On_cont_writable s1 ?st st'"
      by blast
    have "connect_one os j h st = (st', Inr ())"
      using s(1) c(1) st'(1) True by (simp add: connect_one_def hh)
    then show ?thesis
      using st'(2,3) True by (intro exI [of _ st'] exI [of _ True])
        (simp add: one_more_def failed_def)
  next
    case False
    let ?st = "st\<lparr>rt_k := nio_destroy (os_sys os) k1 s1\<rparr>" and ?c = "rt_conts st j"
    have "int_min \<le> host_count (cn_failures ?c) h + 1" "host_count (cn_failures ?c) h + 1 \<le> int_max"
      using range by (simp_all add: failed_def int_min_def)
    then obtain m where m: "host_add h 1 (cn_failures ?c) = Inr m"
        "host_count m = (host_count (cn_failures ?c))(h := host_count (cn_failures ?c) h + 1)"
      using host_add_ok by blast
    let ?st' = "set_cont j (?c\<lparr>cn_failures := m\<rparr>) ?st"
    have "connect_one os j h st = (?st', Inr ())"
      using s(1) c(1) m(1) False by (simp add: connect_one_def hh Let_def)
    moreover have "pool_ok r ?st'" "total_load ?st' = total_load st" "balanced ?st' = balanced st"
      using pool_ok_less [OF pool, of r] by (simp_all add: pool_ok_def total_load_def balanced_def load_def set_cont_def)
    ultimately show ?thesis
      using m(2) False by (intro exI [of _ ?st'] exI [of _ False]) (simp add: failed_def set_cont_def)
  qed
qed

lemma connect_times_ok:
  assumes ep: "epolls (os_ep os) interest" and sk: "socket_kernel os interest flags" and h: "parsable os h"
  shows "pool_ok (i + r) st \<Longrightarrow> 0 \<le> failed st j h \<Longrightarrow> failed st j h + int i \<le> int_max \<Longrightarrow>
    \<exists>st' n. connect_times os j h i st = (st', Inr ()) \<and> pool_ok r st' \<and> n \<le> i \<and>
      total_load st' = total_load st + n \<and> (balanced st \<longrightarrow> balanced st') \<and>
      cn_hosts (rt_conts st' j) = cn_hosts (rt_conts st j) \<and>
      failed st' j = (failed st j)(h := failed st j h + int (i - n))"
proof (induction i arbitrary: st)
  case 0
  then show ?case by (intro exI [of _ st] exI [of _ 0]) (simp add: return_def)
next
  case (Suc i)
  have pool: "pool_ok (Suc (i + r)) st" and lt: "failed st j h < int_max"
    using Suc.prems by simp_all
  obtain st1 ok where st1: "connect_one os j h st = (st1, Inr ())" "pool_ok (i + r) st1"
      "total_load st1 = total_load st + of_bool ok" "balanced st \<longrightarrow> balanced st1"
      "cn_hosts (rt_conts st1 j) = cn_hosts (rt_conts st j)"
      "failed st1 j = (failed st j)(h := failed st j h + of_bool (\<not> ok))"
    using connect_one_ok [OF ep sk h pool Suc.prems(2) lt] by blast
  have "0 \<le> failed st1 j h" "failed st1 j h + int i \<le> int_max"
    using st1(6) Suc.prems(2,3) by (cases ok; simp)+
  from Suc.IH [OF st1(2) this]
  obtain st2 n where st2: "connect_times os j h i st1 = (st2, Inr ())" "pool_ok r st2" "n \<le> i"
      "total_load st2 = total_load st1 + n" "balanced st1 \<longrightarrow> balanced st2"
      "cn_hosts (rt_conts st2 j) = cn_hosts (rt_conts st1 j)"
      "failed st2 j = (failed st1 j)(h := failed st1 j h + int (i - n))"
    by blast
  have "connect_times os j h (Suc i) st = (st2, Inr ())"
    using st1(1) st2(1) by (simp add: andthen_def)
  moreover have "failed st2 j = (failed st j)(h := failed st j h + int (Suc i - (n + of_bool ok)))"
    using st2(3,7) st1(6) by (cases ok) (simp_all add: Suc_diff_le algebra_simps)
  ultimately show ?case
    using st1 st2 by (intro exI [of _ st2] exI [of _ "n + of_bool ok"]) auto
qed

text \<open>Every host of the map is tried as often as asked for; \<open>succ\<close> counts the attempts that went on.\<close>

lemma connect_hosts_ok:
  assumes ep: "epolls (os_ep os) interest" and sk: "socket_kernel os interest flags"
  shows "pool_ok ((\<Sum>(h, t)\<leftarrow>m. nat t) + r) st \<Longrightarrow> distinct (map fst m) \<Longrightarrow> \<forall>(h, t)\<in>set m. parsable os h \<and>
      0 \<le> failed st j h \<and> failed st j h + int (nat t) \<le> int_max \<Longrightarrow>
    \<exists>st' succ. connect_hosts os j m st = (st', Inr ()) \<and> pool_ok r st' \<and>
      total_load st' = total_load st + (\<Sum>(h, t)\<leftarrow>m. succ h) \<and> (balanced st \<longrightarrow> balanced st') \<and>
      cn_hosts (rt_conts st' j) = cn_hosts (rt_conts st j) \<and>
      (\<forall>(h, t)\<in>set m. succ h \<le> nat t \<and> failed st' j h = failed st j h + int (nat t - succ h)) \<and>
      (\<forall>h. h \<notin> fst ` set m \<longrightarrow> failed st' j h = failed st j h)"
proof (induction m arbitrary: st)
  case Nil
  then show ?case by (intro exI [of _ st]) (simp add: return_def)
next
  case (Cons x m)
  obtain h t where x: "x = (h, t)" by (cases x)
  have "pool_ok (nat t + ((\<Sum>(h, t)\<leftarrow>m. nat t) + r)) st" "parsable os h" "0 \<le> failed st j h" "failed st j h + int (nat t) \<le> int_max"
    using Cons.prems x by (simp_all add: add.assoc)
  from connect_times_ok [OF ep sk this(2,1,3,4)]
  obtain st1 n where st1: "connect_times os j h (nat t) st = (st1, Inr ())" "pool_ok ((\<Sum>(h, t)\<leftarrow>m. nat t) + r) st1" "n \<le> nat t"
      "total_load st1 = total_load st + n" "balanced st \<longrightarrow> balanced st1"
      "cn_hosts (rt_conts st1 j) = cn_hosts (rt_conts st j)"
      "failed st1 j = (failed st j)(h := failed st j h + int (nat t - n))"
    by blast
  have notin: "h \<notin> fst ` set m" using Cons.prems(2) x by simp
  then have eq: "failed st1 j h' = failed st j h'" if "h' \<in> fst ` set m" for h'
    using st1(7) that by auto
  have "\<forall>(h, t)\<in>set m. parsable os h \<and> 0 \<le> failed st1 j h \<and> failed st1 j h + int (nat t) \<le> int_max"
  proof (rule ballI, clarify)
    fix ip p f t'
    assume a: "((ip, p, f), t') \<in> set m"
    then have "(ip, p, f) \<in> fst ` set m" by force
    with bspec [OF Cons.prems(3), of "((ip, p, f), t')"] a eq [of "(ip, p, f)"] show "parsable os (ip, p, f) \<and> 0 \<le> failed st1 j (ip, p, f) \<and> failed st1 j (ip, p, f) + int (nat t') \<le> int_max"
      by simp
  qed
  with Cons.IH [OF st1(2)] Cons.prems(2)
  obtain st2 succ where st2: "connect_hosts os j m st1 = (st2, Inr ())" "pool_ok r st2"
      "total_load st2 = total_load st1 + (\<Sum>(h, t)\<leftarrow>m. succ h)" "balanced st1 \<longrightarrow> balanced st2"
      "cn_hosts (rt_conts st2 j) = cn_hosts (rt_conts st1 j)"
      "\<forall>(h, t)\<in>set m. succ h \<le> nat t \<and> failed st2 j h = failed st1 j h + int (nat t - succ h)"
      "\<forall>h. h \<notin> fst ` set m \<longrightarrow> failed st2 j h = failed st1 j h"
    by auto
  let ?succ = "succ(h := n)"
  have same: "?succ h' = succ h'" if "(h', t') \<in> set m" for h' t'
    using notin that by force
  have "(\<Sum>(h, t)\<leftarrow>m. ?succ h) = (\<Sum>(h, t)\<leftarrow>m. succ h)"
    by (rule arg_cong [where f = sum_list], rule map_cong [OF refl]) (use same in auto)
  then have total: "total_load st2 = total_load st + (\<Sum>(h, t)\<leftarrow>x # m. ?succ h)"
    using st1(4) st2(3) x by simp
  have each: "?succ h' \<le> nat t' \<and> failed st2 j h' = failed st j h' + int (nat t' - ?succ h')" if "(h', t') \<in> set (x # m)" for h' t'
  proof (cases "h' = h")
    case True
    then have "t' = t"
      using that x notin by force
    with True st1(3,7) st2(7) [rule_format, OF notin] show ?thesis by simp
  next
    case False
    then have a: "(h', t') \<in> set m" using that x by simp
    then have "h' \<in> fst ` set m" by force
    with bspec [OF st2(6) a] eq [of h'] False show ?thesis by simp
  qed
  have others: "failed st2 j h' = failed st j h'" if "h' \<notin> fst ` set (x # m)" for h'
    using that st2(7) [rule_format, of h'] st1(7) x by simp
  have "connect_hosts os j (x # m) st = (st2, Inr ())"
    using st1(1) st2(1) x by (simp add: andthen_def)
  with total each others st1(5,6) st2(2,4,5) show ?case
    by (intro exI [of _ st2] exI [of _ ?succ]) (auto simp del: split_paired_All)
qed

section \<open>A concrete client\<close>

text \<open>
  A kernel whose \<open>socket\<close> always returns descriptor 7 and has dropped it from the epoll instances,
  as it does for a descriptor that was closed; two connectors, 3 and 4; and a connector with the
  pipe of object 1 that has three connections to make.
\<close>

definition client_os :: "sock_state os" where
  "client_os = sample_os\<lparr>os_sys := sock_sys\<lparr>px_socket := (\<lambda>k f t.
     (Inr 7, k\<lparr>ss_flags := (ss_flags k)(7 := Some 2), ss_watch := (\<lambda>efd. (ss_watch k efd)(7 := None))\<rparr>))\<rparr>\<rparr>"

definition sample_hosts :: host_map where
  "sample_hosts = [((''1.2.3.4'', 80, ipv4), 2), ((''/tmp/s'', 0, local_family), 1)]"

definition sample_client :: "sock_state reactor" where
  "sample_client = sample_pool\<lparr>rt_conts := (\<lambda>_. \<lparr>cn_rdp = 1, cn_wrp = 2, cn_hosts = sample_hosts, cn_failures = []\<rparr>)\<rparr>"

lemma client_socket_kernel: "socket_kernel client_os ss_watch ss_flags"
  by (simp add: socket_kernel_def client_os_def sample_os_def flags_kernel_def sock_sys_def)

lemma client_rx: "rx_kernel (os_sys client_os) fd (\<lambda>_. []) (\<lambda>_. 0) (\<lambda>_. 0)" "rd_keeps ss_watch (os_sys client_os)"
  by (simp_all add: client_os_def sample_os_def sock_sys_def rx_kernel_def rd_keeps_def)

lemma client_sink: "sink_ok client_os 3 sample_client i"
proof -
  have "tx_kernel (os_sys client_os) fd (\<lambda>_. []) (\<lambda>_. 0)" for fd
    by (simp add: client_os_def sample_os_def sock_sys_def tx_kernel_def)
  moreover have "rt_objs sample_client n = sample_obj" for n
    by (simp add: sample_client_def sample_pool_def sample_reactor_def)
  ultimately show ?thesis
    using empty_buffer_ok by (auto simp: sink_ok_def Let_def pipe_tx_def client_os_def sample_os_def
        sock_sys_def sample_obj_def empty_buffer_def)
qed

section \<open>Properties\<close>

text \<open>\<open>tcp_client::add\<close> shares \<open>t\<close> requests for a host out to the connectors: together they want
  exactly \<open>t\<close> more connections to it, each of them \<open>t / n\<close> more and the first one the rest, nothing
  else they want changes, and the call returns.\<close>

theorem client_add_shares:
  assumes "conts \<noteq> []" and "distinct conts" and "0 \<le> t" and "t \<le> int_max"
    and "\<forall>i\<in>set conts. sink_ok os (length conts + 1) st i"
    and "\<forall>i\<in>set conts. 0 \<le> wanted st i h \<and> wanted st i h + t \<le> int_max"
  shows "\<exists>st'. client_add os conts h t st = (st', Inr ()) \<and>
           (\<Sum>i\<in>set conts. wanted st' i h) = (\<Sum>i\<in>set conts. wanted st i h) + t \<and>
           (\<forall>i\<in>set conts. wanted st' i h = wanted st i h + t div int (length conts) +
              (if i = hd conts then t mod int (length conts) else 0)) \<and>
           (\<forall>i h'. i \<notin> set conts \<or> h' \<noteq> h \<longrightarrow> wanted st' i h' = wanted st i h')"
proof -
  obtain st' where st': "client_add os conts h t st = (st', Inr ())"
      "wanted st' = (\<lambda>i. (wanted st i)(h := wanted st i h + share conts t i))"
    using client_add_ok [OF assms] by blast
  have "(\<Sum>i\<in>set conts. wanted st' i h) = (\<Sum>i\<in>set conts. wanted st i h) + t"
    using share_sum [OF assms(1,2)] by (simp add: st'(2) sum.distrib)
  moreover have "\<forall>i\<in>set conts. wanted st' i h = wanted st i h + t div int (length conts) +
              (if i = hd conts then t mod int (length conts) else 0)"
    by (simp add: st'(2) share_def)
  moreover have "\<forall>i h'. i \<notin> set conts \<or> h' \<noteq> h \<longrightarrow> wanted st' i h' = wanted st i h'"
    using assms(1) by (auto simp: st'(2) share_def simp del: split_paired_All)
  ultimately show ?thesis using st'(1) by blast
qed

theorem client_add_shares_witness:
  "\<exists>st'. client_add client_os [3, 4] (''1.2.3.4'', 80, ipv4) 5 sample_client = (st', Inr ()) \<and>
     wanted st' 3 (''1.2.3.4'', 80, ipv4) = 5 \<and> wanted st' 4 (''1.2.3.4'', 80, ipv4) = 4"
proof -
  have w: "wanted sample_client i (''1.2.3.4'', 80, ipv4) = 2" for i
    by (simp add: wanted_def sample_client_def sample_hosts_def)
  show ?thesis
    using client_add_shares [of "[3, 4]" 5 client_os sample_client "(''1.2.3.4'', 80, ipv4)"] client_sink
    by (auto simp: w int_max_def eval_nat_numeral simp del: split_paired_All)
qed



end
