(* ===== verification/Logger.thy ===== *)
theory Logger
  imports Nio_Stream
begin

text \<open>
  The asynchronous logger of \<open>src/src/include/cppev/async_logger.h\<close> and
  \<open>src/src/lib/async_logger.cc\<close>: threads put the pieces of a message into one of two buffers under
  a recursive mutex that stays locked until \<open>endl\<close>, and the logger's own thread swaps the buffers
  and writes the full one. Threads, the logger's thread and the destructor interleave step by
  step; a step that is not enabled has no result.
\<close>

section \<open>Rendering\<close>

text \<open>\<open>std::to_string\<close> of an integer.\<close>

fun digits :: "nat \<Rightarrow> string" where
  "digits n = (if n < 10 then [char_of (48 + n)] else digits (n div 10) @ [char_of (48 + n mod 10)])"

declare digits.simps [simp del]

definition to_string :: "int \<Rightarrow> string" where
  "to_string x = (if x < 0 then CHR ''-'' # digits (nat (- x)) else digits (nat x))"

text \<open>\<open>write_header\<close> on Linux; the time stamp is whatever the clock gives.\<close>

definition log_header :: "int \<Rightarrow> string \<Rightarrow> int \<Rightarrow> string" where
  "log_header level ts tid =
     ''- ['' @ (if level = 1 then ''INFO] ['' else ''ERROR] ['') @ ts @ ''] [LWP '' @ to_string tid @ ''] ''"

section \<open>State\<close>

datatype owner = Producer nat | Consumer

text \<open>
  Control points of the logger's thread: testing \<open>stop_\<close>, taking the lock, evaluating the predicate,
  about to sleep, asleep, woken, swapping (\<open>C_pred\<close>, \<open>C_sleepy\<close> and \<open>C_flip\<close> hold the lock),
  writing buffer \<open>p\<close>, returned.
\<close>

datatype consumer_pc = C_test | C_lock | C_pred | C_sleepy | C_asleep | C_woken | C_flip | C_write nat | C_done

datatype destructor_pc = D_idle | D_notify | D_join | D_done

text \<open>\<open>lg_notes\<close> counts threads between the last unlock and the \<open>notify_one\<close> of an \<open>endl\<close>.\<close>

record 'k logger =
  lg_level :: int
  lg_stop :: bool
  lg_owner :: "owner option"
  lg_count :: nat
  lg_curr :: nat
  lg_recur :: nat
  lg_bufs :: "buffer list"
  lg_cpc :: consumer_pc
  lg_dpc :: destructor_pc
  lg_notes :: nat
  lg_k :: 'k

definition logger_new :: "int \<Rightarrow> 'k \<Rightarrow> 'k logger res" where
  "logger_new level k =
     rbind buffer_default (\<lambda>b.
     Inr \<lparr>lg_level = level, lg_stop = False, lg_owner = None, lg_count = 0, lg_curr = 0, lg_recur = 0,
       lg_bufs = (if level < 0 then [] else [b, b]), lg_cpc = (if level < 0 then C_done else C_test),
       lg_dpc = D_idle, lg_notes = 0, lg_k = k\<rparr>)"

section \<open>Steps\<close>

definition lock_by :: "owner \<Rightarrow> 'k logger \<Rightarrow> 'k logger option" where
  "lock_by p s =
     (if lg_owner s = None \<or> lg_owner s = Some p
      then Some (s\<lparr>lg_owner := Some p, lg_count := Suc (lg_count s)\<rparr>) else None)"

definition unlock_one :: "'k logger \<Rightarrow> 'k logger" where
  "unlock_one s =
     (let n = lg_count s - 1 in s\<lparr>lg_count := n, lg_owner := (if n = 0 then None else lg_owner s)\<rparr>)"

definition cur_buf :: "'k logger \<Rightarrow> buffer res" where
  "cur_buf s = rd_at (lg_bufs s) (int (lg_curr s))"

definition cur_size :: "'k logger \<Rightarrow> int" where
  "cur_size s = (case cur_buf s of Inl e \<Rightarrow> 0 | Inr b \<Rightarrow> buf_size b)"

definition set_buf :: "nat \<Rightarrow> buffer \<Rightarrow> 'k logger \<Rightarrow> 'k logger" where
  "set_buf i b s = s\<lparr>lg_bufs := (lg_bufs s)[i := b]\<rparr>"

text \<open>\<open>operator<<(const char *)\<close>; a string too long for the buffer, or a logger without buffers
  (a negative level), is undefined and has no result.\<close>

definition log_piece :: "nat \<Rightarrow> string \<Rightarrow> int \<Rightarrow> string \<Rightarrow> 'k logger \<Rightarrow> 'k logger option" where
  "log_piece t ts tid str s =
     (case lock_by (Producer t) s of
        None \<Rightarrow> None
      | Some s \<Rightarrow>
          (case rbind (cur_buf s) (\<lambda>b.
                rbind (if lg_recur s = 0 then put_string b (log_header (lg_level s) ts tid) else Inr b) (\<lambda>b.
                put_string b str)) of
             Inl e \<Rightarrow> None
           | Inr b \<Rightarrow> Some (set_buf (lg_curr s) b (s\<lparr>lg_recur := Suc (lg_recur s)\<rparr>))))"

definition log_str :: "nat \<Rightarrow> string \<Rightarrow> int \<Rightarrow> string \<Rightarrow> 'k logger \<Rightarrow> 'k logger option" where
  "log_str t ts tid str = log_piece t ts tid (takeWhile (\<lambda>c. c \<noteq> NUL) str)"

definition log_int :: "nat \<Rightarrow> string \<Rightarrow> int \<Rightarrow> int \<Rightarrow> 'k logger \<Rightarrow> 'k logger option" where
  "log_int t ts tid x = log_piece t ts tid (to_string x)"

text \<open>\<open>operator<<(endl)\<close> up to the notification.\<close>

definition log_endl :: "nat \<Rightarrow> string \<Rightarrow> int \<Rightarrow> 'k logger \<Rightarrow> 'k logger option" where
  "log_endl t ts tid s =
     (case log_piece t ts tid [CHR 0x0A] s of
        None \<Rightarrow> None
      | Some s \<Rightarrow>
          (let recur = lg_recur s; s = s\<lparr>lg_recur := 0\<rparr>; s = (unlock_one ^^ recur) s
           in Some (s\<lparr>lg_notes := Suc (lg_notes s)\<rparr>)))"

definition log_wake :: "'k logger \<Rightarrow> 'k logger" where
  "log_wake s = (if lg_cpc s = C_asleep then s\<lparr>lg_cpc := C_woken\<rparr> else s)"

definition log_notify :: "'k logger \<Rightarrow> 'k logger option" where
  "log_notify s = (if lg_notes s = 0 then None else Some (log_wake (s\<lparr>lg_notes := lg_notes s - 1\<rparr>)))"

definition log_consume :: "('k, 'z) posix_scheme \<Rightarrow> 'k logger \<Rightarrow> 'k logger option" where
  "log_consume sys s =
     (case lg_cpc s of
        C_test \<Rightarrow> Some (s\<lparr>lg_cpc := (if lg_stop s then C_done else C_lock)\<rparr>)
      | C_lock \<Rightarrow>
          map_option (\<lambda>s. s\<lparr>lg_cpc := (if cur_size s = 0 then C_pred else C_flip)\<rparr>) (lock_by Consumer s)
      | C_pred \<Rightarrow>
          Some (s\<lparr>lg_cpc := (if cur_size s \<noteq> 0 \<or> lg_stop s then C_flip else C_sleepy)\<rparr>)
      | C_sleepy \<Rightarrow> Some (unlock_one (s\<lparr>lg_cpc := C_asleep\<rparr>))
      | C_asleep \<Rightarrow> None
      | C_woken \<Rightarrow> map_option (\<lambda>s. s\<lparr>lg_cpc := C_pred\<rparr>) (lock_by Consumer s)
      | C_flip \<Rightarrow> Some (unlock_one (s\<lparr>lg_cpc := C_write (lg_curr s), lg_curr := 1 - lg_curr s\<rparr>))
      | C_write p \<Rightarrow>
          (let b = lg_bufs s ! p; s' = s\<lparr>lg_cpc := C_test\<rparr> in
           if buf_size b = 0 then Some s'
           else (case (rawbuf b, clear b) of
                   (Inr bs, Inr b') \<Rightarrow>
                     (case px_write sys (lg_k s) (lg_level s) (take (nat (buf_size b)) bs) of
                        (_, k) \<Rightarrow> Some (set_buf p b' (s'\<lparr>lg_k := k\<rparr>)))
                 | _ \<Rightarrow> None))
      | C_done \<Rightarrow> None)"

definition log_destroy :: "'k logger \<Rightarrow> 'k logger option" where
  "log_destroy s =
     (case lg_dpc s of
        D_idle \<Rightarrow> Some (if lg_level s < 0 then s\<lparr>lg_dpc := D_done\<rparr> else s\<lparr>lg_stop := True, lg_dpc := D_notify\<rparr>)
      | D_notify \<Rightarrow> Some (log_wake (s\<lparr>lg_dpc := D_join\<rparr>))
      | D_join \<Rightarrow> if lg_cpc s = C_done then Some (s\<lparr>lg_dpc := D_done\<rparr>) else None
      | D_done \<Rightarrow> None)"

datatype log_event = Piece nat string int string | Endl nat string int | Notify | Consume | Spurious | Destroy

fun log_move :: "('k, 'z) posix_scheme \<Rightarrow> log_event \<Rightarrow> 'k logger \<Rightarrow> 'k logger option" where
  "log_move sys (Piece t ts tid str) s = log_piece t ts tid str s"
| "log_move sys (Endl t ts tid) s = log_endl t ts tid s"
| "log_move sys Notify s = log_notify s"
| "log_move sys Consume s = log_consume sys s"
| "log_move sys Spurious s = (if lg_cpc s = C_asleep then Some (log_wake s) else None)"
| "log_move sys Destroy s = log_destroy s"

fun log_run :: "('k, 'z) posix_scheme \<Rightarrow> log_event list \<Rightarrow> 'k logger \<Rightarrow> 'k logger option" where
  "log_run sys [] s = Some s"
| "log_run sys (e # es) s = (case log_move sys e s of None \<Rightarrow> None | Some s' \<Rightarrow> log_run sys es s')"

section \<open>What the logger promises\<close>

text \<open>
  The abstract logger: finished messages with their author, in the order of their \<open>endl\<close>, and the
  message a thread is composing; another thread's piece is not accepted meanwhile.
\<close>

type_synonym log_abs = "(nat \<times> string) list \<times> (nat \<times> string) option"

fun compose :: "int \<Rightarrow> nat \<Rightarrow> string \<Rightarrow> int \<Rightarrow> string \<Rightarrow> (nat \<times> string) option \<Rightarrow> string option" where
  "compose level t ts tid str None = Some (log_header level ts tid @ str)"
| "compose level t ts tid str (Some (t', m)) = (if t' = t then Some (m @ str) else None)"

fun log_spec :: "int \<Rightarrow> log_event \<Rightarrow> log_abs \<Rightarrow> log_abs option" where
  "log_spec level (Piece t ts tid str) (msgs, op) =
     map_option (\<lambda>m. (msgs, Some (t, m))) (compose level t ts tid str op)"
| "log_spec level (Endl t ts tid) (msgs, op) =
     map_option (\<lambda>m. (msgs @ [(t, m)], None)) (compose level t ts tid [CHR 0x0A] op)"
| "log_spec level e a = Some a"

fun spec_run :: "int \<Rightarrow> log_event list \<Rightarrow> log_abs \<Rightarrow> log_abs option" where
  "spec_run level [] a = Some a"
| "spec_run level (e # es) a = (case log_spec level e a of None \<Rightarrow> None | Some a' \<Rightarrow> spec_run level es a')"

definition open_text :: "(nat \<times> string) option \<Rightarrow> string" where
  "open_text op = (case op of None \<Rightarrow> [] | Some (t, m) \<Rightarrow> m)"

definition msg_text :: "(nat \<times> string) list \<Rightarrow> string" where
  "msg_text msgs = concat (map snd msgs)"

text \<open>Texts handed to the logger fit the \<open>int\<close> lengths of the buffer.\<close>

fun event_fits :: "int \<Rightarrow> log_event \<Rightarrow> bool" where
  "event_fits level (Piece t ts tid str) \<longleftrightarrow>
     int (length (log_header level ts tid)) \<le> int_max \<and> int (length str) \<le> int_max"
| "event_fits level (Endl t ts tid) \<longleftrightarrow> int (length (log_header level ts tid)) \<le> int_max"
| "event_fits level e \<longleftrightarrow> True"

text \<open>A text that consists of the first messages, all of them complete.\<close>

definition whole :: "(nat \<times> string) list \<Rightarrow> string \<Rightarrow> bool" where
  "whole msgs x \<longleftrightarrow> (\<exists>n. x = msg_text (take n msgs))"

definition lock_state :: "'k logger \<Rightarrow> (nat \<times> string) option \<Rightarrow> bool" where
  "lock_state s op \<longleftrightarrow>
     (case op of
        None \<Rightarrow> lg_recur s = 0 \<and>
          (if lg_cpc s \<in> {C_pred, C_sleepy, C_flip} then lg_owner s = Some Consumer \<and> lg_count s = 1
           else lg_owner s = None \<and> lg_count s = 0)
      | Some (t, m) \<Rightarrow> lg_owner s = Some (Producer t) \<and> lg_count s = lg_recur s \<and> 0 < lg_recur s \<and>
          lg_cpc s \<notin> {C_pred, C_sleepy, C_flip})"

definition log_back :: "'k logger \<Rightarrow> string" where
  "log_back s = contents (lg_bufs s ! (1 - lg_curr s))"

definition log_front :: "'k logger \<Rightarrow> string" where
  "log_front s = contents (lg_bufs s ! lg_curr s)"

fun back_ok :: "consumer_pc \<Rightarrow> nat \<Rightarrow> string \<Rightarrow> bool" where
  "back_ok (C_write p) i back \<longleftrightarrow> p = 1 - i"
| "back_ok c i back \<longleftrightarrow> back = []"

definition log_inv :: "int \<Rightarrow> ('k \<Rightarrow> string) \<Rightarrow> 'k logger \<Rightarrow> log_abs \<Rightarrow> bool" where
  "log_inv level out s a \<longleftrightarrow>
     (case a of (msgs, op) \<Rightarrow>
       lg_level s = level \<and> (\<exists>b0 b1. lg_bufs s = [b0, b1] \<and> buf_ok b0 \<and> buf_ok b1) \<and> lg_curr s < 2 \<and>
       lock_state s op \<and>
       back_ok (lg_cpc s) (lg_curr s) (log_back s) \<and>
       (lg_cpc s = C_done \<longrightarrow> lg_stop s) \<and>
       (lg_cpc s = C_sleepy \<longrightarrow> log_front s = []) \<and>
       (lg_cpc s = C_asleep \<longrightarrow> op \<noteq> None \<or> 0 < lg_notes s \<or> log_front s = []) \<and>
       out (lg_k s) @ log_back s @ log_front s = msg_text msgs @ open_text op \<and>
       whole msgs (out (lg_k s)) \<and> whole msgs (out (lg_k s) @ log_back s))"

section \<open>The steps keep the promise\<close>

lemma log_invE:
  assumes "log_inv level out s (msgs, op)"
  obtains f b where "lg_curr s < 2" "lg_bufs s ! lg_curr s = f" "lg_bufs s ! (1 - lg_curr s) = b" "buf_ok f" "buf_ok b"
    "length (lg_bufs s) = 2" "cur_buf s = Inr f" "cur_size s = int (length (contents f))"
    "log_front s = contents f" "log_back s = contents b"
proof -
  from assms obtain b0 b1 where bs: "lg_bufs s = [b0, b1]" "buf_ok b0" "buf_ok b1" "lg_curr s < 2"
    by (auto simp: log_inv_def)
  have nb: "cur_buf s = Inr (lg_bufs s ! lg_curr s)"
    using bs by (simp add: cur_buf_def)
  show ?thesis
    by (rule that [of "lg_bufs s ! lg_curr s" "lg_bufs s ! (1 - lg_curr s)"])
       (use bs nb in \<open>auto simp: cur_size_def log_front_def log_back_def buf_ok_size less_2_cases_iff\<close>)
qed

lemma two_update:
  assumes "length bs = 2" and "i < (2::nat)"
  shows "bs[i := x] ! i = x" and "bs[i := x] ! (Suc 0 - i) = bs ! (Suc 0 - i)"
  using assms by (auto simp: less_2_cases_iff)

lemma two_list: "length bs = 2 \<Longrightarrow> i < (2::nat) \<Longrightarrow> P (bs ! i) \<Longrightarrow> P (bs ! (1 - i)) \<Longrightarrow> \<exists>b0 b1. bs = [b0, b1] \<and> P b0 \<and> P b1"
  by (cases bs rule: list.exhaust; cases "tl bs" rule: list.exhaust) (auto simp: less_2_cases_iff)

lemma log_piece_sim:
  assumes inv: "log_inv level out s (msgs, op)" and mv: "log_piece t ts tid str s = Some s'"
    and fits: "event_fits level (Piece t ts tid str)"
  obtains m where "compose level t ts tid str op = Some m" "log_inv level out s' (msgs, Some (t, m))"
proof -
  obtain f b where fb: "lg_curr s < 2" "lg_bufs s ! lg_curr s = f" "lg_bufs s ! (1 - lg_curr s) = b" "buf_ok f"
      "buf_ok b" "length (lg_bufs s) = 2" "cur_buf s = Inr f" "log_front s = contents f" "log_back s = contents b"
    using inv by (rule log_invE)
  have lvl: "lg_level s = level" and lk: "lock_state s op"
    using inv by (simp_all add: log_inv_def)
  from mv obtain s1 where s1: "lock_by (Producer t) s = Some s1"
    by (auto simp: log_piece_def split: option.splits)
  have s1_eq: "s1 = s\<lparr>lg_owner := Some (Producer t), lg_count := Suc (lg_count s)\<rparr>"
    and free: "lg_owner s = None \<or> lg_owner s = Some (Producer t)"
    using s1 by (auto simp: lock_by_def split: if_splits)
  have s1_same: "lg_level s1 = level" "lg_recur s1 = lg_recur s" "lg_curr s1 = lg_curr s"
    using lvl by (simp_all add: s1_eq)
  have cb: "cur_buf s1 = Inr f"
    using fb(7) by (simp add: s1_eq cur_buf_def)
  from mv s1 cb obtain b1 b2 where bb: "(if lg_recur s = 0 then put_string f (log_header level ts tid) else Inr f) = Inr b1"
      "put_string b1 str = Inr b2" "s' = set_buf (lg_curr s) b2 (s1\<lparr>lg_recur := Suc (lg_recur s)\<rparr>)"
    by (auto simp: log_piece_def s1_same rbind_eq_Inr split: sum.splits cong: if_cong)
  define hd where "hd = (if lg_recur s = 0 then log_header level ts tid else [])"
  have b1: "buf_ok b1 \<and> contents b1 = contents f @ hd"
    using bb(1) fb(4) fits put_string_returned [of f "log_header level ts tid" b1]
    by (auto simp: hd_def split: if_splits)
  then have b2: "buf_ok b2 \<and> contents b2 = contents f @ hd @ str"
    using bb(2) fits put_string_returned [of b1 str b2] by auto
  obtain m where m: "compose level t ts tid str op = Some m" "m = open_text op @ hd @ str"
    using lk free by (cases op) (auto simp: lock_state_def open_text_def hd_def)
  have front: "log_front s' = contents b2" and rear: "log_back s' = contents b"
    using fb(1,3,6) by (simp_all add: bb(3) s1_eq set_buf_def log_front_def log_back_def two_update)
  have bufs: "\<exists>b0 b1. lg_bufs s' = [b0, b1] \<and> buf_ok b0 \<and> buf_ok b1"
    by (rule two_list [of _ "lg_curr s"]) (use fb b2 in \<open>simp_all add: bb(3) s1_eq set_buf_def two_update\<close>)
  have not_crit: "lg_cpc s \<notin> {C_pred, C_sleepy, C_flip}"
    using lk free by (auto simp: lock_state_def split: option.splits if_splits)
  have "log_inv level out s' (msgs, Some (t, m))"
    using inv front rear bufs not_crit b2 fb(8,9) lk m(2)
    by (auto simp: log_inv_def bb(3) s1_eq set_buf_def lock_state_def open_text_def split: option.splits if_splits)
  with m(1) show ?thesis by (rule that)
qed

lemma unlock_all:
  "k \<le> lg_count s \<Longrightarrow> (unlock_one ^^ k) s =
     (if k = 0 then s
      else s\<lparr>lg_count := lg_count s - k, lg_owner := (if k = lg_count s then None else lg_owner s)\<rparr>)"
proof (induction k)
  case (Suc k)
  then show ?case
    by (auto simp: unlock_one_def Let_def)
qed simp

lemma whole_more: "whole msgs x \<Longrightarrow> whole (msgs @ ms) x"
proof (unfold whole_def, elim exE)
  fix n
  assume "x = msg_text (take n msgs)"
  then have "x = msg_text (take (min n (length msgs)) (msgs @ ms))"
    by (simp add: min_def)
  then show "\<exists>n. x = msg_text (take n (msgs @ ms))" ..
qed

lemma whole_all: "whole msgs (msg_text msgs)"
  unfolding whole_def by (rule exI [of _ "length msgs"]) simp

lemma log_endl_sim:
  assumes inv: "log_inv level out s (msgs, op)" and mv: "log_endl t ts tid s = Some s'"
    and fits: "event_fits level (Endl t ts tid)"
  obtains m where "compose level t ts tid [CHR 0x0A] op = Some m" "log_inv level out s' (msgs @ [(t, m)], None)"
proof -
  from mv obtain s1 where s1: "log_piece t ts tid [CHR 0x0A] s = Some s1"
    by (auto simp: log_endl_def split: option.splits)
  have fits': "event_fits level (Piece t ts tid [CHR 0x0A])"
    using fits by (simp add: int_limits)
  obtain m where m: "compose level t ts tid [CHR 0x0A] op = Some m" "log_inv level out s1 (msgs, Some (t, m))"
    using log_piece_sim [OF inv s1 fits'] by blast
  then have cnt: "lg_count s1 = lg_recur s1" "0 < lg_recur s1" "lg_cpc s1 \<notin> {C_pred, C_sleepy, C_flip}"
    by (auto simp: log_inv_def lock_state_def)
  have s': "s' = s1\<lparr>lg_recur := 0, lg_count := 0, lg_owner := None, lg_notes := Suc (lg_notes s1)\<rparr>"
    using mv s1 cnt by (simp add: log_endl_def unlock_all Let_def)
  have same: "log_front s' = log_front s1" "log_back s' = log_back s1"
    by (simp_all add: s' log_front_def log_back_def)
  have "log_inv level out s' (msgs @ [(t, m)], None)"
    using m(2) same cnt
    by (auto simp: log_inv_def s' lock_state_def msg_text_def open_text_def intro: whole_more)
  with m(1) show ?thesis by (rule that)
qed

text \<open>A file or terminal that takes a whole write; \<open>out\<close> is what it has received.\<close>

definition takes_all :: "('k, 'z) posix_scheme \<Rightarrow> int \<Rightarrow> ('k \<Rightarrow> string) \<Rightarrow> bool" where
  "takes_all sys fd out \<longleftrightarrow> (\<forall>k bs. out (snd (px_write sys k fd bs)) = out k @ bs)"

lemma consumer_writes:
  assumes k: "takes_all sys level out" and inv: "log_inv level out s (msgs, op)" and c: "lg_cpc s = C_write p"
    and mv: "log_consume sys s = Some s'"
  shows "log_inv level out s' (msgs, op)"
proof -
  obtain f b where fb: "lg_curr s < 2" "lg_bufs s ! lg_curr s = f" "lg_bufs s ! (1 - lg_curr s) = b" "buf_ok f"
      "buf_ok b" "length (lg_bufs s) = 2" "log_front s = contents f" "log_back s = contents b"
    using inv by (rule log_invE)
  have p: "p = 1 - lg_curr s" and lvl: "lg_level s = level"
    using inv c by (auto simp: log_inv_def)
  show ?thesis
  proof (cases "contents b = []")
    case True
    then have "buf_size b = 0"
      using fb(5) by (simp add: buf_ok_size)
    then have "s' = s\<lparr>lg_cpc := C_test\<rparr>"
      using mv c p fb(3) by (simp add: log_consume_def Let_def)
    with True fb(8) inv c show ?thesis
      by (auto simp: log_inv_def lock_state_def log_front_def log_back_def split: option.splits)
  next
    case False
    then have sz: "buf_size b = int (length (contents b))" "buf_size b \<noteq> 0"
      using fb(5) by (simp_all add: buf_ok_size)
    obtain b' where b': "clear b = Inr b'" "buf_ok b'" "contents b' = []"
      using clear_ok [OF fb(5)] by blast
    obtain r k' where wr: "px_write sys (lg_k s) level (contents b) = (r, k')"
      by fastforce
    then have out: "out k' = out (lg_k s) @ contents b"
      using k unfolding takes_all_def by (metis snd_conv)
    have s': "s' = set_buf p b' (s\<lparr>lg_cpc := C_test, lg_k := k'\<rparr>)"
      using mv c p fb(3) rawbuf_ok [OF fb(5)] b'(1) sz wr by (simp add: log_consume_def Let_def lvl)
    have pl: "p < 2" and pc: "1 - p = lg_curr s"
      using p fb(1) by auto
    have fr: "log_front s' = contents f" "log_back s' = []"
      using two_update [of "lg_bufs s" p b'] pl pc fb(2,6) b'(3) p
      by (simp_all add: s' set_buf_def log_front_def log_back_def)
    have bufs: "\<exists>b0 b1. lg_bufs s' = [b0, b1] \<and> buf_ok b0 \<and> buf_ok b1"
      by (rule two_list [of _ p])
         (use two_update [of "lg_bufs s" p b'] pl pc fb b' in \<open>simp_all add: s' set_buf_def\<close>)
    show ?thesis
      using inv fr bufs fb(7,8) out c
      by (auto simp: log_inv_def s' set_buf_def lock_state_def split: option.splits)
  qed
qed

lemma log_consume_sim:
  assumes k: "takes_all sys level out" and inv: "log_inv level out s (msgs, op)"
    and mv: "log_consume sys s = Some s'"
  shows "log_inv level out s' (msgs, op)"
proof -
  obtain f b where fb: "lg_curr s < 2" "lg_bufs s ! lg_curr s = f" "lg_bufs s ! (1 - lg_curr s) = b"
      "cur_size s = int (length (contents f))" "log_front s = contents f" "log_back s = contents b"
    using inv by (rule log_invE)
  note defs = log_inv_def lock_state_def log_front_def log_back_def
  show ?thesis
  proof (cases "lg_cpc s")
    case C_test
    with mv have "s' = s\<lparr>lg_cpc := (if lg_stop s then C_done else C_lock)\<rparr>"
      by (simp add: log_consume_def)
    with inv C_test show ?thesis by (auto simp: defs split: option.splits)
  next
    case C_lock
    then have none: "op = None" "lg_owner s = None" "lg_count s = 0"
      using inv mv by (auto simp: log_consume_def lock_by_def defs split: option.splits if_splits)
    have "s' = s\<lparr>lg_owner := Some Consumer, lg_count := 1, lg_cpc := (if cur_size s = 0 then C_pred else C_flip)\<rparr>"
      using mv C_lock none by (simp add: log_consume_def lock_by_def cur_size_def cur_buf_def)
    with inv C_lock none show ?thesis by (auto simp: defs)
  next
    case C_pred
    with mv have s': "s' = s\<lparr>lg_cpc := (if cur_size s \<noteq> 0 \<or> lg_stop s then C_flip else C_sleepy)\<rparr>"
      by (simp add: log_consume_def)
    have "cur_size s = 0 \<Longrightarrow> log_front s = []"
      using fb by simp
    with s' inv C_pred show ?thesis by (auto simp: defs split: option.splits)
  next
    case C_sleepy
    with mv inv show ?thesis
      by (auto simp: log_consume_def unlock_one_def Let_def defs split: option.splits)
  next
    case C_asleep
    with mv show ?thesis by (simp add: log_consume_def)
  next
    case C_woken
    then have none: "op = None" "lg_owner s = None" "lg_count s = 0"
      using inv mv by (auto simp: log_consume_def lock_by_def defs split: option.splits if_splits)
    have "s' = s\<lparr>lg_owner := Some Consumer, lg_count := 1, lg_cpc := C_pred\<rparr>"
      using mv C_woken none by (simp add: log_consume_def lock_by_def)
    with inv C_woken none show ?thesis by (auto simp: defs)
  next
    case C_flip
    then have none: "op = None" "lg_count s = 1"
      using inv by (auto simp: defs split: option.splits)
    have s': "s' = s\<lparr>lg_cpc := C_write (lg_curr s), lg_curr := 1 - lg_curr s, lg_count := 0, lg_owner := None\<rparr>"
      using mv C_flip none by (simp add: log_consume_def unlock_one_def Let_def)
    have fr: "log_back s' = log_front s" "log_front s' = log_back s"
      using fb(1) by (auto simp: s' log_front_def log_back_def less_2_cases_iff)
    have "log_back s = []" "out (lg_k s) @ log_front s = msg_text msgs"
      using inv C_flip none by (auto simp: log_inv_def open_text_def)
    then show ?thesis
      using inv C_flip none fr fb(1) whole_all [of msgs]
      by (auto simp: log_inv_def lock_state_def s' open_text_def)
  next
    case C_write
    show ?thesis by (rule consumer_writes [OF k inv C_write mv])
  next
    case C_done
    with mv show ?thesis by (simp add: log_consume_def)
  qed
qed

lemma log_wake_inv:
  assumes inv: "log_inv level out s (msgs, op)"
  shows "log_inv level out (log_wake s) (msgs, op)"
proof (cases "lg_cpc s = C_asleep")
  case True
  then have w: "log_wake s = s\<lparr>lg_cpc := C_woken\<rparr>"
    by (simp add: log_wake_def)
  show ?thesis
    unfolding w using inv True by (auto simp: log_inv_def lock_state_def log_front_def log_back_def split: option.splits)
qed (use inv in \<open>simp add: log_wake_def\<close>)

lemma log_frame [simp]:
  "lock_state (s\<lparr>lg_notes := n\<rparr>) op = lock_state s op" "lock_state (s\<lparr>lg_stop := b\<rparr>) op = lock_state s op"
  "lock_state (s\<lparr>lg_dpc := d\<rparr>) op = lock_state s op"
  "log_front (s\<lparr>lg_notes := n\<rparr>) = log_front s" "log_front (s\<lparr>lg_stop := b\<rparr>) = log_front s"
  "log_front (s\<lparr>lg_dpc := d\<rparr>) = log_front s"
  "log_back (s\<lparr>lg_notes := n\<rparr>) = log_back s" "log_back (s\<lparr>lg_stop := b\<rparr>) = log_back s"
  "log_back (s\<lparr>lg_dpc := d\<rparr>) = log_back s"
  by (cases op; simp add: lock_state_def log_front_def log_back_def)+

lemma log_frame_inv:
  assumes "log_inv level out s (msgs, op)" and "lg_cpc s \<noteq> C_asleep"
  shows "log_inv level out (s\<lparr>lg_notes := n\<rparr>) (msgs, op)"
  using assms by (simp add: log_inv_def)

lemma log_stop_inv:
  assumes "log_inv level out s (msgs, op)"
  shows "log_inv level out (s\<lparr>lg_stop := True, lg_dpc := d\<rparr>) (msgs, op)"
    and "log_inv level out (s\<lparr>lg_dpc := d\<rparr>) (msgs, op)"
proof -
  have "lock_state (s\<lparr>lg_stop := True, lg_dpc := d\<rparr>) op = lock_state s op"
    "log_front (s\<lparr>lg_stop := True, lg_dpc := d\<rparr>) = log_front s" "log_back (s\<lparr>lg_stop := True, lg_dpc := d\<rparr>) = log_back s"
    by (cases op; simp add: lock_state_def log_front_def log_back_def)+
  with assms show "log_inv level out (s\<lparr>lg_stop := True, lg_dpc := d\<rparr>) (msgs, op)"
    by (simp add: log_inv_def)
qed (use assms in \<open>simp add: log_inv_def\<close>)

lemma log_notify_sim:
  assumes inv: "log_inv level out s (msgs, op)" and mv: "log_notify s = Some s'"
  shows "log_inv level out s' (msgs, op)"
proof (cases "lg_cpc s = C_asleep")
  case True
  then have "s' = log_wake s\<lparr>lg_notes := lg_notes s - 1\<rparr>" "lg_cpc (log_wake s) \<noteq> C_asleep"
    using mv by (auto simp: log_notify_def log_wake_def split: if_splits)
  then show ?thesis
    using log_frame_inv [OF log_wake_inv [OF inv]] by simp
next
  case False
  then have "s' = s\<lparr>lg_notes := lg_notes s - 1\<rparr>"
    using mv by (auto simp: log_notify_def log_wake_def split: if_splits)
  then show ?thesis
    using log_frame_inv [OF inv False] by simp
qed

lemma log_destroy_sim:
  assumes inv: "log_inv level out s (msgs, op)" and mv: "log_destroy s = Some s'"
  shows "log_inv level out s' (msgs, op)"
  using mv log_stop_inv [OF inv] log_wake_inv [OF log_stop_inv(2) [OF inv]]
  by (auto simp: log_destroy_def split: destructor_pc.splits if_splits)

lemma log_move_sim:
  assumes k: "takes_all sys level out" and inv: "log_inv level out s a" and fits: "event_fits level e"
    and mv: "log_move sys e s = Some s'"
  shows "\<exists>a'. log_spec level e a = Some a' \<and> log_inv level out s' a'"
proof -
  obtain msgs op where a: "a = (msgs, op)" by fastforce
  note inv = inv [unfolded a]
  show ?thesis
  proof (cases e)
    case (Piece t ts tid str)
    with mv have "log_piece t ts tid str s = Some s'" by simp
    from log_piece_sim [OF inv this fits [unfolded Piece]] obtain m
      where "compose level t ts tid str op = Some m" "log_inv level out s' (msgs, Some (t, m))" .
    then show ?thesis by (simp add: a Piece)
  next
    case (Endl t ts tid)
    with mv have "log_endl t ts tid s = Some s'" by simp
    from log_endl_sim [OF inv this fits [unfolded Endl]] obtain m
      where "compose level t ts tid [CHR 0x0A] op = Some m" "log_inv level out s' (msgs @ [(t, m)], None)" .
    then show ?thesis by (simp add: a Endl)
  next
    case Consume
    with mv log_consume_sim [OF k inv] show ?thesis by (simp add: a)
  next
    case Notify
    with mv log_notify_sim [OF inv] show ?thesis by (simp add: a)
  next
    case Spurious
    with mv log_wake_inv [OF inv] show ?thesis by (simp add: a split: if_splits)
  next
    case Destroy
    with mv log_destroy_sim [OF inv] show ?thesis by (simp add: a)
  qed
qed

lemma log_run_sim:
  assumes k: "takes_all sys level out" and "log_inv level out s a" and "list_all (event_fits level) es"
    and "log_run sys es s = Some s'"
  shows "\<exists>a'. spec_run level es a = Some a' \<and> log_inv level out s' a'"
  using assms(2-)
proof (induction es arbitrary: s a)
  case (Cons e es)
  then obtain s1 where s1: "log_move sys e s = Some s1" "log_run sys es s1 = Some s'"
    by (auto split: option.splits)
  obtain a1 where a1: "log_spec level e a = Some a1" "log_inv level out s1 a1"
    using log_move_sim [OF k Cons.prems(1) _ s1(1)] Cons.prems(2) by auto
  with Cons.IH [OF a1(2) _ s1(2)] Cons.prems(2) show ?case by simp
qed auto

lemma logger_new_inv:
  assumes "0 \<le> level" and "logger_new level k = Inr s" and "out k = []"
  shows "log_inv level out s ([], None)" and "\<not> lg_stop s" and "lg_notes s = 0"
proof -
  obtain b where b: "buffer_default = Inr b"
    using assms(2) by (auto simp: logger_new_def rbind_eq_Inr)
  have s: "s = \<lparr>lg_level = level, lg_stop = False, lg_owner = None, lg_count = 0, lg_curr = 0, lg_recur = 0,
      lg_bufs = [b, b], lg_cpc = C_test, lg_dpc = D_idle, lg_notes = 0, lg_k = k\<rparr>"
    using assms(1) assms(2) [unfolded logger_new_def b rbind_Inr] by auto
  show "log_inv level out s ([], None)" "\<not> lg_stop s" "lg_notes s = 0"
    using default_ok [OF b] assms(3) whole_all [of "[]"]
    by (simp_all add: s log_inv_def lock_state_def log_front_def log_back_def msg_text_def open_text_def)
qed

section \<open>The logger's thread empties the buffers\<close>

fun drain_rank :: "consumer_pc \<Rightarrow> bool \<Rightarrow> nat" where
  "drain_rank (C_write p) e = (if e then 1 else 6)"
| "drain_rank C_test e = 5"
| "drain_rank C_lock e = 4"
| "drain_rank C_woken e = 4"
| "drain_rank C_pred e = 3"
| "drain_rank C_flip e = 2"
| "drain_rank c e = 0"

definition flushed :: "'k logger \<Rightarrow> bool" where
  "flushed s \<longleftrightarrow> log_front s = [] \<and> log_back s = []"

lemma consume_progress:
  assumes inv: "log_inv level out s (msgs, None)" and go: "\<not> lg_stop s" "lg_notes s = 0" and busy: "\<not> flushed s"
  shows "\<exists>s'. log_consume sys s = Some s' \<and> \<not> lg_stop s' \<and> lg_notes s' = 0 \<and>
           (flushed s' \<or> drain_rank (lg_cpc s') (log_front s' = []) < drain_rank (lg_cpc s) (log_front s = []))"
proof -
  obtain f b where fb: "lg_curr s < 2" "lg_bufs s ! lg_curr s = f" "lg_bufs s ! (1 - lg_curr s) = b" "buf_ok f"
      "buf_ok b" "length (lg_bufs s) = 2" "cur_size s = int (length (contents f))"
      "log_front s = contents f" "log_back s = contents b"
    using inv by (rule log_invE)
  note defs = log_inv_def lock_state_def log_front_def log_back_def
  have rear: "back_ok (lg_cpc s) (lg_curr s) (log_back s)" and front: "lg_cpc s \<in> {C_sleepy, C_asleep} \<Longrightarrow> log_front s = []"
    and nd: "lg_cpc s \<noteq> C_done"
    using inv go by (auto simp: log_inv_def)
  show ?thesis
  proof (cases "lg_cpc s")
    case (C_write p)
    with rear have p: "p = 1 - lg_curr s" by simp
    obtain b' where b': "clear b = Inr b'" "buf_ok b'" "contents b' = []"
      using clear_ok [OF fb(5)] by blast
    show ?thesis
      using C_write p fb(1,2,3,6,8,9) go rawbuf_ok [OF fb(5)] b' busy
      by (auto simp: log_consume_def Let_def set_buf_def log_front_def log_back_def flushed_def buf_ok_size [OF fb(5)]
          less_2_cases_iff split: prod.splits)
  next
    case C_flip
    then show ?thesis
      using fb(1) go rear by (auto simp: log_consume_def unlock_one_def Let_def log_front_def log_back_def less_2_cases_iff)
  next
    case C_lock
    then have "lg_owner s = None" using inv by (simp add: defs)
    with C_lock go show ?thesis by (simp add: log_consume_def lock_by_def)
  next
    case C_woken
    then have "lg_owner s = None" using inv by (simp add: defs)
    with C_woken go show ?thesis by (simp add: log_consume_def lock_by_def)
  next
    case C_pred
    with rear busy fb have "cur_size s \<noteq> 0" by (auto simp: flushed_def)
    with C_pred go show ?thesis by (simp add: log_consume_def)
  qed (use go rear front nd busy in \<open>auto simp: log_consume_def flushed_def\<close>)
qed

lemma consume_drains:
  assumes k: "takes_all sys level out"
  shows "log_inv level out s (msgs, None) \<Longrightarrow> \<not> lg_stop s \<Longrightarrow> lg_notes s = 0 \<Longrightarrow>
     \<exists>n s'. n \<le> drain_rank (lg_cpc s) (log_front s = []) \<and> log_run sys (replicate n Consume) s = Some s' \<and>
       flushed s' \<and> log_inv level out s' (msgs, None)"
proof (induction "drain_rank (lg_cpc s) (log_front s = [])" arbitrary: s rule: less_induct)
  case less
  show ?case
  proof (cases "flushed s")
    case True
    with less.prems(1) show ?thesis by (intro exI [of _ 0]) simp
  next
    case False
    obtain s1 where s1: "log_consume sys s = Some s1" "\<not> lg_stop s1" "lg_notes s1 = 0"
        "flushed s1 \<or> drain_rank (lg_cpc s1) (log_front s1 = []) < drain_rank (lg_cpc s) (log_front s = [])"
      using consume_progress [OF less.prems False] by blast
    have inv1: "log_inv level out s1 (msgs, None)"
      using log_consume_sim [OF k less.prems(1) s1(1)] .
    have pos: "0 < drain_rank (lg_cpc s) (log_front s = [])"
      using False less.prems by (cases "lg_cpc s") (auto simp: log_inv_def flushed_def)
    show ?thesis
    proof (cases "flushed s1")
      case True
      with inv1 s1(1) pos show ?thesis by (intro exI [of _ 1]) simp
    next
      case False
      with s1(4) obtain n s' where "n < drain_rank (lg_cpc s) (log_front s = [])"
          "log_run sys (replicate n Consume) s1 = Some s'" "flushed s'" "log_inv level out s' (msgs, None)"
        using less.hyps [OF _ inv1 s1(2,3)] False by (meson le_less_trans)
      with s1(1) show ?thesis by (intro exI [of _ "Suc n"]) simp
    qed
  qed
qed

section \<open>A sample run\<close>

definition plain_file :: "string posix" where
  "plain_file = \<lparr>px_getfl = \<lambda>k fd. (Inr 0, k), px_setfl = \<lambda>k fd fl. (None, k), px_nonblock = 2048,
     px_close = \<lambda>k fd. k, px_read = \<lambda>k fd n. (Inr [], k), px_write = \<lambda>k fd bs. (Inr (int (length bs)), k @ bs)\<rparr>"

definition two_messages :: "log_event list" where
  "two_messages =
     [Consume, Piece 0 ''T'' 7 ''a'', Endl 0 ''T'' 7, Consume, Notify, Consume, Consume, Piece 1 ''U'' 12 ''b'',
      Endl 1 ''U'' 12, Notify]"

definition sample_log :: "string logger" where
  "sample_log = (case logger_new 1 [] of Inr s \<Rightarrow> s)"

lemma sample_run:
  "map_option (\<lambda>s. (lg_k s, log_front s, lg_stop s, lg_notes s)) (log_run plain_file two_messages sample_log)
     = Some (''- [INFO] [T] [LWP 7] a'' @ [CHR 0x0A], ''- [INFO] [U] [LWP 12] b'' @ [CHR 0x0A], False, 0)"
  by code_simp

lemma sample_spec:
  "spec_run 1 two_messages ([], None)
     = Some ([(0, ''- [INFO] [T] [LWP 7] a'' @ [CHR 0x0A]), (1, ''- [INFO] [U] [LWP 12] b'' @ [CHR 0x0A])], None)"
  by code_simp

lemma sample_new: "logger_new 1 [] = Inr sample_log"
  by (simp add: sample_log_def logger_new_def buffer_default_def buffer_new_def)

lemma sample_file: "takes_all plain_file fd (\<lambda>k. k)"
  by (simp add: takes_all_def plain_file_def)

lemma sample_fits: "list_all (event_fits 1) two_messages"
  by code_simp

section \<open>Properties\<close>

text \<open>C18. However the threads, the logger's thread and the destructor interleave, what reaches the file
  is a sequence of complete messages in the order of their \<open>endl\<close>, each the header and the pieces of
  one thread: no piece of another thread gets into it. No byte is lost or doubled: the output, the
  buffer being written and the buffer being filled hold exactly the finished messages and the one
  still open. The file is assumed to take whole writes.\<close>

theorem logger_whole_messages:
  assumes "takes_all sys level out" and "0 \<le> level" and "logger_new level k = Inr s0" and "out k = []"
    and "list_all (event_fits level) es" and "log_run sys es s0 = Some s"
  shows "\<exists>msgs op. spec_run level es ([], None) = Some (msgs, op) \<and> whole msgs (out (lg_k s)) \<and>
           out (lg_k s) @ log_back s @ log_front s = msg_text msgs @ open_text op"
proof -
  obtain msgs op where "spec_run level es ([], None) = Some (msgs, op)" "log_inv level out s (msgs, op)"
    using log_run_sim [OF assms(1) logger_new_inv(1) [OF assms(2,3), of out] assms(5,6)] assms(4) by fastforce
  then show ?thesis by (auto simp: log_inv_def)
qed

theorem logger_whole_messages_witness:
  "\<exists>s msgs op. log_run plain_file two_messages sample_log = Some s \<and>
     spec_run 1 two_messages ([], None) = Some (msgs, op) \<and> whole msgs (lg_k s) \<and> lg_k s \<noteq> [] \<and>
     lg_k s @ log_back s @ log_front s = msg_text msgs @ open_text op"
proof -
  obtain s where "log_run plain_file two_messages sample_log = Some s" "lg_k s \<noteq> []"
    using sample_run by (auto simp del: two_messages_def)
  then show ?thesis
    using logger_whole_messages [OF sample_file _ sample_new _ sample_fits, of s] by auto
qed

text \<open>No wake-up is lost: when no message is open, every \<open>endl\<close> has notified and nothing stops the
  logger, at most six steps of the logger's thread write everything that was logged.\<close>

theorem logger_drains:
  assumes "takes_all sys level out" and "0 \<le> level" and "logger_new level k = Inr s0" and "out k = []"
    and "list_all (event_fits level) es" and "log_run sys es s0 = Some s"
    and "spec_run level es ([], None) = Some (msgs, None)" and "\<not> lg_stop s" and "lg_notes s = 0"
  shows "\<exists>n s'. n \<le> 6 \<and> log_run sys (replicate n Consume) s = Some s' \<and> out (lg_k s') = msg_text msgs"
proof -
  have inv: "log_inv level out s (msgs, None)"
    using log_run_sim [OF assms(1) logger_new_inv(1) [OF assms(2,3), of out] assms(5,6)] assms(4,7) by fastforce
  have "drain_rank c e \<le> 6" for c e
    by (cases c) auto
  then obtain n s' where n: "n \<le> 6" "log_run sys (replicate n Consume) s = Some s'" "flushed s'"
      "log_inv level out s' (msgs, None)"
    using consume_drains [OF assms(1) inv assms(8,9)] le_trans by blast
  then have "out (lg_k s') = msg_text msgs"
    by (simp add: log_inv_def flushed_def open_text_def)
  with n show ?thesis by blast
qed

theorem logger_drains_witness:
  "\<exists>s n s'. log_run plain_file two_messages sample_log = Some s \<and> n \<le> 6 \<and>
     log_run plain_file (replicate n Consume) s = Some s' \<and>
     lg_k s' = ''- [INFO] [T] [LWP 7] a'' @ [CHR 0x0A] @ ''- [INFO] [U] [LWP 12] b'' @ [CHR 0x0A]"
proof -
  obtain s where s: "log_run plain_file two_messages sample_log = Some s" "\<not> lg_stop s" "lg_notes s = 0"
    using sample_run by auto
  then show ?thesis
    using logger_drains [OF sample_file _ sample_new _ sample_fits s(1) sample_spec s(2,3)]
    by (auto simp: msg_text_def)
qed

text \<open>C37. Stopping is not safe. The destructor sets \<open>stop_\<close> and notifies without the lock: when this
  happens between the predicate and the sleep of the logger's thread, the thread sleeps for ever and
  the destructor never returns (only a spurious wake-up could help). And when the thread sees
  \<open>stop_\<close> at the head of its loop, the messages in the buffer are never written.\<close>

theorem logger_shutdown_faults:
  fixes sys :: "(string, 'z) posix_scheme"
  shows "\<exists>s0 s1 s2. logger_new 1 k = Inr s0 \<and>
     log_run sys [Consume, Consume, Consume, Destroy, Destroy, Consume] s0 = Some s1 \<and>
     lg_cpc s1 = C_asleep \<and> lg_dpc s1 = D_join \<and>
     log_move sys Consume s1 = None \<and> log_move sys Destroy s1 = None \<and> log_move sys Notify s1 = None \<and>
     log_run sys [Piece 0 [] 7 ''a'', Endl 0 [] 7, Notify, Destroy, Destroy, Consume, Destroy] s0 = Some s2 \<and>
     lg_dpc s2 = D_done \<and> lg_k s2 = k \<and> log_front s2 = ''- [INFO] [] [LWP 7] a'' @ [CHR 0x0A]"
proof -
  obtain s0 where s0: "logger_new 1 k = Inr s0"
    by (simp add: logger_new_def buffer_default_def buffer_new_def)
  have "map_option (\<lambda>s. (lg_cpc s, lg_dpc s, lg_notes s))
      (log_run sys [Consume, Consume, Consume, Destroy, Destroy, Consume] (projr (logger_new 1 k)))
      = Some (C_asleep, D_join, 0)"
    by code_simp
  then obtain s1 where s1: "log_run sys [Consume, Consume, Consume, Destroy, Destroy, Consume] s0 = Some s1"
      "lg_cpc s1 = C_asleep" "lg_dpc s1 = D_join" "lg_notes s1 = 0"
    unfolding s0 by auto
  have "map_option (\<lambda>s. (lg_dpc s, lg_k s, log_front s))
      (log_run sys [Piece 0 [] 7 ''a'', Endl 0 [] 7, Notify, Destroy, Destroy, Consume, Destroy] (projr (logger_new 1 k)))
      = Some (D_done, k, ''- [INFO] [] [LWP 7] a'' @ [CHR 0x0A])"
    by code_simp
  then obtain s2 where "log_run sys [Piece 0 [] 7 ''a'', Endl 0 [] 7, Notify, Destroy, Destroy, Consume, Destroy] s0 = Some s2"
      "lg_dpc s2 = D_done" "lg_k s2 = k" "log_front s2 = ''- [INFO] [] [LWP 7] a'' @ [CHR 0x0A]"
    unfolding s0 by auto
  with s0 s1 show ?thesis
    by (intro exI [of _ s0] exI [of _ s1] exI [of _ s2])
       (simp add: log_consume_def log_destroy_def log_notify_def)
qed

end
