(* ===== verification/Ipc.thy ===== *)
theory Ipc
  imports Prelude
begin

text \<open>
  Shared memory and named semaphores (\<open>src/src/include/cppev/ipc.h\<close>, \<open>src/src/lib/ipc.cc\<close>). Other
  processes run between any two system calls of a constructor, so the constructors are step
  functions: one system call a step. The kernel is a parameter; a descriptor stands for the open
  file description, which is never reused.
\<close>

section \<open>Open an existing object or create it\<close>

text \<open>The three attempts both constructors make; \<open>Opened d c\<close> says whether the object was created.\<close>

datatype 'd open_pc = First | Exclusive | Again | Opened 'd bool | Denied errno

fun open_step ::
  "('k \<Rightarrow> (errno + 'd) \<times> 'k) \<Rightarrow> ('k \<Rightarrow> (errno + 'd) \<times> 'k) \<Rightarrow> 'd open_pc \<Rightarrow> 'k \<Rightarrow> 'd open_pc \<times> 'k"
where
  "open_step opn crt First k =
     (case opn k of
        (Inr d, k) \<Rightarrow> (Opened d False, k)
      | (Inl e, k) \<Rightarrow> (if e = ENOENT then Exclusive else Denied e, k))"
| "open_step opn crt Exclusive k =
     (case crt k of
        (Inr d, k) \<Rightarrow> (Opened d True, k)
      | (Inl e, k) \<Rightarrow> (if e = EEXIST then Again else Denied e, k))"
| "open_step opn crt Again k =
     (case opn k of (Inr d, k) \<Rightarrow> (Opened d False, k) | (Inl e, k) \<Rightarrow> (Denied e, k))"
| "open_step opn crt p k = (p, k)"

section \<open>Shared memory\<close>

record ('d, 'k) shm_api =
  sm_open :: "'k \<Rightarrow> string \<Rightarrow> nat \<Rightarrow> (errno + 'd) \<times> 'k"
  sm_create :: "'k \<Rightarrow> string \<Rightarrow> nat \<Rightarrow> (errno + 'd) \<times> 'k"
  sm_truncate :: "'k \<Rightarrow> 'd \<Rightarrow> int \<Rightarrow> errno option \<times> 'k"
  sm_map :: "'k \<Rightarrow> 'd \<Rightarrow> int \<Rightarrow> (errno + nat) \<times> 'k"
  sm_close :: "'k \<Rightarrow> 'd \<Rightarrow> 'k"
  sm_zero :: "'k \<Rightarrow> nat \<Rightarrow> int \<Rightarrow> 'k"
  sm_unmap :: "'k \<Rightarrow> nat \<Rightarrow> int \<Rightarrow> 'k"
  sm_unlink :: "'k \<Rightarrow> string \<Rightarrow> errno option \<times> 'k"

datatype 'd shm_pc =
    S_open "'d open_pc" | S_truncate 'd | S_map 'd | S_close 'd | S_zero | S_ready | S_threw fault

text \<open>The members, the argument \<open>mode\<close> and the control point of the constructor.\<close>

record 'd shm =
  sh_name :: string
  sh_size :: int
  sh_ptr :: "nat option"
  sh_creator :: bool
  sh_mode :: nat
  sh_pc :: "'d shm_pc"

definition shm_begin :: "string \<Rightarrow> int \<Rightarrow> nat \<Rightarrow> 'd shm" where
  "shm_begin name sz mode =
     \<lparr>sh_name = name, sh_size = sz, sh_ptr = None, sh_creator = False, sh_mode = mode, sh_pc = S_open First\<rparr>"

definition shm_step :: "('d, 'k) shm_api \<Rightarrow> 'd shm \<times> 'k \<Rightarrow> 'd shm \<times> 'k" where
  "shm_step api sk =
     (case sk of (s, k) \<Rightarrow>
      case sh_pc s of
        S_open p \<Rightarrow>
          (case open_step (\<lambda>k. sm_open api k (sh_name s) (sh_mode s)) (\<lambda>k. sm_create api k (sh_name s) (sh_mode s)) p k of
             (Opened d c, k) \<Rightarrow> (s\<lparr>sh_creator := c, sh_pc := (if c then S_truncate d else S_map d)\<rparr>, k)
           | (Denied e, k) \<Rightarrow> (s\<lparr>sh_pc := S_threw (System_error ''shm_open error'' e)\<rparr>, k)
           | (p, k) \<Rightarrow> (s\<lparr>sh_pc := S_open p\<rparr>, k))
      | S_truncate d \<Rightarrow>
          (case sm_truncate api k d (sh_size s) of
             (None, k) \<Rightarrow> (s\<lparr>sh_pc := S_map d\<rparr>, k)
           | (Some e, k) \<Rightarrow> (s\<lparr>sh_pc := S_threw (System_error ''ftruncate error'' e)\<rparr>, k))
      | S_map d \<Rightarrow>
          (case sm_map api k d (sh_size s) of
             (Inr p, k) \<Rightarrow> (s\<lparr>sh_ptr := Some p, sh_pc := S_close d\<rparr>, k)
           | (Inl e, k) \<Rightarrow> (s\<lparr>sh_pc := S_threw (System_error ''mmap error'' e)\<rparr>, k))
      | S_close d \<Rightarrow> (s\<lparr>sh_pc := (if sh_creator s then S_zero else S_ready)\<rparr>, sm_close api k d)
      | S_zero \<Rightarrow>
          (s\<lparr>sh_pc := S_ready\<rparr>, case sh_ptr s of None \<Rightarrow> k | Some p \<Rightarrow> sm_zero api k p (sh_size s))
      | _ \<Rightarrow> (s, k))"

definition shm_final :: "'d shm \<Rightarrow> bool" where
  "shm_final s \<longleftrightarrow> (case sh_pc s of S_ready \<Rightarrow> True | S_threw e \<Rightarrow> True | _ \<Rightarrow> False)"

text \<open>The constructor of a process that is not interrupted takes at most six system calls.\<close>

definition shared_memory_new :: "('d, 'k) shm_api \<Rightarrow> string \<Rightarrow> int \<Rightarrow> nat \<Rightarrow> 'k \<Rightarrow> 'd shm \<times> 'k" where
  "shared_memory_new api name sz mode k = (shm_step api ^^ 6) (shm_begin name sz mode, k)"

definition shm_destroy :: "('d, 'k) shm_api \<Rightarrow> 'd shm \<Rightarrow> 'k \<Rightarrow> 'k" where
  "shm_destroy api s k =
     (case sh_ptr s of None \<Rightarrow> k | Some p \<Rightarrow> if sh_size s \<noteq> 0 then sm_unmap api k p (sh_size s) else k)"

definition shm_unlink :: "('d, 'k) shm_api \<Rightarrow> 'd shm \<Rightarrow> 'k \<Rightarrow> 'k \<times> unit res" where
  "shm_unlink api s k =
     (if sh_name s = [] then (k, Inr ())
      else case sm_unlink api k (sh_name s) of
        (None, k) \<Rightarrow> (k, Inr ())
      | (Some e, k) \<Rightarrow> (k, Inl (System_error ''shm_unlink error'' e)))"

text \<open>\<open>move\<close>, of both the move constructor and the move assignment; \<open>same\<close> is the test \<open>&other == this\<close>.\<close>

definition shm_move :: "bool \<Rightarrow> 'd shm \<Rightarrow> 'd shm \<Rightarrow> 'd shm \<times> 'd shm" where
  "shm_move same this other =
     (if same then (this, other)
      else (this\<lparr>sh_name := sh_name other, sh_size := sh_size other, sh_ptr := sh_ptr other, sh_creator := sh_creator other\<rparr>,
            other\<lparr>sh_name := [], sh_size := 0, sh_ptr := None, sh_creator := False\<rparr>))"

section \<open>Semaphores\<close>

text \<open>\<open>se_wait\<close> has no result when it would block.\<close>

record ('d, 'k) sem_api =
  se_open :: "'k \<Rightarrow> string \<Rightarrow> (errno + 'd) \<times> 'k"
  se_create :: "'k \<Rightarrow> string \<Rightarrow> nat \<Rightarrow> nat \<Rightarrow> (errno + 'd) \<times> 'k"
  se_wait :: "'k \<Rightarrow> 'd \<Rightarrow> (errno option \<times> 'k) option"
  se_trywait :: "'k \<Rightarrow> 'd \<Rightarrow> errno option \<times> 'k"
  se_post :: "'k \<Rightarrow> 'd \<Rightarrow> errno option \<times> 'k"
  se_close :: "'k \<Rightarrow> 'd \<Rightarrow> 'k"
  se_unlink :: "'k \<Rightarrow> string \<Rightarrow> errno option \<times> 'k"

text \<open>\<open>SEM_FAILED\<close> is \<open>None\<close>.\<close>

record 'd semaphore =
  sp_name :: string
  sp_sem :: "'d option"
  sp_creator :: bool

definition sem_open_step :: "('d, 'k) sem_api \<Rightarrow> string \<Rightarrow> nat \<Rightarrow> 'd open_pc \<times> 'k \<Rightarrow> 'd open_pc \<times> 'k" where
  "sem_open_step api name mode pk =
     (case pk of (p, k) \<Rightarrow>
        open_step (\<lambda>k. se_open api k name) (\<lambda>k. se_create api k name mode 0) p k)"

definition semaphore_new :: "('d, 'k) sem_api \<Rightarrow> string \<Rightarrow> nat \<Rightarrow> 'k \<Rightarrow> 'k \<times> 'd semaphore res" where
  "semaphore_new api name mode k =
     (case (sem_open_step api name mode ^^ 3) (First, k) of
        (Opened d c, k) \<Rightarrow> (k, Inr \<lparr>sp_name = name, sp_sem = Some d, sp_creator = c\<rparr>)
      | (Denied e, k) \<Rightarrow> (k, Inl (System_error ''sem_open error'' e))
      | (_, k) \<Rightarrow> (k, Inl Diverges))"

definition sem_destroy :: "('d, 'k) sem_api \<Rightarrow> 'd semaphore \<Rightarrow> 'k \<Rightarrow> 'k" where
  "sem_destroy api s k = (case sp_sem s of None \<Rightarrow> k | Some d \<Rightarrow> se_close api k d)"

definition try_acquire :: "('d, 'k) sem_api \<Rightarrow> 'd semaphore \<Rightarrow> 'k \<Rightarrow> 'k \<times> bool res" where
  "try_acquire api s k =
     (case sp_sem s of
        None \<Rightarrow> (k, Inl (Undefined Null_deref))
      | Some d \<Rightarrow>
          (case se_trywait api k d of
             (None, k) \<Rightarrow> (k, Inr True)
           | (Some e, k) \<Rightarrow>
               if e = EINTR \<or> e = EAGAIN then (k, Inr False) else (k, Inl (System_error ''sem_trywait error'' e))))"

fun acquire_loop :: "('d, 'k) sem_api \<Rightarrow> 'd \<Rightarrow> nat \<Rightarrow> 'k \<Rightarrow> ('k \<times> unit res) option" where
  "acquire_loop api d 0 k = Some (k, Inr ())"
| "acquire_loop api d (Suc n) k =
     (case se_wait api k d of
        None \<Rightarrow> None
      | Some (None, k) \<Rightarrow> acquire_loop api d n k
      | Some (Some e, k) \<Rightarrow> Some (k, Inl (System_error ''sem_wait error'' e)))"

definition acquire :: "('d, 'k) sem_api \<Rightarrow> 'd semaphore \<Rightarrow> int \<Rightarrow> 'k \<Rightarrow> ('k \<times> unit res) option" where
  "acquire api s cnt k =
     (case sp_sem s of
        None \<Rightarrow> if 0 < cnt then Some (k, Inl (Undefined Null_deref)) else Some (k, Inr ())
      | Some d \<Rightarrow> acquire_loop api d (nat cnt) k)"

fun release_loop :: "('d, 'k) sem_api \<Rightarrow> 'd \<Rightarrow> nat \<Rightarrow> 'k \<Rightarrow> 'k \<times> unit res" where
  "release_loop api d 0 k = (k, Inr ())"
| "release_loop api d (Suc n) k =
     (case se_post api k d of
        (None, k) \<Rightarrow> release_loop api d n k
      | (Some e, k) \<Rightarrow> (k, Inl (System_error ''sem_post error'' e)))"

definition release :: "('d, 'k) sem_api \<Rightarrow> 'd semaphore \<Rightarrow> int \<Rightarrow> 'k \<Rightarrow> 'k \<times> unit res" where
  "release api s cnt k =
     (case sp_sem s of
        None \<Rightarrow> if 0 < cnt then (k, Inl (Undefined Null_deref)) else (k, Inr ())
      | Some d \<Rightarrow> release_loop api d (nat cnt) k)"

definition sem_unlink :: "('d, 'k) sem_api \<Rightarrow> 'd semaphore \<Rightarrow> 'k \<Rightarrow> 'k \<times> unit res" where
  "sem_unlink api s k =
     (if sp_name s = [] then (k, Inr ())
      else case se_unlink api k (sp_name s) of
        (None, k) \<Rightarrow> (k, Inr ())
      | (Some e, k) \<Rightarrow> (k, Inl (System_error ''sem_unlink error'' e)))"

definition sem_move :: "bool \<Rightarrow> 'd semaphore \<Rightarrow> 'd semaphore \<Rightarrow> 'd semaphore \<times> 'd semaphore" where
  "sem_move same this other =
     (if same then (this, other) else (other, other\<lparr>sp_name := [], sp_sem := None, sp_creator := False\<rparr>))"

section \<open>Processes that open the same shared memory\<close>

text \<open>The processes of the list take steps in the order of a schedule.\<close>

definition shm_turn :: "('d, 'k) shm_api \<Rightarrow> nat \<Rightarrow> 'd shm list \<times> 'k \<Rightarrow> 'd shm list \<times> 'k" where
  "shm_turn api i x =
     (case x of (ps, k) \<Rightarrow>
        if i < length ps then case shm_step api (ps ! i, k) of (s, k) \<Rightarrow> (ps[i := s], k) else (ps, k))"

definition shm_run :: "('d, 'k) shm_api \<Rightarrow> nat list \<Rightarrow> 'd shm list \<times> 'k \<Rightarrow> 'd shm list \<times> 'k" where
  "shm_run api sched x = fold (shm_turn api) sched x"

definition creators :: "'d shm list \<Rightarrow> nat set" where
  "creators ps = {i. i < length ps \<and> sh_creator (ps ! i)}"

text \<open>
  The contract of the kernel for one name: \<open>mem k\<close> is the object of that name, \<open>desig\<close> the
  descriptions that refer to it and \<open>area\<close> the addresses it is mapped at.
\<close>

definition shm_kernel ::
  "('d, 'k) shm_api \<Rightarrow> string \<Rightarrow> nat \<Rightarrow> ('d \<Rightarrow> bool) \<Rightarrow> (nat \<Rightarrow> bool) \<Rightarrow> ('k \<Rightarrow> char list option) \<Rightarrow> bool"
where
  "shm_kernel api name mode desig area mem \<longleftrightarrow>
     (\<forall>k. case sm_open api k name mode of
            (Inr d, k') \<Rightarrow> desig d \<and> mem k \<noteq> None \<and> mem k' = mem k
          | (Inl e, k') \<Rightarrow> mem k' = mem k \<and> (e = ENOENT \<longrightarrow> mem k = None)) \<and>
     (\<forall>k. case sm_create api k name mode of
            (Inr d, k') \<Rightarrow> desig d \<and> mem k = None \<and> mem k' = Some []
          | (Inl e, k') \<Rightarrow> mem k' = mem k \<and> e \<noteq> ENOENT \<and> (e = EEXIST \<longrightarrow> mem k \<noteq> None)) \<and>
     (\<forall>k d n. desig d \<longrightarrow>
        (case sm_truncate api k d n of
           (None, k') \<Rightarrow> mem k' = map_option (\<lambda>bs. take (nat n) (bs @ replicate (nat n) (CHR 0x00))) (mem k)
         | (Some e, k') \<Rightarrow> mem k' = mem k)) \<and>
     (\<forall>k d n. desig d \<longrightarrow>
        (case sm_map api k d n of
           (Inr p, k') \<Rightarrow> area p \<and> mem k' = mem k
         | (Inl e, k') \<Rightarrow> mem k' = mem k)) \<and>
     (\<forall>k d. mem (sm_close api k d) = mem k) \<and>
     (\<forall>k p n. area p \<longrightarrow>
        mem (sm_zero api k p n) =
          map_option (\<lambda>bs. replicate (min (nat n) (length bs)) (CHR 0x00) @ drop (nat n) bs) (mem k))"

lemma shm_kernelD:
  assumes "shm_kernel api name mode desig area mem"
  shows "case sm_open api k name mode of
            (Inr d, k') \<Rightarrow> desig d \<and> mem k \<noteq> None \<and> mem k' = mem k
          | (Inl e, k') \<Rightarrow> mem k' = mem k \<and> (e = ENOENT \<longrightarrow> mem k = None)"
    and "case sm_create api k name mode of
            (Inr d, k') \<Rightarrow> desig d \<and> mem k = None \<and> mem k' = Some []
          | (Inl e, k') \<Rightarrow> mem k' = mem k \<and> e \<noteq> ENOENT \<and> (e = EEXIST \<longrightarrow> mem k \<noteq> None)"
    and "desig d \<Longrightarrow> case sm_truncate api k d n of
           (None, k') \<Rightarrow> mem k' = map_option (\<lambda>bs. take (nat n) (bs @ replicate (nat n) (CHR 0x00))) (mem k)
         | (Some e, k') \<Rightarrow> mem k' = mem k"
    and "desig d \<Longrightarrow> case sm_map api k d n of
           (Inr p, k') \<Rightarrow> area p \<and> mem k' = mem k
         | (Inl e, k') \<Rightarrow> mem k' = mem k"
    and "mem (sm_close api k d) = mem k"
    and "area p \<Longrightarrow> mem (sm_zero api k p n) =
          map_option (\<lambda>bs. replicate (min (nat n) (length bs)) (CHR 0x00) @ drop (nat n) bs) (mem k)"
  using assms by (simp_all add: shm_kernel_def)

text \<open>What the control point of one process says about the object.\<close>

definition shm_local :: "('d \<Rightarrow> bool) \<Rightarrow> (nat \<Rightarrow> bool) \<Rightarrow> 'd shm \<Rightarrow> char list option \<Rightarrow> bool" where
  "shm_local desig area s m \<longleftrightarrow>
     (let zeroes = (sh_creator s \<longrightarrow> m = Some (replicate (nat (sh_size s)) (CHR 0x00)));
          mapped = (\<exists>p. sh_ptr s = Some p \<and> area p)
      in case sh_pc s of
           S_open First \<Rightarrow> \<not> sh_creator s
         | S_open Exclusive \<Rightarrow> \<not> sh_creator s
         | S_open Again \<Rightarrow> \<not> sh_creator s \<and> m \<noteq> None
         | S_open _ \<Rightarrow> False
         | S_truncate d \<Rightarrow> sh_creator s \<and> desig d \<and> m = Some []
         | S_map d \<Rightarrow> desig d \<and> m \<noteq> None \<and> zeroes
         | S_close d \<Rightarrow> mapped \<and> m \<noteq> None \<and> zeroes
         | S_zero \<Rightarrow> sh_creator s \<and> mapped \<and> zeroes
         | S_ready \<Rightarrow> mapped \<and> m \<noteq> None \<and> zeroes
         | S_threw e \<Rightarrow> e \<noteq> System_error ''shm_open error'' ENOENT)"

lemma shm_local_other: "shm_local desig area s m \<Longrightarrow> \<not> sh_creator s \<Longrightarrow> m' \<noteq> None \<Longrightarrow> shm_local desig area s m'"
  by (auto simp: shm_local_def Let_def split: shm_pc.splits open_pc.splits)

text \<open>One step of a process: its own control point stays true, and the object changes in one of the
  ways the others can live with.\<close>

lemma shm_step_local:
  assumes kern: "shm_kernel api name mode desig area mem"
    and s: "sh_name s = name" "sh_mode s = mode" "shm_local desig area s (mem k)"
    and st: "shm_step api (s, k) = (s', k')"
  shows "shm_local desig area s' (mem k')" "sh_name s' = name" "sh_mode s' = mode" "sh_size s' = sh_size s"
    and "mem k' = mem k \<and> sh_creator s' = sh_creator s \<or>
         mem k = None \<and> mem k' \<noteq> None \<and> \<not> sh_creator s \<and> sh_creator s' \<or>
         mem k \<noteq> None \<and> mem k' \<noteq> None \<and> sh_creator s \<and> sh_creator s'"
proof -
  note D = shm_kernelD [OF kern]
  have "shm_local desig area s' (mem k') \<and> sh_name s' = name \<and> sh_mode s' = mode \<and> sh_size s' = sh_size s \<and>
      (mem k' = mem k \<and> sh_creator s' = sh_creator s \<or>
       mem k = None \<and> mem k' \<noteq> None \<and> \<not> sh_creator s \<and> sh_creator s' \<or>
       mem k \<noteq> None \<and> mem k' \<noteq> None \<and> sh_creator s \<and> sh_creator s')"
  proof (cases "sh_pc s")
    case (S_open p)
    show ?thesis
    proof (cases p)
      case First
      with S_open s st D(1) [of k] show ?thesis
        by (auto simp: shm_step_def shm_local_def split: prod.splits sum.splits if_splits)
    next
      case Exclusive
      with S_open s st D(2) [of k] show ?thesis
        by (auto simp: shm_step_def shm_local_def split: prod.splits sum.splits if_splits)
    next
      case Again
      with S_open s st D(1) [of k] show ?thesis
        by (auto simp: shm_step_def shm_local_def split: prod.splits sum.splits if_splits)
    qed (use S_open s in \<open>simp_all add: shm_local_def\<close>)
  next
    case (S_truncate d)
    with s have "desig d" by (simp add: shm_local_def)
    with S_truncate s st D(3) [where d = d and k = k and n = "sh_size s"] show ?thesis
      by (auto simp: shm_step_def shm_local_def split: prod.splits option.splits)
  next
    case (S_map d)
    with s have "desig d" by (simp add: shm_local_def)
    with S_map s st D(4) [where d = d and k = k and n = "sh_size s"] show ?thesis
      by (auto simp: shm_step_def shm_local_def Let_def split: prod.splits sum.splits)
  next
    case (S_close d)
    with s st D(5) [where k = k and d = d] show ?thesis
      by (auto simp: shm_step_def shm_local_def Let_def)
  next
    case S_zero
    with s obtain p where "sh_ptr s = Some p" "area p" by (auto simp: shm_local_def Let_def)
    with S_zero s st D(6) [where p = p and k = k and n = "sh_size s"] show ?thesis
      by (auto simp: shm_step_def shm_local_def Let_def)
  qed (use s st in \<open>auto simp: shm_step_def shm_local_def Let_def\<close>)
  then show "shm_local desig area s' (mem k')" "sh_name s' = name" "sh_mode s' = mode" "sh_size s' = sh_size s"
    "mem k' = mem k \<and> sh_creator s' = sh_creator s \<or>
         mem k = None \<and> mem k' \<noteq> None \<and> \<not> sh_creator s \<and> sh_creator s' \<or>
         mem k \<noteq> None \<and> mem k' \<noteq> None \<and> sh_creator s \<and> sh_creator s'"
    by blast+
qed

definition shm_inv ::
  "string \<Rightarrow> int \<Rightarrow> nat \<Rightarrow> ('d \<Rightarrow> bool) \<Rightarrow> (nat \<Rightarrow> bool) \<Rightarrow> ('k \<Rightarrow> char list option) \<Rightarrow> 'd shm list \<times> 'k \<Rightarrow> bool"
where
  "shm_inv name sz mode desig area mem x \<longleftrightarrow>
     (case x of (ps, k) \<Rightarrow>
        (\<forall>i < length ps. sh_name (ps ! i) = name \<and> sh_mode (ps ! i) = mode \<and> sh_size (ps ! i) = sz \<and>
           shm_local desig area (ps ! i) (mem k)) \<and>
        (if mem k = None then creators ps = {} else \<exists>c. creators ps = {c}))"

lemma creators_update:
  "i < length ps \<Longrightarrow> creators (ps[i := s]) = (if sh_creator s then insert i (creators ps) else creators ps - {i})"
  by (auto simp: creators_def nth_list_update split: if_splits)

lemma one_creator:
  assumes one: "if m = None then C = {} else \<exists>c. C = {c :: nat}" and ci: "b \<longleftrightarrow> i \<in> C"
    and ch: "m' = m \<and> b' = b \<or> m = None \<and> m' \<noteq> None \<and> \<not> b \<and> b' \<or> m \<noteq> None \<and> m' \<noteq> None \<and> b \<and> b'"
  shows "m' = m \<or> C \<subseteq> {i} \<and> m' \<noteq> None"
    and "if m' = None then (if b' then insert i C else C - {i}) = {}
         else \<exists>c. (if b' then insert i C else C - {i}) = {c}"
proof -
  show "m' = m \<or> C \<subseteq> {i} \<and> m' \<noteq> None"
    using assms by (elim disjE conjE) auto
  from ch show "if m' = None then (if b' then insert i C else C - {i}) = {}
         else \<exists>c. (if b' then insert i C else C - {i}) = {c}"
  proof (elim disjE conjE)
    assume e: "m' = m" "b' = b"
    have "(if b' then insert i C else C - {i}) = C"
      using e(2) ci by auto
    with one e(1) show ?thesis by simp
  next
    assume e: "m = None" "m' \<noteq> None" "\<not> b" "b'"
    with one show ?thesis by simp
  next
    assume e: "m \<noteq> None" "m' \<noteq> None" "b" "b'"
    with one ci show ?thesis by auto
  qed
qed

lemma shm_turn_inv:
  assumes kern: "shm_kernel api name mode desig area mem" and inv: "shm_inv name sz mode desig area mem x"
  shows "shm_inv name sz mode desig area mem (shm_turn api i x)"
proof -
  obtain ps k where x: "x = (ps, k)" by fastforce
  show ?thesis
  proof (cases "i < length ps")
    case True
    obtain s' k' where st: "shm_step api (ps ! i, k) = (s', k')" by fastforce
    have pi: "sh_name (ps ! i) = name" "sh_mode (ps ! i) = mode" "sh_size (ps ! i) = sz"
        "shm_local desig area (ps ! i) (mem k)"
      using inv True by (auto simp: shm_inv_def x)
    note loc = shm_step_local [OF kern pi(1,2,4) st]
    have ci: "sh_creator (ps ! i) \<longleftrightarrow> i \<in> creators ps"
      using True by (simp add: creators_def)
    have one: "if mem k = None then creators ps = {} else \<exists>c. creators ps = {c}"
      using inv by (simp add: shm_inv_def x)
    have same: "mem k' = mem k \<or> creators ps \<subseteq> {i} \<and> mem k' \<noteq> None"
      and cr: "if mem k' = None then creators (ps[i := s']) = {} else \<exists>c. creators (ps[i := s']) = {c}"
      using one_creator [OF one ci loc(5)] by (simp_all add: creators_update [OF True])
    have others: "shm_local desig area (ps ! j) (mem k')" if j: "j < length ps" "j \<noteq> i" for j
    proof -
      have pj: "shm_local desig area (ps ! j) (mem k)"
        using inv j(1) by (auto simp: shm_inv_def x)
      from same show ?thesis
      proof
        assume c: "creators ps \<subseteq> {i} \<and> mem k' \<noteq> None"
        with j have "\<not> sh_creator (ps ! j)"
          by (auto simp: creators_def)
        with pj c show ?thesis by (blast intro: shm_local_other)
      qed (use pj in simp)
    qed
    have "sh_name (ps[i := s'] ! j) = name \<and> sh_mode (ps[i := s'] ! j) = mode \<and>
        sh_size (ps[i := s'] ! j) = sz \<and> shm_local desig area (ps[i := s'] ! j) (mem k')" if j: "j < length ps" for j
    proof (cases "j = i")
      case True
      with j loc(1-4) pi(3) show ?thesis by simp
    next
      case False
      moreover have "sh_name (ps ! j) = name \<and> sh_mode (ps ! j) = mode \<and> sh_size (ps ! j) = sz"
        using inv j by (simp add: shm_inv_def x)
      ultimately show ?thesis
        using others [OF j False] by simp
    qed
    with cr have "shm_inv name sz mode desig area mem (ps[i := s'], k')"
      by (simp add: shm_inv_def)
    then show ?thesis
      using True st by (simp add: shm_turn_def x)
  next
    case False
    with inv show ?thesis by (simp add: shm_turn_def x)
  qed
qed

lemma shm_run_inv:
  assumes "shm_kernel api name mode desig area mem" and "shm_inv name sz mode desig area mem x"
  shows "shm_inv name sz mode desig area mem (shm_run api sched x)"
  using assms(2) unfolding shm_run_def
  by (induction sched arbitrary: x) (simp_all add: shm_turn_inv [OF assms(1)])

lemma shm_begin_inv:
  "mem k = None \<Longrightarrow> shm_inv name sz mode desig area mem (replicate n (shm_begin name sz mode), k)"
  by (auto simp: shm_inv_def shm_local_def shm_begin_def creators_def)

section \<open>The constructor ends\<close>

fun shm_rank :: "'d shm_pc \<Rightarrow> nat" where
  "shm_rank (S_open Exclusive) = 5"
| "shm_rank (S_open Again) = 4"
| "shm_rank (S_open p) = 6"
| "shm_rank (S_truncate d) = 4"
| "shm_rank (S_map d) = 3"
| "shm_rank (S_close d) = 2"
| "shm_rank S_zero = 1"
| "shm_rank S_ready = 0"
| "shm_rank (S_threw e) = 0"

lemma shm_rank_final: "shm_rank (sh_pc s) = 0 \<longleftrightarrow> shm_final s"
  by (cases "sh_pc s"; cases "case sh_pc s of S_open p \<Rightarrow> p") (simp_all add: shm_final_def)

lemma shm_rank_step: "shm_rank (sh_pc (fst (shm_step api (s, k)))) \<le> shm_rank (sh_pc s) - 1"
proof (cases "sh_pc s")
  case (S_open p)
  then show ?thesis
    by (cases p) (auto simp: shm_step_def split: prod.splits sum.splits)
qed (auto simp: shm_step_def split: prod.splits sum.splits option.splits)

lemma shm_turn_length [simp]: "length (fst (shm_turn api i x)) = length (fst x)"
  by (auto simp: shm_turn_def split: prod.splits)

lemma shm_run_rank:
  assumes "j < length (fst x)"
  shows "shm_rank (sh_pc (fst (shm_run api sched x) ! j)) \<le> shm_rank (sh_pc (fst x ! j)) - count_list sched j"
  using assms unfolding shm_run_def
proof (induction sched arbitrary: x)
  case (Cons i sched)
  have "shm_rank (sh_pc (fst (shm_turn api i x) ! j)) \<le> shm_rank (sh_pc (fst x ! j)) - (if i = j then 1 else 0)"
  proof (cases x)
    case (Pair ps k)
    with Cons.prems show ?thesis
      using shm_rank_step [of api "ps ! j" k]
      by (auto simp: shm_turn_def nth_list_update split: prod.splits)
  qed
  with Cons.IH [of "shm_turn api i x"] Cons.prems show ?case
    by (fastforce split: if_splits)
qed simp

section \<open>Units of a semaphore\<close>

text \<open>The contract of one semaphore, whose value is \<open>val k\<close>: a wait takes a unit, fails without an
  effect (a signal), or blocks because there is none.\<close>

definition sem_kernel :: "('d, 'k) sem_api \<Rightarrow> 'd \<Rightarrow> ('k \<Rightarrow> nat) \<Rightarrow> bool" where
  "sem_kernel api d val \<longleftrightarrow>
     (\<forall>k. case se_wait api k d of
            None \<Rightarrow> val k = 0
          | Some (None, k') \<Rightarrow> val k = Suc (val k')
          | Some (Some e, k') \<Rightarrow> val k' = val k) \<and>
     (\<forall>k. case se_trywait api k d of
            (None, k') \<Rightarrow> val k = Suc (val k')
          | (Some e, k') \<Rightarrow> val k' = val k) \<and>
     (\<forall>k. case se_post api k d of (None, k') \<Rightarrow> val k' = Suc (val k) | (Some e, k') \<Rightarrow> val k' = val k)"

lemma sem_kernelD:
  assumes "sem_kernel api d val"
  shows "case se_wait api k d of
            None \<Rightarrow> val k = 0
          | Some (None, k') \<Rightarrow> val k = Suc (val k')
          | Some (Some e, k') \<Rightarrow> val k' = val k"
    and "case se_trywait api k d of (None, k') \<Rightarrow> val k = Suc (val k') | (Some e, k') \<Rightarrow> val k' = val k"
    and "case se_post api k d of (None, k') \<Rightarrow> val k' = Suc (val k) | (Some e, k') \<Rightarrow> val k' = val k"
  using assms by (simp_all add: sem_kernel_def)

lemma acquire_loop_units:
  assumes kern: "sem_kernel api d val"
  shows "case acquire_loop api d n k of
           None \<Rightarrow> val k < n
         | Some (k', Inr _) \<Rightarrow> val k = val k' + n
         | Some (k', Inl f) \<Rightarrow> \<exists>j e. j < n \<and> val k = val k' + j \<and> f = System_error ''sem_wait error'' e"
proof (induction n arbitrary: k)
  case (Suc n)
  show ?case
  proof (cases "se_wait api k d")
    case None
    then show ?thesis using sem_kernelD(1) [OF kern, of k] by simp
  next
    case (Some r)
    obtain o1 k1 where r: "r = (o1, k1)" by fastforce
    show ?thesis
    proof (cases o1)
      case None
      with Some r have "val k = Suc (val k1)"
        using sem_kernelD(1) [OF kern, of k] by simp
      with Suc.IH [of k1] Some r None show ?thesis
        by (auto split: option.splits prod.splits sum.splits)
    next
      case (Some e)
      with \<open>se_wait api k d = Some r\<close> r show ?thesis
        using sem_kernelD(1) [OF kern, of k] by auto
    qed
  qed
qed simp

lemma release_loop_units:
  assumes kern: "sem_kernel api d val"
  shows "case release_loop api d n k of
           (k', Inr _) \<Rightarrow> val k' = val k + n
         | (k', Inl f) \<Rightarrow> \<exists>j e. j < n \<and> val k' = val k + j \<and> f = System_error ''sem_post error'' e"
proof (induction n arbitrary: k)
  case (Suc n)
  obtain o1 k1 where r: "se_post api k d = (o1, k1)" by fastforce
  show ?case
  proof (cases o1)
    case None
    with r have "val k1 = Suc (val k)"
      using sem_kernelD(3) [OF kern, of k] by simp
    with Suc.IH [of k1] r None show ?thesis
      by (auto split: prod.splits sum.splits)
  next
    case (Some e)
    with r show ?thesis
      using sem_kernelD(3) [OF kern, of k] by auto
  qed
qed simp

lemma shm_ready:
  assumes "shm_inv name sz mode desig area mem (ps, k)" and "i < length ps" and "sh_pc (ps ! i) = S_ready"
  shows "(\<exists>p. sh_ptr (ps ! i) = Some p \<and> area p) \<and> mem k \<noteq> None \<and> (\<exists>c. creators ps = {c}) \<and>
         (i \<in> creators ps \<longrightarrow> mem k = Some (replicate (nat sz) (CHR 0x00)))"
proof -
  have "shm_local desig area (ps ! i) (mem k)" "sh_size (ps ! i) = sz"
    "if mem k = None then creators ps = {} else \<exists>c. creators ps = {c}"
    using assms by (auto simp: shm_inv_def)
  with assms(2,3) show ?thesis
    by (auto simp: shm_local_def Let_def creators_def)
qed

text \<open>A process whose first system call finds no object either dies or goes on to create it.\<close>

lemma shm_first_absent:
  assumes kern: "shm_kernel api name mode desig area mem" and "mem k = None"
    and s: "sh_name s = name" "sh_mode s = mode" "sh_pc s = S_open First"
    and st: "shm_step api (s, k) = (s', k')"
  shows "mem k' = None \<and> (s' = s\<lparr>sh_pc := S_open Exclusive\<rparr> \<or> shm_final s')"
  using shm_kernelD(1) [OF kern, of k] assms(2-)
  by (auto simp: shm_step_def shm_final_def split: prod.splits sum.splits if_splits)

lemma shm_final_stays: "shm_final s \<Longrightarrow> shm_step api (s, k) = (s, k)"
  by (auto simp: shm_final_def shm_step_def split: shm_pc.splits)

section \<open>A sample kernel\<close>

text \<open>One name; the state is the object.\<close>

definition one_object :: "(unit, char list option) shm_api" where
  "one_object =
     \<lparr>sm_open = \<lambda>k name mode. (case k of None \<Rightarrow> Inl ENOENT | Some bs \<Rightarrow> Inr (), k),
      sm_create = \<lambda>k name mode. (case k of None \<Rightarrow> (Inr (), Some []) | Some bs \<Rightarrow> (Inl EEXIST, k)),
      sm_truncate = \<lambda>k d n. (None, map_option (\<lambda>bs. take (nat n) (bs @ replicate (nat n) (CHR 0x00))) k),
      sm_map = \<lambda>k d n. (Inr 4096, k),
      sm_close = \<lambda>k d. k,
      sm_zero = \<lambda>k p n. map_option (\<lambda>bs. replicate (min (nat n) (length bs)) (CHR 0x00) @ drop (nat n) bs) k,
      sm_unmap = \<lambda>k p n. k,
      sm_unlink = \<lambda>k name. (case k of None \<Rightarrow> Some ENOENT | Some bs \<Rightarrow> None, None)\<rparr>"

lemma one_object_kernel: "shm_kernel one_object name mode (\<lambda>d. True) (\<lambda>p. True) (\<lambda>k. k)"
  by (simp add: shm_kernel_def one_object_def split: option.splits)

section \<open>Move assignment\<close>

text \<open>Assigning over an object that has a mapping loses the mapping: the destructors of both objects
  unmap only the one that was moved.\<close>

lemma shm_assign_leaks:
  assumes "shm_move False this other = (t, o')" and "sh_ptr this = Some p" and "sh_ptr other = Some q"
  shows "shm_destroy api o' (shm_destroy api t k) = (if sh_size other \<noteq> 0 then sm_unmap api k q (sh_size other) else k)"
  using assms by (auto simp: shm_move_def shm_destroy_def)

section \<open>Properties\<close>

text \<open>C25. However the processes that open one shared memory interleave, at most one of them is its
  creator; a process whose constructor returned has it mapped and then there is exactly one
  creator; when the creator's constructor has returned the memory is the requested number of zero
  bytes; and no constructor fails because the object did not exist.\<close>

theorem shm_one_creator:
  assumes "shm_kernel api name mode desig area mem" and "mem k0 = None"
    and "shm_run api sched (replicate n (shm_begin name sz mode), k0) = (ps, k)"
  shows "(creators ps = {} \<or> (\<exists>c. creators ps = {c})) \<and>
     (\<forall>i < length ps.
        sh_pc (ps ! i) \<noteq> S_threw (System_error ''shm_open error'' ENOENT) \<and>
        (sh_pc (ps ! i) = S_ready \<longrightarrow>
           (\<exists>p. sh_ptr (ps ! i) = Some p \<and> area p) \<and> (\<exists>c. creators ps = {c}) \<and>
           (i \<in> creators ps \<longrightarrow> mem k = Some (replicate (nat sz) (CHR 0x00)))))"
proof -
  have inv: "shm_inv name sz mode desig area mem (ps, k)"
    using shm_run_inv [OF assms(1) shm_begin_inv [of mem k0 name sz mode desig area n], of sched] assms(2,3) by simp
  have "sh_pc (ps ! i) \<noteq> S_threw (System_error ''shm_open error'' ENOENT)" if "i < length ps" for i
    using inv that by (fastforce simp: shm_inv_def shm_local_def)
  moreover have "creators ps = {} \<or> (\<exists>c. creators ps = {c})"
    using inv by (auto simp: shm_inv_def split: if_splits)
  ultimately show ?thesis
    using shm_ready [OF inv] by blast
qed

theorem shm_one_creator_witness:
  "shm_run one_object [1, 0, 0, 1, 1, 1, 0, 0, 0, 1, 0] (replicate 2 (shm_begin ''/m'' 2 384), None)
     = ([\<lparr>sh_name = ''/m'', sh_size = 2, sh_ptr = Some 4096, sh_creator = True, sh_mode = 384, sh_pc = S_ready\<rparr>,
         \<lparr>sh_name = ''/m'', sh_size = 2, sh_ptr = Some 4096, sh_creator = False, sh_mode = 384, sh_pc = S_ready\<rparr>],
        Some [CHR 0x00, CHR 0x00]) \<and>
   (\<exists>ps k c. shm_run one_object [1, 0, 0, 1, 1, 1, 0, 0, 0, 1, 0] (replicate 2 (shm_begin ''/m'' 2 384), None) = (ps, k) \<and>
      creators ps = {c})"
proof -
  have run: "shm_run one_object [1, 0, 0, 1, 1, 1, 0, 0, 0, 1, 0] (replicate 2 (shm_begin ''/m'' 2 384), None)
     = ([\<lparr>sh_name = ''/m'', sh_size = 2, sh_ptr = Some 4096, sh_creator = True, sh_mode = 384, sh_pc = S_ready\<rparr>,
         \<lparr>sh_name = ''/m'', sh_size = 2, sh_ptr = Some 4096, sh_creator = False, sh_mode = 384, sh_pc = S_ready\<rparr>],
        Some [CHR 0x00, CHR 0x00])"
    by code_simp
  with shm_one_creator [OF one_object_kernel refl run] show ?thesis by auto
qed



lemma shm_not_ready_yet:
  assumes "sh_pc s = S_open Exclusive"
  shows "sh_pc (fst ((shm_step api ^^ 2) (s, k))) \<noteq> S_ready"
  using assms
  by (auto simp: numeral_2_eq_2 shm_step_def split: prod.splits sum.splits option.splits shm_pc.splits open_pc.splits)

lemma shm_opens_early:
  assumes kern: "shm_kernel api name mode desig area mem" and m: "mem k = Some bs"
    and s: "sh_name s = name" "sh_mode s = mode" "sh_pc s = S_open First"
    and run: "(shm_step api ^^ 3) (s, k) = (s', k')" and ready: "sh_pc s' = S_ready"
  shows "mem k' = Some bs \<and> \<not> sh_creator s'"
proof -
  obtain s1 k1 where s1: "shm_step api (s, k) = (s1, k1)" by fastforce
  obtain s2 k2 where s2: "shm_step api (s1, k1) = (s2, k2)" by fastforce
  have s3: "shm_step api (s2, k2) = (s', k')"
    using run s1 s2 by (simp add: numeral_3_eq_3)
  have "mem k1 = Some bs \<and> (shm_final s1 \<and> sh_pc s1 \<noteq> S_ready \<or> \<not> sh_creator s1 \<and> (\<exists>d. desig d \<and> sh_pc s1 = S_map d))"
    using shm_kernelD(1) [OF kern, of k] m s s1
    by (auto simp: shm_step_def shm_final_def split: prod.splits sum.splits if_splits) blast
  then show ?thesis
  proof (elim conjE disjE exE)
    assume "shm_final s1" "sh_pc s1 \<noteq> S_ready"
    with s2 s3 ready show ?thesis by (auto simp: shm_final_stays)
  next
    fix d
    assume d: "mem k1 = Some bs" "desig d" "sh_pc s1 = S_map d" "\<not> sh_creator s1"
    have "mem k2 = Some bs \<and> (shm_final s2 \<and> sh_pc s2 \<noteq> S_ready \<or> sh_pc s2 = S_close d \<and> \<not> sh_creator s2)"
      using shm_kernelD(4) [OF kern d(2), where k = k1 and n = "sh_size s1"] d s2
      by (auto simp: shm_step_def shm_final_def split: prod.splits sum.splits)
    with s3 ready shm_kernelD(5) [OF kern, where k = k2 and d = d] show ?thesis
      by (auto simp: shm_final_stays) (auto simp: shm_step_def)
  qed
qed

text \<open>The constructor of a process that is not the creator can return too early: when it runs
  between the creation and \<open>ftruncate\<close>, it maps an object of no bytes, and whatever it stores
  before the creator's \<open>memset\<close> is erased.\<close>

theorem shm_open_race:
  assumes "shm_kernel api name mode desig area mem" and "mem k0 = None"
    and "shm_run api [0, 0, 1, 1, 1] (replicate 2 (shm_begin name sz mode), k0) = (ps, k)"
    and "sh_pc (ps ! 1) = S_ready"
  shows "mem k = Some [] \<and> 0 \<in> creators ps \<and> 1 \<notin> creators ps \<and>
     (\<forall>s p ws k2. sh_pc s = S_zero \<and> sh_ptr s = Some p \<and> area p \<and> mem k2 = Some ws \<and> length ws \<le> nat (sh_size s) \<longrightarrow>
        mem (snd (shm_step api (s, k2))) = Some (replicate (length ws) (CHR 0x00)))"
proof -
  let ?b = "shm_begin name sz mode :: 'a shm"
  have b: "sh_name ?b = name" "sh_mode ?b = mode" "sh_pc ?b = S_open First"
    by (simp_all add: shm_begin_def)
  obtain a1 k1 where a1: "shm_step api (?b, k0) = (a1, k1)" by fastforce
  obtain a2 k2 where a2: "shm_step api (a1, k1) = (a2, k2)" by fastforce
  obtain b1 k3 where b1: "shm_step api (?b, k2) = (b1, k3)" by fastforce
  obtain b2 k4 where b2: "shm_step api (b1, k3) = (b2, k4)" by fastforce
  obtain b3 k5 where b3: "shm_step api (b2, k4) = (b3, k5)" by fastforce
  have ps: "ps = [a2, b3]" "k = k5"
    using assms(3) a1 a2 b1 b2 b3 by (simp_all add: shm_run_def shm_turn_def numeral_2_eq_2)
  have three: "(shm_step api ^^ 3) (?b, k2) = (b3, k5)" and two: "(shm_step api ^^ 2) (b1, k3) = (b3, k5)"
    using b1 b2 b3 by (simp_all add: numeral_3_eq_3 numeral_2_eq_2)
  have ready: "sh_pc b3 = S_ready"
    using assms(4) ps by simp
  have f: "mem k1 = None" "a1 = ?b\<lparr>sh_pc := S_open Exclusive\<rparr> \<or> shm_final a1"
    using shm_first_absent [OF assms(1,2) b a1] by blast+
  have "mem k2 = None \<or> mem k2 = Some [] \<and> sh_creator a2"
    using f(2)
  proof
    assume "a1 = ?b\<lparr>sh_pc := S_open Exclusive\<rparr>"
    then show ?thesis
      using shm_kernelD(2) [OF assms(1), of k1] a2 f(1) b(1,2)
      by (auto simp: shm_step_def split: prod.splits sum.splits if_splits)
  qed (use a2 f(1) in \<open>simp add: shm_final_stays\<close>)
  then have early: "mem k2 = Some [] \<and> sh_creator a2"
  proof
    assume "mem k2 = None"
    then have "b1 = ?b\<lparr>sh_pc := S_open Exclusive\<rparr> \<or> shm_final b1 \<and> sh_pc b1 \<noteq> S_ready"
      using shm_kernelD(1) [OF assms(1), of k2] b b1
      by (auto simp: shm_step_def shm_final_def split: prod.splits sum.splits if_splits)
    then show ?thesis
    proof
      assume "b1 = ?b\<lparr>sh_pc := S_open Exclusive\<rparr>"
      then show ?thesis
        using shm_not_ready_yet [of b1 api k3] two ready by simp
    next
      assume "shm_final b1 \<and> sh_pc b1 \<noteq> S_ready"
      with b2 b3 ready show ?thesis by (auto simp: shm_final_stays)
    qed
  qed
  then have "mem k5 = Some [] \<and> \<not> sh_creator b3"
    using shm_opens_early [OF assms(1) _ b three ready] by blast
  moreover have "mem (snd (shm_step api (s, k2))) = Some (replicate (length ws) (CHR 0x00))"
    if "sh_pc s = S_zero" "sh_ptr s = Some p" "area p" "mem k2 = Some ws" "length ws \<le> nat (sh_size s)" for s p ws k2
    using that shm_kernelD(6) [OF assms(1) that(3), where k = k2 and n = "sh_size s"]
    by (simp add: shm_step_def min_def)
  ultimately show ?thesis
    using early ps by (auto simp: creators_def)
qed

theorem shm_open_race_witness:
  "\<exists>ps k. shm_run one_object [0, 0, 1, 1, 1] (replicate 2 (shm_begin ''/m'' 2 384), None) = (ps, k) \<and>
     sh_pc (ps ! 1) = S_ready \<and> k = Some [] \<and> 0 \<in> creators ps"
proof -
  have run: "shm_run one_object [0, 0, 1, 1, 1] (replicate 2 (shm_begin ''/m'' 2 384), None)
     = ([\<lparr>sh_name = ''/m'', sh_size = 2, sh_ptr = None, sh_creator = True, sh_mode = 384, sh_pc = S_truncate ()\<rparr>,
         \<lparr>sh_name = ''/m'', sh_size = 2, sh_ptr = Some 4096, sh_creator = False, sh_mode = 384, sh_pc = S_ready\<rparr>],
        Some [])"
    by code_simp
  with shm_open_race [OF one_object_kernel refl run] show ?thesis by auto
qed

text \<open>\<open>acquire\<close> that returns took exactly the units asked for and \<open>release\<close> that returns gave exactly
  that many; \<open>try_acquire\<close> takes one or none. But a wait that fails half-way (a signal is enough)
  throws with the units taken so far gone, and so does a failing post.\<close>

theorem sem_units:
  assumes "sem_kernel api d val" and "sp_sem s = Some d" and "0 \<le> n"
  shows "(case acquire api s n k of
            None \<Rightarrow> int (val k) < n
          | Some (k', Inr _) \<Rightarrow> int (val k) = int (val k') + n
          | Some (k', Inl f) \<Rightarrow> \<exists>j e. int j < n \<and> val k = val k' + j \<and> f = System_error ''sem_wait error'' e) \<and>
         (case release api s n k of
            (k', Inr _) \<Rightarrow> int (val k') = int (val k) + n
          | (k', Inl f) \<Rightarrow> \<exists>j e. int j < n \<and> val k' = val k + j \<and> f = System_error ''sem_post error'' e) \<and>
         (case try_acquire api s k of
            (k', Inr True) \<Rightarrow> val k = Suc (val k')
          | (k', _) \<Rightarrow> val k' = val k)"
  using acquire_loop_units [OF assms(1), where n = "nat n" and k = k] release_loop_units [OF assms(1), where n = "nat n" and k = k]
    sem_kernelD(2) [OF assms(1), of k] assms(2,3)
  by (auto simp: acquire_def release_def try_acquire_def zless_nat_eq_int_zless split: option.splits prod.splits sum.splits bool.splits)

text \<open>A semaphore whose second wait is interrupted.\<close>

definition shaky_sem :: "(unit, nat \<times> nat) sem_api" where
  "shaky_sem =
     \<lparr>se_open = \<lambda>k name. (Inr (), k), se_create = \<lambda>k name mode v. (Inl EEXIST, k),
      se_wait = (\<lambda>(v, c) d. if c = 1 then Some (Some EINTR, (v, 2)) else if v = 0 then None else Some (None, (v - 1, Suc c))),
      se_trywait = (\<lambda>(v, c) d. if v = 0 then (Some EAGAIN, (v, c)) else (None, (v - 1, c))),
      se_post = (\<lambda>(v, c) d. (None, (Suc v, c))), se_close = \<lambda>k d. k, se_unlink = \<lambda>k name. (None, k)\<rparr>"

lemma shaky_kernel: "sem_kernel shaky_sem d fst"
  by (auto simp: sem_kernel_def shaky_sem_def)

theorem sem_units_witness:
  "semaphore_new shaky_sem ''/s'' 384 (5, 0) = ((5, 0), Inr \<lparr>sp_name = ''/s'', sp_sem = Some (), sp_creator = False\<rparr>) \<and>
   acquire shaky_sem \<lparr>sp_name = ''/s'', sp_sem = Some (), sp_creator = False\<rparr> 3 (5, 0)
     = Some ((4, 2), Inl (System_error ''sem_wait error'' EINTR)) \<and>
   (\<exists>j. int j < 3 \<and> fst (5, 0) = fst (4, 2) + j)"
  using sem_units [OF shaky_kernel, of "\<lparr>sp_name = ''/s'', sp_sem = Some (), sp_creator = False\<rparr>" "()" 3 "(5, 0)"]
  by (auto simp: semaphore_new_def sem_open_step_def acquire_def shaky_sem_def numeral_3_eq_3 eval_nat_numeral)

end
