(* ===== verification/Subprocess.thy ===== *)
theory Subprocess
  imports Nio_Stream Text_Utils
begin

text \<open>
  Child processes (\<open>src/src/include/cppev/subprocess.h\<close>, \<open>src/src/lib/subprocess.cc\<close>): three pipes, the
  fork, what the child executes, and the loop that collects its output until it has ended. The
  kernel is a parameter; \<open>pr_fork\<close> is told the \<open>dup2\<close> calls and the program of the child.
\<close>

section \<open>State\<close>

text \<open>The path, the arguments and the environment given to \<open>execvp\<close>.\<close>

type_synonym program = "string \<times> string list \<times> string list"

record 'k proc_api = "'k posix" +
  pr_pipe :: "'k \<Rightarrow> (errno + int \<times> int) \<times> 'k"
  pr_fork :: "'k \<Rightarrow> (int \<times> int) list \<Rightarrow> program res \<Rightarrow> (errno + int) \<times> 'k"
  pr_waitpid :: "'k \<Rightarrow> int \<Rightarrow> (errno + int option) \<times> 'k"
  pr_kill :: "'k \<Rightarrow> int \<Rightarrow> int \<Rightarrow> errno option \<times> 'k"
  pr_sleep :: "'k \<Rightarrow> int \<Rightarrow> 'k"

text \<open>\<open>returncode_\<close> is uninitialised until a \<open>waitpid\<close> has stored a status.\<close>

record subp =
  su_cmd :: string
  su_env :: "string list"
  su_stdin :: nstream
  su_stdout :: nstream
  su_stderr :: nstream
  su_pid :: int
  su_returncode :: "int option"

section \<open>The constructor\<close>

definition c_str :: "string \<Rightarrow> string" where
  "c_str s = takeWhile (\<lambda>c. c \<noteq> NUL) s"

text \<open>What the child does after the \<open>dup2\<close> calls: the words of the command, the first without its
  directories.\<close>

definition child_image :: "string \<Rightarrow> string list \<Rightarrow> program res" where
  "child_image cmd env =
     rbind (split cmd '' '') (\<lambda>args.
     rbind (rd_at args 0) (\<lambda>path.
     rbind (split path ''/'') (\<lambda>parts.
     rbind (rd_at parts (int (length parts) - 1)) (\<lambda>base.
     Inr (c_str path, map c_str (args[0 := base]), map c_str env)))))"

text \<open>A pipe with a stream on the parent's end, the write end if \<open>out\<close>; gives the child's end too.\<close>

definition pipe_end :: "('k, 'z) proc_api_scheme \<Rightarrow> bool \<Rightarrow> 'k \<Rightarrow> 'k \<times> (int \<times> nstream) res" where
  "pipe_end sys out k =
     (case pr_pipe sys k of
        (Inl e, k) \<Rightarrow> (k, Inl (System_error ''pipe error'' e))
      | (Inr (rd, wr), k) \<Rightarrow>
          (case nstream_new sys k (if out then wr else rd) of
             (k, Inl e) \<Rightarrow> (k, Inl e)
           | (k, Inr s) \<Rightarrow> (k, Inr (if out then rd else wr, s))))"

text \<open>An exception destroys the streams made so far.\<close>

definition subp_new :: "('k, 'z) proc_api_scheme \<Rightarrow> string \<Rightarrow> string list \<Rightarrow> 'k \<Rightarrow> 'k \<times> subp res" where
  "subp_new sys cmd env k =
     (case pipe_end sys True k of
        (k, Inl e) \<Rightarrow> (k, Inl e)
      | (k, Inr (zero, sin)) \<Rightarrow>
          (case pipe_end sys False k of
             (k, Inl e) \<Rightarrow> (nio_destroy sys k sin, Inl e)
           | (k, Inr (one, sout)) \<Rightarrow>
               (case pipe_end sys False k of
                  (k, Inl e) \<Rightarrow> (nio_destroy sys (nio_destroy sys k sout) sin, Inl e)
                | (k, Inr (two, serr)) \<Rightarrow>
                    (case pr_fork sys k [(zero, 0), (one, 1), (two, 2)] (child_image cmd env) of
                       (Inl e, k) \<Rightarrow> (k, Inl (Exited (-1)))
                     | (Inr pid, k) \<Rightarrow>
                         (k, Inr \<lparr>su_cmd = cmd, su_env = env, su_stdin = sin, su_stdout = sout, su_stderr = serr,
                                  su_pid = pid, su_returncode = None\<rparr>)))))"

definition subp_destroy :: "('k, 'z) proc_api_scheme \<Rightarrow> 'k \<Rightarrow> subp \<Rightarrow> 'k" where
  "subp_destroy sys k s =
     nio_destroy sys (nio_destroy sys (nio_destroy sys k (su_stderr s)) (su_stdout s)) (su_stdin s)"

section \<open>Operations\<close>

definition subp_poll :: "('k, 'z) proc_api_scheme \<Rightarrow> 'k \<Rightarrow> subp \<Rightarrow> 'k \<times> subp \<times> bool res" where
  "subp_poll sys k s =
     (case pr_waitpid sys k (su_pid s) of
        (Inl e, k) \<Rightarrow> (k, s, Inl (Exited (-1)))
      | (Inr None, k) \<Rightarrow> (k, s, Inr False)
      | (Inr (Some status), k) \<Rightarrow> (k, s\<lparr>su_returncode := Some status\<rparr>, Inr True))"

text \<open>\<open>step\<close> is \<open>sysconfig::buffer_io_step\<close>; the input is a null pointer or \<open>len\<close> bytes at \<open>input\<close>.\<close>

definition communicate ::
  "('k, 'z) proc_api_scheme \<Rightarrow> int \<Rightarrow> (string \<times> int) option \<Rightarrow> 'k \<Rightarrow> subp \<Rightarrow> ('k \<times> subp \<times> unit res) option"
where
  "communicate sys step input k s =
     (case read_all sys k (su_stdout s) step of
        None \<Rightarrow> None
      | Some (k, sout, Inl e) \<Rightarrow> Some (k, s\<lparr>su_stdout := sout\<rparr>, Inl e)
      | Some (k, sout, Inr _) \<Rightarrow>
          (let s = s\<lparr>su_stdout := sout\<rparr> in
           case read_all sys k (su_stderr s) step of
             None \<Rightarrow> None
           | Some (k, serr, Inl e) \<Rightarrow> Some (k, s\<lparr>su_stderr := serr\<rparr>, Inl e)
           | Some (k, serr, Inr _) \<Rightarrow>
               (let s = s\<lparr>su_stderr := serr\<rparr> in
                case input of
                  None \<Rightarrow> Some (k, s, Inr ())
                | Some (bytes, len) \<Rightarrow>
                    if len = 0 then Some (k, s, Inr ())
                    else (case produce (io_wbuf (su_stdin s)) bytes len of
                            Inl e \<Rightarrow> Some (k, s, Inl e)
                          | Inr b \<Rightarrow>
                              (case write_all sys k ((su_stdin s)\<lparr>io_wbuf := b\<rparr>) step of
                                 None \<Rightarrow> None
                               | Some (k, sin, r) \<Rightarrow> Some (k, s\<lparr>su_stdin := sin\<rparr>, rbind r (\<lambda>_. Inr ())))))))"

definition communicate_string ::
  "('k, 'z) proc_api_scheme \<Rightarrow> int \<Rightarrow> string \<Rightarrow> 'k \<Rightarrow> subp \<Rightarrow> ('k \<times> subp \<times> unit res) option"
where
  "communicate_string sys step input = communicate sys step (Some (input @ [NUL], to_int (int (length input))))"

partial_function (option) subp_wait ::
  "('k, 'z) proc_api_scheme \<Rightarrow> int \<Rightarrow> int \<Rightarrow> 'k \<Rightarrow> subp \<Rightarrow> ('k \<times> subp \<times> unit res) option"
where
  "subp_wait sys step interval k s =
     (case subp_poll sys k s of
        (k, s, Inl e) \<Rightarrow> Some (k, s, Inl e)
      | (k, s, Inr ended) \<Rightarrow>
          (case communicate sys step None k s of
             None \<Rightarrow> None
           | Some (k, s, Inl e) \<Rightarrow> Some (k, s, Inl e)
           | Some (k, s, Inr _) \<Rightarrow>
               if ended then Some (k, s, Inr ())
               else subp_wait sys step interval (pr_sleep sys k interval) s))"

text \<open>Without an argument \<open>wait\<close> polls every 50 milliseconds.\<close>

definition subp_wait_default ::
  "('k, 'z) proc_api_scheme \<Rightarrow> int \<Rightarrow> 'k \<Rightarrow> subp \<Rightarrow> ('k \<times> subp \<times> unit res) option"
where
  "subp_wait_default sys step k s = subp_wait sys step 50 k s"

definition subp_pid :: "subp \<Rightarrow> int" where
  "subp_pid s = su_pid s"

definition subp_send_signal :: "('k, 'z) proc_api_scheme \<Rightarrow> int \<Rightarrow> 'k \<Rightarrow> subp \<Rightarrow> 'k \<times> unit res" where
  "subp_send_signal sys sig k s =
     (case pr_kill sys k (su_pid s) sig of
        (None, k) \<Rightarrow> (k, Inr ())
      | (Some e, k) \<Rightarrow> (k, Inl (System_error ''kill error'' e)))"

text \<open>\<open>SIGTERM\<close> and \<open>SIGKILL\<close>.\<close>

definition subp_terminate :: "('k, 'z) proc_api_scheme \<Rightarrow> 'k \<Rightarrow> subp \<Rightarrow> 'k \<times> unit res" where
  "subp_terminate sys = subp_send_signal sys 15"

definition subp_kill :: "('k, 'z) proc_api_scheme \<Rightarrow> 'k \<Rightarrow> subp \<Rightarrow> 'k \<times> unit res" where
  "subp_kill sys = subp_send_signal sys 9"

definition returncode :: "subp \<Rightarrow> int res" where
  "returncode s = (case su_returncode s of None \<Rightarrow> Inl (Undefined Uninit_read) | Some c \<Rightarrow> Inr c)"

text \<open>A C string made of the bytes behind a pointer: without a NUL it reads out of bounds.\<close>

definition string_at :: "char list \<Rightarrow> string res" where
  "string_at bs = (if NUL \<in> set bs then Inr (c_str bs) else Inl (Undefined Out_of_bounds))"

definition subp_stdout :: "subp \<Rightarrow> char list res" where
  "subp_stdout s = rawbuf (io_rbuf (su_stdout s))"

definition subp_stderr :: "subp \<Rightarrow> char list res" where
  "subp_stderr s = rawbuf (io_rbuf (su_stderr s))"

definition exec_cmd ::
  "('k, 'z) proc_api_scheme \<Rightarrow> int \<Rightarrow> string \<Rightarrow> string list \<Rightarrow> 'k \<Rightarrow> ('k \<times> (int \<times> string \<times> string) res) option"
where
  "exec_cmd sys step cmd env k =
     (case subp_new sys cmd env k of
        (k, Inl e) \<Rightarrow> Some (k, Inl e)
      | (k, Inr s) \<Rightarrow>
          (case subp_wait sys step 50 k s of
             None \<Rightarrow> None
           | Some (k, s, r) \<Rightarrow>
               Some (subp_destroy sys k s,
                 rbind r (\<lambda>_.
                 rbind (returncode s) (\<lambda>c.
                 rbind (rbind (subp_stdout s) string_at) (\<lambda>out.
                 rbind (rbind (subp_stderr s) string_at) (\<lambda>err. Inr (c, out, err))))))))"

section \<open>Room for the terminating NUL\<close>

text \<open>After \<open>read_all\<close> the array is not filled to its last byte: the last read was a short one.\<close>

lemma grow_cap_reaches: "grow_cap c cap = Inr c' \<Longrightarrow> cap \<le> c'"
proof (induction c cap rule: grow_cap.induct)
  case (1 c cap)
  then show ?case
    by (subst (asm) grow_cap.simps) (auto simp: rbind_eq_Inr split: if_splits)
qed

lemma resize_room: "resize b cap = Inr b' \<Longrightarrow> cap \<le> b_cap b' \<and> b_offset b' = b_offset b"
  by (auto simp: resize_def rbind_eq_Inr dest: grow_cap_reaches split: if_splits)

lemma fill_rbuf_room:
  "fill_rbuf s bs = Inr s' \<Longrightarrow>
     b_cap (io_rbuf s') = b_cap (io_rbuf s) \<and> b_offset (io_rbuf s') = b_offset (io_rbuf s) + int (length bs)"
  by (auto simp: fill_rbuf_def rbind_eq_Inr)

definition short_reads :: "('k, 'z) posix_scheme \<Rightarrow> int \<Rightarrow> bool" where
  "short_reads sys fd \<longleftrightarrow> (\<forall>k n bs k'. 0 < n \<longrightarrow> px_read sys k fd n = (Inr bs, k') \<longrightarrow> int (length bs) \<le> n)"

lemma rx_short: "rx_kernel sys fd recv pend intr \<Longrightarrow> short_reads sys fd"
  unfolding short_reads_def
proof (intro allI impI)
  fix k n bs k'
  assume "rx_kernel sys fd recv pend intr" "0 < n" "px_read sys k fd n = (Inr bs, k')"
  then show "int (length bs) \<le> n"
    unfolding rx_kernel_def by (auto dest!: spec [of _ k] spec [of _ n])
qed

lemma short_readsD: "short_reads sys fd \<Longrightarrow> 0 < n \<Longrightarrow> px_read sys k fd n = (Inr bs, k') \<Longrightarrow> int (length bs) \<le> n"
  unfolding short_reads_def by blast

definition fits_after :: "'m nstream_scheme \<Rightarrow> int \<Rightarrow> 'm nstream_scheme \<Rightarrow> bool" where
  "fits_after s len s' \<longleftrightarrow> io_fd s' = io_fd s \<and> b_cap (io_rbuf s') = b_cap (io_rbuf s) \<and>
     b_offset (io_rbuf s') \<le> b_offset (io_rbuf s) + len"

lemma fits_after_fill:
  "fill_rbuf s bs = Inr s1 \<Longrightarrow> fits_after s1 (len - int (length bs)) s' \<Longrightarrow> fits_after s len s'"
  using fill_rbuf_room [of s bs s1] fill_rbuf_fd [of s bs s1] by (simp add: fits_after_def)

lemma read_loop_room:
  assumes "read_loop sys k s len = Some y"
  shows "short_reads sys (io_fd s) \<longrightarrow> 0 \<le> len \<longrightarrow> fits_after s len (fst (snd y))"
proof (rule read_loop.raw_induct [OF _ assms,
      where P = "\<lambda>sys k s len y. short_reads sys (io_fd s) \<longrightarrow> 0 \<le> len \<longrightarrow> fits_after s len (fst (snd y))"], goal_cases)
  case (1 f sys k s len y)
  show ?case
  proof (intro impI)
    assume sh: "short_reads sys (io_fd s)" and len: "0 \<le> len"
    obtain reply k1 where rd: "px_read sys k (io_fd s) len = (reply, k1)" by fastforce
    show "fits_after s len (fst (snd y))"
    proof (cases "len \<noteq> 0 \<and> (\<exists>bs. reply = Inr bs \<and> bs \<noteq> [])")
      case True
      then obtain bs where bs: "len \<noteq> 0" "reply = Inr bs" "bs \<noteq> []" by blast
      have le: "int (length bs) \<le> len"
        using short_readsD [OF sh, of len k bs k1] bs(1,2) len rd by simp
      show ?thesis
      proof (cases "fill_rbuf s bs")
        case (Inl e)
        with 1(2) bs rd len show ?thesis by (auto simp: fits_after_def)
      next
        case (Inr s1)
        then have "f sys k1 s1 (len - int (length bs)) = Some y"
          using 1(2) bs rd by simp
        then have "fits_after s1 (len - int (length bs)) (fst (snd y))"
          using 1(1) sh le fill_rbuf_fd [OF Inr] by simp
        with Inr show ?thesis by (rule fits_after_fill)
      qed
    next
      case False
      with 1 rd sh len show ?thesis
        by (cases reply) (auto simp: fits_after_def split: if_splits)
    qed
  qed
qed

lemma read_chunk_room:
  assumes c: "read_chunk sys k s len = Some (k', s', Inr cur)" and sh: "short_reads sys (io_fd s)" and len: "0 \<le> len"
  shows "cur \<le> len \<and> b_offset (io_rbuf s') + (len - cur) \<le> b_cap (io_rbuf s')"
proof -
  obtain b k1 s1 where b: "resize (io_rbuf s) (b_offset (io_rbuf s) + len) = Inr b"
      "read_loop sys k (s\<lparr>io_rbuf := b\<rparr>) len = Some (k1, s1, Inr ())" "s' = s1" "cur = b_offset (io_rbuf s1) - b_offset b"
    using c by (auto simp: read_chunk_def Let_def rbind_eq_Inr chk32_Inr split: sum.splits option.splits)
  have "fits_after (s\<lparr>io_rbuf := b\<rparr>) len s1"
    using read_loop_room [OF b(2)] sh len by simp
  with resize_room [OF b(1)] b(3,4) show ?thesis
    by (simp add: fits_after_def)
qed

lemma read_all_room:
  assumes "read_all sys k s step = Some (k', s', Inr n)" and "short_reads sys (io_fd s)" and "0 \<le> step"
  shows "b_offset (io_rbuf s') < b_cap (io_rbuf s')"
proof -
  define y where "y = (k', s', Inr n :: int res)"
  have run: "read_all_loop sys k s step 0 = Some y"
    using assms(1) by (simp add: read_all_def y_def)
  have "short_reads sys (io_fd s) \<longrightarrow> 0 \<le> step \<longrightarrow>
      (\<forall>n. snd (snd y) = Inr n \<longrightarrow> b_offset (io_rbuf (fst (snd y))) < b_cap (io_rbuf (fst (snd y))))"
  proof (rule read_all_loop.raw_induct [OF _ run,
        where P = "\<lambda>sys k s step tot y. short_reads sys (io_fd s) \<longrightarrow> 0 \<le> step \<longrightarrow>
          (\<forall>n. snd (snd y) = Inr n \<longrightarrow> b_offset (io_rbuf (fst (snd y))) < b_cap (io_rbuf (fst (snd y))))"], goal_cases)
    case (1 f sys k s step tot y)
    then obtain k1 s1 r where c: "read_chunk sys k s step = Some (k1, s1, r)"
      by (auto split: option.splits)
    show ?case
    proof (intro impI allI)
      fix n
      assume sh: "short_reads sys (io_fd s)" "0 \<le> step" and n: "snd (snd y) = Inr n"
      then obtain cur where cur: "r = Inr cur"
        using 1(2) c by (cases r) auto
      have fd: "io_fd s1 = io_fd s"
        using read_chunk_keeps [OF c, where I = "\<lambda>_. ()"] by simp
      show "b_offset (io_rbuf (fst (snd y))) < b_cap (io_rbuf (fst (snd y)))"
      proof (cases "cur = step")
        case True
        then obtain t where "f sys k1 s1 step t = Some y"
          using 1(2) c cur n by (auto simp: rbind_eq_Inr split: sum.splits)
        then show ?thesis using 1(1) sh fd n by simp
      next
        case False
        then have "fst (snd y) = s1"
          using 1(2) c cur n by (auto simp: rbind_eq_Inr split: sum.splits)
        with False read_chunk_room [OF c [unfolded cur] sh] show ?thesis by simp
      qed
    qed
  qed
  then show ?thesis using assms(2,3) by (simp add: y_def)
qed

section \<open>The contract of the kernel and the child\<close>

text \<open>
  Of a descriptor \<open>fd\<close> of the child's output: \<open>recv fd k\<close> is what has been read, \<open>pend fd k\<close> bounds what
  can still be read and \<open>intr fd k\<close> the interruptions. \<open>life k\<close> bounds the calls of \<open>waitpid\<close> that still
  find the child running. After a \<open>waitpid\<close> that found it ended (\<open>reaped\<close>), a read that finds no
  byte means that there is none left.
\<close>

type_synonym 'k views = "(int \<Rightarrow> 'k \<Rightarrow> string) \<times> (int \<Rightarrow> 'k \<Rightarrow> nat) \<times> (int \<Rightarrow> 'k \<Rightarrow> nat)"

definition fd_view :: "'k views \<Rightarrow> int \<Rightarrow> 'k \<Rightarrow> string \<times> nat \<times> nat" where
  "fd_view v fd k = (case v of (recv, pend, intr) \<Rightarrow> (recv fd k, pend fd k, intr fd k))"

definition pipe_kernel ::
  "('k, 'z) posix_scheme \<Rightarrow> 'k views \<Rightarrow> ('k \<Rightarrow> nat) \<Rightarrow> ('k \<Rightarrow> bool) \<Rightarrow> int \<Rightarrow> int \<Rightarrow> bool"
where
  "pipe_kernel sys v life reaped fd other \<longleftrightarrow>
     (case v of (recv, pend, intr) \<Rightarrow>
        rx_kernel sys fd (recv fd) (pend fd) (intr fd) \<and>
        rd_keeps_fd (\<lambda>k. (fd_view v other k, life k, reaped k)) sys fd \<and>
        (\<forall>k n reply k'. 0 < n \<longrightarrow> px_read sys k fd n = (reply, k') \<longrightarrow>
           (case reply of
              Inr bs \<Rightarrow> bs = [] \<longrightarrow> pend fd k' = 0
            | Inl e \<Rightarrow> (e = EINTR \<or> e = EAGAIN) \<and> (e = EAGAIN \<and> reaped k' \<longrightarrow> pend fd k' = 0))))"

definition child_kernel ::
  "('k, 'z) proc_api_scheme \<Rightarrow> int \<Rightarrow> 'k views \<Rightarrow> ('k \<Rightarrow> nat) \<Rightarrow> ('k \<Rightarrow> bool) \<Rightarrow> int \<Rightarrow> int \<Rightarrow> bool"
where
  "child_kernel sys pid v life reaped fd1 fd2 \<longleftrightarrow>
     pipe_kernel sys v life reaped fd1 fd2 \<and> pipe_kernel sys v life reaped fd2 fd1 \<and>
     (\<forall>k. case pr_waitpid sys k pid of (r, k') \<Rightarrow>
        fd_view v fd1 k' = fd_view v fd1 k \<and> fd_view v fd2 k' = fd_view v fd2 k \<and>
        (case r of
           Inl e \<Rightarrow> reaped k
         | Inr None \<Rightarrow> life k' < life k \<and> \<not> reaped k'
         | Inr (Some status) \<Rightarrow> reaped k')) \<and>
     (\<forall>k ms. fd_view v fd1 (pr_sleep sys k ms) = fd_view v fd1 k \<and> fd_view v fd2 (pr_sleep sys k ms) = fd_view v fd2 k \<and>
        life (pr_sleep sys k ms) = life k \<and> (reaped (pr_sleep sys k ms) \<longleftrightarrow> reaped k))"

text \<open>One stream of the child's output, ready to be read to the end.\<close>

definition reader :: "'k views \<Rightarrow> int \<Rightarrow> int \<Rightarrow> 'k \<Rightarrow> nstream \<Rightarrow> bool" where
  "reader v step fd k s \<longleftrightarrow>
     (case v of (recv, pend, intr) \<Rightarrow>
        io_fd s = fd \<and> buf_ok (io_rbuf s) \<and> b_offset (io_rbuf s) + int (pend fd k) + step \<le> 1073741824)"

text \<open>What reading did to a stream: everything that came is in the buffer, and after the end of the
  child there is nothing left.\<close>

definition took :: "'k views \<Rightarrow> ('k \<Rightarrow> bool) \<Rightarrow> int \<Rightarrow> 'k \<Rightarrow> nstream \<Rightarrow> 'k \<Rightarrow> nstream \<Rightarrow> bool" where
  "took v reaped fd k s k' s' \<longleftrightarrow>
     (case v of (recv, pend, intr) \<Rightarrow>
        (\<exists>bs. recv fd k' = recv fd k @ bs \<and> contents (io_rbuf s') = contents (io_rbuf s) @ bs) \<and>
        b_offset (io_rbuf s') < b_cap (io_rbuf s') \<and> (reaped k' \<longrightarrow> pend fd k' = 0))"

lemma read_stream:
  assumes kern: "pipe_kernel sys v life reaped fd other" and rd: "reader v step fd k s" and step: "0 < step"
  shows "\<exists>k' s' n. read_all sys k s step = Some (k', s', Inr n) \<and> reader v step fd k' s' \<and>
           took v reaped fd k s k' s' \<and> fd_view v other k' = fd_view v other k \<and> life k' = life k \<and> reaped k' = reaped k"
proof -
  obtain recv pend intr where v: "v = (recv, pend, intr)" by (metis prod_cases3)
  have rx: "rx_kernel sys (io_fd s) (recv fd) (pend fd) (intr fd)" and s: "io_fd s = fd" "buf_ok (io_rbuf s)"
      "b_offset (io_rbuf s) + int (pend fd k) + step \<le> 1073741824"
    using kern rd by (simp_all add: pipe_kernel_def reader_def v)
  obtain k' s' bs r where run: "read_all sys k s step = Some (k', s', io_count (length bs) r)"
    and o: "rx_outcome sys fd (recv fd) (pend fd) (intr fd) k s (int (pend fd k) + step) k' s' bs r"
    using read_all_outcome [OF rx s(2) step s(3)] s(1) by auto
  have "int (length bs) < int (pend fd k) + step"
    using o step unfolding rx_outcome_def by linarith
  then obtain k0 m reply where stop: "0 < m" "px_read sys k0 fd m = (reply, k')" "rx_stop reply s s' r"
    using o unfolding rx_outcome_def by auto
  have last: "case reply of
              Inr bs \<Rightarrow> bs = [] \<longrightarrow> pend fd k' = 0
            | Inl e \<Rightarrow> (e = EINTR \<or> e = EAGAIN) \<and> (e = EAGAIN \<and> reaped k' \<longrightarrow> pend fd k' = 0)"
    using kern stop(1,2) unfolding pipe_kernel_def v by auto
  have r: "r = Inr ()" and nomore: "reaped k' \<longrightarrow> pend fd k' = 0"
    using stop(3) last by (auto simp: rx_stop_def split: sum.splits)
  have run': "read_all sys k s step = Some (k', s', Inr (int (length bs)))"
    using run r by (simp add: io_count_def)
  have same: "(fd_view v other k', life k', reaped k') = (fd_view v other k, life k, reaped k)"
    using read_all_keeps_fd [OF run', of "\<lambda>k. (fd_view v other k, life k, reaped k)"] kern s(1)
    by (simp add: pipe_kernel_def v)
  have room: "b_offset (io_rbuf s') < b_cap (io_rbuf s')"
    using read_all_room [OF run' rx_short [OF rx]] step by simp
  have "reader v step fd k' s'" "took v reaped fd k s k' s'"
    using o s nomore room by (auto simp: reader_def took_def v rx_outcome_def rx_frame_def)
  with run' same show ?thesis by blast
qed

lemma reader_view: "reader v step fd k s \<Longrightarrow> fd_view v fd k' = fd_view v fd k \<Longrightarrow> reader v step fd k' s"
  by (cases v) (auto simp: reader_def fd_view_def)

lemma took_view:
  "took v reaped fd k1 s k2 s' \<Longrightarrow> fd_view v fd k = fd_view v fd k1 \<Longrightarrow> fd_view v fd k' = fd_view v fd k2 \<Longrightarrow>
   reaped k' = reaped k2 \<Longrightarrow> took v reaped fd k s k' s'"
  by (cases v) (auto simp: took_def fd_view_def)

text \<open>The two output streams of a child.\<close>

definition collecting :: "'k views \<Rightarrow> int \<Rightarrow> int \<Rightarrow> int \<Rightarrow> int \<Rightarrow> 'k \<Rightarrow> subp \<Rightarrow> bool" where
  "collecting v step pid fd1 fd2 k s \<longleftrightarrow>
     su_pid s = pid \<and> reader v step fd1 k (su_stdout s) \<and> reader v step fd2 k (su_stderr s)"

lemma communicate_collects:
  assumes kern: "child_kernel sys pid v life reaped fd1 fd2" and c: "collecting v step pid fd1 fd2 k s" and step: "0 < step"
  shows "\<exists>k' s'. communicate sys step None k s = Some (k', s', Inr ()) \<and> collecting v step pid fd1 fd2 k' s' \<and>
           took v reaped fd1 k (su_stdout s) k' (su_stdout s') \<and> took v reaped fd2 k (su_stderr s) k' (su_stderr s') \<and>
           life k' = life k \<and> reaped k' = reaped k \<and> su_returncode s' = su_returncode s"
proof -
  have p: "pipe_kernel sys v life reaped fd1 fd2" "pipe_kernel sys v life reaped fd2 fd1"
    using kern by (simp_all add: child_kernel_def)
  have rd: "reader v step fd1 k (su_stdout s)" "reader v step fd2 k (su_stderr s)" "su_pid s = pid"
    using c by (simp_all add: collecting_def)
  obtain k1 s1 n1 where a: "read_all sys k (su_stdout s) step = Some (k1, s1, Inr n1)" "reader v step fd1 k1 s1"
      "took v reaped fd1 k (su_stdout s) k1 s1" "fd_view v fd2 k1 = fd_view v fd2 k" "life k1 = life k" "reaped k1 = reaped k"
    using read_stream [OF p(1) rd(1) step] by blast
  obtain k2 s2 n2 where b: "read_all sys k1 (su_stderr s) step = Some (k2, s2, Inr n2)" "reader v step fd2 k2 s2"
      "took v reaped fd2 k1 (su_stderr s) k2 s2" "fd_view v fd1 k2 = fd_view v fd1 k1" "life k2 = life k1" "reaped k2 = reaped k1"
    using read_stream [OF p(2) reader_view [OF rd(2) a(4)] step] by blast
  have "took v reaped fd1 k (su_stdout s) k2 s1" "took v reaped fd2 k (su_stderr s) k2 s2" "reader v step fd1 k2 s1"
    using took_view [OF a(3) refl b(4,6)] took_view [OF b(3) a(4) [symmetric] refl refl] reader_view [OF a(2) b(4)]
    by simp_all
  with a b rd(3) show ?thesis
    by (simp add: communicate_def collecting_def)
qed

lemma took_trans: "took v reaped fd k s k1 s1 \<Longrightarrow> took v reaped fd k1 s1 k' s' \<Longrightarrow> took v reaped fd k s k' s'"
  by (cases v) (force simp: took_def)

lemma took_from: "took v reaped fd k1 s k' s' \<Longrightarrow> fd_view v fd k1 = fd_view v fd k \<Longrightarrow> took v reaped fd k s k' s'"
  by (cases v) (auto simp: took_def fd_view_def)

lemma wait_collects:
  assumes kern: "child_kernel sys pid v life reaped fd1 fd2" and step: "0 < step"
  shows "collecting v step pid fd1 fd2 k s \<Longrightarrow> \<not> reaped k \<Longrightarrow>
     \<exists>k' s' status. subp_wait sys step interval k s = Some (k', s', Inr ()) \<and> reaped k' \<and>
       su_returncode s' = Some status \<and> (\<exists>k0. fst (pr_waitpid sys k0 pid) = Inr (Some status)) \<and>
       collecting v step pid fd1 fd2 k' s' \<and>
       took v reaped fd1 k (su_stdout s) k' (su_stdout s') \<and> took v reaped fd2 k (su_stderr s) k' (su_stderr s')"
proof (induction "life k" arbitrary: k s rule: less_induct)
  case less
  obtain r k1 where w: "pr_waitpid sys k pid = (r, k1)" by fastforce
  have k1: "fd_view v fd1 k1 = fd_view v fd1 k" "fd_view v fd2 k1 = fd_view v fd2 k"
    and r: "case r of Inl e \<Rightarrow> reaped k | Inr None \<Rightarrow> life k1 < life k \<and> \<not> reaped k1 | Inr (Some status) \<Rightarrow> reaped k1"
    using kern [unfolded child_kernel_def, THEN conjunct2, THEN conjunct2, THEN conjunct1, THEN spec, of k] w by simp_all
  have pid: "su_pid s = pid"
    using less.prems(1) by (simp add: collecting_def)
  obtain ended where e: "r = Inr ended"
    using r less.prems(2) by (cases r) auto
  define s1 where "s1 = (case ended of None \<Rightarrow> s | Some status \<Rightarrow> s\<lparr>su_returncode := Some status\<rparr>)"
  have poll: "subp_poll sys k s = (k1, s1, Inr (ended \<noteq> None))"
    using w e pid by (auto simp: subp_poll_def s1_def split: option.splits)
  have s1: "su_stdout s1 = su_stdout s" "su_stderr s1 = su_stderr s" "su_pid s1 = pid"
    using pid by (auto simp: s1_def split: option.splits)
  have "collecting v step pid fd1 fd2 k1 s1"
    using less.prems(1) s1 k1 by (auto simp: collecting_def intro: reader_view)
  from communicate_collects [OF kern this step] obtain k2 s2
    where c: "communicate sys step None k1 s1 = Some (k2, s2, Inr ())" "collecting v step pid fd1 fd2 k2 s2"
      "took v reaped fd1 k1 (su_stdout s) k2 (su_stdout s2)" "took v reaped fd2 k1 (su_stderr s) k2 (su_stderr s2)"
      "life k2 = life k1" "reaped k2 = reaped k1" "su_returncode s2 = su_returncode s1"
    using s1 by (metis (no_types, lifting))
  note t = took_from [OF c(3) k1(1)] took_from [OF c(4) k1(2)]
  show ?case
  proof (cases ended)
    case (Some status)
    then have "subp_wait sys step interval k s = Some (k2, s2, Inr ())"
      by (subst subp_wait.simps) (simp add: poll c(1))
    moreover have "reaped k2" "su_returncode s2 = Some status"
      using r e Some c(6,7) by (simp_all add: s1_def)
    moreover have "fst (pr_waitpid sys k pid) = Inr (Some status)"
      using w e Some by simp
    ultimately show ?thesis using c(2) t by blast
  next
    case None
    let ?k = "pr_sleep sys k2 interval"
    have sl: "fd_view v fd1 ?k = fd_view v fd1 k2" "fd_view v fd2 ?k = fd_view v fd2 k2" "life ?k = life k2" "reaped ?k = reaped k2"
      using kern [unfolded child_kernel_def, THEN conjunct2, THEN conjunct2, THEN conjunct2, THEN spec, THEN spec, of k2 interval]
      by simp_all
    have "subp_wait sys step interval k s = subp_wait sys step interval ?k s2"
      by (subst subp_wait.simps) (simp add: poll c(1) None)
    moreover have "life ?k < life k" "\<not> reaped ?k"
      using r e None c(5,6) sl by auto
    moreover have "collecting v step pid fd1 fd2 ?k s2"
      using c(2) sl by (auto simp: collecting_def intro: reader_view)
    ultimately obtain k' s' status where w: "subp_wait sys step interval k s = Some (k', s', Inr ())" "reaped k'"
        "su_returncode s' = Some status" "\<exists>k0. fst (pr_waitpid sys k0 pid) = Inr (Some status)"
        "collecting v step pid fd1 fd2 k' s'" "took v reaped fd1 ?k (su_stdout s2) k' (su_stdout s')" "took v reaped fd2 ?k (su_stderr s2) k' (su_stderr s')"
      using less.hyps by (metis (no_types, lifting))
    show ?thesis
      using w(1-5) took_trans [OF t(1) took_from [OF w(6) sl(1)]] took_trans [OF t(2) took_from [OF w(7) sl(2)]] by blast
  qed
qed

section \<open>Fresh streams and strings\<close>

lemma nstream_new_fresh:
  "nstream_new sys k fd = (k', Inr s) \<Longrightarrow> io_fd s = fd \<and> buf_ok (io_rbuf s) \<and> contents (io_rbuf s) = [] \<and> b_offset (io_rbuf s) = 0"
  by (auto simp: nstream_new_def nio_new_def nio.defs default_ok split: prod.splits sum.splits)

lemma pipe_end_fresh:
  "pipe_end sys out k = (k', Inr (c, s)) \<Longrightarrow> buf_ok (io_rbuf s) \<and> contents (io_rbuf s) = [] \<and> b_offset (io_rbuf s) = 0"
  by (auto simp: pipe_end_def split: prod.splits sum.splits dest: nstream_new_fresh)

definition fresh_stream :: "nstream \<Rightarrow> bool" where
  "fresh_stream s \<longleftrightarrow> buf_ok (io_rbuf s) \<and> contents (io_rbuf s) = [] \<and> b_offset (io_rbuf s) = 0"

lemma subp_new_fresh:
  "subp_new sys cmd env k = (k', Inr s) \<Longrightarrow> fresh_stream (su_stdout s) \<and> fresh_stream (su_stderr s) \<and> su_returncode s = None"
  by (auto simp: subp_new_def fresh_stream_def split: prod.splits sum.splits dest: pipe_end_fresh)

lemma c_str_pad: "0 < n \<Longrightarrow> c_str (xs @ replicate n NUL) = c_str xs"
  by (induction xs) (auto simp: c_str_def gr0_conv_Suc)

lemma string_at_rbuf:
  assumes "buf_ok b" and "b_offset b < b_cap b"
  shows "rbind (rawbuf b) string_at = Inr (c_str (contents b))"
proof -
  have "0 < nat (b_cap b - b_offset b)"
    using assms(2) by simp
  then show ?thesis
    using rawbuf_ok [OF assms(1)] by (simp add: string_at_def c_str_pad)
qed

lemma took_string:
  assumes "took v reaped fd k s k' s'" and "reader v step fd k' s'" and "fresh_stream s"
  shows "case v of (recv, pend, intr) \<Rightarrow>
           \<exists>bs. recv fd k' = recv fd k @ bs \<and> (reaped k' \<longrightarrow> pend fd k' = 0) \<and>
             rbind (rawbuf (io_rbuf s')) string_at = Inr (c_str bs)"
  using assms string_at_rbuf [of "io_rbuf s'"]
  by (cases v) (auto simp: took_def reader_def fresh_stream_def)

section \<open>A sample kernel\<close>

text \<open>
  Pipes are numbered; the child writes \<open>hi\<close> to its output and \<open>e\<close> to its error output and is found
  ended at the third \<open>waitpid\<close>, with exit code 1.
\<close>

record box =
  bx_next :: int
  bx_life :: nat
  bx_reaped :: bool
  bx_data :: "int \<Rightarrow> string"
  bx_got :: "int \<Rightarrow> string"

definition box_read :: "box \<Rightarrow> int \<Rightarrow> int \<Rightarrow> (errno + char list) \<times> box" where
  "box_read k fd n =
     (if bx_data k fd = [] then (Inl EAGAIN, k)
      else (Inr (take (nat n) (bx_data k fd)),
            k\<lparr>bx_data := (bx_data k)(fd := drop (nat n) (bx_data k fd)),
              bx_got := (bx_got k)(fd := bx_got k fd @ take (nat n) (bx_data k fd))\<rparr>))"

definition box_sys :: "box proc_api" where
  "box_sys =
     \<lparr>px_getfl = \<lambda>k fd. (Inr 0, k), px_setfl = \<lambda>k fd w. (None, k), px_nonblock = 2048, px_close = \<lambda>k fd. k,
      px_read = box_read, px_write = \<lambda>k fd bs. (Inr (int (length bs)), k),
      pr_pipe = \<lambda>k. (Inr (bx_next k, bx_next k + 1), k\<lparr>bx_next := bx_next k + 2\<rparr>),
      pr_fork = \<lambda>k dups prog. (Inr 42,
        k\<lparr>bx_data := (bx_data k)(fst (dups ! 1) - 1 := ''hi'', fst (dups ! 2) - 1 := ''e'')\<rparr>),
      pr_waitpid = \<lambda>k pid. (if bx_reaped k then (Inl (Errno 10), k)
        else if bx_life k = 0 then (Inr (Some 256), k\<lparr>bx_reaped := True\<rparr>)
        else (Inr None, k\<lparr>bx_life := bx_life k - 1\<rparr>)),
      pr_kill = \<lambda>k pid sig. (None, k), pr_sleep = \<lambda>k ms. k\<rparr>"

definition box0 :: box where
  "box0 = \<lparr>bx_next = 3, bx_life = 2, bx_reaped = False, bx_data = \<lambda>fd. [], bx_got = \<lambda>fd. []\<rparr>"

definition box_views :: "box views" where
  "box_views = (\<lambda>fd k. bx_got k fd, \<lambda>fd k. length (bx_data k fd), \<lambda>fd k. 0)"

lemma box_pipe: "fd \<noteq> other \<Longrightarrow> pipe_kernel box_sys box_views bx_life bx_reaped fd other"
  by (auto simp: pipe_kernel_def box_views_def box_sys_def box_read_def rx_kernel_def rd_keeps_fd_def fd_view_def)

lemma box_kernel: "fd1 \<noteq> fd2 \<Longrightarrow> child_kernel box_sys 42 box_views bx_life bx_reaped fd1 fd2"
  unfolding child_kernel_def
  by (intro conjI box_pipe) (simp_all add: box_sys_def box_views_def fd_view_def)

definition box_stream :: "int \<Rightarrow> nstream" where
  "box_stream fd =
     \<lparr>io_fd = fd, io_closed = False, io_rbuf = \<lparr>b_cap = 1, b_start = 0, b_offset = 0, b_mem = Some [NUL]\<rparr>,
      io_wbuf = \<lparr>b_cap = 1, b_start = 0, b_offset = 0, b_mem = Some [NUL]\<rparr>, io_evlp = None,
      st_reset = False, st_eof = False, st_eop = False\<rparr>"

definition box_subp :: subp where
  "box_subp = \<lparr>su_cmd = ''ls'', su_env = [], su_stdin = box_stream 4, su_stdout = box_stream 5, su_stderr = box_stream 7,
     su_pid = 42, su_returncode = None\<rparr>"

definition box1 :: box where
  "box1 = box0\<lparr>bx_next := 9, bx_data := (\<lambda>fd. [])(5 := ''hi'', 7 := ''e'')\<rparr>"

lemma box_stream_new: "nstream_new box_sys k fd = (k, Inr (box_stream fd))"
  by (simp add: nstream_new_def nio_new_def buffer_default_def buffer_new_def set_io_nonblock_def box_sys_def
      box_stream_def nio.defs)

lemma box_calls:
  "pr_pipe box_sys k = (Inr (bx_next k, bx_next k + 1), k\<lparr>bx_next := bx_next k + 2\<rparr>)"
  "pr_fork box_sys k dups prog =
     (Inr 42, k\<lparr>bx_data := (bx_data k)(fst (dups ! 1) - 1 := ''hi'', fst (dups ! 2) - 1 := ''e'')\<rparr>)"
  by (simp_all add: box_sys_def)

lemma box_pipe_end:
  "pipe_end box_sys out k = (k\<lparr>bx_next := bx_next k + 2\<rparr>,
     Inr (if out then (bx_next k, box_stream (bx_next k + 1)) else (bx_next k + 1, box_stream (bx_next k))))"
  by (simp add: pipe_end_def box_calls box_stream_new)

lemma box_new: "subp_new box_sys ''ls'' [] box0 = (box1, Inr box_subp)"
  by (simp add: subp_new_def box_pipe_end box_calls box0_def box1_def box_subp_def)

lemma box_reader: "reader box_views 1024 fd k (box_stream fd) \<longleftrightarrow> length (bx_data k fd) \<le> 1073740800"
  by (auto simp: reader_def box_views_def box_stream_def buf_ok_def int_limits)

section \<open>Properties\<close>

text \<open>C23. \<open>wait\<close> ends as soon as the child has ended, however much it writes: it never blocks on a full
  pipe, and when it returns the status of \<open>waitpid\<close> is stored and every byte the child wrote to its
  two outputs is in the read buffers, in order.\<close>

theorem wait_returns:
  assumes "child_kernel sys (su_pid s) (recv, pend, intr) life reaped fd1 fd2" and "\<not> reaped k" and "0 < step"
    and "reader (recv, pend, intr) step fd1 k (su_stdout s)" and "reader (recv, pend, intr) step fd2 k (su_stderr s)"
  shows "\<exists>k' s' status out err. subp_wait sys step interval k s = Some (k', s', Inr ()) \<and>
     returncode s' = Inr status \<and> (\<exists>k0. fst (pr_waitpid sys k0 (su_pid s)) = Inr (Some status)) \<and>
     recv fd1 k' = recv fd1 k @ out \<and> pend fd1 k' = 0 \<and>
     contents (io_rbuf (su_stdout s')) = contents (io_rbuf (su_stdout s)) @ out \<and>
     recv fd2 k' = recv fd2 k @ err \<and> pend fd2 k' = 0 \<and>
     contents (io_rbuf (su_stderr s')) = contents (io_rbuf (su_stderr s)) @ err"
proof -
  have "collecting (recv, pend, intr) step (su_pid s) fd1 fd2 k s"
    using assms(4,5) by (simp add: collecting_def)
  from wait_collects [OF assms(1,3) this assms(2), of interval] obtain k' s' status
    where w: "subp_wait sys step interval k s = Some (k', s', Inr ())" "reaped k'" "su_returncode s' = Some status"
      "\<exists>k0. fst (pr_waitpid sys k0 (su_pid s)) = Inr (Some status)"
      "took (recv, pend, intr) reaped fd1 k (su_stdout s) k' (su_stdout s')"
      "took (recv, pend, intr) reaped fd2 k (su_stderr s) k' (su_stderr s')"
    by blast
  from w(2,5,6) obtain out err where
      "recv fd1 k' = recv fd1 k @ out \<and> contents (io_rbuf (su_stdout s')) = contents (io_rbuf (su_stdout s)) @ out \<and> pend fd1 k' = 0"
      "recv fd2 k' = recv fd2 k @ err \<and> contents (io_rbuf (su_stderr s')) = contents (io_rbuf (su_stderr s)) @ err \<and> pend fd2 k' = 0"
    unfolding took_def by auto
  moreover have "returncode s' = Inr status"
    using w(3) by (simp add: returncode_def)
  ultimately show ?thesis using w(1,4) by blast
qed

theorem wait_returns_witness:
  "\<exists>k' s' status out. subp_wait box_sys 1024 50 box1 box_subp = Some (k', s', Inr ()) \<and> returncode s' = Inr status \<and>
     bx_got k' 5 = out \<and> bx_data k' 5 = [] \<and> contents (io_rbuf (su_stdout s')) = out"
proof -
  have s: "su_pid box_subp = 42" "su_stdout box_subp = box_stream 5" "su_stderr box_subp = box_stream 7"
    by (simp_all add: box_subp_def)
  have k: "\<not> bx_reaped box1" "length (bx_data box1 5) = 2" "length (bx_data box1 7) = 1" "bx_got box1 5 = []"
    by (simp_all add: box1_def box0_def)
  have c: "contents (io_rbuf (box_stream 5)) = []"
    by (simp add: box_stream_def contents_def)
  show ?thesis
    using wait_returns [of box_sys box_subp "fst box_views" "fst (snd box_views)" "snd (snd box_views)" bx_life bx_reaped 5 7
        box1 1024 50] box_kernel [of 5 7] box_reader [of 5 box1] box_reader [of 7 box1] s k c
    by (auto simp: box_views_def)
qed

text \<open>C24. \<open>exec_cmd\<close> returns the raw status of \<open>waitpid\<close> (not the exit code) and the two outputs of the
  child, each cut at its first NUL byte; it reads no byte outside the buffers. The child's ends of
  the three pipes stay open in the caller.\<close>

theorem exec_cmd_output:
  assumes "subp_new sys cmd env k0 = (k, Inr s)"
    and "child_kernel sys (su_pid s) (recv, pend, intr) life reaped (io_fd (su_stdout s)) (io_fd (su_stderr s))"
    and "\<not> reaped k" and "0 < step"
    and "int (pend (io_fd (su_stdout s)) k) + step \<le> 1073741824" and "int (pend (io_fd (su_stderr s)) k) + step \<le> 1073741824"
  shows "\<exists>k' s' status out err.
     exec_cmd sys step cmd env k0 = Some (subp_destroy sys k' s', Inr (status, c_str out, c_str err)) \<and>
     (\<exists>k1. fst (pr_waitpid sys k1 (su_pid s)) = Inr (Some status)) \<and>
     recv (io_fd (su_stdout s)) k' = recv (io_fd (su_stdout s)) k @ out \<and> pend (io_fd (su_stdout s)) k' = 0 \<and>
     recv (io_fd (su_stderr s)) k' = recv (io_fd (su_stderr s)) k @ err \<and> pend (io_fd (su_stderr s)) k' = 0"
proof -
  let ?v = "(recv, pend, intr)" and ?a = "io_fd (su_stdout s)" and ?b = "io_fd (su_stderr s)"
  have fresh: "fresh_stream (su_stdout s)" "fresh_stream (su_stderr s)"
    using subp_new_fresh [OF assms(1)] by simp_all
  then have "collecting ?v step (su_pid s) ?a ?b k s"
    using assms(5,6) by (simp add: collecting_def reader_def fresh_stream_def)
  from wait_collects [OF assms(2,4) this assms(3), of 50] obtain k' s' status
    where w: "subp_wait sys step 50 k s = Some (k', s', Inr ())" "reaped k'" "su_returncode s' = Some status"
      "\<exists>k0. fst (pr_waitpid sys k0 (su_pid s)) = Inr (Some status)" "collecting ?v step (su_pid s) ?a ?b k' s'"
      "took ?v reaped ?a k (su_stdout s) k' (su_stdout s')" "took ?v reaped ?b k (su_stderr s) k' (su_stderr s')"
    by blast
  have rd: "reader ?v step ?a k' (su_stdout s')" "reader ?v step ?b k' (su_stderr s')"
    using w(5) by (simp_all add: collecting_def)
  obtain out err where
      "recv ?a k' = recv ?a k @ out" "pend ?a k' = 0" "rbind (subp_stdout s') string_at = Inr (c_str out)"
      "recv ?b k' = recv ?b k @ err" "pend ?b k' = 0" "rbind (subp_stderr s') string_at = Inr (c_str err)"
    using took_string [OF w(6) rd(1) fresh(1)] took_string [OF w(7) rd(2) fresh(2)] w(2)
    by (auto simp: subp_stdout_def subp_stderr_def)
  with w(1,3,4) assms(1) show ?thesis
    by (intro exI [of _ k'] exI [of _ s'] exI [of _ status] exI [of _ out] exI [of _ err])
       (simp add: exec_cmd_def returncode_def)
qed

theorem exec_cmd_output_witness:
  "\<exists>k' s' status out err.
     exec_cmd box_sys 1024 ''ls'' [] box0 = Some (subp_destroy box_sys k' s', Inr (status, c_str out, c_str err)) \<and>
     bx_got k' 5 = out \<and> bx_data k' 5 = []"
proof -
  have s: "su_pid box_subp = 42" "io_fd (su_stdout box_subp) = 5" "io_fd (su_stderr box_subp) = 7"
    by (simp_all add: box_subp_def box_stream_def)
  have k: "\<not> bx_reaped box1" "length (bx_data box1 5) = 2" "length (bx_data box1 7) = 1" "bx_got box1 5 = []"
    by (simp_all add: box1_def box0_def)
  show ?thesis
    using exec_cmd_output [OF box_new, of "fst box_views" "fst (snd box_views)" "snd (snd box_views)" bx_life bx_reaped 1024]
      box_kernel [of 5 7] s k
    by (auto simp: box_views_def)
qed

text \<open>\<open>poll\<close> (and so \<open>wait\<close>) after the child has been waited for ends the whole calling program:
  \<open>waitpid\<close> fails and the code calls \<open>_exit(-1)\<close>. A failed \<open>fork\<close> does the same instead of throwing,
  although every other failure of the constructor is an exception.\<close>

theorem subp_exits_caller:
  assumes "pr_waitpid sys k (su_pid s) = (Inl e, k1)"
    and "pipe_end sys True k2 = (k3, Inr (zero, sin))" and "pipe_end sys False k3 = (k4, Inr (one, sout))"
    and "pipe_end sys False k4 = (k5, Inr (two, serr))"
    and "pr_fork sys k5 [(zero, 0), (one, 1), (two, 2)] (child_image cmd env) = (Inl e', k6)"
  shows "subp_wait sys step interval k s = Some (k1, s, Inl (Exited (-1))) \<and>
     subp_new sys cmd env k2 = (k6, Inl (Exited (-1)))"
proof
  show "subp_wait sys step interval k s = Some (k1, s, Inl (Exited (-1)))"
    using assms(1) by (subst subp_wait.simps) (simp add: subp_poll_def)
  show "subp_new sys cmd env k2 = (k6, Inl (Exited (-1)))"
    using assms(2-) by (simp add: subp_new_def)
qed

text \<open>The sample kernel after the child has been waited for, with a table of processes that is full.\<close>

definition full_sys :: "box proc_api" where
  "full_sys = box_sys\<lparr>pr_fork := \<lambda>k dups prog. (Inl EAGAIN, k)\<rparr>"

lemma full_stream_new: "nstream_new full_sys k fd = (k, Inr (box_stream fd))"
  by (simp add: nstream_new_def nio_new_def buffer_default_def buffer_new_def set_io_nonblock_def full_sys_def box_sys_def
      box_stream_def nio.defs)

lemma full_pipe_end:
  "pipe_end full_sys out k = (k\<lparr>bx_next := bx_next k + 2\<rparr>,
     Inr (if out then (bx_next k, box_stream (bx_next k + 1)) else (bx_next k + 1, box_stream (bx_next k))))"
proof -
  have "pr_pipe full_sys k = (Inr (bx_next k, bx_next k + 1), k\<lparr>bx_next := bx_next k + 2\<rparr>)"
    by (simp add: full_sys_def box_calls)
  then show ?thesis by (simp add: pipe_end_def full_stream_new)
qed

theorem subp_exits_caller_witness:
  "subp_wait full_sys 1024 50 (box1\<lparr>bx_reaped := True\<rparr>) box_subp = Some (box1\<lparr>bx_reaped := True\<rparr>, box_subp, Inl (Exited (-1))) \<and>
   subp_new full_sys ''ls'' [] box0 = (box0\<lparr>bx_next := 9\<rparr>, Inl (Exited (-1)))"
  by (rule subp_exits_caller [where e = "Errno 10" and e' = EAGAIN and zero = 3 and one = 6 and two = 8
        and sin = "box_stream 4" and sout = "box_stream 5" and serr = "box_stream 7" and ?k3.0 = "box0\<lparr>bx_next := 5\<rparr>"
        and ?k4.0 = "box0\<lparr>bx_next := 7\<rparr>" and ?k5.0 = "box0\<lparr>bx_next := 9\<rparr>"])
     (simp_all add: full_pipe_end box0_def, simp_all add: full_sys_def box_sys_def box1_def box_subp_def)

end
