(* ===== verification/Signals.thy ===== *)
theory Signals
  imports Prelude
begin

text \<open>
  Signals, processes and thread identity of \<open>src/src/lib/utils.cc\<close>. The kernel is a parameter; a
  \<open>sigset_t\<close> is the set of its signal numbers. A call that would block for ever has no result.
\<close>

section \<open>The system interface\<close>

datatype disposition = SIG_IGN | SIG_DFL | Handler nat

datatype mask_how = SIG_BLOCK | SIG_UNBLOCK | SIG_SETMASK

text \<open>\<open>sg_max\<close> is the largest signal number; \<open>sg_mask\<close> gives the mask from before the call.\<close>

record 'k sig_api =
  sg_max :: int
  sg_action :: "'k \<Rightarrow> int \<Rightarrow> disposition \<Rightarrow> errno option \<times> 'k"
  sg_kill :: "'k \<Rightarrow> int \<Rightarrow> int \<Rightarrow> errno option \<times> 'k"
  sg_raise :: "'k \<Rightarrow> int \<Rightarrow> errno option \<times> 'k"
  sg_wait :: "'k \<Rightarrow> int set \<Rightarrow> ((errno + int) \<times> 'k) option"
  sg_suspend :: "'k \<Rightarrow> int set \<Rightarrow> 'k option"
  sg_mask :: "'k \<Rightarrow> mask_how \<Rightarrow> int set option \<Rightarrow> (errno + int set) \<times> 'k"
  sg_pending :: "'k \<Rightarrow> (errno + int set) \<times> 'k"
  sg_gettid :: "'k \<Rightarrow> int"

text \<open>\<open>sigaddset\<close> and \<open>sigdelset\<close> fail on a number that is no signal; the code ignores that.\<close>

definition valid_sig :: "('k, 'z) sig_api_scheme \<Rightarrow> int \<Rightarrow> bool" where
  "valid_sig sys sig \<longleftrightarrow> 1 \<le> sig \<and> sig \<le> sg_max sys"

definition sigaddset :: "('k, 'z) sig_api_scheme \<Rightarrow> int \<Rightarrow> int set \<Rightarrow> int set" where
  "sigaddset sys sig ss = (if valid_sig sys sig then insert sig ss else ss)"

definition sigdelset :: "('k, 'z) sig_api_scheme \<Rightarrow> int \<Rightarrow> int set \<Rightarrow> int set" where
  "sigdelset sys sig ss = (if valid_sig sys sig then ss - {sig} else ss)"

definition sigfillset :: "('k, 'z) sig_api_scheme \<Rightarrow> int set" where
  "sigfillset sys = {1..sg_max sys}"

text \<open>A call whose failure becomes a \<open>system_error\<close>.\<close>

definition checked :: "string \<Rightarrow> errno option \<times> 'k \<Rightarrow> 'k \<times> unit res" where
  "checked what r = (case r of (None, k) \<Rightarrow> (k, Inr ()) | (Some e, k) \<Rightarrow> (k, Inl (System_error what e)))"

section \<open>Dispositions and processes\<close>

definition handle_signal :: "('k, 'z) sig_api_scheme \<Rightarrow> int \<Rightarrow> disposition \<Rightarrow> 'k \<Rightarrow> 'k \<times> unit res" where
  "handle_signal sys sig handler k = checked ''sigaction error'' (sg_action sys k sig handler)"

definition ignore_signal :: "('k, 'z) sig_api_scheme \<Rightarrow> int \<Rightarrow> 'k \<Rightarrow> 'k \<times> unit res" where
  "ignore_signal sys sig = handle_signal sys sig SIG_IGN"

definition reset_signal :: "('k, 'z) sig_api_scheme \<Rightarrow> int \<Rightarrow> 'k \<Rightarrow> 'k \<times> unit res" where
  "reset_signal sys sig = handle_signal sys sig SIG_DFL"

definition send_signal :: "('k, 'z) sig_api_scheme \<Rightarrow> int \<Rightarrow> int \<Rightarrow> 'k \<Rightarrow> 'k \<times> unit res" where
  "send_signal sys pid sig k =
     (if sig = 0 then (k, Inl (Logic_error ''pid or pgid check is not supported''))
      else checked ''kill error'' (sg_kill sys k pid sig))"

definition check_process :: "('k, 'z) sig_api_scheme \<Rightarrow> int \<Rightarrow> 'k \<Rightarrow> 'k \<times> bool res" where
  "check_process sys pid k =
     (case sg_kill sys k pid 0 of
        (None, k) \<Rightarrow> (k, Inr True)
      | (Some e, k) \<Rightarrow> if e = ESRCH then (k, Inr False) else (k, Inl (System_error ''kill error'' e)))"

definition check_process_group :: "('k, 'z) sig_api_scheme \<Rightarrow> int \<Rightarrow> 'k \<Rightarrow> 'k \<times> bool res" where
  "check_process_group sys pgid k =
     (case chk32 (-1 * pgid) of Inl e \<Rightarrow> (k, Inl e) | Inr p \<Rightarrow> check_process sys p k)"

section \<open>Waiting\<close>

definition thread_raise_signal :: "('k, 'z) sig_api_scheme \<Rightarrow> int \<Rightarrow> 'k \<Rightarrow> 'k \<times> unit res" where
  "thread_raise_signal sys sig k = checked ''raise error'' (sg_raise sys k sig)"

definition sigwait_set :: "('k, 'z) sig_api_scheme \<Rightarrow> int set \<Rightarrow> 'k \<Rightarrow> ('k \<times> int res) option" where
  "sigwait_set sys ss k =
     (case sg_wait sys k ss of
        None \<Rightarrow> None
      | Some (Inl e, k) \<Rightarrow> Some (k, Inl (System_error ''sigwait error'' e))
      | Some (Inr sig, k) \<Rightarrow> Some (k, Inr sig))"

definition thread_wait_for_signal :: "('k, 'z) sig_api_scheme \<Rightarrow> int \<Rightarrow> 'k \<Rightarrow> ('k \<times> unit res) option" where
  "thread_wait_for_signal sys sig k =
     map_option (\<lambda>(k, r). (k, rbind r (\<lambda>_. Inr ()))) (sigwait_set sys (sigaddset sys sig {}) k)"

definition thread_wait_for_signals :: "('k, 'z) sig_api_scheme \<Rightarrow> int list \<Rightarrow> 'k \<Rightarrow> ('k \<times> int res) option" where
  "thread_wait_for_signals sys sigs k = sigwait_set sys (fold (sigaddset sys) sigs {}) k"

definition thread_suspend_for_signal :: "('k, 'z) sig_api_scheme \<Rightarrow> int \<Rightarrow> 'k \<Rightarrow> 'k option" where
  "thread_suspend_for_signal sys sig k = sg_suspend sys k (sigdelset sys sig (sigfillset sys))"

definition thread_suspend_for_signals :: "('k, 'z) sig_api_scheme \<Rightarrow> int list \<Rightarrow> 'k \<Rightarrow> 'k option" where
  "thread_suspend_for_signals sys sigs k = sg_suspend sys k (fold (sigdelset sys) sigs (sigfillset sys))"

section \<open>The signal mask of a thread\<close>

definition change_mask :: "('k, 'z) sig_api_scheme \<Rightarrow> mask_how \<Rightarrow> int set \<Rightarrow> 'k \<Rightarrow> 'k \<times> unit res" where
  "change_mask sys how ss k =
     (case sg_mask sys k how (Some ss) of
        (Inl e, k) \<Rightarrow> (k, Inl (System_error ''pthread_sigmask error'' e))
      | (Inr old, k) \<Rightarrow> (k, Inr ()))"

definition thread_block_signal :: "('k, 'z) sig_api_scheme \<Rightarrow> int \<Rightarrow> 'k \<Rightarrow> 'k \<times> unit res" where
  "thread_block_signal sys sig = change_mask sys SIG_BLOCK (sigaddset sys sig {})"

definition thread_block_signals :: "('k, 'z) sig_api_scheme \<Rightarrow> int list \<Rightarrow> 'k \<Rightarrow> 'k \<times> unit res" where
  "thread_block_signals sys sigs = change_mask sys SIG_BLOCK (fold (sigaddset sys) sigs {})"

definition thread_unblock_signal :: "('k, 'z) sig_api_scheme \<Rightarrow> int \<Rightarrow> 'k \<Rightarrow> 'k \<times> unit res" where
  "thread_unblock_signal sys sig = change_mask sys SIG_UNBLOCK (sigaddset sys sig {})"

definition thread_unblock_signals :: "('k, 'z) sig_api_scheme \<Rightarrow> int list \<Rightarrow> 'k \<Rightarrow> 'k \<times> unit res" where
  "thread_unblock_signals sys sigs = change_mask sys SIG_UNBLOCK (fold (sigaddset sys) sigs {})"

definition thread_check_signal_mask :: "('k, 'z) sig_api_scheme \<Rightarrow> int \<Rightarrow> 'k \<Rightarrow> 'k \<times> bool res" where
  "thread_check_signal_mask sys sig k =
     (case sg_mask sys k SIG_SETMASK None of
        (Inl e, k) \<Rightarrow> (k, Inl (System_error ''pthread_sigmask error'' e))
      | (Inr ss, k) \<Rightarrow> (k, Inr (sig \<in> ss)))"

definition thread_check_signal_pending :: "('k, 'z) sig_api_scheme \<Rightarrow> int \<Rightarrow> 'k \<Rightarrow> 'k \<times> bool res" where
  "thread_check_signal_pending sys sig k =
     (case sg_pending sys k of
        (Inl e, k) \<Rightarrow> (k, Inl (System_error ''sigpending error'' e))
      | (Inr ss, k) \<Rightarrow> (k, Inr (sig \<in> ss)))"

text \<open>\<open>thr_id\<close> is the cache of the calling thread.\<close>

definition gettid :: "('k, 'z) sig_api_scheme \<Rightarrow> 'k \<Rightarrow> int \<Rightarrow> int \<times> int" where
  "gettid sys k thr_id = (let thr_id = (if thr_id = 0 then sg_gettid sys k else thr_id) in (thr_id, thr_id))"

section \<open>Masks as sets\<close>

text \<open>The contract of \<open>pthread_sigmask\<close>: the mask \<open>mk k\<close> of the thread changes as asked, except that
  the signals of \<open>fixed\<close> (\<open>SIGKILL\<close> and \<open>SIGSTOP\<close>) are silently never blocked.\<close>

definition mask_kernel :: "('k, 'z) sig_api_scheme \<Rightarrow> int set \<Rightarrow> ('k \<Rightarrow> int set) \<Rightarrow> bool" where
  "mask_kernel sys fixed mk \<longleftrightarrow>
     (\<forall>k how s. (case s of None \<Rightarrow> True | Some s \<Rightarrow> s \<subseteq> sigfillset sys) \<longrightarrow> (\<exists>k'. sg_mask sys k how s = (Inr (mk k), k') \<and>
        mk k' = (case s of None \<Rightarrow> mk k
                 | Some s \<Rightarrow> (case how of SIG_BLOCK \<Rightarrow> mk k \<union> s | SIG_UNBLOCK \<Rightarrow> mk k - s | SIG_SETMASK \<Rightarrow> s) - fixed))) \<and>
     (\<forall>k. mk k \<inter> fixed = {} \<and> mk k \<subseteq> sigfillset sys)"

lemma sigaddset_fold: "fold (sigaddset sys) sigs s = s \<union> {x \<in> set sigs. valid_sig sys x}"
  by (induction sigs arbitrary: s) (auto simp: sigaddset_def)

lemma sigdelset_fold: "fold (sigdelset sys) sigs s = s - {x \<in> set sigs. valid_sig sys x}"
  by (induction sigs arbitrary: s) (auto simp: sigdelset_def)

lemma single_as_list:
  "thread_block_signal sys sig = thread_block_signals sys [sig]"
  "thread_unblock_signal sys sig = thread_unblock_signals sys [sig]"
  "thread_suspend_for_signal sys sig = thread_suspend_for_signals sys [sig]"
  by (simp_all add: thread_block_signal_def thread_block_signals_def thread_unblock_signal_def thread_unblock_signals_def
      thread_suspend_for_signal_def thread_suspend_for_signals_def fun_eq_iff)

lemma mask_kernelD:
  assumes "mask_kernel sys fixed mk"
  shows "s \<subseteq> sigfillset sys \<Longrightarrow> \<exists>k'. change_mask sys SIG_BLOCK s k = (k', Inr ()) \<and> mk k' = mk k \<union> (s - fixed)"
    and "s \<subseteq> sigfillset sys \<Longrightarrow> \<exists>k'. change_mask sys SIG_UNBLOCK s k = (k', Inr ()) \<and> mk k' = mk k - s"
    and "\<exists>k'. thread_check_signal_mask sys sig k = (k', Inr (sig \<in> mk k)) \<and> mk k' = mk k"
proof -
  have fx: "mk k \<inter> fixed = {}" for k
    using assms by (simp add: mask_kernel_def)
  have c: "\<exists>k'. sg_mask sys k how s = (Inr (mk k), k') \<and>
        mk k' = (case s of None \<Rightarrow> mk k
                 | Some s \<Rightarrow> (case how of SIG_BLOCK \<Rightarrow> mk k \<union> s | SIG_UNBLOCK \<Rightarrow> mk k - s | SIG_SETMASK \<Rightarrow> s) - fixed)"
    if "case s of None \<Rightarrow> True | Some s \<Rightarrow> s \<subseteq> sigfillset sys" for how s
    using assms that unfolding mask_kernel_def by blast
  show "\<exists>k'. change_mask sys SIG_BLOCK s k = (k', Inr ()) \<and> mk k' = mk k \<union> (s - fixed)" if "s \<subseteq> sigfillset sys"
    using c [of "Some s" SIG_BLOCK] fx [of k] that by (auto simp: change_mask_def)
  show "\<exists>k'. change_mask sys SIG_UNBLOCK s k = (k', Inr ()) \<and> mk k' = mk k - s" if "s \<subseteq> sigfillset sys"
    using c [of "Some s" SIG_UNBLOCK] fx [of k] that by (auto simp: change_mask_def)
  show "\<exists>k'. thread_check_signal_mask sys sig k = (k', Inr (sig \<in> mk k)) \<and> mk k' = mk k"
    using c [of None SIG_SETMASK] by (auto simp: thread_check_signal_mask_def)
qed

section \<open>Properties\<close>

text \<open>Blocking signals and testing the mask agree: after \<open>thread_block_signal\<close> of a list, a signal
  tests as blocked exactly if it was blocked before or is a maskable signal of the list (numbers
  that are no signals, and \<open>SIGKILL\<close>, are ignored without an error); unblocking the same list
  gives back the old mask without the list. The one-signal functions are the lists of one.\<close>

theorem signal_mask_roundtrip:
  assumes "mask_kernel sys fixed mk"
  shows "\<exists>k1 k2. thread_block_signals sys sigs k = (k1, Inr ()) \<and>
     (\<forall>sig. \<exists>k'. thread_check_signal_mask sys sig k1
        = (k', Inr (sig \<in> mk k \<or> sig \<in> set sigs \<and> valid_sig sys sig \<and> sig \<notin> fixed))) \<and>
     thread_unblock_signals sys sigs k1 = (k2, Inr ()) \<and>
     mk k2 = mk k - set sigs \<and>
     thread_block_signal sys sig0 = thread_block_signals sys [sig0] \<and>
     thread_unblock_signal sys sig0 = thread_unblock_signals sys [sig0]"
proof -
  let ?s = "{x \<in> set sigs. valid_sig sys x}"
  have sub: "mk k \<subseteq> sigfillset sys" for k
    using assms by (simp add: mask_kernel_def)
  have fits: "?s \<subseteq> sigfillset sys"
    by (auto simp: sigfillset_def valid_sig_def)
  obtain k1 where k1: "change_mask sys SIG_BLOCK ?s k = (k1, Inr ())" "mk k1 = mk k \<union> (?s - fixed)"
    using mask_kernelD(1) [OF assms fits] by blast
  obtain k2 where k2: "change_mask sys SIG_UNBLOCK ?s k1 = (k2, Inr ())" "mk k2 = mk k1 - ?s"
    using mask_kernelD(2) [OF assms fits] by blast
  have "\<exists>k'. thread_check_signal_mask sys sig k1
        = (k', Inr (sig \<in> mk k \<or> sig \<in> set sigs \<and> valid_sig sys sig \<and> sig \<notin> fixed))" for sig
    using mask_kernelD(3) [OF assms, of sig k1] k1(2) by auto
  moreover have "mk k2 = mk k - set sigs"
    using k1(2) k2(2) sub [of k] by (auto simp: sigfillset_def valid_sig_def)
  ultimately show ?thesis
    using k1(1) k2(1) single_as_list [of sys sig0]
    by (simp add: thread_block_signals_def thread_unblock_signals_def sigaddset_fold)
qed

text \<open>A thread whose mask is the state, on a system with 64 signals of which 9 and 19 cannot be blocked.\<close>

definition sample_sigs :: "(int set) sig_api" where
  "sample_sigs =
     \<lparr>sg_max = 64, sg_action = \<lambda>k sig h. (None, k), sg_kill = \<lambda>k pid sig. (if pid = 1 then Some EPERM else None, k),
      sg_raise = \<lambda>k sig. (None, k), sg_wait = \<lambda>k s. None, sg_suspend = \<lambda>k s. None,
      sg_mask = \<lambda>k how s. (Inr (k \<inter> {1..64} - {9, 19}),
        (case s of None \<Rightarrow> k | Some s \<Rightarrow> (case how of SIG_BLOCK \<Rightarrow> k \<union> s | SIG_UNBLOCK \<Rightarrow> k - s | SIG_SETMASK \<Rightarrow> s))),
      sg_pending = \<lambda>k. (Inr {}, k), sg_gettid = \<lambda>k. 7\<rparr>"

lemma sample_masks: "mask_kernel sample_sigs {9, 19} (\<lambda>k. k \<inter> {1..64} - {9, 19})"
  by (auto simp: mask_kernel_def sample_sigs_def sigfillset_def split: option.splits mask_how.splits)

theorem signal_mask_roundtrip_witness:
  "\<exists>k1 k2. thread_block_signals sample_sigs [10, 9, 99] {12} = (k1, Inr ()) \<and>
     (\<exists>k'. thread_check_signal_mask sample_sigs 10 k1 = (k', Inr True)) \<and>
     (\<exists>k'. thread_check_signal_mask sample_sigs 9 k1 = (k', Inr False)) \<and>
     thread_unblock_signals sample_sigs [10, 9, 99] k1 = (k2, Inr ()) \<and> k2 \<inter> {1..64} - {9, 19} = {12}"
proof -
  obtain k1 k2 where k: "thread_block_signals sample_sigs [10, 9, 99] {12} = (k1, Inr ())"
      "thread_unblock_signals sample_sigs [10, 9, 99] k1 = (k2, Inr ())"
      "k2 \<inter> {1..64} - {9, 19} = {12} \<inter> {1..64} - {9, 19} - set [10, 9, 99]"
    and c: "\<forall>sig. \<exists>k'. thread_check_signal_mask sample_sigs sig k1
        = (k', Inr (sig \<in> {12} \<inter> {1..64} - {9, 19} \<or>
             sig \<in> set [10, 9, 99] \<and> valid_sig sample_sigs sig \<and> sig \<notin> {9, 19}))"
    using signal_mask_roundtrip [OF sample_masks, where sigs = "[10, 9, 99]" and k = "{12}" and ?sig0.0 = 10] by (elim exE conjE) (rule that)
  have "valid_sig sample_sigs 10"
    by (simp add: valid_sig_def sample_sigs_def)
  with k spec [OF c, of 10] spec [OF c, of 9] show ?thesis
    by (intro exI [of _ k1] exI [of _ k2]) simp
qed

end
