(* ===== verification/Kqueue.thy ===== *)
theory Kqueue
  imports Event_Loop
begin

text \<open>
  The kqueue implementation of the event loop, \<open>src/src/lib/event_loop_kqueue.cc\<close>, over the same
  state as the epoll one. \<open>EVFILT_READ\<close> and \<open>EVFILT_WRITE\<close> are fields of the interface; macOS documents
  them as -1 and -2.
\<close>

section \<open>Operations\<close>

record 'k kq_api =
  kq_read :: int
  kq_write :: int
  kq_create :: "'k \<Rightarrow> (errno + int) \<times> 'k"
  kq_add :: "'k \<Rightarrow> int \<Rightarrow> int \<Rightarrow> int \<Rightarrow> errno option \<times> 'k"
  kq_del :: "'k \<Rightarrow> int \<Rightarrow> int \<Rightarrow> int \<Rightarrow> errno option \<times> 'k"
  kq_wait :: "'k \<Rightarrow> int \<Rightarrow> int \<Rightarrow> (int \<times> int) option \<Rightarrow> (errno + (int \<times> int) list) \<times> 'k"

definition kq_map_to_sys :: "'k kq_api \<Rightarrow> fd_event \<Rightarrow> 32 word" where
  "kq_map_to_sys kq ev =
     (let flags = 0;
          flags = (if and ev fd_readable \<noteq> 0 then or flags (word_of_int (kq_read kq)) else flags)
      in if and ev fd_writable \<noteq> 0 then or flags (word_of_int (kq_write kq)) else flags)"

definition kq_map_to_event :: "'k kq_api \<Rightarrow> 32 word \<Rightarrow> fd_event" where
  "kq_map_to_event kq ev =
     (let flags = 0;
          flags = (if ev = word_of_int (kq_read kq) then fd_readable else flags)
      in if ev = word_of_int (kq_write kq) then fd_writable else flags)"

text \<open>\<open>EV_SET\<close> stores the filter in 16 bits.\<close>

definition filter_of :: "32 word \<Rightarrow> int" where
  "filter_of w = sint (ucast w :: 16 word)"

definition kq_loop_new :: "'k kq_api \<Rightarrow> nat \<Rightarrow> 'k \<Rightarrow> 'k \<times> loop_state res" where
  "kq_loop_new kq n k =
     (case kq_create kq k of
        (Inl e, k) \<Rightarrow> (k, Inl (System_error ''kqueue error'' e))
      | (Inr fd, k) \<Rightarrow>
          (k, Inr \<lparr>el_id = n, el_fd = fd, el_fds = [], el_cbs = [], el_events = (\<lambda>_. None), el_stop = False\<rparr>))"

definition kq_register ::
  "'k kq_api \<Rightarrow> nat \<Rightarrow> nat \<Rightarrow> fd_event \<Rightarrow> 'h option \<Rightarrow> bool \<Rightarrow> priority \<Rightarrow>
   ('h, 'k, 'm) world \<Rightarrow> ('h, 'k, 'm) world \<times> unit res"
where
  "kq_register kq a iop ev_type handler activate prio w =
     (let w = w\<lparr>w_nios := (w_nios w)(iop := set_evlp (el_id (w_loop w)) (w_nios w iop))\<rparr>;
          fd = fd_of w iop;
          w = (case handler of
                 None \<Rightarrow> w
               | Some h \<Rightarrow>
                   w\<lparr>w_loop := (w_loop w)\<lparr>el_fds := (fd, prio_val prio, iop, a, ev_type) # el_fds (w_loop w)\<rparr>,
                     w_code := (w_code w)(a := h)\<rparr>)
      in if activate
         then (let ev = (case el_events (w_loop w) fd of None \<Rightarrow> ev_type | Some e \<Rightarrow> or e ev_type);
                   w = w\<lparr>w_loop := (w_loop w)\<lparr>el_events := (el_events (w_loop w))(fd \<mapsto> ev)\<rparr>\<rparr>
               in case kq_add kq (w_k w) (el_fd (w_loop w)) fd (filter_of (kq_map_to_sys kq ev_type)) of
                    (Some e, k) \<Rightarrow> (w\<lparr>w_k := k\<rparr>, Inl (System_error ''kevent add error for fd '' e))
                  | (None, k) \<Rightarrow> (w\<lparr>w_k := k\<rparr>, Inr ()))
         else (w, Inr ()))"

text \<open>The loop over \<open>all_events\<close>.\<close>

fun kq_delete :: "'k kq_api \<Rightarrow> int \<Rightarrow> int \<Rightarrow> fd_event \<Rightarrow> fd_event list \<Rightarrow> 'k \<Rightarrow> 'k \<times> unit res" where
  "kq_delete kq q fd ev_type [] k = (k, Inr ())"
| "kq_delete kq q fd ev_type (e # es) k =
     (if and ev_type e = 0 then kq_delete kq q fd ev_type es k
      else case kq_del kq k q fd (filter_of (kq_map_to_sys kq e)) of
        (Some err, k) \<Rightarrow> (k, Inl (System_error ''kevent del error for fd '' err))
      | (None, k) \<Rightarrow> kq_delete kq q fd ev_type es k)"

definition kq_remove ::
  "'k kq_api \<Rightarrow> nat \<Rightarrow> bool \<Rightarrow> bool \<Rightarrow> ('h, 'k, 'm) world \<Rightarrow> ('h, 'k, 'm) world \<times> unit res"
where
  "kq_remove kq iop clean deactivate w =
     (let fd = fd_of w iop;
          erase = (\<lambda>w. if clean
            then w\<lparr>w_loop := (w_loop w)\<lparr>el_fds := filter (\<lambda>(fd', r). fd' \<noteq> fd) (el_fds (w_loop w))\<rparr>\<rparr>
            else w)
      in if deactivate
         then (let ev_type = (case el_events (w_loop w) fd of None \<Rightarrow> 0 | Some e \<Rightarrow> e);
                   w = w\<lparr>w_loop := (w_loop w)\<lparr>el_events := (el_events (w_loop w))(fd := None)\<rparr>\<rparr>
               in case kq_delete kq (el_fd (w_loop w)) fd ev_type [fd_readable, fd_writable] (w_k w) of
                    (k, Inl e) \<Rightarrow> (w\<lparr>w_k := k\<rparr>, Inl e)
                  | (k, Inr _) \<Rightarrow> (erase (w\<lparr>w_k := k\<rparr>), Inr ()))
         else (erase w, Inr ()))"

definition kq_due_of :: "'k kq_api \<Rightarrow> (int \<times> registration) list \<Rightarrow> int \<times> int \<Rightarrow> queued list" where
  "kq_due_of kq fds ev =
     (case ev of (fd, flt) \<Rightarrow>
        map (\<lambda>(fd', p, n, a, t). (p, n, a))
          (filter (\<lambda>(fd', p, n, a, t). fd' = fd \<and> and t (kq_map_to_event kq (word_of_int flt)) \<noteq> 0) fds))"

definition kq_enqueue ::
  "'k kq_api \<Rightarrow> (int \<times> int) list \<Rightarrow> ('h, 'k, 'm) world \<Rightarrow> ('h, 'k, 'm) world"
where
  "kq_enqueue kq evs w =
     fold (\<lambda>ev w. set_cbs (fold pq_push (kq_due_of kq (el_fds (w_loop w)) ev) (el_cbs (w_loop w))) w) evs w"

text \<open>The time-out as seconds and nanoseconds; an error of \<open>kevent\<close> counts as no event.\<close>

definition kq_timeout :: "int \<Rightarrow> (int \<times> int) option" where
  "kq_timeout timeout = (if timeout < 0 then None else Some (timeout div 1000, timeout mod 1000 * 1000 * 1000))"

definition kq_loop_once ::
  "'k kq_api \<Rightarrow> int \<Rightarrow> ('h \<Rightarrow> nat \<Rightarrow> ('h, 'k, 'm) world \<Rightarrow> ('h, 'k, 'm) world \<times> unit res) \<Rightarrow>
   int \<Rightarrow> ('h, 'k, 'm) world \<Rightarrow> (('h, 'k, 'm) world \<times> unit res) option"
where
  "kq_loop_once kq event_number run timeout w =
     (case kq_wait kq (w_k w) (el_fd (w_loop w)) event_number (kq_timeout timeout) of
        (Inl e, k) \<Rightarrow> drain run (w\<lparr>w_k := k\<rparr>)
      | (Inr evs, k) \<Rightarrow> drain run (kq_enqueue kq evs (w\<lparr>w_k := k\<rparr>)))"

interpretation kqueue_rounds: event_source "kq_enqueue kq" "kq_due_of kq" for kq
proof
  show "kq_enqueue kq evs w =
      fold (\<lambda>ev w. set_cbs (fold pq_push (kq_due_of kq (el_fds (w_loop w)) ev) (el_cbs (w_loop w))) w) evs w" for evs w
    by (simp add: kq_enqueue_def)
  show "mset (kq_due_of kq fds ev) = mset (kq_due_of kq fds' ev)" if "mset fds = mset fds'" for fds fds' ev
    using that by (cases ev) (simp add: kq_due_of_def)
qed

section \<open>The filters of macOS\<close>

definition mac_filters :: "'k kq_api \<Rightarrow> bool" where
  "mac_filters kq \<longleftrightarrow> kq_read kq = -1 \<and> kq_write kq = -2"

lemma all_ones: "(ucast (- 1 :: 32 word) :: 16 word) = - 1"
  by (rule bit_word_eqI) (simp add: bit_simps)

lemma mac_map:
  assumes "mac_filters kq"
  shows "filter_of (kq_map_to_sys kq fd_readable) = -1"
    and "filter_of (kq_map_to_sys kq fd_writable) = -2"
    and "filter_of (kq_map_to_sys kq (or fd_readable fd_writable)) = -1"
    and "kq_map_to_event kq (word_of_int (-1)) = fd_readable"
    and "kq_map_to_event kq (word_of_int (-2)) = fd_writable"
  using assms
  by (simp_all add: mac_filters_def filter_of_def kq_map_to_sys_def kq_map_to_event_def fd_readable_def fd_writable_def all_ones)

text \<open>The contract of \<open>kevent\<close>: \<open>watch k\<close> is the set of watched pairs of descriptor and filter.\<close>

definition kq_kernel :: "'k kq_api \<Rightarrow> int \<Rightarrow> ('k \<Rightarrow> (int \<times> int) set) \<Rightarrow> bool" where
  "kq_kernel kq q watch \<longleftrightarrow>
     (\<forall>k fd f. (\<exists>k'. kq_add kq k q fd f = (None, k') \<and> watch k' = insert (fd, f) (watch k)) \<and>
        (if (fd, f) \<in> watch k then \<exists>k'. kq_del kq k q fd f = (None, k') \<and> watch k' = watch k - {(fd, f)}
         else kq_del kq k q fd f = (Some ENOENT, k)))"

lemma kq_kernelD:
  assumes "kq_kernel kq q watch"
  shows "\<exists>k'. kq_add kq k q fd f = (None, k') \<and> watch k' = insert (fd, f) (watch k)"
    and "(fd, f) \<in> watch k \<Longrightarrow> \<exists>k'. kq_del kq k q fd f = (None, k') \<and> watch k' = watch k - {(fd, f)}"
    and "(fd, f) \<notin> watch k \<Longrightarrow> kq_del kq k q fd f = (Some ENOENT, k)"
  using assms unfolding kq_kernel_def by metis+

text \<open>A registration that is activated: the table, the record of events and the kernel.\<close>

lemma kq_register_ok:
  assumes "kq_kernel kq (el_fd (w_loop w)) watch" and "el_events (w_loop w) (fd_of w iop) = None"
  shows "\<exists>w'. kq_register kq a iop ev (Some h) True p w = (w', Inr ()) \<and>
     el_fds (w_loop w') = (fd_of w iop, prio_val p, iop, a, ev) # el_fds (w_loop w) \<and>
     el_events (w_loop w') = (el_events (w_loop w))(fd_of w iop \<mapsto> ev) \<and>
     watch (w_k w') = insert (fd_of w iop, filter_of (kq_map_to_sys kq ev)) (watch (w_k w)) \<and>
     fd_of w' = fd_of w \<and> el_fd (w_loop w') = el_fd (w_loop w)"
proof -
  obtain k' where k': "kq_add kq (w_k w) (el_fd (w_loop w)) (fd_of w iop) (filter_of (kq_map_to_sys kq ev)) = (None, k')"
      "watch k' = insert (fd_of w iop, filter_of (kq_map_to_sys kq ev)) (watch (w_k w))"
    using kq_kernelD(1) [OF assms(1)] by blast
  then show ?thesis
    using assms(2) by (auto simp: kq_register_def Let_def)
qed

lemma event_bits: "and fd_readable fd_readable \<noteq> 0" "and fd_writable fd_writable \<noteq> 0"
  "and fd_readable fd_writable = 0" "and fd_writable fd_readable = 0"
  "and (or fd_readable fd_writable) fd_readable \<noteq> 0" "and (or fd_readable fd_writable) fd_writable \<noteq> 0"
  by (simp_all add: fd_readable_def fd_writable_def)

section \<open>A sample kernel\<close>

definition mac_kq :: "(int \<times> int) set kq_api" where
  "mac_kq =
     \<lparr>kq_read = -1, kq_write = -2, kq_create = \<lambda>k. (Inr 3, k), kq_add = \<lambda>k q fd f. (None, insert (fd, f) k),
      kq_del = \<lambda>k q fd f. (if (fd, f) \<in> k then (None, k - {(fd, f)}) else (Some ENOENT, k)),
      kq_wait = \<lambda>k q n t. (Inr [], k)\<rparr>"

lemma mac_kernel: "kq_kernel mac_kq q (\<lambda>k. k)" and mac_kq_filters: "mac_filters mac_kq"
  by (auto simp: kq_kernel_def mac_filters_def mac_kq_def)

definition mac_world :: "(nat, (int \<times> int) set, unit) world" where
  "mac_world =
     \<lparr>w_loop = \<lparr>el_id = 0, el_fd = 3, el_fds = [], el_cbs = [], el_events = (\<lambda>_. None), el_stop = False\<rparr>,
      w_nios = (\<lambda>_. \<lparr>io_fd = 5, io_closed = False, io_rbuf = sample_buffer, io_wbuf = sample_buffer, io_evlp = None\<rparr>),
      w_code = (\<lambda>_. 0), w_k = {}\<rparr>"

section \<open>Properties\<close>

text \<open>On macOS a registration for one direction and its removal keep the table, the record of events
  and the kernel in step: registering watches exactly the filter of the direction, removing undoes
  it. Unlike with epoll, removing a descriptor that is not watched succeeds without asking the
  kernel.\<close>

theorem kq_register_then_remove:
  assumes "kq_kernel kq (el_fd (w_loop w)) watch" and "mac_filters kq" and "ev = fd_readable \<or> ev = fd_writable"
    and "el_events (w_loop w) (fd_of w iop) = None" and "(fd_of w iop, if ev = fd_readable then -1 else -2) \<notin> watch (w_k w)"
  shows "\<exists>w1 w2. kq_register kq a iop ev (Some h) True p w = (w1, Inr ()) \<and>
     watch (w_k w1) = insert (fd_of w iop, if ev = fd_readable then -1 else -2) (watch (w_k w)) \<and>
     kq_remove kq iop True True w1 = (w2, Inr ()) \<and> watch (w_k w2) = watch (w_k w) \<and>
     el_fds (w_loop w2) = filter (\<lambda>(fd, r). fd \<noteq> fd_of w iop) (el_fds (w_loop w)) \<and>
     el_events (w_loop w2) = el_events (w_loop w) \<and>
     (\<exists>w3. kq_remove kq iop True True w = (w3, Inr ()) \<and> w_k w3 = w_k w)"
proof -
  have flt: "filter_of (kq_map_to_sys kq ev) = (if ev = fd_readable then -1 else -2)"
    using assms(3) mac_map [OF assms(2)] by (auto simp: fd_readable_def fd_writable_def)
  obtain w1 where w1: "kq_register kq a iop ev (Some h) True p w = (w1, Inr ())"
      "el_fds (w_loop w1) = (fd_of w iop, prio_val p, iop, a, ev) # el_fds (w_loop w)"
      "el_events (w_loop w1) = (el_events (w_loop w))(fd_of w iop \<mapsto> ev)"
      "watch (w_k w1) = insert (fd_of w iop, if ev = fd_readable then -1 else -2) (watch (w_k w))"
      "fd_of w1 = fd_of w" "el_fd (w_loop w1) = el_fd (w_loop w)"
    using kq_register_ok [OF assms(1,4), of a ev h p] unfolding flt by (elim exE conjE) (rule that)
  obtain k2 where k2: "kq_del kq (w_k w1) (el_fd (w_loop w)) (fd_of w iop) (filter_of (kq_map_to_sys kq ev)) = (None, k2)"
      "watch k2 = watch (w_k w1) - {(fd_of w iop, if ev = fd_readable then -1 else -2)}"
    using kq_kernelD(2) [OF assms(1), of "fd_of w iop" "if ev = fd_readable then -1 else -2" "w_k w1"] w1(4) flt by auto
  have del: "kq_delete kq (el_fd (w_loop w)) (fd_of w iop) ev [fd_readable, fd_writable] (w_k w1) = (k2, Inr ())"
    using assms(3) k2(1) event_bits by auto
  have fds: "fd_of w1 iop = fd_of w iop"
    using w1(5) by metis
  have ev: "el_events (w_loop w1) (fd_of w iop) = Some ev"
    using w1(3) by simp
  have old: "(el_events (w_loop w))(fd_of w iop := None) = el_events (w_loop w)"
    using assms(4) by auto
  have rm: "kq_remove kq iop True True w1 =
      (w1\<lparr>w_loop := (w_loop w1)\<lparr>el_events := el_events (w_loop w),
         el_fds := filter (\<lambda>(fd, r). fd \<noteq> fd_of w iop) (el_fds (w_loop w))\<rparr>, w_k := k2\<rparr>, Inr ())"
    using del ev old w1(2,3,6) fds by (simp add: kq_remove_def Let_def del: kq_delete.simps)
  have "watch k2 = watch (w_k w)"
    using k2(2) w1(4) assms(5) by auto
  moreover have "\<exists>w3. kq_remove kq iop True True w = (w3, Inr ()) \<and> w_k w3 = w_k w"
    using assms(4) by (simp add: kq_remove_def Let_def)
  ultimately show ?thesis
    using w1(1,4) rm by simp
qed

theorem kq_register_then_remove_witness:
  "\<exists>w1 w2. kq_register mac_kq 9 0 fd_writable (Some 1) True p0 mac_world = (w1, Inr ()) \<and> w_k w1 = {(5, -2)} \<and>
     kq_remove mac_kq 0 True True w1 = (w2, Inr ()) \<and> w_k w2 = {}"
proof -
  have d: "fd_writable \<noteq> fd_readable"
    by (simp add: fd_readable_def fd_writable_def)
  show ?thesis
    using kq_register_then_remove [OF mac_kernel mac_kq_filters, of fd_writable mac_world 0 9 1 p0] d
    by (auto simp: mac_world_def)
qed

text \<open>The filters are numbers, not bits: a registration for reading and writing watches only for
  reading, so its write events never come, and removing it throws, leaves the callback in the table
  and has already stopped watching.\<close>

theorem kq_both_directions:
  assumes "kq_kernel kq (el_fd (w_loop w)) watch" and "mac_filters kq"
    and "el_events (w_loop w) (fd_of w iop) = None" and "watch (w_k w) = {}"
  shows "\<exists>w1 w2. kq_register kq a iop (or fd_readable fd_writable) (Some h) True p w = (w1, Inr ()) \<and>
     watch (w_k w1) = {(fd_of w iop, kq_read kq)} \<and>
     kq_remove kq iop True True w1 = (w2, Inl (System_error ''kevent del error for fd '' ENOENT)) \<and>
     watch (w_k w2) = {} \<and> el_fds (w_loop w2) = el_fds (w_loop w1) \<and> el_events (w_loop w2) = el_events (w_loop w)"
proof -
  let ?ev = "or fd_readable fd_writable"
  have rd: "kq_read kq = -1"
    using assms(2) by (simp add: mac_filters_def)
  note m = mac_map [OF assms(2)]
  obtain w1 where w1: "kq_register kq a iop ?ev (Some h) True p w = (w1, Inr ())"
      "el_fds (w_loop w1) = (fd_of w iop, prio_val p, iop, a, ?ev) # el_fds (w_loop w)"
      "el_events (w_loop w1) = (el_events (w_loop w))(fd_of w iop \<mapsto> ?ev)"
      "watch (w_k w1) = insert (fd_of w iop, -1) (watch (w_k w))" "fd_of w1 = fd_of w" "el_fd (w_loop w1) = el_fd (w_loop w)"
    using kq_register_ok [OF assms(1,3), of a ?ev h p] unfolding m(3) by (elim exE conjE) (rule that)
  obtain k2 where k2: "kq_del kq (w_k w1) (el_fd (w_loop w)) (fd_of w iop) (-1) = (None, k2)" "watch k2 = {}"
    using kq_kernelD(2) [OF assms(1), of "fd_of w iop" "-1" "w_k w1"] w1(4) assms(4) by auto
  have k3: "kq_del kq k2 (el_fd (w_loop w)) (fd_of w iop) (-2) = (Some ENOENT, k2)"
    using kq_kernelD(3) [OF assms(1)] k2(2) by simp
  have del: "kq_delete kq (el_fd (w_loop w)) (fd_of w iop) ?ev [fd_readable, fd_writable] (w_k w1)
      = (k2, Inl (System_error ''kevent del error for fd '' ENOENT))"
    using event_bits k2(1) k3 m(1,2) by simp
  have fds: "fd_of w1 iop = fd_of w iop"
    using w1(5) by metis
  have ev: "el_events (w_loop w1) (fd_of w iop) = Some ?ev"
    using w1(3) by simp
  have old: "(el_events (w_loop w))(fd_of w iop := None) = el_events (w_loop w)"
    using assms(3) by auto
  have "kq_remove kq iop True True w1 = (w1\<lparr>w_loop := (w_loop w1)\<lparr>el_events := el_events (w_loop w)\<rparr>, w_k := k2\<rparr>,
      Inl (System_error ''kevent del error for fd '' ENOENT))"
    using del ev old w1(3,6) fds by (simp add: kq_remove_def Let_def del: kq_delete.simps)
  then show ?thesis
    using w1(1,4) k2(2) rd assms(4) by simp
qed

theorem kq_both_directions_witness:
  "\<exists>w1 w2. kq_register mac_kq 9 0 (or fd_readable fd_writable) (Some 1) True p0 mac_world = (w1, Inr ()) \<and> w_k w1 = {(5, -1)} \<and>
     kq_remove mac_kq 0 True True w1 = (w2, Inl (System_error ''kevent del error for fd '' ENOENT)) \<and> w_k w2 = {}"
  using kq_both_directions [OF mac_kernel mac_kq_filters, of mac_world 0 9 1 p0]
  by (auto simp: mac_world_def mac_kq_def)


definition busy_kq :: "(int \<times> int) set kq_api" where
  "busy_kq = mac_kq\<lparr>kq_wait := \<lambda>k q n t. (Inr [(5, -2), (5, -1)], k)\<rparr>"

definition busy_world :: "(nat, (int \<times> int) set, unit) world" where
  "busy_world = mac_world\<lparr>w_loop := (w_loop mac_world)\<lparr>el_fds := [(5, 1, 0, 8, fd_readable), (5, 20, 0, 9, fd_writable)]\<rparr>\<rparr>"


end
