(* ===== verification/Threads.thy ===== *)
theory Threads
  imports Signals
begin

text \<open>
  Threads: the pthread wrapper of \<open>src/src/include/cppev/runnable.h\<close>, the pools of
  \<open>src/src/include/cppev/thread_pool.h\<close>, and how \<open>tcp_server\<close> and \<open>tcp_client\<close>
  (\<open>src/src/lib/tcp.cc\<close>) start and stop theirs. What a thread executes is modelled elsewhere; here a
  thread is running, has returned from \<open>run_impl\<close> or was cancelled.
\<close>

section \<open>Runnables\<close>

datatype thread_state = Unborn | Alive | Returned | Cancelled

text \<open>\<open>th_reaped\<close>: joined or detached; \<open>th_ready\<close>: the promise is set; \<open>th_asked\<close>: \<open>pthread_cancel\<close> was called.\<close>

record runnable =
  th_state :: thread_state
  th_reaped :: bool
  th_ready :: bool
  th_asked :: bool

definition runnable_new :: runnable where
  "runnable_new = \<lparr>th_state = Unborn, th_reaped = False, th_ready = False, th_asked = False\<rparr>"

type_synonym threads = "nat \<Rightarrow> runnable"

text \<open>\<open>create\<close> is \<open>pthread_create\<close>.\<close>

definition runnable_run :: "('k \<Rightarrow> errno option \<times> 'k) \<Rightarrow> nat \<Rightarrow> 'k \<times> threads \<Rightarrow> ('k \<times> threads) \<times> unit res" where
  "runnable_run create j w =
     (case w of (k, th) \<Rightarrow>
      case create k of
        (Some e, k) \<Rightarrow> ((k, th), Inl (System_error ''pthread_create error'' e))
      | (None, k) \<Rightarrow> ((k, th(j := (th j)\<lparr>th_state := Alive, th_reaped := False, th_asked := False\<rparr>)), Inr ()))"

text \<open>A thread that was never created, joined or detached has no valid id. A join of a running
  thread blocks: it has no result.\<close>

definition bad_thread :: "runnable \<Rightarrow> ub option" where
  "bad_thread r =
     (if th_state r = Unborn then Some Uninit_read else if th_reaped r then Some Use_after_free else None)"

definition runnable_join :: "nat \<Rightarrow> threads \<Rightarrow> (threads \<times> unit res) option" where
  "runnable_join j th =
     (case bad_thread (th j) of
        Some u \<Rightarrow> Some (th, Inl (Undefined u))
      | None \<Rightarrow>
          if th_state (th j) = Alive then None
          else Some (th(j := (th j)\<lparr>th_reaped := True\<rparr>), Inr ()))"

definition runnable_detach :: "nat \<Rightarrow> threads \<Rightarrow> threads \<times> unit res" where
  "runnable_detach j th =
     (case bad_thread (th j) of
        Some u \<Rightarrow> (th, Inl (Undefined u))
      | None \<Rightarrow> (th(j := (th j)\<lparr>th_reaped := True\<rparr>), Inr ()))"

definition runnable_cancel :: "nat \<Rightarrow> threads \<Rightarrow> threads \<times> bool res" where
  "runnable_cancel j th =
     (case bad_thread (th j) of
        Some u \<Rightarrow> (th, Inl (Undefined u))
      | None \<Rightarrow> (th(j := (th j)\<lparr>th_asked := True\<rparr>), Inr True))"

text \<open>Whether the promise is set when the time is over.\<close>

definition runnable_wait_for :: "nat \<Rightarrow> threads \<Rightarrow> bool" where
  "runnable_wait_for j th = th_ready (th j)"

text \<open>The two ends of a thread: \<open>run_impl\<close> returns and the promise is set, or a cancellation point acts.\<close>

definition thread_returns :: "nat \<Rightarrow> threads \<Rightarrow> threads option" where
  "thread_returns j th =
     (if th_state (th j) = Alive then Some (th(j := (th j)\<lparr>th_state := Returned, th_ready := True\<rparr>)) else None)"

definition thread_cancelled :: "nat \<Rightarrow> threads \<Rightarrow> threads option" where
  "thread_cancelled j th =
     (if th_state (th j) = Alive \<and> th_asked (th j) then Some (th(j := (th j)\<lparr>th_state := Cancelled\<rparr>)) else None)"

text \<open>\<open>pthread_kill\<close>, whose result is not looked at; the signal is delivered by the kernel.\<close>

definition runnable_send_signal :: "('k \<Rightarrow> int \<Rightarrow> 'k) \<Rightarrow> nat \<Rightarrow> int \<Rightarrow> 'k \<times> threads \<Rightarrow> ('k \<times> threads) \<times> unit res" where
  "runnable_send_signal thread_kill j sig w =
     (case bad_thread (snd w j) of
        Some u \<Rightarrow> (w, Inl (Undefined u))
      | None \<Rightarrow> ((thread_kill (fst w) sig, snd w), Inr ()))"

section \<open>Pools\<close>

text \<open>\<open>size\<close> narrows to \<open>int\<close>; \<open>operator[]\<close> does not test the index.\<close>

definition pool_size :: "nat list \<Rightarrow> int" where
  "pool_size js = to_int (int (length js))"

definition pool_at :: "nat list \<Rightarrow> int \<Rightarrow> nat res" where
  "pool_at js i = (if 0 \<le> i \<and> i < int (length js) then Inr (js ! nat i) else Inl (Undefined Out_of_bounds))"

fun pool_run :: "('k \<Rightarrow> errno option \<times> 'k) \<Rightarrow> nat list \<Rightarrow> 'k \<times> threads \<Rightarrow> ('k \<times> threads) \<times> unit res" where
  "pool_run create [] w = (w, Inr ())"
| "pool_run create (j # js) w =
     (case runnable_run create j w of
        (w, Inl e) \<Rightarrow> (w, Inl e)
      | (w, Inr _) \<Rightarrow> pool_run create js w)"

fun pool_join :: "nat list \<Rightarrow> threads \<Rightarrow> (threads \<times> unit res) option" where
  "pool_join [] th = Some (th, Inr ())"
| "pool_join (j # js) th =
     (case runnable_join j th of
        None \<Rightarrow> None
      | Some (th, Inl e) \<Rightarrow> Some (th, Inl e)
      | Some (th, Inr _) \<Rightarrow> pool_join js th)"

fun pool_cancel :: "nat list \<Rightarrow> threads \<Rightarrow> threads \<times> unit res" where
  "pool_cancel [] th = (th, Inr ())"
| "pool_cancel (j # js) th =
     (case runnable_cancel j th of
        (th, Inl e) \<Rightarrow> (th, Inl e)
      | (th, Inr _) \<Rightarrow> pool_cancel js th)"

section \<open>Servers and clients\<close>

text \<open>\<open>run\<close> of a server or a client: \<open>SIGPIPE\<close> is ignored, then the io handlers \<open>tp\<close> and the acceptors
  or connectors \<open>fronts\<close> start.\<close>

definition tcp_run ::
  "('k, 'z) sig_api_scheme \<Rightarrow> ('k \<Rightarrow> errno option \<times> 'k) \<Rightarrow> nat list \<Rightarrow> nat list \<Rightarrow> 'k \<times> threads \<Rightarrow>
   ('k \<times> threads) \<times> unit res"
where
  "tcp_run sys create tp fronts w =
     (case w of (k, th) \<Rightarrow>
      case ignore_signal sys 13 k of
        (k, Inl e) \<Rightarrow> ((k, th), Inl e)
      | (k, Inr _) \<Rightarrow>
          (case pool_run create tp (k, th) of
             (w, Inl e) \<Rightarrow> (w, Inl e)
           | (w, Inr _) \<Rightarrow> pool_run create fronts w))"

definition client_run ::
  "('k, 'z) sig_api_scheme \<Rightarrow> ('k \<Rightarrow> errno option \<times> 'k) \<Rightarrow> nat list \<Rightarrow> nat list \<Rightarrow> 'k \<times> threads \<Rightarrow>
   ('k \<times> threads) \<times> unit res"
where
  "client_run sys create tp conts w = tcp_run sys create tp conts w"

text \<open>
  \<open>shutdown\<close>, one call at a time, because the threads go on while it runs: \<open>Stop j\<close> asks the loop of
  \<open>j\<close> to end, \<open>Join j\<close> waits for its thread. A thread returns only after its loop was asked to end.
\<close>

datatype command = Stop nat | Join nat

definition shutdown_calls :: "nat list \<Rightarrow> nat list \<Rightarrow> command list" where
  "shutdown_calls fronts tp = map Stop fronts @ map Join fronts @ map Stop tp @ map Join tp"

record closing =
  cl_todo :: "command list"
  cl_stopped :: "nat set"
  cl_threads :: threads
  cl_fault :: "fault option"

datatype closing_event = Caller | Returns nat

fun closing_move :: "closing_event \<Rightarrow> closing \<Rightarrow> closing option" where
  "closing_move Caller s =
     (case (cl_fault s, cl_todo s) of
        (None, Stop j # cs) \<Rightarrow> Some (s\<lparr>cl_todo := cs, cl_stopped := insert j (cl_stopped s)\<rparr>)
      | (None, Join j # cs) \<Rightarrow>
          (case runnable_join j (cl_threads s) of
             None \<Rightarrow> None
           | Some (th, Inl e) \<Rightarrow> Some (s\<lparr>cl_fault := Some e\<rparr>)
           | Some (th, Inr _) \<Rightarrow> Some (s\<lparr>cl_todo := cs, cl_threads := th\<rparr>))
      | _ \<Rightarrow> None)"
| "closing_move (Returns j) s =
     (if j \<in> cl_stopped s
      then map_option (\<lambda>th. s\<lparr>cl_threads := th\<rparr>) (thread_returns j (cl_threads s)) else None)"

definition closing_step :: "closing \<Rightarrow> closing \<Rightarrow> bool" where
  "closing_step s t \<longleftrightarrow> (\<exists>e. closing_move e s = Some t)"

text \<open>All threads run and nobody has touched them.\<close>

definition closing_begin :: "nat list \<Rightarrow> nat list \<Rightarrow> closing \<Rightarrow> bool" where
  "closing_begin fronts tp s \<longleftrightarrow>
     cl_todo s = shutdown_calls fronts tp \<and> cl_stopped s = {} \<and> cl_fault s = None \<and> distinct (fronts @ tp) \<and>
     (\<forall>j \<in> set (fronts @ tp). th_state (cl_threads s j) = Alive \<and> \<not> th_reaped (cl_threads s j))"

section \<open>The invariant of a shutdown\<close>

text \<open>What the calls made so far say about a thread.\<close>

definition thread_inv :: "command set \<Rightarrow> nat \<Rightarrow> runnable \<Rightarrow> bool" where
  "thread_inv past j r \<longleftrightarrow>
     th_state r \<in> {Alive, Returned} \<and> (th_state r = Returned \<longrightarrow> Stop j \<in> past) \<and>
     (th_reaped r \<longleftrightarrow> Join j \<in> past) \<and> (Join j \<in> past \<longrightarrow> th_state r = Returned)"

definition closing_inv :: "nat list \<Rightarrow> nat list \<Rightarrow> closing \<Rightarrow> bool" where
  "closing_inv fronts tp s \<longleftrightarrow>
     distinct (fronts @ tp) \<and> cl_fault s = None \<and>
     (\<exists>past. shutdown_calls fronts tp = past @ cl_todo s \<and>
        cl_stopped s = {j. Stop j \<in> set past} \<and>
        (\<forall>j \<in> set (fronts @ tp). thread_inv (set past) j (cl_threads s j)))"

lemma shutdown_calls_distinct: "distinct (fronts @ tp) \<Longrightarrow> distinct (shutdown_calls fronts tp)"
  by (auto simp: shutdown_calls_def distinct_map inj_on_def)

lemma shutdown_calls_set: "c \<in> set (shutdown_calls fronts tp) \<longleftrightarrow> (\<exists>j \<in> set (fronts @ tp). c = Stop j \<or> c = Join j)"
  by (auto simp: shutdown_calls_def)

lemma closing_begin_inv: "closing_begin fronts tp s \<Longrightarrow> closing_inv fronts tp s"
  by (auto simp: closing_begin_def closing_inv_def thread_inv_def intro!: exI [of _ "[]"])

lemma closing_invE:
  assumes "closing_inv fronts tp s"
  obtains past where "shutdown_calls fronts tp = past @ cl_todo s" "cl_stopped s = {j. Stop j \<in> set past}"
    "\<forall>j \<in> set (fronts @ tp). thread_inv (set past) j (cl_threads s j)"
    "cl_fault s = None" "distinct (fronts @ tp)"
  using assms unfolding closing_inv_def by blast

lemma closing_caller:
  assumes inv: "closing_inv fronts tp s" and mv: "closing_move Caller s = Some t"
  shows "closing_inv fronts tp t"
proof -
  obtain past where p: "shutdown_calls fronts tp = past @ cl_todo s" "cl_stopped s = {j. Stop j \<in> set past}"
    "\<forall>j \<in> set (fronts @ tp). thread_inv (set past) j (cl_threads s j)"
    "cl_fault s = None" "distinct (fronts @ tp)"
    using inv by (rule closing_invE)
  obtain c cs where todo: "cl_todo s = c # cs"
    using mv p(4) by (cases "cl_todo s") auto
  have calls: "shutdown_calls fronts tp = (past @ [c]) @ cs"
    using p(1) todo by simp
  have fresh: "c \<notin> set past"
    using shutdown_calls_distinct [OF p(5)] p(1) todo by auto
  show ?thesis
  proof (cases c)
    case (Stop j)
    then have t: "t = s\<lparr>cl_todo := cs, cl_stopped := insert j (cl_stopped s)\<rparr>"
      using mv p(4) todo by simp
    show ?thesis
      unfolding closing_inv_def t using p(2-5) calls Stop
      by (intro conjI exI [of _ "past @ [c]"]) (auto simp: thread_inv_def)
  next
    case (Join j)
    then have j: "j \<in> set (fronts @ tp)"
      using shutdown_calls_set [of c fronts tp] calls by auto
    have "\<not> th_reaped (cl_threads s j)" "th_state (cl_threads s j) \<noteq> Unborn"
      using bspec [OF p(3) j] fresh Join by (auto simp: thread_inv_def)
    then have bad: "bad_thread (cl_threads s j) = None"
      by (simp add: bad_thread_def)
    then have ret: "th_state (cl_threads s j) = Returned"
      using mv bspec [OF p(3) j] p(4) todo Join by (auto simp: runnable_join_def thread_inv_def)
    then have t: "t = s\<lparr>cl_todo := cs, cl_threads := (cl_threads s)(j := (cl_threads s j)\<lparr>th_reaped := True\<rparr>)\<rparr>"
      using mv p(4) todo Join bad by (simp add: runnable_join_def)
    show ?thesis
      unfolding closing_inv_def t using p(2-5) calls Join ret
      by (intro conjI exI [of _ "past @ [c]"]) (auto simp: thread_inv_def)
  qed
qed

lemma closing_returns:
  assumes inv: "closing_inv fronts tp s" and mv: "closing_move (Returns j) s = Some t"
  shows "closing_inv fronts tp t"
proof -
  have j: "j \<in> cl_stopped s" "th_state (cl_threads s j) = Alive"
    and t: "t = s\<lparr>cl_threads := (cl_threads s)(j := (cl_threads s j)\<lparr>th_state := Returned, th_ready := True\<rparr>)\<rparr>"
    using mv by (auto simp: thread_returns_def split: if_splits)
  from inv obtain past where p: "shutdown_calls fronts tp = past @ cl_todo s" "cl_stopped s = {j. Stop j \<in> set past}"
    "\<forall>j \<in> set (fronts @ tp). thread_inv (set past) j (cl_threads s j)"
    "cl_fault s = None" "distinct (fronts @ tp)"
    by (rule closing_invE)
  show ?thesis
    unfolding closing_inv_def t using p j by (intro conjI exI [of _ past]) (auto simp: thread_inv_def)
qed

interpretation shutdown_system: invariant_system "closing_begin fronts tp" closing_step "closing_inv fronts tp" for fronts tp
proof
  show "closing_begin fronts tp s \<Longrightarrow> closing_inv fronts tp s" for s
    by (rule closing_begin_inv)
  show "closing_inv fronts tp s \<Longrightarrow> closing_step s t \<Longrightarrow> closing_inv fronts tp t" for s t
    unfolding closing_step_def by (metis closing_caller closing_event.exhaust closing_returns)
qed

section \<open>Order and progress\<close>

lemma before_first: "xs @ ys = past @ c # cs \<Longrightarrow> c \<notin> set xs \<Longrightarrow> set xs \<subseteq> set past"
  by (auto simp: append_eq_append_conv2 append_eq_Cons_conv Cons_eq_append_conv)

lemma stop_before_join:
  assumes "shutdown_calls fronts tp = past @ Join j # cs" and "distinct (fronts @ tp)"
  shows "Stop j \<in> set past"
proof -
  have "Join j \<in> set (shutdown_calls fronts tp)"
    using assms(1) by simp
  then consider "j \<in> set fronts" | "j \<in> set tp"
    by (auto simp: shutdown_calls_def)
  then show ?thesis
  proof cases
    case 1
    have "set (map Stop fronts) \<subseteq> set past"
      by (rule before_first [of _ "map Join fronts @ map Stop tp @ map Join tp" _ "Join j" cs])
         (use assms(1) in \<open>auto simp: shutdown_calls_def\<close>)
    with 1 show ?thesis by auto
  next
    case 2
    with assms(2) have "j \<notin> set fronts" by auto
    then have "set (map Stop fronts @ map Join fronts @ map Stop tp) \<subseteq> set past"
      by (intro before_first [of _ "map Join tp" _ "Join j" cs]) (use assms(1) in \<open>auto simp: shutdown_calls_def\<close>)
    with 2 show ?thesis by auto
  qed
qed

lemma fronts_before_workers:
  assumes "shutdown_calls fronts tp = past @ rest" and "distinct (fronts @ tp)" and "t \<in> set tp" and "Stop t \<in> set past"
  shows "set (map Join fronts) \<subseteq> set past"
proof -
  obtain p1 p2 where p: "past = p1 @ Stop t # p2"
    using assms(4) by (auto dest: split_list)
  have "t \<notin> set fronts"
    using assms(2,3) by auto
  then have "set (map Stop fronts @ map Join fronts) \<subseteq> set p1"
    by (intro before_first [of _ "map Stop tp @ map Join tp" _ "Stop t" "p2 @ rest"])
       (use assms(1) p in \<open>auto simp: shutdown_calls_def\<close>)
  with p show ?thesis by auto
qed

text \<open>What is left to do: the calls and the threads that still run.\<close>

definition closing_work :: "nat list \<Rightarrow> closing \<Rightarrow> nat" where
  "closing_work js s = length (cl_todo s) + length (filter (\<lambda>j. th_state (cl_threads s j) = Alive) js)"

lemma fewer_alive:
  assumes "j \<in> set js" and "P j" and "\<not> Q j" and "\<And>i. i \<noteq> j \<Longrightarrow> Q i \<longleftrightarrow> P i"
  shows "length (filter Q js) < length (filter P js)"
proof -
  have le: "length (filter Q xs) \<le> length (filter P xs)" for xs
    using assms(3,4) by (induction xs) (auto, (metis le_SucI)+)
  show ?thesis
    using assms(1)
  proof (induction js)
    case (Cons x js)
    show ?case
    proof (cases "x = j")
      case True
      with assms(2,3) le [of js] show ?thesis by simp
    next
      case False
      with Cons assms(4) show ?thesis by auto
    qed
  qed simp
qed

lemma closing_decreases:
  assumes inv: "closing_inv fronts tp s" and st: "closing_step s t"
  shows "closing_work (fronts @ tp) t < closing_work (fronts @ tp) s"
proof -
  obtain past where p: "shutdown_calls fronts tp = past @ cl_todo s" "cl_stopped s = {j. Stop j \<in> set past}"
    "\<forall>j \<in> set (fronts @ tp). thread_inv (set past) j (cl_threads s j)" "cl_fault s = None" "distinct (fronts @ tp)"
    using inv by (rule closing_invE)
  obtain e where e: "closing_move e s = Some t"
    using st by (auto simp: closing_step_def)
  show ?thesis
  proof (cases e)
    case Caller
    have "cl_fault t = None"
      using closing_caller [OF inv e [unfolded Caller]] by (simp add: closing_inv_def)
    then have "length (cl_todo t) < length (cl_todo s) \<and> (\<forall>j. th_state (cl_threads t j) = th_state (cl_threads s j))"
      using e Caller p(4)
      by (auto simp: runnable_join_def split: list.splits command.splits option.splits if_splits)
    then show ?thesis by (simp add: closing_work_def)
  next
    case (Returns j)
    then have j: "j \<in> cl_stopped s" "th_state (cl_threads s j) = Alive"
      and t: "t = s\<lparr>cl_threads := (cl_threads s)(j := (cl_threads s j)\<lparr>th_state := Returned, th_ready := True\<rparr>)\<rparr>"
      using e by (auto simp: thread_returns_def split: if_splits)
    have "j \<in> set (fronts @ tp)"
      using j(1) p(1,2) shutdown_calls_set [of "Stop j" fronts tp] by auto
    then have "length (filter (\<lambda>i. th_state (cl_threads t i) = Alive) (fronts @ tp))
        < length (filter (\<lambda>i. th_state (cl_threads s i) = Alive) (fronts @ tp))"
      by (rule fewer_alive [where j = j]) (use j(2) t in simp_all)
    then show ?thesis by (simp add: closing_work_def t)
  qed
qed

lemma closing_step_intro: "closing_move e s \<noteq> None \<Longrightarrow> \<exists>t. closing_step s t"
  unfolding closing_step_def by blast

lemma closing_not_stuck:
  assumes inv: "closing_inv fronts tp s" and "cl_todo s \<noteq> []"
  shows "\<exists>t. closing_step s t"
proof -
  obtain past where p: "shutdown_calls fronts tp = past @ cl_todo s" "cl_stopped s = {j. Stop j \<in> set past}"
    "\<forall>j \<in> set (fronts @ tp). thread_inv (set past) j (cl_threads s j)" "cl_fault s = None" "distinct (fronts @ tp)"
    using inv by (rule closing_invE)
  obtain c cs where todo: "cl_todo s = c # cs"
    using assms(2) by (cases "cl_todo s") auto
  show ?thesis
  proof (cases c)
    case (Stop j)
    then have "closing_move Caller s \<noteq> None"
      using p(4) todo by simp
    then show ?thesis by (rule closing_step_intro)
  next
    case (Join j)
    show ?thesis
    proof (cases "th_state (cl_threads s j) = Alive")
      case True
      have "j \<in> cl_stopped s"
        using stop_before_join [of fronts tp past j cs] p(1,2,5) todo Join by simp
      with True have "closing_move (Returns j) s \<noteq> None"
        by (simp add: thread_returns_def)
      then show ?thesis by (rule closing_step_intro)
    next
      case False
      then have "runnable_join j (cl_threads s) \<noteq> None"
        by (auto simp: runnable_join_def split: option.splits)
      then have "closing_move Caller s \<noteq> None"
        using p(4) todo Join by (auto split: option.splits sum.splits)
      then show ?thesis by (rule closing_step_intro)
    qed
  qed
qed

section \<open>Properties\<close>

text \<open>C16. \<open>shutdown\<close> of a server or a client is ordered and ends. No io handler is asked to stop before
  every acceptor (connector) has ended, so no connection is handed to a loop that is gone; no join
  is wrong; as long as calls are left, one of the threads can go on, every step leaves less to do,
  and when the last call has returned all threads have ended and are joined.\<close>

theorem shutdown_joins_all:
  assumes "reach (closing_begin fronts tp) closing_step s"
  shows "cl_fault s = None \<and>
     (\<forall>t \<in> set tp. t \<in> cl_stopped s \<longrightarrow> (\<forall>a \<in> set fronts. th_state (cl_threads s a) = Returned)) \<and>
     (cl_todo s \<noteq> [] \<longrightarrow> (\<exists>t. closing_step s t)) \<and>
     (\<forall>t. closing_step s t \<longrightarrow> closing_work (fronts @ tp) t < closing_work (fronts @ tp) s) \<and>
     (cl_todo s = [] \<longrightarrow>
        (\<forall>j \<in> set (fronts @ tp). th_state (cl_threads s j) = Returned \<and> th_reaped (cl_threads s j)))"
proof -
  have inv: "closing_inv fronts tp s"
    using assms by (rule shutdown_system.reach_inv)
  then obtain past where p: "shutdown_calls fronts tp = past @ cl_todo s" "cl_stopped s = {j. Stop j \<in> set past}"
    "\<forall>j \<in> set (fronts @ tp). thread_inv (set past) j (cl_threads s j)" "cl_fault s = None" "distinct (fronts @ tp)"
    by (rule closing_invE)
  have joined: "th_state (cl_threads s j) = Returned \<and> th_reaped (cl_threads s j)"
    if "j \<in> set (fronts @ tp)" "Join j \<in> set past" for j
    using bspec [OF p(3) that(1)] that(2) by (simp add: thread_inv_def)
  have "th_state (cl_threads s a) = Returned" if "t \<in> set tp" "t \<in> cl_stopped s" "a \<in> set fronts" for t a
    using fronts_before_workers [OF p(1,5) that(1)] p(2) that joined [of a] by auto
  moreover have "th_state (cl_threads s j) = Returned \<and> th_reaped (cl_threads s j)"
    if "cl_todo s = []" "j \<in> set (fronts @ tp)" for j
    using joined [of j] p(1) that shutdown_calls_set [of "Join j" fronts tp] by auto
  ultimately show ?thesis
    using p(4) closing_not_stuck [OF inv] closing_decreases [OF inv] by blast
qed

definition sample_closing :: "nat list \<Rightarrow> command list \<Rightarrow> nat set \<Rightarrow> closing" where
  "sample_closing ended todo stopped =
     \<lparr>cl_todo = todo, cl_stopped = stopped,
      cl_threads = (\<lambda>j. \<lparr>th_state = (if j \<in> set ended then Returned else Alive), th_reaped = j \<in> set ended,
                        th_ready = j \<in> set ended, th_asked = False\<rparr>),
      cl_fault = None\<rparr>"

theorem shutdown_joins_all_witness:
  "\<exists>s. reach (closing_begin [0] [1]) closing_step s \<and> 1 \<in> cl_stopped s \<and> th_state (cl_threads s 0) = Returned \<and>
     cl_todo s = [Join 1] \<and> (\<exists>t. closing_step s t)"
proof -
  define s0 where "s0 = sample_closing [] [Stop 0, Join 0, Stop 1, Join 1] {}"
  have "closing_begin [0] [1] s0"
    by (simp add: closing_begin_def s0_def sample_closing_def shutdown_calls_def)
  then have r0: "reach (closing_begin [0] [1]) closing_step s0" ..
  have step: "reach (closing_begin [0] [1]) closing_step t"
    if "reach (closing_begin [0] [1]) closing_step s" "closing_move e s = Some t" for s e t
    using that(1) by (rule reach_step) (use that(2) in \<open>unfold closing_step_def, blast\<close>)
  define s1 where "s1 = the (closing_move Caller s0)"
  have s1: "closing_move Caller s0 = Some s1" "cl_todo s1 = [Join 0, Stop 1, Join 1]" "cl_stopped s1 = {0}"
      "cl_threads s1 = cl_threads s0" "cl_fault s1 = None"
    by (simp_all add: s1_def s0_def sample_closing_def)
  define s2 where "s2 = the (closing_move (Returns 0) s1)"
  have s2: "closing_move (Returns 0) s1 = Some s2" "cl_todo s2 = [Join 0, Stop 1, Join 1]" "cl_stopped s2 = {0}"
      "th_state (cl_threads s2 0) = Returned" "\<not> th_reaped (cl_threads s2 0)" "cl_fault s2 = None"
    using s1 by (simp_all add: s2_def thread_returns_def s0_def sample_closing_def)
  define s3 where "s3 = the (closing_move Caller s2)"
  have s3: "closing_move Caller s2 = Some s3" "cl_todo s3 = [Stop 1, Join 1]" "cl_stopped s3 = {0}" "cl_fault s3 = None"
    using s2 by (simp_all add: s3_def runnable_join_def bad_thread_def)
  define s4 where "s4 = the (closing_move Caller s3)"
  have s4: "closing_move Caller s3 = Some s4" "cl_todo s4 = [Join 1]" "cl_stopped s4 = {0, 1}"
    using s3 by (simp_all add: s4_def insert_commute)
  have "reach (closing_begin [0] [1]) closing_step s4"
    by (rule step [OF step [OF step [OF step [OF r0 s1(1)] s2(1)] s3(1)] s4(1)])
  with shutdown_joins_all [OF this] s4 show ?thesis by auto
qed

end
