(* ===== verification/Handover.thy ===== *)
theory Handover
  imports Reactor
begin

text \<open>
  The hand-over of connections between threads: an acceptor (\<open>on_acpt_readable\<close>) or a connector
  (\<open>on_pipe_readable\<close>, \<open>src/src/lib/tcp.cc\<close>) registers a connection with the loop of a worker while
  the worker is in a round of that loop (\<open>src/src/lib/event_loop_epoll.cc\<close>). Theory \<open>Event_Loop\<close>
  models \<open>fd_register\<close>, \<open>fd_remove\<close> and \<open>loop_once\<close> as they run alone; here they are split into the
  sections that are atomic for other threads, one system call or one critical section of \<open>lock_\<close>
  each, and those are interleaved.
\<close>

section \<open>Atomic sections\<close>

text \<open>What the threads share: the objects whose \<open>evlp_\<close> points to the loop, the table
  \<open>fds_\<close>, what epoll watches, whose the open descriptors are, and the connections whose first
  handler was called.\<close>

datatype owner = Ours nat | Foreign

record board =
  bd_links :: "nat set"
  bd_table :: "(int \<times> nat \<times> fd_event \<times> callback) list"
  bd_watch :: "int \<Rightarrow> fd_event option"
  bd_open :: "int \<Rightarrow> owner option"
  bd_begun :: "nat list"

datatype section_op =
    Link nat
  | Emplace int nat fd_event callback
  | Watch int fd_event
  | Unwatch int
  | Erase int
  | Close int
  | Begin nat

text \<open>\<open>Close\<close> is the system call, which also ends the watching; \<open>Begin\<close> is the user's first handler.\<close>

fun board_op :: "section_op \<Rightarrow> board \<Rightarrow> board \<times> unit res" where
  "board_op (Link n) b = (b\<lparr>bd_links := insert n (bd_links b)\<rparr>, Inr ())"
| "board_op (Emplace fd n ev cb) b = (b\<lparr>bd_table := (fd, n, ev, cb) # bd_table b\<rparr>, Inr ())"
| "board_op (Watch fd ev) b =
     (case bd_watch b fd of
        None \<Rightarrow> (b\<lparr>bd_watch := (bd_watch b)(fd := Some ev)\<rparr>, Inr ())
      | Some _ \<Rightarrow> (b, Inl (System_error ''epoll_ctl add error'' EEXIST)))"
| "board_op (Unwatch fd) b =
     (case bd_watch b fd of
        None \<Rightarrow> (b, Inl (System_error ''epoll_ctl del error'' ENOENT))
      | Some _ \<Rightarrow> (b\<lparr>bd_watch := (bd_watch b)(fd := None)\<rparr>, Inr ()))"
| "board_op (Erase fd) b = (b\<lparr>bd_table := filter (\<lambda>(fd', r). fd' \<noteq> fd) (bd_table b)\<rparr>, Inr ())"
| "board_op (Close fd) b =
     (b\<lparr>bd_open := (bd_open b)(fd := None), bd_watch := (bd_watch b)(fd := None)\<rparr>, Inr ())"
| "board_op (Begin n) b = (b\<lparr>bd_begun := n # bd_begun b\<rparr>, Inr ())"

fun board_ops :: "section_op list \<Rightarrow> board \<Rightarrow> board \<times> unit res" where
  "board_ops [] b = (b, Inr ())"
| "board_ops (x # xs) b =
     (case board_op x b of
        (b, Inl e) \<Rightarrow> (b, Inl e)
      | (b, Inr _) \<Rightarrow> board_ops xs b)"

text \<open>\<open>fd_register\<close> and \<open>fd_remove\<close> section by section, in the order of the code.\<close>

definition register_ops :: "nat \<Rightarrow> int \<Rightarrow> fd_event \<Rightarrow> callback option \<Rightarrow> bool \<Rightarrow> section_op list" where
  "register_ops n fd ev handler activate =
     Link n # (case handler of None \<Rightarrow> [] | Some h \<Rightarrow> [Emplace fd n ev h]) @ (if activate then [Watch fd ev] else [])"

definition remove_ops :: "int \<Rightarrow> bool \<Rightarrow> bool \<Rightarrow> section_op list" where
  "remove_ops fd clean deactivate =
     (if deactivate then [Unwatch fd] else []) @ (if clean then [Erase fd] else [])"

section \<open>The sections implement the operations of the loop\<close>

text \<open>The board of a loop's world; who owns descriptors is not part of the world.\<close>

definition board_of ::
  "'k epoll_api \<Rightarrow> ('k \<Rightarrow> int \<Rightarrow> 32 word option) \<Rightarrow> (int \<Rightarrow> owner option) \<Rightarrow> nat list \<Rightarrow> (callback, 'k, 'm) world \<Rightarrow> board"
where
  "board_of ep interest own begun w =
     \<lparr>bd_links = {n. io_evlp (w_nios w n) = Some (el_id (w_loop w))},
      bd_table = map (\<lambda>(fd, p, n, a, ev). (fd, n, ev, w_code w a)) (el_fds (w_loop w)),
      bd_watch = (\<lambda>fd. map_option (fd_map_to_event ep) (interest (w_k w) fd)),
      bd_open = own, bd_begun = begun\<rparr>"

lemma map_to_sys_event:
  assumes "masks_ok ep" and "ev \<in> {fd_readable, fd_writable}"
  shows "fd_map_to_event ep (fd_map_to_sys ep ev) = ev"
  using assms by (auto simp: masks_ok_def fd_map_to_event_def fd_map_to_sys_def fd_readable_def fd_writable_def
      Let_def and.commute)

lemma table_fresh:
  assumes "\<forall>(fd, p, n, a', ev) \<in> set fds. a' \<noteq> a"
  shows "map (\<lambda>(fd, p, n, a', ev). (fd, n, ev, (code(a := h)) a')) fds = map (\<lambda>(fd, p, n, a', ev). (fd, n, ev, code a')) fds"
  using assms by auto

lemma links_set_evlp:
  "{i. io_evlp ((g(n := set_evlp j (g n))) i) = Some j} = insert n {i. io_evlp (g i) = Some j}"
  by auto

lemma filter_table:
  "filter (\<lambda>(fd', r). fd' \<noteq> fd) (map (\<lambda>(fd, p, n, a, ev). (fd, n, ev, code a)) fds)
     = map (\<lambda>(fd, p, n, a, ev). (fd, n, ev, code a)) (filter (\<lambda>(fd', r). fd' \<noteq> fd) fds)"
  by (induction fds) auto

lemma register_sections:
  assumes ep: "ep_kernel ep (el_fd (w_loop w)) interest" "masks_ok ep" and ev: "ev \<in> {fd_readable, fd_writable}"
    and fresh: "\<forall>(fd, p, n, a', ev) \<in> set (el_fds (w_loop w)). a' \<noteq> a"
    and run: "fd_register ep a n ev handler activate prio w = (w', r)"
  shows "board_ops (register_ops n (fd_of w n) ev handler activate) (board_of ep interest own begun w)
       = (board_of ep interest own begun w', r)"
proof -
  let ?l = "w_loop w" and ?fd = "fd_of w n" and ?m = "fd_map_to_sys ep ev"
  define w1 where "w1 = (case handler of None \<Rightarrow> w\<lparr>w_nios := (w_nios w)(n := set_evlp (el_id ?l) (w_nios w n))\<rparr>
    | Some h \<Rightarrow> w\<lparr>w_nios := (w_nios w)(n := set_evlp (el_id ?l) (w_nios w n)),
        w_loop := ?l\<lparr>el_fds := (?fd, prio_val prio, n, a, ev) # el_fds ?l\<rparr>, w_code := (w_code w)(a := h)\<rparr>)"
  have w1: "w_k w1 = w_k w" "el_fd (w_loop w1) = el_fd ?l" "fd_of w1 n = ?fd" "el_id (w_loop w1) = el_id ?l"
    by (simp_all add: w1_def split: option.split)
  have reg: "fd_register ep a n ev handler activate prio w =
      (if activate then (case ep_add ep (w_k w1) (el_fd ?l) ?fd ?m of
          (Some e, k) \<Rightarrow> (w1\<lparr>w_k := k\<rparr>, Inl (System_error ''epoll_ctl add error'' e))
        | (None, k) \<Rightarrow> (w1\<lparr>w_k := k\<rparr>, Inr ())) else (w1, Inr ()))"
    by (cases handler) (simp_all add: fd_register_def w1_def Let_def split: option.split prod.split)
  have listed: "board_ops (Link n # (case handler of None \<Rightarrow> [] | Some h \<Rightarrow> [Emplace ?fd n ev h]) @ xs) (board_of ep interest own begun w)
      = board_ops xs (board_of ep interest own begun w1)" for xs
    by (cases handler)
       (simp_all add: board_of_def w1_def table_fresh [OF fresh] links_set_evlp fun_upd_same del: fun_upd_apply)
  show ?thesis
  proof (cases activate)
    case False
    with run reg listed [of "[]"] show ?thesis by (simp add: register_ops_def)
  next
    case True
    show ?thesis
    proof (cases "interest (w_k w) ?fd")
      case None
      then obtain k' where "ep_add ep (w_k w) (el_fd ?l) ?fd ?m = (None, k')" "interest k' = (interest (w_k w))(?fd \<mapsto> ?m)"
        using ep_kernel_None(1) [OF ep(1)] by blast
      with True run reg listed [of "[Watch ?fd ev]"] None w1 map_to_sys_event [OF ep(2) ev] show ?thesis
        by (auto simp: register_ops_def board_of_def fun_eq_iff)
    next
      case (Some m)
      with ep_kernel_Some(2) [OF ep(1) Some] True run reg listed [of "[Watch ?fd ev]"] w1 show ?thesis
        by (auto simp: register_ops_def board_of_def)
    qed
  qed
qed

lemma remove_sections:
  assumes ep: "ep_kernel ep (el_fd (w_loop w)) interest"
    and run: "fd_remove ep n clean deactivate w = (w', r)"
  shows "board_ops (remove_ops (fd_of w n) clean deactivate) (board_of ep interest own begun w)
       = (board_of ep interest own begun w', r)"
proof (cases "interest (w_k w) (fd_of w n)")
  case None
  with ep_kernel_None(2) [OF ep None] run show ?thesis
    by (auto simp: remove_ops_def fd_remove_def board_of_def filter_table Let_def split: if_splits)
next
  case (Some m)
  then obtain k' where "ep_del ep (w_k w) (el_fd (w_loop w)) (fd_of w n) = (None, k')"
      "interest k' = (interest (w_k w))(fd_of w n := None)"
    using ep_kernel_Some(1) [OF ep] by blast
  with Some run show ?thesis
    by (auto simp: remove_ops_def fd_remove_def board_of_def filter_table Let_def fun_eq_iff split: if_splits)
qed

section \<open>What a callback does to the loop\<close>

text \<open>
  How a callback of a connection ends: the connection stays, is removed because the peer is gone
  (the last reference to it, in the queue, is dropped after the callback and closes it), or the handler
  called \<open>safely_close\<close>. \<open>waits\<close> is how often a handler called \<open>async_write\<close> with bytes left.
  Handlers that call \<open>async_write\<close> before the connection is watched, or that close a connection
  whose end is then noticed too, fail; \<open>Reactor\<close> shows how, and they are left out here.
\<close>

datatype ending = Stays | Ends | Closes

fun end_ops :: "int \<Rightarrow> ending \<Rightarrow> section_op list" where
  "end_ops fd Stays = []"
| "end_ops fd Ends = remove_ops fd True True @ [Close fd]"
| "end_ops fd Closes = remove_ops fd True False @ [Close fd]"

definition rewatch_ops :: "nat \<Rightarrow> int \<Rightarrow> fd_event \<Rightarrow> section_op list" where
  "rewatch_ops n fd ev = remove_ops fd False True @ register_ops n fd ev None True"

definition init_ops :: "nat \<Rightarrow> int \<Rightarrow> section_op list" where
  "init_ops n fd =
     remove_ops fd True True @ register_ops n fd fd_writable (Some On_writable) False @ [Begin n] @
     register_ops n fd fd_readable (Some On_readable) True"

fun callback_ops :: "callback \<Rightarrow> nat \<Rightarrow> ending \<Rightarrow> nat \<Rightarrow> int \<Rightarrow> section_op list" where
  "callback_ops On_acpt_writable waits e n fd = init_ops n fd"
| "callback_ops On_cont_writable waits e n fd =
     (if e = Ends then remove_ops fd True True @ [Close fd] else init_ops n fd)"
| "callback_ops On_readable waits e n fd =
     concat (replicate waits (rewatch_ops n fd fd_writable)) @ end_ops fd e"
| "callback_ops On_writable waits e n fd =
     (if waits > 0 then end_ops fd (if e = Closes then Stays else e)
      else if e = Closes then remove_ops fd False True @ end_ops fd Closes
      else rewatch_ops n fd fd_readable @ end_ops fd e)"
| "callback_ops _ waits e n fd = []"

section \<open>The threads\<close>

text \<open>
  A front (an acceptor or connector) has a connection, and the sections of its registration that are
  left. The worker waits in \<open>epoll_wait\<close>, looks the events up in the table, one critical section
  each, or calls the queued callbacks; the order among callbacks of one priority is left open.
\<close>

datatype worker =
    Waiting
  | Looking "(int \<times> fd_event) list" "(nat \<times> int \<times> callback) list"
  | Draining "(nat \<times> int \<times> callback) list"
  | Calling nat int "section_op list" "(nat \<times> int \<times> callback) list"

record handover =
  hv_board :: board
  hv_next :: nat
  hv_fronts :: "nat \<Rightarrow> (nat \<times> int \<times> section_op list) option"
  hv_worker :: worker
  hv_fault :: "fault option"

definition due_in :: "(int \<times> nat \<times> fd_event \<times> callback) list \<Rightarrow> int \<Rightarrow> fd_event \<Rightarrow> (nat \<times> int \<times> callback) list" where
  "due_in tab fd d =
     map (\<lambda>(fd', n, ev, cb). (n, fd', cb)) (filter (\<lambda>(fd', n, ev, cb). fd' = fd \<and> and ev d \<noteq> 0) tab)"

definition calling :: "nat \<Rightarrow> int \<Rightarrow> section_op list \<Rightarrow> (nat \<times> int \<times> callback) list \<Rightarrow> worker" where
  "calling n fd xs q = (if xs = [] then Draining q else Calling n fd xs q)"

text \<open>
  The kernel hands out descriptors that are not open. \<open>Other fd\<close> is any other part of the program (or
  a front that chose another loop) opening or closing a descriptor of its own. Epoll reports a
  descriptor once, with events it watches; a hang-up alone reports none that the loop knows.
\<close>

datatype handover_event =
    Accept nat int callback
  | Other int
  | Front nat
  | Report "(int \<times> fd_event) list"
  | Look
  | Call "nat \<times> int \<times> callback" nat ending
  | Work

fun handover_move :: "handover_event \<Rightarrow> handover \<Rightarrow> handover option" where
  "handover_move (Accept i fd cb) s =
     (if hv_fronts s i = None \<and> bd_open (hv_board s) fd = None \<and> cb \<in> {On_acpt_writable, On_cont_writable}
      then Some (s\<lparr>hv_board := (hv_board s)\<lparr>bd_open := (bd_open (hv_board s))(fd := Some (Ours (hv_next s)))\<rparr>,
        hv_next := Suc (hv_next s),
        hv_fronts := (hv_fronts s)(i := Some (hv_next s, fd, register_ops (hv_next s) fd fd_writable (Some cb) True))\<rparr>)
      else None)"
| "handover_move (Other fd) s =
     (case bd_open (hv_board s) fd of
        None \<Rightarrow> Some (s\<lparr>hv_board := (hv_board s)\<lparr>bd_open := (bd_open (hv_board s))(fd := Some Foreign)\<rparr>\<rparr>)
      | Some Foreign \<Rightarrow> Some (s\<lparr>hv_board := (hv_board s)\<lparr>bd_open := (bd_open (hv_board s))(fd := None)\<rparr>\<rparr>)
      | Some (Ours n) \<Rightarrow> None)"
| "handover_move (Front i) s =
     (case hv_fronts s i of
        Some (n, fd, x # xs) \<Rightarrow>
          (case board_op x (hv_board s) of
             (b, Inl e) \<Rightarrow> Some (s\<lparr>hv_board := b, hv_fault := Some e\<rparr>)
           | (b, Inr _) \<Rightarrow>
               Some (s\<lparr>hv_board := b, hv_fronts := (hv_fronts s)(i := if xs = [] then None else Some (n, fd, xs))\<rparr>))
      | _ \<Rightarrow> None)"
| "handover_move (Report evs) s =
     (if hv_worker s = Waiting \<and> distinct (map fst evs) \<and>
         list_all (\<lambda>(fd, d). case bd_watch (hv_board s) fd of None \<Rightarrow> False | Some m \<Rightarrow> and d m = d) evs
      then Some (s\<lparr>hv_worker := Looking evs []\<rparr>) else None)"
| "handover_move Look s =
     (case hv_worker s of
        Looking [] q \<Rightarrow> Some (s\<lparr>hv_worker := Draining q\<rparr>)
      | Looking ((fd, d) # evs) q \<Rightarrow>
          Some (s\<lparr>hv_worker := Looking evs (due_in (bd_table (hv_board s)) fd d @ q)\<rparr>)
      | _ \<Rightarrow> None)"
| "handover_move (Call x waits e) s =
     (case hv_worker s of
        Draining q \<Rightarrow>
          if x \<in> set q
          then (case x of (n, fd, cb) \<Rightarrow> Some (s\<lparr>hv_worker := calling n fd (callback_ops cb waits e n fd) (remove1 x q)\<rparr>))
          else None
      | _ \<Rightarrow> None)"
| "handover_move Work s =
     (case hv_worker s of
        Draining [] \<Rightarrow> Some (s\<lparr>hv_worker := Waiting\<rparr>)
      | Calling n fd (x # xs) q \<Rightarrow>
          (case board_op x (hv_board s) of
             (b, Inl e) \<Rightarrow> Some (s\<lparr>hv_board := b, hv_fault := Some e\<rparr>)
           | (b, Inr _) \<Rightarrow> Some (s\<lparr>hv_board := b, hv_worker := calling n fd xs q\<rparr>))
      | _ \<Rightarrow> None)"

definition handover_step :: "handover \<Rightarrow> handover \<Rightarrow> bool" where
  "handover_step s t \<longleftrightarrow> hv_fault s = None \<and> (\<exists>e. handover_move e s = Some t)"

definition handover_begin :: "handover \<Rightarrow> bool" where
  "handover_begin s \<longleftrightarrow> bd_table (hv_board s) = [] \<and> bd_watch (hv_board s) = (\<lambda>_. None) \<and>
     (\<forall>fd n. bd_open (hv_board s) fd \<noteq> Some (Ours n)) \<and> bd_begun (hv_board s) = [] \<and>
     hv_fronts s = (\<lambda>_. None) \<and> hv_worker s = Waiting \<and> hv_fault s = None"

section \<open>One connection\<close>

text \<open>The part of the board that concerns connection \<open>n\<close> on descriptor \<open>fd\<close>.\<close>

record conn_view =
  cv_linked :: bool
  cv_regs :: "(nat \<times> fd_event \<times> callback) list"
  cv_watch :: "fd_event option"
  cv_alive :: bool
  cv_begun :: nat

definition regs_at :: "int \<Rightarrow> board \<Rightarrow> (nat \<times> fd_event \<times> callback) list" where
  "regs_at fd b = map snd (filter (\<lambda>(fd', r). fd' = fd) (bd_table b))"

definition view_at :: "nat \<Rightarrow> int \<Rightarrow> board \<Rightarrow> conn_view" where
  "view_at n fd b = \<lparr>cv_linked = n \<in> bd_links b, cv_regs = regs_at fd b, cv_watch = bd_watch b fd,
     cv_alive = (bd_open b fd = Some (Ours n)), cv_begun = count_list (bd_begun b) n\<rparr>"

fun view_op :: "section_op \<Rightarrow> conn_view \<Rightarrow> conn_view option" where
  "view_op (Link n) v = Some (v\<lparr>cv_linked := True\<rparr>)"
| "view_op (Emplace fd n ev cb) v = Some (v\<lparr>cv_regs := (n, ev, cb) # cv_regs v\<rparr>)"
| "view_op (Watch fd ev) v = (if cv_watch v = None then Some (v\<lparr>cv_watch := Some ev\<rparr>) else None)"
| "view_op (Unwatch fd) v = (if cv_watch v = None then None else Some (v\<lparr>cv_watch := None\<rparr>))"
| "view_op (Erase fd) v = Some (v\<lparr>cv_regs := []\<rparr>)"
| "view_op (Close fd) v = Some (v\<lparr>cv_alive := False, cv_watch := None\<rparr>)"
| "view_op (Begin n) v = Some (v\<lparr>cv_begun := Suc (cv_begun v)\<rparr>)"

fun op_on :: "nat \<Rightarrow> int \<Rightarrow> section_op \<Rightarrow> bool" where
  "op_on n fd (Link n') = (n' = n)"
| "op_on n fd (Emplace fd' n' ev cb) = (fd' = fd \<and> n' = n)"
| "op_on n fd (Watch fd' ev) = (fd' = fd)"
| "op_on n fd (Unwatch fd') = (fd' = fd)"
| "op_on n fd (Erase fd') = (fd' = fd)"
| "op_on n fd (Close fd') = (fd' = fd)"
| "op_on n fd (Begin n') = (n' = n)"

lemma view_at_simps [simp]:
  "cv_linked (view_at n fd b) = (n \<in> bd_links b)" "cv_regs (view_at n fd b) = regs_at fd b"
  "cv_watch (view_at n fd b) = bd_watch b fd" "cv_alive (view_at n fd b) = (bd_open b fd = Some (Ours n))"
  "cv_begun (view_at n fd b) = count_list (bd_begun b) n"
  by (simp_all add: view_at_def)

lemma regs_at_filter: "regs_at fd (b\<lparr>bd_table := filter (\<lambda>(fd', r). fd' \<noteq> fd'') (bd_table b)\<rparr>) = (if fd = fd'' then [] else regs_at fd b)"
proof -
  have "map snd (filter (\<lambda>(fd', r). fd' = fd) (filter (\<lambda>(fd', r). fd' \<noteq> fd'') t))
      = (if fd = fd'' then [] else map snd (filter (\<lambda>(fd', r). fd' = fd) t))" for t :: "(int \<times> 'b) list"
    by (induction t) auto
  from this [of "bd_table b"] show ?thesis
    unfolding regs_at_def by (simp del: filter_filter)
qed

lemma regs_at_simps [simp]:
  "regs_at fd (b\<lparr>bd_links := x\<rparr>) = regs_at fd b" "regs_at fd (b\<lparr>bd_watch := w\<rparr>) = regs_at fd b"
  "regs_at fd (b\<lparr>bd_open := p\<rparr>) = regs_at fd b" "regs_at fd (b\<lparr>bd_begun := g\<rparr>) = regs_at fd b"
  "regs_at fd (b\<lparr>bd_table := (fd', r) # bd_table b\<rparr>) = (if fd' = fd then r # regs_at fd b else regs_at fd b)"
  by (simp_all add: regs_at_def)

text \<open>A section acts on the board as on the view of its connection, and nobody else sees it.\<close>

lemma board_op_view:
  assumes "op_on n fd x" and "bd_open b fd = Some (Ours n)"
  shows "view_op x (view_at n fd b) = Some v \<longleftrightarrow> (\<exists>b'. board_op x b = (b', Inr ()) \<and> view_at n fd b' = v)"
  using assms by (cases x) (auto simp: view_at_def regs_at_filter split: option.split)

lemma board_op_frame:
  assumes "op_on n fd x" and "board_op x b = (b', r)" and "fd' \<noteq> fd"
  shows "regs_at fd' b' = regs_at fd' b" "bd_watch b' fd' = bd_watch b fd'" "bd_open b' fd' = bd_open b fd'"
    and "n' \<noteq> n \<Longrightarrow> view_at n' fd' b' = view_at n' fd' b"
    and "n' \<noteq> n \<Longrightarrow> count_list (bd_begun b') n' = count_list (bd_begun b) n'"
  using assms by (cases x; auto simp: view_at_def regs_at_filter split: option.splits)+

lemma board_op_open: "op_on n fd x \<Longrightarrow> board_op x b = (b', r) \<Longrightarrow> bd_open b' fd \<in> {bd_open b fd, None}"
  by (cases x) (auto split: option.splits)

lemma board_op_begun: "op_on n fd x \<Longrightarrow> board_op x b = (b', r) \<Longrightarrow> n' \<noteq> n \<Longrightarrow> count_list (bd_begun b') n' = count_list (bd_begun b) n'"
  by (cases x) (auto split: option.splits)

text \<open>The states of a connection no thread works on, and what the remaining sections of one lead to.\<close>

definition waiting :: "nat \<Rightarrow> conn_view \<Rightarrow> bool" where
  "waiting n v \<longleftrightarrow> cv_regs v \<in> {[(n, fd_writable, On_acpt_writable)], [(n, fd_writable, On_cont_writable)]} \<and>
     cv_watch v = Some fd_writable \<and> cv_begun v = 0"

definition established :: "nat \<Rightarrow> conn_view \<Rightarrow> bool" where
  "established n v \<longleftrightarrow> cv_regs v = [(n, fd_readable, On_readable), (n, fd_writable, On_writable)] \<and>
     cv_watch v \<in> {Some fd_readable, Some fd_writable} \<and> cv_begun v = 1"

definition stable :: "nat \<Rightarrow> conn_view \<Rightarrow> bool" where
  "stable n v \<longleftrightarrow> cv_alive v \<and> cv_linked v \<and> (waiting n v \<or> established n v)"

definition gone :: "conn_view \<Rightarrow> bool" where
  "gone v \<longleftrightarrow> \<not> cv_alive v \<and> cv_regs v = [] \<and> cv_watch v = None \<and> cv_begun v \<le> 1"

fun finishes :: "nat \<Rightarrow> section_op list \<Rightarrow> conn_view \<Rightarrow> bool" where
  "finishes n [] v = (stable n v \<or> gone v)"
| "finishes n (x # xs) v =
     (cv_alive v \<and> (case view_op x v of None \<Rightarrow> False | Some v' \<Rightarrow> finishes n xs v'))"

fun arriving :: "nat \<Rightarrow> section_op list \<Rightarrow> conn_view \<Rightarrow> bool" where
  "arriving n [] v = (cv_alive v \<and> cv_linked v \<and> waiting n v)"
| "arriving n (x # xs) v =
     (cv_alive v \<and> cv_watch v = None \<and> (case view_op x v of None \<Rightarrow> False | Some v' \<Rightarrow> arriving n xs v'))"

lemma directions [simp]: "fd_readable \<noteq> fd_writable" "fd_writable \<noteq> fd_readable" "and fd_readable fd_writable = 0" "and fd_writable fd_readable = 0"
  by (simp_all add: fd_readable_def fd_writable_def)

lemmas section_lists = register_ops_def remove_ops_def rewatch_ops_def init_ops_def

lemmas view_states = stable_def waiting_def established_def gone_def

lemma finishes_begun: "finishes n xs v \<Longrightarrow> cv_begun v \<le> 1"
proof (induction xs arbitrary: v)
  case Nil
  then show ?case by (auto simp: view_states)
next
  case (Cons x xs)
  then obtain v' where v': "view_op x v = Some v'" "finishes n xs v'"
    by (auto split: option.splits)
  moreover have "cv_begun v \<le> cv_begun v'"
    using v'(1) by (cases x) (auto split: if_splits)
  ultimately show ?case using Cons.IH by fastforce
qed

lemma finishes_append:
  "finishes n (concat (replicate k (rewatch_ops n fd fd_writable)) @ xs) v"
  if "established n v" "cv_alive v" "cv_linked v"
    and "\<And>v'. established n v' \<Longrightarrow> cv_alive v' \<Longrightarrow> cv_linked v' \<Longrightarrow> finishes n xs v'"
  using that(1-3)
proof (induction k arbitrary: v)
  case 0
  then show ?case using that(4) by simp
next
  case (Suc k)
  have "finishes n (concat (replicate k (rewatch_ops n fd fd_writable)) @ xs)
      (v\<lparr>cv_watch := None, cv_linked := True, cv_watch := Some fd_writable\<rparr>)"
    using Suc.prems by (intro Suc.IH) (auto simp: established_def)
  with Suc.prems show ?case
    by (auto simp: rewatch_ops_def remove_ops_def register_ops_def established_def)
qed

lemma established_ends:
  "established n v \<Longrightarrow> cv_alive v \<Longrightarrow> cv_linked v \<Longrightarrow> finishes n (end_ops fd e) v"
  by (cases e) (auto simp: remove_ops_def view_states)

lemma callback_finishes:
  assumes st: "stable n v" and cb: "(n, ev, cb) \<in> set (cv_regs v)" "cv_watch v = Some ev"
  shows "finishes n (callback_ops cb waits e n fd) v"
proof (cases "waiting n v")
  case True
  with st cb show ?thesis
    by (auto simp: view_states section_lists)
next
  case False
  then have est: "established n v" "cv_alive v" "cv_linked v"
    using st by (simp_all add: stable_def)
  then consider "cb = On_readable" "ev = fd_readable" | "cb = On_writable" "ev = fd_writable"
    using cb by (auto simp: established_def)
  then show ?thesis
  proof cases
    case 1
    have "finishes n (concat (replicate waits (rewatch_ops n fd fd_writable)) @ end_ops fd e) v"
      by (rule finishes_append [OF est established_ends])
    with 1 show ?thesis by simp
  next
    case 2
    have "finishes n (end_ops fd e') v" for e'
      by (rule established_ends [OF est])
    then show ?thesis
      using 2 est by (cases e) (auto simp: section_lists view_states)
  qed
qed

lemma callback_ops_on: "list_all (op_on n fd) (callback_ops cb waits e n fd)"
proof -
  have "list_all (op_on n fd) (end_ops fd e)" for e
    by (cases e) (simp_all add: remove_ops_def)
  moreover have "list_all (op_on n fd) (concat (replicate waits (rewatch_ops n fd ev)))" for ev
    by (induction waits) (simp_all add: rewatch_ops_def remove_ops_def register_ops_def)
  ultimately show ?thesis
    by (cases cb) (auto simp: section_lists)
qed

lemma register_arriving:
  assumes "cb \<in> {On_acpt_writable, On_cont_writable}" and "cv_alive v" "cv_regs v = []" "cv_watch v = None" "cv_begun v = 0"
  shows "arriving n (register_ops n fd fd_writable (Some cb) True) v"
  using assms by (auto simp: register_ops_def view_states)

end
