(* ===== verification/Handover_Safety.thy ===== *)
theory Handover_Safety
  imports Handover
begin

text \<open>
  The invariant of the hand-over of connections (theory \<open>Handover\<close>), kept by every move of every
  thread, and what follows: no call of epoll fails, no event is lost, every connection begins once.
\<close>

section \<open>The invariant\<close>

abbreviation view_in :: "handover \<Rightarrow> nat \<Rightarrow> int \<Rightarrow> conn_view" where
  "view_in s n fd \<equiv> view_at n fd (hv_board s)"

text \<open>Descriptors: what is not a connection of the loop is neither in the table nor watched, and a
  connection has one descriptor.\<close>

definition board_inv :: "nat \<Rightarrow> board \<Rightarrow> bool" where
  "board_inv next b \<longleftrightarrow>
     (\<forall>fd. (\<exists>n. bd_open b fd = Some (Ours n) \<and> n < next) \<or>
           (\<forall>n. bd_open b fd \<noteq> Some (Ours n)) \<and> regs_at fd b = [] \<and> bd_watch b fd = None) \<and>
     (\<forall>fd fd' n. bd_open b fd = Some (Ours n) \<and> bd_open b fd' = Some (Ours n) \<longrightarrow> fd = fd') \<and>
     (\<forall>n. count_list (bd_begun b) n \<le> 1 \<and> (next \<le> n \<longrightarrow> count_list (bd_begun b) n = 0))"

definition at_front :: "handover \<Rightarrow> nat \<Rightarrow> bool" where
  "at_front s n \<longleftrightarrow> (\<exists>i fd xs. hv_fronts s i = Some (n, fd, xs))"

definition fronts_inv :: "handover \<Rightarrow> bool" where
  "fronts_inv s \<longleftrightarrow>
     (\<forall>i n fd xs. hv_fronts s i = Some (n, fd, xs) \<longrightarrow>
        xs \<noteq> [] \<and> list_all (op_on n fd) xs \<and> arriving n xs (view_in s n fd)) \<and>
     (\<forall>i j n fd fd' xs xs'. hv_fronts s i = Some (n, fd, xs) \<and> hv_fronts s j = Some (n, fd', xs') \<longrightarrow> i = j)"

definition at_work :: "handover \<Rightarrow> nat \<Rightarrow> bool" where
  "at_work s n \<longleftrightarrow> (\<exists>fd xs q. hv_worker s = Calling n fd xs q)"

definition idle_inv :: "handover \<Rightarrow> bool" where
  "idle_inv s \<longleftrightarrow> (\<forall>fd n. bd_open (hv_board s) fd = Some (Ours n) \<and> \<not> at_front s n \<and> \<not> at_work s n \<longrightarrow>
     stable n (view_in s n fd))"

text \<open>A queued callback is registered, and for the direction that is watched.\<close>

definition ready :: "handover \<Rightarrow> nat \<times> int \<times> callback \<Rightarrow> bool" where
  "ready s x \<longleftrightarrow> (case x of (n, fd, cb) \<Rightarrow> bd_open (hv_board s) fd = Some (Ours n) \<and> \<not> at_front s n \<and>
     (\<exists>ev. (n, ev, cb) \<in> set (regs_at fd (hv_board s)) \<and> bd_watch (hv_board s) fd = Some ev))"

abbreviation queue_fds :: "(nat \<times> int \<times> callback) list \<Rightarrow> int list" where
  "queue_fds q \<equiv> map (\<lambda>(n, fd, cb). fd) q"

definition reported :: "handover \<Rightarrow> int \<times> fd_event \<Rightarrow> bool" where
  "reported s x \<longleftrightarrow> (case x of (fd, d) \<Rightarrow> \<exists>m. bd_watch (hv_board s) fd = Some m \<and> and d m = d)"

fun worker_inv :: "handover \<Rightarrow> worker \<Rightarrow> bool" where
  "worker_inv s Waiting = True"
| "worker_inv s (Looking evs q) =
     (list_all (ready s) q \<and> list_all (reported s) evs \<and> distinct (map fst evs @ queue_fds q))"
| "worker_inv s (Draining q) = (list_all (ready s) q \<and> distinct (queue_fds q))"
| "worker_inv s (Calling n fd xs q) =
     (list_all (ready s) q \<and> distinct (fd # queue_fds q) \<and> \<not> at_front s n \<and> xs \<noteq> [] \<and>
      list_all (op_on n fd) xs \<and> finishes n xs (view_in s n fd))"

definition handover_inv :: "handover \<Rightarrow> bool" where
  "handover_inv s \<longleftrightarrow> hv_fault s = None \<and> board_inv (hv_next s) (hv_board s) \<and> fronts_inv s \<and> idle_inv s \<and>
     worker_inv s (hv_worker s)"

lemma handover_begin_inv: "handover_begin s \<Longrightarrow> handover_inv s"
  by (auto simp: handover_begin_def handover_inv_def board_inv_def fronts_inv_def idle_inv_def regs_at_def)

lemma arriving_Cons:
  "arriving n (x # xs) v \<longleftrightarrow> cv_alive v \<and> cv_watch v = None \<and> (\<exists>v'. view_op x v = Some v' \<and> arriving n xs v')"
  by (auto split: option.splits)

lemma finishes_Cons:
  "finishes n (x # xs) v \<longleftrightarrow> cv_alive v \<and> (\<exists>v'. view_op x v = Some v' \<and> finishes n xs v')"
  by (auto split: option.splits)

declare arriving.simps(2) [simp del] finishes.simps(2) [simp del]

lemma arriving_begun: "arriving n xs v \<Longrightarrow> cv_begun v = 0"
proof (induction xs arbitrary: v)
  case (Cons x xs)
  then obtain v' where "view_op x v = Some v'" "cv_begun v' = 0"
    by (auto simp: arriving_Cons)
  then show ?case by (cases x) (auto split: if_splits)
qed (simp add: waiting_def)

lemma arriving_open: "arriving n xs (view_at n fd b) \<Longrightarrow> bd_open b fd = Some (Ours n)"
  by (cases xs) (simp_all add: arriving_Cons)

lemma finishes_open: "finishes n xs (view_at n fd b) \<Longrightarrow> xs \<noteq> [] \<Longrightarrow> bd_open b fd = Some (Ours n)"
  by (cases xs) (simp_all add: finishes_Cons)

lemma arriving_unwatched: "arriving n xs (view_at n fd b) \<Longrightarrow> xs \<noteq> [] \<Longrightarrow> bd_watch b fd = None"
  by (cases xs) (simp_all add: arriving_Cons)

text \<open>A section of one connection keeps what holds of the descriptors.\<close>

lemma board_inv_op:
  assumes inv: "board_inv m b" and own: "bd_open b fd = Some (Ours n)" and on: "op_on n fd x"
    and run: "board_op x b = (b', r)" and after: "bd_open b' fd = Some (Ours n) \<or> regs_at fd b' = [] \<and> bd_watch b' fd = None"
    and begun: "count_list (bd_begun b') n \<le> 1"
  shows "board_inv m b'"
proof -
  have "n < m"
    using inv own unfolding board_inv_def by (metis option.inject owner.inject)
  have fd: "bd_open b' fd \<in> {bd_open b fd, None}"
    by (rule board_op_open [OF on run])
  have other: "fd' \<noteq> fd \<Longrightarrow> bd_open b' fd' = bd_open b fd'" "fd' \<noteq> fd \<Longrightarrow> regs_at fd' b' = regs_at fd' b"
      "fd' \<noteq> fd \<Longrightarrow> bd_watch b' fd' = bd_watch b fd'" for fd'
    using board_op_frame(1-3) [OF on run] by simp_all
  have count: "n' \<noteq> n \<Longrightarrow> count_list (bd_begun b') n' = count_list (bd_begun b) n'" for n'
    by (rule board_op_begun [OF on run])
  show ?thesis
    unfolding board_inv_def
  proof (intro conjI allI impI)
    fix fd'
    show "(\<exists>n. bd_open b' fd' = Some (Ours n) \<and> n < m) \<or>
        (\<forall>n. bd_open b' fd' \<noteq> Some (Ours n)) \<and> regs_at fd' b' = [] \<and> bd_watch b' fd' = None"
      using inv other [of fd'] fd after own \<open>n < m\<close> unfolding board_inv_def by (cases "fd' = fd") auto
  next
    fix fd1 fd2 i
    assume "bd_open b' fd1 = Some (Ours i) \<and> bd_open b' fd2 = Some (Ours i)"
    then have "bd_open b fd1 = Some (Ours i)" "bd_open b fd2 = Some (Ours i)"
      using other(1) [of fd1] other(1) [of fd2] fd by (metis insertE option.distinct(1) singletonD)+
    then show "fd1 = fd2" using inv unfolding board_inv_def by blast
  next
    fix i
    show "count_list (bd_begun b') i \<le> 1" "m \<le> i \<Longrightarrow> count_list (bd_begun b') i = 0"
      using inv count [of i] begun \<open>n < m\<close> unfolding board_inv_def by (cases "i = n"; fastforce)+
  qed
qed

text \<open>What a thread that leaves a connection alone sees of it.\<close>

lemma board_inv_unique: "board_inv m b \<Longrightarrow> bd_open b fd = Some (Ours n) \<Longrightarrow> bd_open b fd' = Some (Ours n) \<Longrightarrow> fd = fd'"
  unfolding board_inv_def by blast

lemma board_inv_watched: "board_inv m b \<Longrightarrow> bd_watch b fd = Some ev \<Longrightarrow> \<exists>n. bd_open b fd = Some (Ours n)"
  unfolding board_inv_def by (metis option.distinct(1))

lemma board_inv_free: "board_inv m b \<Longrightarrow> bd_open b fd = None \<Longrightarrow> regs_at fd b = [] \<and> bd_watch b fd = None"
  unfolding board_inv_def by (metis option.distinct(1))

lemma board_inv_old: "board_inv m b \<Longrightarrow> bd_open b fd = Some (Ours n) \<Longrightarrow> n < m"
  unfolding board_inv_def by (metis option.inject owner.inject)

lemma board_inv_accept:
  assumes b: "board_inv m b" and fd: "bd_open b fd = None"
  shows "board_inv (Suc m) (b\<lparr>bd_open := (bd_open b)(fd := Some (Ours m))\<rparr>)"
  unfolding board_inv_def
proof (intro conjI allI impI, goal_cases)
  case (1 fd')
  show ?case
    using b fd unfolding board_inv_def by (cases "fd' = fd") (auto simp: less_Suc_eq)
next
  case (2 fd1 fd2 n)
  then show ?case
    using board_inv_unique [OF b, of fd1 n fd2] board_inv_old [OF b] by (fastforce split: if_splits)
next
  case (3 n)
  then show ?case using b unfolding board_inv_def by simp
next
  case (4 n)
  then show ?case using b unfolding board_inv_def by simp
qed

lemma worker_inv_keep:
  assumes "worker_inv s w" and "\<And>x. ready s x \<Longrightarrow> ready t x" and "\<And>x. reported s x \<Longrightarrow> reported t x"
    and "\<And>n fd xs. \<not> at_front s n \<Longrightarrow> finishes n xs (view_in s n fd) \<Longrightarrow> xs \<noteq> [] \<Longrightarrow>
      \<not> at_front t n \<and> finishes n xs (view_in t n fd)"
  shows "worker_inv t w"
  using assms by (cases w) (auto simp: list_all_iff)

lemma ready_frame:
  assumes "ready s (n', fd', cb)" and "at_front t n' \<Longrightarrow> at_front s n'"
    and "regs_at fd' (hv_board t) = regs_at fd' (hv_board s)" "bd_watch (hv_board t) fd' = bd_watch (hv_board s) fd'"
      "bd_open (hv_board t) fd' = bd_open (hv_board s) fd'"
  shows "ready t (n', fd', cb)"
  using assms unfolding ready_def by auto

lemma inv_accept:
  assumes inv: "handover_inv s" and mv: "handover_move (Accept i fd cb) s = Some t"
  shows "handover_inv t"
proof -
  let ?b = "hv_board s" and ?n = "hv_next s"
  have g: "hv_fronts s i = None" "bd_open ?b fd = None" "cb \<in> {On_acpt_writable, On_cont_writable}"
    and t: "t = s\<lparr>hv_board := ?b\<lparr>bd_open := (bd_open ?b)(fd := Some (Ours ?n))\<rparr>, hv_next := Suc ?n,
        hv_fronts := (hv_fronts s)(i := Some (?n, fd, register_ops ?n fd fd_writable (Some cb) True))\<rparr>"
    using mv by (auto split: if_splits)
  have b: "board_inv ?n ?b" and f: "fronts_inv s" and w: "worker_inv s (hv_worker s)" and d: "idle_inv s"
    using inv by (simp_all add: handover_inv_def)
  have free: "regs_at fd ?b = []" "bd_watch ?b fd = None" "count_list (bd_begun ?b) ?n = 0"
    using board_inv_free [OF b g(2)] b unfolding board_inv_def by auto
  have old: "bd_open ?b fd' = Some (Ours n') \<Longrightarrow> n' \<noteq> ?n \<and> fd' \<noteq> fd" for fd' n'
    using board_inv_old [OF b] g(2) by fastforce
  have view: "bd_open ?b fd' = Some (Ours n') \<Longrightarrow> view_in t n' fd' = view_in s n' fd'" for n' fd'
    using old [of fd' n'] by (simp add: t view_at_def)
  have front: "at_front t n' \<longleftrightarrow> n' = ?n \<or> at_front s n'" for n'
    using g(1) unfolding at_front_def t by (auto, metis option.distinct(1))
  have alone: "hv_fronts s j = Some (n', fd', xs) \<Longrightarrow> n' \<noteq> ?n" for j n' fd' xs
    using f arriving_open old unfolding fronts_inv_def by blast
  have b': "board_inv (hv_next t) (hv_board t)"
    using board_inv_accept [OF b g(2)] by (simp add: t)
  have arr: "arriving ?n (register_ops ?n fd fd_writable (Some cb) True) (view_in t ?n fd)"
    using g(3) free by (intro register_arriving) (simp_all add: t)
  have f': "fronts_inv t"
    unfolding fronts_inv_def
  proof (intro conjI allI impI, goal_cases)
    case (1 j n' fd' xs)
    then show ?case by (cases "j = i") (use f in \<open>auto simp: t fronts_inv_def register_ops_def\<close>)
  next
    case (2 j n' fd' xs)
    then show ?case by (cases "j = i") (use f in \<open>auto simp: t fronts_inv_def register_ops_def\<close>)
  next
    case (3 j n' fd' xs)
    show ?case
    proof (cases "j = i")
      case True
      with 3 arr show ?thesis by (auto simp: t)
    next
      case False
      then have "arriving n' xs (view_in s n' fd')"
        using 3 f by (auto simp: t fronts_inv_def)
      with view [OF arriving_open [OF this]] show ?thesis by simp
    qed
  next
    case (4 j k n' fd' fd'' xs xs')
    then show ?case using f alone by (auto simp: t fronts_inv_def split: if_splits)
  qed
  have d': "idle_inv t"
    unfolding idle_inv_def
  proof (intro allI impI)
    fix fd' n'
    assume a: "bd_open (hv_board t) fd' = Some (Ours n') \<and> \<not> at_front t n' \<and> \<not> at_work t n'"
    then have "bd_open ?b fd' = Some (Ours n')" "\<not> at_front s n'" "\<not> at_work s n'"
      using front by (auto simp: t at_work_def split: if_splits)
    with d view show "stable n' (view_in t n' fd')" by (simp add: idle_inv_def)
  qed
  have "worker_inv t (hv_worker s)"
  proof (rule worker_inv_keep [OF w])
    show "ready t x" if "ready s x" for x
      using that old front by (cases x) (auto simp: ready_def t)
    show "reported t x" if "reported s x" for x
      using that by (simp add: reported_def t)
    show "\<not> at_front t n' \<and> finishes n' xs (view_in t n' fd')"
      if "\<not> at_front s n'" "finishes n' xs (view_in s n' fd')" "xs \<noteq> []" for n' fd' xs
      using that finishes_open [OF that(2,3)] old view front by auto
  qed
  with b' f' d' inv show ?thesis
    by (simp add: handover_inv_def t)
qed

lemma inv_other:
  assumes inv: "handover_inv s" and mv: "handover_move (Other fd) s = Some t"
  shows "handover_inv t"
proof -
  let ?b = "hv_board s"
  obtain p where t: "t = s\<lparr>hv_board := ?b\<lparr>bd_open := (bd_open ?b)(fd := p)\<rparr>\<rparr>" "bd_open ?b fd \<in> {None, Some Foreign}" "p \<in> {None, Some Foreign}"
    using mv by (auto split: option.splits owner.splits)
  have own: "bd_open (hv_board t) fd' = Some (Ours n) \<longleftrightarrow> bd_open ?b fd' = Some (Ours n)" for fd' n
    using t by auto
  have view: "view_in t n fd' = view_in s n fd'" for n fd'
    using own by (simp add: view_at_def) (simp add: t(1))
  have same: "hv_fronts t = hv_fronts s" "hv_worker t = hv_worker s" "at_front t = at_front s" "at_work t = at_work s"
    "hv_next t = hv_next s" "hv_fault t = hv_fault s" "regs_at fd' (hv_board t) = regs_at fd' ?b" "bd_watch (hv_board t) = bd_watch ?b"
    "bd_begun (hv_board t) = bd_begun ?b" for fd'
    by (simp_all add: t(1) at_front_def at_work_def fun_eq_iff)
  have "worker_inv t (hv_worker s)"
    by (rule worker_inv_keep) (use inv in \<open>auto simp: handover_inv_def ready_def reported_def own same view\<close>)
  with inv show ?thesis
    by (simp add: handover_inv_def board_inv_def fronts_inv_def idle_inv_def own same view)
qed

text \<open>A section of connection \<open>n\<close>: what the other connections and the queue see.\<close>

lemma op_others:
  assumes b: "board_inv m b" and own: "bd_open b fd = Some (Ours n)" and on: "op_on n fd x" and run: "board_op x b = (b', r)"
    and n': "bd_open b fd' = Some (Ours n')" "n' \<noteq> n"
  shows "fd' \<noteq> fd" "view_at n' fd' b' = view_at n' fd' b" "regs_at fd' b' = regs_at fd' b" "bd_watch b' fd' = bd_watch b fd'"
    "bd_open b' fd' = bd_open b fd'"
proof -
  show "fd' \<noteq> fd" using own n' by auto
  then show "view_at n' fd' b' = view_at n' fd' b" "regs_at fd' b' = regs_at fd' b" "bd_watch b' fd' = bd_watch b fd'"
    "bd_open b' fd' = bd_open b fd'"
    using board_op_frame [OF on run] n'(2) by blast+
qed

lemma op_back:
  assumes "board_inv m b" "bd_open b fd = Some (Ours n)" "op_on n fd x" "board_op x b = (b', r)" "bd_open b' fd' = Some (Ours n')"
  shows "bd_open b fd' = Some (Ours n')"
  using board_op_open [OF assms(3,4)] board_op_frame(3) [OF assms(3,4), of fd'] assms(2,5) by (cases "fd' = fd") auto

lemma inv_front:
  assumes inv: "handover_inv s" and mv: "handover_move (Front i) s = Some t"
  shows "handover_inv t"
proof -
  let ?b = "hv_board s"
  obtain n fd x xs where fr: "hv_fronts s i = Some (n, fd, x # xs)"
    using mv by (auto split: option.splits list.splits)
  have b: "board_inv (hv_next s) ?b" and f: "fronts_inv s" and w: "worker_inv s (hv_worker s)" and d: "idle_inv s"
    using inv by (simp_all add: handover_inv_def)
  have on: "op_on n fd x" "list_all (op_on n fd) xs" and arr: "arriving n (x # xs) (view_in s n fd)"
    using f fr unfolding fronts_inv_def by fastforce+
  then obtain v where v: "view_op x (view_in s n fd) = Some v" "arriving n xs v"
    and own: "bd_open ?b fd = Some (Ours n)" and quiet: "bd_watch ?b fd = None"
    by (auto simp: arriving_Cons)
  then obtain b' where b': "board_op x ?b = (b', Inr ())" "view_at n fd b' = v"
    using board_op_view [OF on(1) own] by blast
  have t: "t = s\<lparr>hv_board := b', hv_fronts := (hv_fronts s)(i := if xs = [] then None else Some (n, fd, xs))\<rparr>"
    using mv fr b' by simp
  note others = op_others [OF b own on(1) b'(1)]
  have own': "bd_open b' fd = Some (Ours n)"
    using v(2) b'(2) arriving_open by blast
  have inv_b: "board_inv (hv_next s) b'"
    using arriving_begun [OF v(2)] b'(2) own' by (intro board_inv_op [OF b own on(1) b'(1)]) auto
  have only: "hv_fronts s j = Some (n, fd', xs') \<Longrightarrow> j = i" for j fd' xs'
    using f fr unfolding fronts_inv_def by blast
  have front: "at_front t n' \<longleftrightarrow> at_front s n'" if "n' \<noteq> n" for n'
    using that fr unfolding at_front_def t
    by (auto split: if_splits) (metis Pair_inject option.inject)
  have f': "fronts_inv t"
    unfolding fronts_inv_def
  proof (intro conjI allI impI, goal_cases)
    case (1 j n' fd' xs')
    then show ?case using f by (auto simp: t fronts_inv_def split: if_splits)
  next
    case (2 j n' fd' xs')
    then show ?case using f on(2) by (auto simp: t fronts_inv_def split: if_splits)
  next
    case (3 j n' fd' xs')
    show ?case
    proof (cases "j = i")
      case True
      with 3 v(2) b'(2) show ?thesis by (auto simp: t split: if_splits)
    next
      case False
      then have "arriving n' xs' (view_in s n' fd')" "n' \<noteq> n"
        using 3 f only [of j] by (auto simp: t fronts_inv_def)
      with others(2) [OF arriving_open [OF this(1)] this(2)] show ?thesis by (simp add: t)
    qed
  next
    case (4 j k n' fd' fd'' xs' xs'')
    then show ?case using f only by (auto simp: t fronts_inv_def split: if_splits)
  qed
  have d': "idle_inv t"
    unfolding idle_inv_def
  proof (intro allI impI)
    fix fd' n'
    assume a: "bd_open (hv_board t) fd' = Some (Ours n') \<and> \<not> at_front t n' \<and> \<not> at_work t n'"
    then have o: "bd_open ?b fd' = Some (Ours n')"
      using op_back [OF b own on(1) b'(1)] by (simp add: t)
    show "stable n' (view_in t n' fd')"
    proof (cases "n' = n")
      case True
      then have "fd' = fd" "xs = []"
        using board_inv_unique [OF b o] own a by (auto simp: t at_front_def split: if_splits)
      with v(2) b'(2) True show ?thesis by (auto simp: t stable_def)
    next
      case False
      with a front o d have "stable n' (view_in s n' fd')" by (simp add: idle_inv_def at_work_def t)
      with others(2) [OF o False] show ?thesis by (simp add: t)
    qed
  qed
  have atf: "at_front s n" using fr by (auto simp: at_front_def)
  have "worker_inv t (hv_worker s)"
  proof (rule worker_inv_keep [OF w])
    show "ready t y" if "ready s y" for y
    proof (cases y)
      case (fields n' fd' cb)
      with that atf have n': "bd_open ?b fd' = Some (Ours n')" "n' \<noteq> n" by (auto simp: ready_def)
      show ?thesis
        unfolding fields
        by (rule ready_frame [OF that [unfolded fields]]) (use others(3-5) [OF n'] front [OF n'(2)] in \<open>simp_all add: t\<close>)
    qed
    show "reported t y" if "reported s y" for y
      using that board_op_frame(2) [OF on(1) b'(1)] quiet by (cases y; cases "fst y = fd") (auto simp: reported_def t)
    show "\<not> at_front t n' \<and> finishes n' ys (view_in t n' fd')"
      if "\<not> at_front s n'" "finishes n' ys (view_in s n' fd')" "ys \<noteq> []" for n' fd' ys
    proof -
      have "n' \<noteq> n" using that(1) atf by auto
      with others(2) [OF finishes_open [OF that(2,3)] this] front that show ?thesis by (simp add: t)
    qed
  qed
  with inv_b f' d' inv show ?thesis
    by (simp add: handover_inv_def t)
qed

text \<open>The lookup of an event finds the one callback that is due.\<close>

lemma due_in_regs:
  "due_in (bd_table b) fd d = map (\<lambda>(n, ev, cb). (n, fd, cb)) (filter (\<lambda>(n, ev, cb). and ev d \<noteq> 0) (regs_at fd b))"
proof -
  have "due_in tab fd d = map (\<lambda>(n, ev, cb). (n, fd, cb))
      (filter (\<lambda>(n, ev, cb). and ev d \<noteq> 0) (map snd (filter (\<lambda>(fd', r). fd' = fd) tab)))" for tab
    by (induction tab) (auto simp: due_in_def)
  then show ?thesis by (simp add: regs_at_def)
qed

lemma due_one:
  assumes st: "stable n (view_at n fd b)" and watch: "bd_watch b fd = Some m" "and d m = d"
  shows "d = 0 \<and> due_in (bd_table b) fd d = [] \<or>
     d \<noteq> 0 \<and> (\<exists>cb. due_in (bd_table b) fd d = [(n, fd, cb)] \<and> (n, m, cb) \<in> set (regs_at fd b))"
proof (cases "d = 0")
  case True
  then show ?thesis by (simp add: due_in_regs)
next
  case False
  have same: "and m d = d"
    using watch(2) by (simp add: and.commute)
  have cross: "and m' d = 0" if "and m' m = 0" for m'
    using that same by (metis and.assoc and_zero_eq zero_and_eq)
  from False show ?thesis
    using st watch(1) same cross [of fd_readable] cross [of fd_writable]
    by (auto simp: due_in_regs view_states)
qed

lemma idle_stable:
  assumes inv: "handover_inv s" and own: "bd_open (hv_board s) fd = Some (Ours n)" and "\<not> at_front s n" "\<not> at_work s n"
  shows "stable n (view_in s n fd)"
  using assms by (simp add: handover_inv_def idle_inv_def)

lemma reported_due:
  assumes inv: "handover_inv s" and rep: "reported s (fd, d)" and w: "\<And>n. \<not> at_work s n"
  shows "\<exists>n. bd_open (hv_board s) fd = Some (Ours n) \<and> \<not> at_front s n \<and> stable n (view_in s n fd)"
proof -
  obtain m where m: "bd_watch (hv_board s) fd = Some m" using rep by (auto simp: reported_def)
  moreover have b: "board_inv (hv_next s) (hv_board s)" and f: "fronts_inv s"
    using inv by (simp_all add: handover_inv_def)
  ultimately obtain n where n: "bd_open (hv_board s) fd = Some (Ours n)"
    using board_inv_watched by blast
  moreover have front: "\<not> at_front s n"
  proof
    assume "at_front s n"
    then obtain i fd' xs where "hv_fronts s i = Some (n, fd', xs)" by (auto simp: at_front_def)
    then have a: "arriving n xs (view_in s n fd')" "xs \<noteq> []" using f by (auto simp: fronts_inv_def)
    then have "fd' = fd" using arriving_open board_inv_unique [OF b _ n] by blast
    with arriving_unwatched [OF a] m show False by simp
  qed
  moreover have "stable n (view_in s n fd)"
    by (rule idle_stable [OF inv n front w])
  ultimately show ?thesis by blast
qed

lemma worker_only:
  assumes inv: "handover_inv s" and w: "worker_inv s w" and quiet: "\<And>n. \<not> at_work s n"
  shows "handover_inv (s\<lparr>hv_worker := w\<rparr>)"
proof -
  let ?t = "s\<lparr>hv_worker := w\<rparr>"
  have front: "at_front ?t = at_front s"
    by (simp add: fun_eq_iff at_front_def)
  have "worker_inv ?t w"
    by (rule worker_inv_keep [OF w]) (auto simp: ready_def reported_def front)
  with inv show ?thesis
    using quiet by (simp add: handover_inv_def fronts_inv_def idle_inv_def front)
qed

lemma inv_report:
  assumes inv: "handover_inv s" and mv: "handover_move (Report evs) s = Some t"
  shows "handover_inv t"
proof -
  have w: "hv_worker s = Waiting" "distinct (map fst evs)" "t = s\<lparr>hv_worker := Looking evs []\<rparr>"
    and "list_all (reported s) evs"
    using mv by (auto simp: reported_def list_all_iff split: if_splits option.splits)
  then show ?thesis
    using worker_only [OF inv, of "Looking evs []"] by (simp add: at_work_def)
qed

lemma inv_look:
  assumes inv: "handover_inv s" and mv: "handover_move Look s = Some t"
  shows "handover_inv t"
proof (cases "hv_worker s")
  case (Looking evs q)
  have quiet: "\<not> at_work s n" for n by (simp add: at_work_def Looking)
  have w: "list_all (ready s) q" "list_all (reported s) evs" "distinct (map fst evs @ queue_fds q)"
    using inv by (simp_all add: handover_inv_def Looking)
  show ?thesis
  proof (cases evs)
    case Nil
    with mv Looking w show ?thesis
      using worker_only [OF inv, of "Draining q"] quiet by simp
  next
    case (Cons x evs')
    obtain fd d where x: "x = (fd, d)" by fastforce
    have rep: "reported s (fd, d)" using w(2) Cons x by simp
    then obtain m where m: "bd_watch (hv_board s) fd = Some m" "and d m = d"
      by (auto simp: reported_def)
    obtain n where n: "bd_open (hv_board s) fd = Some (Ours n)" "\<not> at_front s n" "stable n (view_in s n fd)"
      using reported_due [OF inv rep quiet] by blast
    define q' where "q' = due_in (bd_table (hv_board s)) fd d"
    have q': "q' = [] \<or> (\<exists>cb. q' = [(n, fd, cb)] \<and> ready s (n, fd, cb))"
      using due_one [OF n(3) m] n m by (auto simp: q'_def ready_def)
    have "t = s\<lparr>hv_worker := Looking evs' (q' @ q)\<rparr>"
      using mv Looking Cons x by (simp add: q'_def)
    then show ?thesis
      using worker_only [OF inv, of "Looking evs' (q' @ q)"] w q' quiet Cons x by auto
  qed
qed (use mv in simp_all)

lemma queue_fds_remove1:
  assumes "distinct (queue_fds q)" and "(n, fd, cb) \<in> set q"
  shows "distinct (fd # queue_fds (remove1 (n, fd, cb) q))"
proof -
  obtain xs ys where q: "q = xs @ (n, fd, cb) # ys" "(n, fd, cb) \<notin> set xs"
    using assms(2) by (meson split_list_first)
  with assms(1) show ?thesis
    by (auto simp: remove1_append)
qed

lemma inv_call:
  assumes inv: "handover_inv s" and mv: "handover_move (Call x waits e) s = Some t"
  shows "handover_inv t"
proof -
  obtain n fd cb where x: "x = (n, fd, cb)" by (cases x)
  let ?xs = "callback_ops cb waits e n fd"
  obtain q where q: "hv_worker s = Draining q" "x \<in> set q"
    and t: "t = s\<lparr>hv_worker := calling n fd ?xs (remove1 x q)\<rparr>"
    using mv x by (auto split: worker.splits if_splits)
  have quiet: "\<not> at_work s n" for n by (simp add: at_work_def q(1))
  have w: "list_all (ready s) q" "distinct (queue_fds q)"
    using inv q(1) by (simp_all add: handover_inv_def)
  with q(2) have "ready s (n, fd, cb)" by (auto simp: list_all_iff x)
  then obtain ev where r: "bd_open (hv_board s) fd = Some (Ours n)" "\<not> at_front s n"
      "(n, ev, cb) \<in> set (regs_at fd (hv_board s))" "bd_watch (hv_board s) fd = Some ev"
    by (auto simp: ready_def)
  have "finishes n ?xs (view_in s n fd)"
    using idle_stable [OF inv r(1,2) quiet] r(3,4) by (intro callback_finishes [where ev = ev]) simp_all
  moreover have "distinct (fd # queue_fds (remove1 x q))"
    using queue_fds_remove1 [OF w(2)] q(2) by (simp add: x)
  moreover have "list_all (ready s) (remove1 x q)"
    using w(1) by (auto simp: list_all_iff dest: set_remove1_subset [THEN subsetD])
  ultimately have "worker_inv s (calling n fd ?xs (remove1 x q))"
    using r(2) callback_ops_on by (simp add: calling_def)
  then show ?thesis
    unfolding t by (rule worker_only [OF inv _ quiet])
qed

lemma inv_work:
  assumes inv: "handover_inv s" and mv: "handover_move Work s = Some t"
  shows "handover_inv t"
proof (cases "\<exists>n fd x xs q. hv_worker s = Calling n fd (x # xs) q")
  case False
  with mv have "hv_worker s = Draining []" "t = s\<lparr>hv_worker := Waiting\<rparr>"
    by (auto split: worker.splits list.splits)
  then show ?thesis
    using worker_only [OF inv, of Waiting] by (simp add: at_work_def)
next
  case True
  then obtain n fd x xs q where wk: "hv_worker s = Calling n fd (x # xs) q" by blast
  let ?b = "hv_board s"
  have b: "board_inv (hv_next s) ?b" and f: "fronts_inv s" and d: "idle_inv s"
    and q: "list_all (ready s) q" "distinct (fd # queue_fds q)" and nf: "\<not> at_front s n"
    and on: "op_on n fd x" "list_all (op_on n fd) xs" and fin: "finishes n (x # xs) (view_in s n fd)"
    using inv by (simp_all add: handover_inv_def wk)
  obtain v where v: "view_op x (view_in s n fd) = Some v" "finishes n xs v" and own: "bd_open ?b fd = Some (Ours n)"
    using fin by (auto simp: finishes_Cons)
  then obtain b' where b': "board_op x ?b = (b', Inr ())" "view_at n fd b' = v"
    using board_op_view [OF on(1) own] by blast
  have t: "t = s\<lparr>hv_board := b', hv_worker := calling n fd xs q\<rparr>"
    using mv wk b' by simp
  note others = op_others [OF b own on(1) b'(1)]
  have after: "bd_open b' fd = Some (Ours n) \<or> regs_at fd b' = [] \<and> bd_watch b' fd = None"
    using v(2) b'(2) by (cases xs) (auto simp: finishes_Cons view_states)
  have inv_b: "board_inv (hv_next s) b'"
    using finishes_begun [OF v(2)] b'(2) by (intro board_inv_op [OF b own on(1) b'(1) after]) auto
  have front: "at_front t = at_front s"
    by (simp add: fun_eq_iff at_front_def t)
  have f': "fronts_inv t"
    unfolding fronts_inv_def
  proof (intro conjI allI impI, goal_cases)
    case (3 j n' fd' xs')
    then have a: "arriving n' xs' (view_in s n' fd')" and fr: "hv_fronts s j = Some (n', fd', xs')"
      using f by (auto simp: t fronts_inv_def)
    then have "n' \<noteq> n" using nf by (auto simp: at_front_def)
    with others(2) [OF arriving_open [OF a] this] a show ?case by (simp add: t)
  qed (use f in \<open>auto simp: t fronts_inv_def\<close>)
  have d': "idle_inv t"
    unfolding idle_inv_def
  proof (intro allI impI)
    fix fd' n'
    assume a: "bd_open (hv_board t) fd' = Some (Ours n') \<and> \<not> at_front t n' \<and> \<not> at_work t n'"
    then have o: "bd_open ?b fd' = Some (Ours n')"
      using op_back [OF b own on(1) b'(1)] by (simp add: t)
    show "stable n' (view_in t n' fd')"
    proof (cases "n' = n")
      case True
      then have "fd' = fd" "xs = []"
        using board_inv_unique [OF b o] own a by (auto simp: t at_work_def calling_def split: if_splits)
      with v(2) b'(2) True a show ?thesis by (auto simp: t view_states)
    next
      case False
      with a front o d wk have "stable n' (view_in s n' fd')" by (simp add: idle_inv_def at_work_def)
      with others(2) [OF o False] show ?thesis by (simp add: t)
    qed
  qed
  have "ready t y" if "ready s y" "y \<in> set q" for y
  proof (cases y)
    case (fields n' fd' cb)
    then have n': "bd_open ?b fd' = Some (Ours n')" and "fd' \<in> set (queue_fds q)"
      using that by (force simp: ready_def)+
    with q(2) have "n' \<noteq> n"
      using board_inv_unique [OF b own] by (metis distinct.simps(2))
    note n' = n' this
    show ?thesis
      unfolding fields
      by (rule ready_frame [OF that(1) [unfolded fields]]) (use others(3-5) [OF n'] front in \<open>simp_all add: t\<close>)
  qed
  then have "list_all (ready t) q" using q(1) by (simp add: list_all_iff)
  then have "worker_inv t (calling n fd xs q)"
    using q(2) on(2) v(2) b'(2) nf front by (simp add: calling_def) (simp add: t)
  with inv_b f' d' inv show ?thesis
    by (simp add: handover_inv_def t)
qed

interpretation handover_system: invariant_system handover_begin handover_step handover_inv
proof
  show "handover_begin s \<Longrightarrow> handover_inv s" for s
    by (rule handover_begin_inv)
next
  fix s t
  assume inv: "handover_inv s" and "handover_step s t"
  then obtain e where e: "handover_move e s = Some t" by (auto simp: handover_step_def)
  show "handover_inv t"
  proof (cases e)
    case (Accept i fd cb)
    with inv e show ?thesis by (auto intro: inv_accept)
  next
    case (Other fd)
    with inv e show ?thesis by (auto intro: inv_other)
  next
    case (Front i)
    with inv e show ?thesis by (auto intro: inv_front)
  next
    case (Report evs)
    with inv e show ?thesis by (auto intro: inv_report)
  next
    case Look
    with inv e show ?thesis by (auto intro: inv_look)
  next
    case (Call x waits en)
    with inv e show ?thesis by (auto intro: inv_call)
  next
    case Work
    with inv e show ?thesis by (auto intro: inv_work)
  qed
qed

text \<open>Moves one after the other.\<close>

fun handover_moves :: "handover_event list \<Rightarrow> handover \<Rightarrow> handover option" where
  "handover_moves [] s = Some s"
| "handover_moves (e # es) s =
     (if hv_fault s = None
      then case handover_move e s of None \<Rightarrow> None | Some t \<Rightarrow> handover_moves es t
      else None)"

lemma moves_reach:
  "reach handover_begin handover_step s \<Longrightarrow> handover_moves es s = Some t \<Longrightarrow> reach handover_begin handover_step t"
proof (induction es arbitrary: s)
  case (Cons e es)
  then obtain u where u: "hv_fault s = None" "handover_move e s = Some u" "handover_moves es u = Some t"
    by (auto split: if_splits option.splits)
  then have "handover_step s u"
    unfolding handover_step_def by blast
  with Cons.IH u(3) Cons.prems(1) show ?case by blast
qed simp

text \<open>The worker alone: a round that begins the connection that waits.\<close>

definition begin_round :: "nat \<Rightarrow> int \<Rightarrow> callback \<Rightarrow> handover_event list" where
  "begin_round n fd cb = [Report [(fd, fd_writable)], Look, Look, Call (n, fd, cb) 0 Stays] @ replicate 5 Work"

lemma waiting_begins:
  assumes fault: "hv_fault s = None" and w: "hv_worker s = Waiting"
    and v: "regs_at fd (hv_board s) = [(n, fd_writable, cb)]" "cb \<in> {On_acpt_writable, On_cont_writable}"
      "bd_watch (hv_board s) fd = Some fd_writable"
  shows "\<exists>t. handover_moves (begin_round n fd cb) s = Some t \<and> bd_begun (hv_board t) = n # bd_begun (hv_board s)"
proof -
  have bit: "and fd_writable fd_writable \<noteq> 0"
    by (simp add: fd_writable_def)
  have due: "due_in (bd_table (hv_board s)) fd fd_writable = [(n, fd, cb)]"
    using v(1) bit by (simp add: due_in_regs)
  have "callback_ops cb 0 Stays n fd = init_ops n fd"
    using v(2) by auto
  then show ?thesis
    using fault w v(3) due
    by (simp add: begin_round_def numeral_eq_Suc section_lists calling_def)
qed

section \<open>Properties\<close>

text \<open>The sections implement the operations: run one after the other, in the order of the code, they
  do to the table, to what epoll watches and to the objects' loop pointers what \<open>fd_register\<close> and
  \<open>fd_remove\<close> do, and fail with the same error.\<close>

theorem sections_refine:
  assumes "ep_kernel ep (el_fd (w_loop w)) interest" and "masks_ok ep" and "ev \<in> {fd_readable, fd_writable}"
    and "\<forall>(fd, p, n, a', ev) \<in> set (el_fds (w_loop w)). a' \<noteq> a"
  shows "(case fd_register ep a n ev handler activate prio w of (w', r) \<Rightarrow>
      board_ops (register_ops n (fd_of w n) ev handler activate) (board_of ep interest own begun w)
        = (board_of ep interest own begun w', r)) \<and>
    (case fd_remove ep n clean deactivate w of (w', r) \<Rightarrow>
      board_ops (remove_ops (fd_of w n) clean deactivate) (board_of ep interest own begun w)
        = (board_of ep interest own begun w', r))"
  using register_sections [OF assms] remove_sections [OF assms(1)] by (simp split: prod.split)

theorem sections_refine_witness:
  "board_ops (register_ops 1 7 fd_readable (Some On_readable) True)
     (board_of sock_ep (ss_interest 100) (\<lambda>_. None) [] (enter 0 (sample_reactor\<lparr>rt_k := sample_sock_state\<rparr>)))
   = (board_of sock_ep (ss_interest 100) (\<lambda>_. None) []
        (fst (fd_register sock_ep 11 1 fd_readable (Some On_readable) True p0 (enter 0 (sample_reactor\<lparr>rt_k := sample_sock_state\<rparr>)))), Inr ())"
proof -
  let ?w = "enter 0 (sample_reactor\<lparr>rt_k := sample_sock_state\<rparr>)"
  have w: "ep_kernel sock_ep (el_fd (w_loop ?w)) (ss_interest 100)" "masks_ok sock_ep" "fd_readable \<in> {fd_readable, fd_writable}"
      "\<forall>(fd, p, n, a', ev) \<in> set (el_fds (w_loop ?w)). a' \<noteq> 11" "fd_of ?w 1 = 7"
    using sock_ep_kernel by (simp_all add: enter_def sample_reactor_def sample_obj_def masks_ok_def sock_ep_def)
  have "snd (fd_register sock_ep 11 1 fd_readable (Some On_readable) True p0 ?w) = Inr ()"
    by (simp add: fd_register_def enter_def sample_reactor_def sample_sock_state_def sock_ep_def Let_def)
  then show ?thesis
    using conjunct1 [OF sections_refine [OF w(1-4), where n = 1 and handler = "Some On_readable" and activate = True
        and prio = p0 and own = "\<lambda>_. None" and begun = "[]" and clean = True and deactivate = True]] w(5)
    by (auto split: prod.splits)
qed

text \<open>C7. Threads that register connections with a loop do not disturb the worker that runs it,
  whatever the interleaving and however descriptors are reused: no \<open>epoll_ctl\<close> fails; every event the
  loop knows finds exactly one callback, which belongs to the connection that has the descriptor and
  whose loop pointer is set; and no queued callback belongs to a descriptor that was closed.\<close>

theorem handover_safe:
  assumes "reach handover_begin handover_step s"
  shows "hv_fault s = None \<and>
     (\<forall>fd d evs q. hv_worker s = Looking ((fd, d) # evs) q \<and> d \<noteq> 0 \<longrightarrow>
        (\<exists>n cb. due_in (bd_table (hv_board s)) fd d = [(n, fd, cb)] \<and> bd_open (hv_board s) fd = Some (Ours n) \<and>
           n \<in> bd_links (hv_board s))) \<and>
     (\<forall>q n fd cb. hv_worker s = Draining q \<and> (n, fd, cb) \<in> set q \<longrightarrow>
        bd_open (hv_board s) fd = Some (Ours n) \<and> n \<in> bd_links (hv_board s))"
proof (intro conjI allI impI; (elim conjE)?)
  have inv: "handover_inv s"
    using assms by (rule handover_system.reach_inv)
  then show "hv_fault s = None" by (simp add: handover_inv_def)
  show "\<exists>n cb. due_in (bd_table (hv_board s)) fd d = [(n, fd, cb)] \<and> bd_open (hv_board s) fd = Some (Ours n) \<and>
      n \<in> bd_links (hv_board s)" if w: "hv_worker s = Looking ((fd, d) # evs) q" and "d \<noteq> 0" for fd d evs q
  proof -
    have quiet: "\<not> at_work s n" for n by (simp add: at_work_def w)
    have rep: "reported s (fd, d)" using inv w by (simp add: handover_inv_def)
    then obtain m where m: "bd_watch (hv_board s) fd = Some m" "and d m = d" by (auto simp: reported_def)
    obtain n where "bd_open (hv_board s) fd = Some (Ours n)" "stable n (view_in s n fd)"
      using reported_due [OF inv rep quiet] by blast
    with due_one [OF _ m] \<open>d \<noteq> 0\<close> show ?thesis by (fastforce simp: stable_def)
  qed
  fix q n fd cb
  assume w: "hv_worker s = Draining q" and x: "(n, fd, cb) \<in> set q"
  then have "ready s (n, fd, cb)" using inv by (auto simp: handover_inv_def list_all_iff)
  then have "bd_open (hv_board s) fd = Some (Ours n)" "\<not> at_front s n" by (auto simp: ready_def)
  moreover then have "stable n (view_in s n fd)"
    using idle_stable [OF inv] by (simp add: at_work_def w)
  ultimately show "bd_open (hv_board s) fd = Some (Ours n)" "n \<in> bd_links (hv_board s)"
    by (simp_all add: stable_def)
qed

definition idle_handover :: handover where
  "idle_handover = \<lparr>hv_board = \<lparr>bd_links = {}, bd_table = [], bd_watch = (\<lambda>_. None), bd_open = (\<lambda>_. None), bd_begun = []\<rparr>,
     hv_next = 0, hv_fronts = (\<lambda>_. None), hv_worker = Waiting, hv_fault = None\<rparr>"

lemma idle_handover_begins: "reach handover_begin handover_step idle_handover"
  by (rule reach_init) (simp add: handover_begin_def idle_handover_def)

theorem handover_safe_witness:
  "\<exists>s. reach handover_begin handover_step s \<and> hv_worker s = Looking [(7, fd_writable)] [] \<and>
     due_in (bd_table (hv_board s)) 7 fd_writable = [(0, 7, On_acpt_writable)] \<and> hv_fault s = None"
proof -
  let ?es = "[Accept 5 7 On_acpt_writable, Front 5, Front 5, Front 5, Report [(7, fd_writable)]]"
  define s where "s = the (handover_moves ?es idle_handover)"
  have s: "handover_moves ?es idle_handover = Some s" "hv_worker s = Looking [(7, fd_writable)] []"
      "due_in (bd_table (hv_board s)) 7 fd_writable = [(0, 7, On_acpt_writable)]"
    unfolding s_def by (simp_all add: idle_handover_def register_ops_def due_in_def fd_writable_def)
  have "reach handover_begin handover_step s"
    by (rule moves_reach [OF idle_handover_begins s(1)])
  with handover_safe [OF this] s(2,3) show ?thesis by blast
qed

text \<open>C10. Every connection is handed over exactly once. Its first handler is called at most once; as long
  as no thread works on it, either its first callback is registered and epoll watches for it, and
  then nine moves of the worker alone call it, or the handler was called and both io callbacks are
  registered.\<close>

theorem handed_over_once:
  assumes "reach handover_begin handover_step s"
  shows "(\<forall>n. count_list (bd_begun (hv_board s)) n \<le> 1) \<and>
     (\<forall>fd n. bd_open (hv_board s) fd = Some (Ours n) \<and> \<not> at_front s n \<and> \<not> at_work s n \<longrightarrow>
        (\<exists>cb. regs_at fd (hv_board s) = [(n, fd_writable, cb)] \<and> bd_watch (hv_board s) fd = Some fd_writable \<and>
           n \<notin> set (bd_begun (hv_board s)) \<and>
           (hv_worker s = Waiting \<longrightarrow> (\<exists>t. handover_moves (begin_round n fd cb) s = Some t \<and>
              bd_begun (hv_board t) = n # bd_begun (hv_board s)))) \<or>
        regs_at fd (hv_board s) = [(n, fd_readable, On_readable), (n, fd_writable, On_writable)] \<and>
           n \<in> set (bd_begun (hv_board s)))"
proof (intro conjI allI impI; (elim conjE)?)
  have inv: "handover_inv s"
    using assms by (rule handover_system.reach_inv)
  then show "count_list (bd_begun (hv_board s)) n \<le> 1" for n
    by (simp add: handover_inv_def board_inv_def)
  fix fd n
  assume "bd_open (hv_board s) fd = Some (Ours n)" "\<not> at_front s n" "\<not> at_work s n"
  then consider "waiting n (view_in s n fd)" | "established n (view_in s n fd)"
    using idle_stable [OF inv] by (auto simp: stable_def)
  then show "(\<exists>cb. regs_at fd (hv_board s) = [(n, fd_writable, cb)] \<and> bd_watch (hv_board s) fd = Some fd_writable \<and>
           n \<notin> set (bd_begun (hv_board s)) \<and>
           (hv_worker s = Waiting \<longrightarrow> (\<exists>t. handover_moves (begin_round n fd cb) s = Some t \<and>
              bd_begun (hv_board t) = n # bd_begun (hv_board s)))) \<or>
        regs_at fd (hv_board s) = [(n, fd_readable, On_readable), (n, fd_writable, On_writable)] \<and>
           n \<in> set (bd_begun (hv_board s))"
  proof cases
    case 1
    then obtain cb where cb: "cb \<in> {On_acpt_writable, On_cont_writable}" "regs_at fd (hv_board s) = [(n, fd_writable, cb)]"
        "bd_watch (hv_board s) fd = Some fd_writable" "n \<notin> set (bd_begun (hv_board s))"
      by (auto simp: waiting_def count_list_0_iff)
    moreover have "hv_fault s = None" using inv by (simp add: handover_inv_def)
    ultimately show ?thesis using waiting_begins [of s fd n cb] by blast
  next
    case 2
    then have "n \<in> set (bd_begun (hv_board s))"
      using count_notin [of n "bd_begun (hv_board s)"] by (fastforce simp: established_def)
    with 2 show ?thesis by (simp add: established_def)
  qed
qed

theorem handed_over_once_witness:
  "\<exists>s t. reach handover_begin handover_step s \<and> hv_worker s = Waiting \<and> bd_begun (hv_board s) = [] \<and>
     handover_moves (begin_round 0 7 On_acpt_writable) s = Some t \<and> bd_begun (hv_board t) = [0]"
proof -
  let ?es = "[Accept 5 7 On_acpt_writable, Front 5, Front 5, Front 5]"
  define s where "s = the (handover_moves ?es idle_handover)"
  have s: "handover_moves ?es idle_handover = Some s" "hv_worker s = Waiting" "bd_begun (hv_board s) = []"
      "bd_open (hv_board s) 7 = Some (Ours 0)" "regs_at 7 (hv_board s) = [(0, fd_writable, On_acpt_writable)]"
      "hv_fronts s = (\<lambda>_. None)"
    unfolding s_def by (simp_all add: idle_handover_def register_ops_def regs_at_def fun_eq_iff)
  have r: "reach handover_begin handover_step s"
    by (rule moves_reach [OF idle_handover_begins s(1)])
  from handed_over_once [OF r] s r show ?thesis
    by (fastforce simp: at_front_def at_work_def)
qed

end
