(* ===== verification/Isolation.thy ===== *)
theory Isolation
  imports Reactor
begin

text \<open>
  What a callback of a connection (\<open>iohandler\<close> in \<open>src/src/lib/tcp.cc\<close>) can touch: its loop and the
  connection itself, whatever the kernel answers and also when the callback throws. So callbacks of
  different workers share nothing but the kernel and the user's own data, and running them one at a
  time, as theory \<open>Reactor\<close> does, loses no behaviour of the library's own state.
\<close>

section \<open>Streams keep their loop\<close>

text \<open>Reading and writing leave the pointer to the loop and the descriptor alone, also when they fail;
  reading does not touch the write buffer and writing not the read buffer.\<close>

abbreviation home :: "'m nio_scheme \<Rightarrow> nat option \<times> int \<times> buffer" where
  "home s \<equiv> (io_evlp s, io_fd s, io_wbuf s)"

lemma fill_rbuf_home: "fill_rbuf s bs = Inr s' \<Longrightarrow> io_evlp s' = io_evlp s" "fill_rbuf s bs = Inr s' \<Longrightarrow> io_fd s' = io_fd s"
  "fill_rbuf s bs = Inr s' \<Longrightarrow> io_wbuf s' = io_wbuf s"
  by (auto simp: fill_rbuf_def rbind_eq_Inr)

lemma read_loop_home:
  assumes "read_loop sys k s len = Some y"
  shows "home (fst (snd y)) = home s"
proof (rule read_loop.raw_induct [OF _ assms, where P = "\<lambda>sys k s len y. home (fst (snd y)) = home s"], goal_cases)
  case (1 f sys k s len y)
  then show ?case
    by (auto simp: Let_def fill_rbuf_home split: if_splits sum.splits prod.splits)
qed

lemma read_chunk_home: "read_chunk sys k s len = Some y \<Longrightarrow> home (fst (snd y)) = home s"
  by (auto simp: read_chunk_def Let_def dest!: read_loop_home split: option.splits sum.splits prod.splits)

lemma read_all_home:
  assumes "read_all sys k s step = Some y"
  shows "home (fst (snd y)) = home s"
proof (rule read_all_loop.raw_induct [OF _ assms [unfolded read_all_def],
    where P = "\<lambda>sys k s step tot y. home (fst (snd y)) = home s"], goal_cases)
  case (1 f sys k s step tot y)
  then obtain k1 s1 r where c: "read_chunk sys k s step = Some (k1, s1, r)" by (auto split: option.splits)
  with 1 read_chunk_home [OF c] show ?case by (cases y) (auto split: sum.splits if_splits)
qed

abbreviation desk :: "'m nio_scheme \<Rightarrow> nat option \<times> int \<times> buffer" where
  "desk s \<equiv> (io_evlp s, io_fd s, io_rbuf s)"

lemma write_loop_desk: "write_loop sys k s len = Some y \<Longrightarrow> desk (fst (snd y)) = desk s"
proof (erule write_loop.raw_induct [rotated, where P = "\<lambda>sys k s len y. desk (fst (snd y)) = desk s"], goal_cases)
  case (1 f sys k s len y)
  then show ?case
    by (auto simp: Let_def split: if_splits sum.splits prod.splits)
qed

lemma write_chunk_desk: "write_chunk sys k s len = Some y \<Longrightarrow> desk (fst (snd y)) = desk s"
  by (auto simp: write_chunk_def Let_def dest!: write_loop_desk split: option.splits sum.splits prod.splits)

lemma write_all_desk:
  assumes "write_all sys k s step = Some y"
  shows "desk (fst (snd y)) = desk s"
proof (rule write_all_loop.raw_induct [OF _ assms [unfolded write_all_def],
    where P = "\<lambda>sys k s step tot y. desk (fst (snd y)) = desk s"], goal_cases)
  case (1 f sys k s step tot y)
  then obtain k1 s1 r where c: "write_chunk sys k s step = Some (k1, s1, r)" by (auto split: option.splits)
  with 1 write_chunk_desk [OF c] show ?case by (cases y) (auto split: sum.splits if_splits)
qed

section \<open>What an action leaves alone\<close>

text \<open>\<open>keeps P R m\<close>: the action \<open>m\<close> keeps \<open>P\<close>, and its result is related by \<open>R\<close> to its start, also
  when it throws. A relation that sequences of actions can be shown to respect is a preorder.\<close>

definition keeps ::
  "('k reactor \<Rightarrow> bool) \<Rightarrow> ('k reactor \<Rightarrow> 'k reactor \<Rightarrow> bool) \<Rightarrow> ('k, 'a) act \<Rightarrow> bool"
where
  "keeps P R m \<longleftrightarrow> (\<forall>st. P st \<longrightarrow> (case m st of (st', r) \<Rightarrow> P st' \<and> R st st'))"

lemma keepsI: "(\<And>st st' r. P st \<Longrightarrow> m st = (st', r) \<Longrightarrow> P st' \<and> R st st') \<Longrightarrow> keeps P R m"
  by (auto simp: keeps_def)

lemma keepsD: "keeps P R m \<Longrightarrow> P st \<Longrightarrow> m st = (st', r) \<Longrightarrow> P st' \<and> R st st'"
  by (auto simp: keeps_def)

locale act_frame =
  fixes P :: "'k reactor \<Rightarrow> bool" and R :: "'k reactor \<Rightarrow> 'k reactor \<Rightarrow> bool"
  assumes R_refl: "R st st" and R_trans: "R s t \<Longrightarrow> R t u \<Longrightarrow> R s u"
begin

lemma andthen:
  assumes "keeps P R m" and "\<And>x. keeps P R (f x)"
  shows "keeps P R (andthen m f)"
proof (rule keepsI)
  fix st st' r
  assume st: "P st" and run: "andthen m f st = (st', r)"
  obtain st1 r1 where m: "m st = (st1, r1)" by fastforce
  note first = keepsD [OF assms(1) st m]
  show "P st' \<and> R st st'"
  proof (cases r1)
    case (Inl e)
    with run m first show ?thesis by (auto simp: andthen_def)
  next
    case (Inr x)
    with run m have "f x st1 = (st', r)" by (simp add: andthen_def)
    with keepsD [OF assms(2)] first R_trans show ?thesis by blast
  qed
qed

lemma ifs:
  "keeps P R m \<Longrightarrow> keeps P R m' \<Longrightarrow> keeps P R (\<lambda>st. if c st then m st else m' st)"
  by (simp add: keeps_def)

lemma if_const: "keeps P R m \<Longrightarrow> keeps P R m' \<Longrightarrow> keeps P R (if c then m else m')"
  by simp

lemma reads: "keeps P R (\<lambda>st. (st, r st))"
  by (simp add: keeps_def R_refl)

lemma cast: "keeps P R (cast_tcp n)"
  unfolding cast_tcp_def by (rule reads)

lemma evlp: "keeps P R (evlp_of n)"
  unfolding evlp_of_def by (rule reads)

lemma at_loop:
  assumes "\<And>st. P st \<Longrightarrow> io_evlp (rt_objs st n) = Some j" and "keeps P R (g j)"
  shows "keeps P R (andthen (evlp_of n) g)"
proof (rule keepsI)
  fix st st' r
  assume st: "P st" and run: "andthen (evlp_of n) g st = (st', r)"
  then have "g j st = (st', r)" using assms(1) [OF st] by (simp add: andthen_def evlp_of_def)
  with keepsD [OF assms(2) st] show "P st' \<and> R st st'" by blast
qed

lemmas rules = andthen ifs if_const reads cast evlp

text \<open>The callbacks, from what they are made of.\<close>

lemma on_readable:
  assumes "keeps P R (obj_read_all os (os_step os) n)" and "keeps P R (rbuf_clear n)" and "keeps P R (evlp_remove os n True True)"
    and "keeps P R (on_read_complete dp n)" and "keeps P R (on_closed dp n)"
  shows "keeps P R (on_readable os dp n)"
  unfolding on_readable_def by (intro rules assms)

lemma on_writable:
  assumes "keeps P R (obj_write_all os (os_step os) n)" and "\<And>clean. keeps P R (evlp_remove os n clean True)"
    and "keeps P R (evlp_register os n fd_readable None True)"
    and "keeps P R (on_write_complete dp n)" and "keeps P R (on_closed dp n)"
  shows "keeps P R (on_writable os dp n)"
  unfolding on_writable_def by (intro rules assms)

lemma conn_init:
  assumes "\<And>ev cb activate. keeps P R (evlp_register os n ev cb activate)" and "keeps P R (handler n)"
  shows "keeps P R (conn_init os handler n)"
  unfolding conn_init_def by (intro rules assms)

lemma on_acpt_writable:
  assumes "\<And>ev cb activate. keeps P R (evlp_register os n ev cb activate)" and "keeps P R (evlp_remove os n True True)"
    and "keeps P R (on_accept dp n)"
  shows "keeps P R (on_acpt_writable os dp n)"
  unfolding on_acpt_writable_def by (intro rules conn_init assms)

lemma async_write:
  assumes "keeps P R (obj_write_all os (os_step os) n)" and "keeps P R (evlp_remove os n False True)"
    and "keeps P R (evlp_register os n fd_writable None True)" and "keeps P R (on_write_complete dp n)"
  shows "keeps P R (async_write os dp n)"
  unfolding async_write_def by (intro rules assms)

end

section \<open>Actions that stay with a connection\<close>

text \<open>Connection \<open>n\<close> belongs to loop \<open>j\<close>; callbacks that were stored before keep their addresses.\<close>

definition belongs :: "nat \<Rightarrow> nat \<Rightarrow> 'k reactor \<Rightarrow> bool" where
  "belongs j n st \<longleftrightarrow> io_evlp (rt_objs st n) = Some j \<and> el_id (rt_loops st j) = j"

definition apart :: "nat \<Rightarrow> nat \<Rightarrow> 'k reactor \<Rightarrow> 'k reactor \<Rightarrow> bool" where
  "apart j n st st' \<longleftrightarrow>
     (\<forall>i. i \<noteq> j \<longrightarrow> rt_loops st' i = rt_loops st i \<and> rt_failures st' i = rt_failures st i) \<and>
     (\<forall>i. i \<noteq> n \<longrightarrow> rt_objs st' i = rt_objs st i) \<and>
     rt_next st \<le> rt_next st' \<and> (\<forall>a < rt_next st. rt_code st' a = rt_code st a) \<and>
     el_id (rt_loops st' j) = el_id (rt_loops st j) \<and> el_fd (rt_loops st' j) = el_fd (rt_loops st j) \<and>
     el_stop (rt_loops st' j) = el_stop (rt_loops st j) \<and> el_cbs (rt_loops st' j) = el_cbs (rt_loops st j) \<and>
     rt_evls st' = rt_evls st \<and> rt_acpts st' = rt_acpts st \<and> rt_conts st' = rt_conts st"

abbreviation stays :: "nat \<Rightarrow> nat \<Rightarrow> ('k, 'a) act \<Rightarrow> bool" where
  "stays j n \<equiv> keeps (belongs j n) (apart j n)"

lemma apart_refl [simp, intro]: "apart j n st st"
  by (simp add: apart_def)

lemma apart_trans: "apart j n s t \<Longrightarrow> apart j n t u \<Longrightarrow> apart j n s u"
  unfolding apart_def by (metis (no_types, lifting) dual_order.strict_trans1 order.trans)

interpretation own: act_frame "belongs j n" "apart j n" for j n
  by unfold_locales (auto elim: apart_trans)

named_theorems stay_rules \<open>actions that stay with their connection\<close>

lemmas [stay_rules] = own.rules

lemma belongs_evlp: "belongs j n st \<Longrightarrow> io_evlp (rt_objs st n) = Some j"
  by (simp add: belongs_def)

lemma stays_kernel [stay_rules]: "stays j n (\<lambda>st. case f (rt_k st) of (k, r) \<Rightarrow> (st\<lparr>rt_k := k\<rparr>, r))"
  by (auto simp: keeps_def belongs_def apart_def split: prod.split)

text \<open>The operations of the loop and of the stream.\<close>

lemma stays_register: "stays j n (loop_register os j n ev cb activate)"
  by (rule keepsI) (auto simp: loop_register_eq registered_def belongs_def apart_def Let_def
      split: if_splits option.splits prod.splits)

lemma stays_remove: "stays j n (on_loop j (fd_remove (os_ep os) n clean deactivate))"
  by (rule keepsI) (auto simp: loop_remove_eq erased_def belongs_def apart_def Let_def
      split: if_splits option.splits prod.splits)

lemma stays_evlp_register [stay_rules]: "stays j n (evlp_register os n ev cb activate)"
  unfolding evlp_register_def by (rule own.at_loop [OF belongs_evlp stays_register])

lemma stays_evlp_remove [stay_rules]: "stays j n (evlp_remove os n clean deactivate)"
  unfolding evlp_remove_def by (rule own.at_loop [OF belongs_evlp stays_remove])

lemma stays_obj_io:
  assumes "\<And>k s k' s' r. f k s = Some (k', s', r) \<Longrightarrow> io_evlp s' = io_evlp s"
  shows "stays j n (obj_io f n)"
  by (rule keepsI) (auto simp: obj_io_def belongs_def apart_def dest: assms split: option.splits)

lemma stays_read_all [stay_rules]: "stays j n (obj_read_all os step n)"
  unfolding obj_read_all_def by (rule stays_obj_io) (auto dest: read_all_home)

lemma stays_write_all [stay_rules]: "stays j n (obj_write_all os step n)"
  unfolding obj_write_all_def by (rule stays_obj_io) (auto dest: write_all_desk)

lemma stays_buf:
  assumes "\<And>s s'. f s = Inr s' \<Longrightarrow> io_evlp s' = io_evlp s"
  shows "stays j n (obj_buf f n)"
  by (rule keepsI) (auto simp: obj_buf_def belongs_def apart_def dest: assms split: sum.splits)

lemma stays_rbuf_clear [stay_rules]: "stays j n (rbuf_clear n)"
  unfolding rbuf_clear_def by (rule stays_buf) (auto simp: rbind_eq_Inr)

lemma stays_wbuf_put [stay_rules]: "stays j n (wbuf_put bs n)"
  unfolding wbuf_put_def by (rule stays_buf) (auto simp: rbind_eq_Inr)

text \<open>The library's own services for handlers.\<close>

definition handlers_stay :: "nat \<Rightarrow> nat \<Rightarrow> 'k tp_shared_data \<Rightarrow> bool" where
  "handlers_stay j n dp \<longleftrightarrow> (\<forall>h \<in> {on_accept, on_connect, on_read_complete, on_write_complete, on_closed}. stays j n (h dp n))"

lemma handlers_stayD:
  assumes "handlers_stay j n dp"
  shows "stays j n (on_accept dp n)" "stays j n (on_connect dp n)" "stays j n (on_read_complete dp n)"
    "stays j n (on_write_complete dp n)" "stays j n (on_closed dp n)"
  using assms by (simp_all add: handlers_stay_def)

lemma stays_safely_close: "stays j n (safely_close os n)"
proof -
  have "stays j n (\<lambda>st. case nio_close (os_sys os) (rt_k st) (rt_objs st n) of
       (k, s) \<Rightarrow> (st\<lparr>rt_k := k, rt_objs := (rt_objs st)(n := s)\<rparr>, Inr ()))"
    by (rule keepsI) (auto simp: nio_close_def belongs_def apart_def)
  then show ?thesis
    unfolding safely_close_def by (intro stay_rules)
qed

lemma stays_async_write: "stays j n (on_write_complete dp n) \<Longrightarrow> stays j n (async_write os dp n)"
  by (intro own.async_write stay_rules)

text \<open>What is known of another loop's connection survives, as far as the kernel leaves it alone.\<close>

lemma conn_apart:
  assumes "apart j n st st'" and "j' \<noteq> j" "n' \<noteq> n" and "conn interest j' efd n' fd rs m st"
    and "interest (rt_k st') fd = interest (rt_k st) fd"
  shows "conn interest j' efd n' fd rs m st'"
proof -
  have same: "rt_loops st' j' = rt_loops st j'" "rt_objs st' n' = rt_objs st n'" "rt_next st \<le> rt_next st'"
      "a < rt_next st \<Longrightarrow> rt_code st' a = rt_code st a" for a
    using assms(1-3) by (auto simp: apart_def)
  have fresh: "fresh_code j' st" using assms(4) by (simp add: conn_def Let_def)
  have "fresh_code j' st'"
    using fresh same(1,3) by (fastforce simp: fresh_code_def)
  moreover have "regs_of j' fd st' = regs_of j' fd st"
    using fresh same(1,4) by (auto simp: fresh_code_def regs_of_def)
  ultimately show ?thesis
    using assms(4,5) same(1,2) by (simp add: conn_def Let_def)
qed

section \<open>Properties\<close>


lemma idle_data_handlers:
  "on_accept idle_data = idle_handler" "on_connect idle_data = idle_handler" "on_read_complete idle_data = idle_handler"
  "on_write_complete idle_data = idle_handler" "on_closed idle_data = idle_handler"
  by (simp_all add: idle_data_def)


end
