(* ===== verification/Runtime.thy ===== *)
theory Runtime
  imports Buffer
begin

text \<open>
  The small services around the C library: exceptions, the current time and its formatting
  (\<open>src/src/lib/utils.cc\<close>), libraries loaded at run time (\<open>src/src/include/cppev/dynamic_loader.h\<close>) and
  the constants of \<open>src/src/lib/sysconfig.cc\<close>. The C library is a parameter.
\<close>

section \<open>Configuration\<close>

definition udp_buffer_size :: int where "udp_buffer_size = 2048"

definition event_number :: int where "event_number = 2048"

definition buffer_outdate :: int where "buffer_outdate = 30"

definition buffer_io_step :: int where "buffer_io_step = 1024"

section \<open>Exceptions\<close>

text \<open>An error number 0 stands for the thread's \<open>errno\<close>; the message of the exception is the first
  argument with the number appended.\<close>

definition throw_system_error :: "string \<Rightarrow> errno option \<Rightarrow> errno \<Rightarrow> 'a res" where
  "throw_system_error str err current =
     Inl (System_error str (case err of None \<Rightarrow> current | Some e \<Rightarrow> e))"

definition throw_logic_error :: "string \<Rightarrow> 'a res" where
  "throw_logic_error str = Inl (Logic_error str)"

definition throw_runtime_error :: "string \<Rightarrow> 'a res" where
  "throw_runtime_error str = Inl (Runtime_error str)"

section \<open>Time\<close>

text \<open>
  \<open>lc_text\<close> is what a format makes of a broken-down time, whatever its length; \<open>strftime\<close> stores it
  with a NUL when there is room.
\<close>

record ('k, 'tm) libc =
  lc_errno :: "'k \<Rightarrow> errno"
  lc_time :: "'k \<Rightarrow> int \<times> 'k"
  lc_localtime :: "'k \<Rightarrow> int \<Rightarrow> 'tm"
  lc_text :: "string \<Rightarrow> 'tm \<Rightarrow> string"

definition time_now :: "('k, 'tm) libc \<Rightarrow> 'k \<Rightarrow> 'k \<times> int res" where
  "time_now lc k =
     (case lc_time lc k of (t, k) \<Rightarrow>
      if t = -1 then (k, throw_system_error ''time error'' None (lc_errno lc k)) else (k, Inr t))"

text \<open>The result is the number of bytes and the array, which was filled with NULs before.\<close>

definition strftime :: "('k, 'tm) libc \<Rightarrow> nat \<Rightarrow> string \<Rightarrow> 'tm \<Rightarrow> nat \<times> string" where
  "strftime lc room fmt tm =
     (let text = lc_text lc fmt tm in
      if length text < room then (length text, text @ replicate (room - length text) NUL)
      else (0, replicate room NUL))"

definition timestamp_format :: "'tm \<Rightarrow> ('k, 'tm) libc \<Rightarrow> string option \<Rightarrow> 'k \<Rightarrow> string res" where
  "timestamp_format tm lc fmt k =
     (case strftime lc 1024 (case fmt of None \<Rightarrow> ''%F %T %Z'' | Some f \<Rightarrow> f) tm of (n, buf) \<Rightarrow>
      if n = 0 then throw_system_error ''strftime error'' None (lc_errno lc k)
      else Inr (takeWhile (\<lambda>c. c \<noteq> NUL) buf))"

definition timestamp :: "('k, 'tm) libc \<Rightarrow> int \<Rightarrow> string option \<Rightarrow> 'k \<Rightarrow> 'k \<times> string res" where
  "timestamp lc t fmt k =
     (case (if t < 0 then time_now lc k else (k, Inr t)) of
        (k, Inl e) \<Rightarrow> (k, Inl e)
      | (k, Inr t) \<Rightarrow> (k, timestamp_format (lc_localtime lc k t) lc fmt k))"

section \<open>Loaded libraries\<close>

text \<open>\<open>dl_error\<close> is the text of the last error, if there is one; \<open>std::string::append\<close> of a null pointer
  is undefined.\<close>

record ('k, 'h, 'a) dl_api =
  dl_open :: "'k \<Rightarrow> string \<Rightarrow> 'h option \<times> 'k"
  dl_sym :: "'k \<Rightarrow> 'h \<Rightarrow> string \<Rightarrow> 'a option \<times> 'k"
  dl_close :: "'k \<Rightarrow> 'h \<Rightarrow> 'k"
  dl_error :: "'k \<Rightarrow> string option"

definition dl_throw :: "('k, 'h, 'a) dl_api \<Rightarrow> string \<Rightarrow> 'k \<Rightarrow> 'b res" where
  "dl_throw dl what k =
     (case dl_error dl k of None \<Rightarrow> Inl (Undefined Null_deref) | Some text \<Rightarrow> throw_runtime_error (what @ text))"

definition loader_new :: "('k, 'h, 'a) dl_api \<Rightarrow> string \<Rightarrow> 'k \<Rightarrow> 'k \<times> 'h res" where
  "loader_new dl filename k =
     (case dl_open dl k filename of
        (None, k) \<Rightarrow> (k, dl_throw dl ''dlopen error : '' k)
      | (Some h, k) \<Rightarrow> (k, Inr h))"

definition loader_destroy :: "('k, 'h, 'a) dl_api \<Rightarrow> 'h \<Rightarrow> 'k \<Rightarrow> 'k" where
  "loader_destroy dl h k = dl_close dl k h"

definition loader_load :: "('k, 'h, 'a) dl_api \<Rightarrow> 'h \<Rightarrow> string \<Rightarrow> 'k \<Rightarrow> 'k \<times> 'a res" where
  "loader_load dl h func k =
     (case dl_sym dl k h func of
        (None, k) \<Rightarrow> (k, dl_throw dl ''dlsym error : '' k)
      | (Some a, k) \<Rightarrow> (k, Inr a))"

text \<open>A block that has a loader as a local variable and loads functions with it; an exception leaves the
  block through the destructor.\<close>

fun load_all :: "('k, 'h, 'a) dl_api \<Rightarrow> 'h \<Rightarrow> string list \<Rightarrow> 'k \<Rightarrow> 'k \<times> 'a list res" where
  "load_all dl h [] k = (k, Inr [])"
| "load_all dl h (f # fs) k =
     (case loader_load dl h f k of
        (k, Inl e) \<Rightarrow> (k, Inl e)
      | (k, Inr a) \<Rightarrow> (case load_all dl h fs k of (k, r) \<Rightarrow> (k, rbind r (\<lambda>as. Inr (a # as)))))"

definition loader_block :: "('k, 'h, 'a) dl_api \<Rightarrow> string \<Rightarrow> string list \<Rightarrow> 'k \<Rightarrow> 'k \<times> 'a list res" where
  "loader_block dl filename fs k =
     (case loader_new dl filename k of
        (k, Inl e) \<Rightarrow> (k, Inl e)
      | (k, Inr h) \<Rightarrow> (case load_all dl h fs k of (k, r) \<Rightarrow> (loader_destroy dl h k, r)))"

text \<open>The system counts how often a library is open; looking up a symbol leaves the counts alone and
  finds what the library defines.\<close>

definition dl_kernel :: "('k, 'h, 'a) dl_api \<Rightarrow> ('k \<Rightarrow> 'h \<Rightarrow> nat) \<Rightarrow> ('h \<Rightarrow> string \<Rightarrow> 'a option) \<Rightarrow> bool" where
  "dl_kernel dl refs syms \<longleftrightarrow>
     (\<forall>k f. case dl_open dl k f of
        (None, k') \<Rightarrow> refs k' = refs k \<and> dl_error dl k' \<noteq> None
      | (Some h, k') \<Rightarrow> refs k' = (refs k)(h := Suc (refs k h))) \<and>
     (\<forall>k h f. case dl_sym dl k h f of (r, k') \<Rightarrow>
        refs k' = refs k \<and> (refs k h > 0 \<longrightarrow> r = syms h f) \<and> (r = None \<longrightarrow> dl_error dl k' \<noteq> None)) \<and>
     (\<forall>k h. refs (dl_close dl k h) = (refs k)(h := refs k h - 1))"

lemma dl_kernelD:
  assumes "dl_kernel dl refs syms"
  shows "dl_open dl k f = (None, k') \<Longrightarrow> refs k' = refs k \<and> dl_error dl k' \<noteq> None"
    and "dl_open dl k f = (Some h, k') \<Longrightarrow> refs k' = (refs k)(h := Suc (refs k h))"
    and "dl_sym dl k h f = (r, k') \<Longrightarrow> refs k' = refs k \<and> (refs k h > 0 \<longrightarrow> r = syms h f) \<and> (r = None \<longrightarrow> dl_error dl k' \<noteq> None)"
    and "refs (dl_close dl k h) = (refs k)(h := refs k h - 1)"
proof -
  have "case dl_open dl k f of
        (None, k') \<Rightarrow> refs k' = refs k \<and> dl_error dl k' \<noteq> None
      | (Some h, k') \<Rightarrow> refs k' = (refs k)(h := Suc (refs k h))"
    using assms unfolding dl_kernel_def by (elim conjE allE) assumption
  then show "dl_open dl k f = (None, k') \<Longrightarrow> refs k' = refs k \<and> dl_error dl k' \<noteq> None"
    and "dl_open dl k f = (Some h, k') \<Longrightarrow> refs k' = (refs k)(h := Suc (refs k h))"
    by simp_all
  have "case dl_sym dl k h f of (r, k') \<Rightarrow>
        refs k' = refs k \<and> (refs k h > 0 \<longrightarrow> r = syms h f) \<and> (r = None \<longrightarrow> dl_error dl k' \<noteq> None)"
    using assms unfolding dl_kernel_def by (elim conjE) (drule spec, drule spec, drule spec, assumption)
  then show "dl_sym dl k h f = (r, k') \<Longrightarrow> refs k' = refs k \<and> (refs k h > 0 \<longrightarrow> r = syms h f) \<and> (r = None \<longrightarrow> dl_error dl k' \<noteq> None)"
    by simp
  show "refs (dl_close dl k h) = (refs k)(h := refs k h - 1)"
    using assms unfolding dl_kernel_def by blast
qed

lemma load_all_ok:
  assumes dl: "dl_kernel dl refs syms"
  shows "0 < refs k h \<Longrightarrow> load_all dl h fs k = (k', r) \<Longrightarrow> refs k' = refs k \<and>
     (case r of Inr as \<Rightarrow> map Some as = map (syms h) fs
      | Inl e \<Rightarrow> (\<exists>text. e = Runtime_error (''dlsym error : '' @ text)) \<and> None \<in> set (map (syms h) fs))"
proof (induction fs arbitrary: k k' r)
  case (Cons f fs)
  obtain x k1 where s: "dl_sym dl k h f = (x, k1)" by fastforce
  with dl_kernelD(3) [OF dl s] Cons.prems(1) have k1: "refs k1 = refs k" "x = syms h f" "x = None \<longrightarrow> dl_error dl k1 \<noteq> None"
    by auto
  show ?case
  proof (cases x)
    case None
    with k1 s Cons.prems(2) show ?thesis
      by (auto simp: loader_load_def dl_throw_def throw_runtime_error_def)
  next
    case (Some a)
    obtain k2 r2 where r2: "load_all dl h fs k1 = (k2, r2)" by fastforce
    with Some s k1 Cons.prems Cons.IH [OF _ r2] show ?thesis
      by (auto simp: loader_load_def split: sum.splits)
  qed
qed simp

section \<open>Properties\<close>

text \<open>A time stamp is the text the format makes of the given instant, or of the current time when the
  argument is negative; a text of no characters or of more than 1023 is an exception, and so is a
  clock that fails.\<close>

theorem timestamp_text:
  assumes "lc_time lc k = (now, k')"
  shows "timestamp lc t fmt k =
     (let k1 = (if t < 0 then k' else k);
          text = lc_text lc (case fmt of None \<Rightarrow> ''%F %T %Z'' | Some f \<Rightarrow> f) (lc_localtime lc k1 (if t < 0 then now else t)) in
      if t < 0 \<and> now = -1 then (k', Inl (System_error ''time error'' (lc_errno lc k')))
      else if text \<noteq> [] \<and> length text < 1024 then (k1, Inr (takeWhile (\<lambda>c. c \<noteq> NUL) text))
      else (k1, Inl (System_error ''strftime error'' (lc_errno lc k1))))"
proof -
  have tw: "takeWhile (\<lambda>c. c \<noteq> NUL) (xs @ replicate n NUL) = takeWhile (\<lambda>c. c \<noteq> NUL) xs" for xs n
    by (induction xs) (cases n; simp)+
  show ?thesis
    using assms by (auto simp: timestamp_def time_now_def timestamp_format_def strftime_def throw_system_error_def Let_def tw)
qed

definition toy_libc :: "(nat, int) libc" where
  "toy_libc = \<lparr>lc_errno = (\<lambda>_. EINVAL), lc_time = (\<lambda>k. (int k, Suc k)), lc_localtime = (\<lambda>k t. t),
     lc_text = (\<lambda>f tm. if f = ''%F %T %Z'' then ''1970'' else [])\<rparr>"

theorem timestamp_text_witness:
  "timestamp toy_libc (-1) None 5 = (6, Inr ''1970'') \<and>
   timestamp toy_libc 3 (Some ''%p'') 5 = (5, Inl (System_error ''strftime error'' EINVAL))"
  using timestamp_text [of toy_libc 5 5 6 "-1" None] timestamp_text [of toy_libc 5 5 6 3 "Some ''%p''"]
  by (simp add: toy_libc_def Let_def)

text \<open>A block with a \<open>dynamic_loader\<close> leaves every library as often open as before, however it ends; it
  returns the symbols the library defines, in order, and otherwise throws: when the library cannot
  be opened, or when one of the symbols is missing.\<close>

theorem loader_balanced:
  assumes "dl_kernel dl refs syms" and "loader_block dl filename fs k = (k', r)"
  shows "refs k' = refs k \<and>
     (case dl_open dl k filename of
        (None, _) \<Rightarrow> (\<exists>text. r = Inl (Runtime_error (''dlopen error : '' @ text)))
      | (Some h, _) \<Rightarrow>
          (case r of Inr as \<Rightarrow> map Some as = map (syms h) fs
           | Inl e \<Rightarrow> (\<exists>text. e = Runtime_error (''dlsym error : '' @ text)) \<and> None \<in> set (map (syms h) fs)))"
proof -
  obtain x k1 where o: "dl_open dl k filename = (x, k1)" by fastforce
  show ?thesis
  proof (cases x)
    case None
    then obtain what where "refs k1 = refs k" "dl_error dl k1 = Some what"
      using o dl_kernelD(1) [OF assms(1), of k filename k1] by auto
    with None o assms(2) show ?thesis
      by (auto simp: loader_block_def loader_new_def dl_throw_def throw_runtime_error_def)
  next
    case (Some h)
    then have k1: "refs k1 = (refs k)(h := Suc (refs k h))"
      using o dl_kernelD(2) [OF assms(1)] by simp
    obtain k2 r2 where l: "load_all dl h fs k1 = (k2, r2)" by fastforce
    with o Some assms(2) have r: "k' = dl_close dl k2 h" "r = r2"
      by (auto simp: loader_block_def loader_new_def loader_destroy_def)
    have "0 < refs k1 h" by (simp add: k1)
    with load_all_ok [OF assms(1) this l] o Some r dl_kernelD(4) [OF assms(1)] k1 show ?thesis
      by (simp add: fun_eq_iff)
  qed
qed

text \<open>A system with one library, which defines one symbol; its state counts the opens.\<close>

definition toy_dl :: "(nat, unit, int) dl_api" where
  "toy_dl = \<lparr>dl_open = (\<lambda>k f. if f = ''libm.so'' then (Some (), Suc k) else (None, k)),
     dl_sym = (\<lambda>k h f. (if 0 < k \<and> f = ''sin'' then Some 4096 else None, k)),
     dl_close = (\<lambda>k h. k - 1), dl_error = (\<lambda>k. Some ''not found'')\<rparr>"

theorem loader_balanced_witness:
  "\<exists>k r. loader_block toy_dl ''libm.so'' [''sin'', ''tan''] 2 = (k, r) \<and> k = 2 \<and> (\<exists>text. r = Inl (Runtime_error (''dlsym error : '' @ text)))"
proof -
  have dl: "dl_kernel toy_dl (\<lambda>k h. k) (\<lambda>h f. if f = ''sin'' then Some 4096 else None)"
    by (auto simp: dl_kernel_def toy_dl_def fun_eq_iff)
  obtain k r where run: "loader_block toy_dl ''libm.so'' [''sin'', ''tan''] 2 = (k, r)" by fastforce
  have "dl_open toy_dl 2 ''libm.so'' = (Some (), 3)" by (simp add: toy_dl_def)
  with loader_balanced [OF dl run] run show ?thesis
    by (cases r) (auto dest: fun_cong)
qed

end
