(* ===== verification/Dataflow.thy ===== *)
theory Dataflow
  imports Reactor
begin

text \<open>
  What flows through a connection of the reactor: handlers that answer what they read, as the stress
  test in \<open>src/examples/tcp_stress\<close> does, and the bytes of a connection from the read to the write.
  Theory \<open>Reactor\<close> shows that the callbacks return and what they leave watched; here a statement
  about the bytes is added to it.
\<close>

section \<open>Handlers of the stress test\<close>

text \<open>\<open>iopt->wbuffer().put_string(iopt->rbuffer().get_string())\<close>\<close>

definition echo_copy :: "nat \<Rightarrow> ('k, unit) act" where
  "echo_copy = obj_buf (\<lambda>s.
     rbind (get_string (io_rbuf s) (-1) True) (\<lambda>(str, r).
     rbind (put_string (io_wbuf s) str) (\<lambda>w.
     Inr (s\<lparr>io_rbuf := r, io_wbuf := w\<rparr>))))"

definition echo_on_read_complete :: "'k os \<Rightarrow> 'k tp_shared_data \<Rightarrow> nat \<Rightarrow> ('k, unit) act" where
  "echo_on_read_complete os dp n = andthen (echo_copy n) (\<lambda>_. async_write os dp n)"

definition greeting :: string where "greeting = ''Cppev is a C++ event driven library''"

definition greet_on_accept :: "'k os \<Rightarrow> 'k tp_shared_data \<Rightarrow> nat \<Rightarrow> ('k, unit) act" where
  "greet_on_accept os dp n = andthen (wbuf_put greeting n) (\<lambda>_. async_write os dp n)"

text \<open>
  \<open>on_write_complete\<close>, \<open>on_closed\<close> and the client's \<open>on_connect\<close> only log; logging is left out, also of the
  message in the client (through \<open>rawbuf\<close>, a C string as theory \<open>Buffer\<close> shows), and so is its short sleep. \<open>async_write\<close> finds the
  handlers through the loop; it calls \<open>on_write_complete\<close> only, so the data with that handler is
  passed to it.
\<close>

definition simple_server :: "'k os \<Rightarrow> 'k tp_shared_data" where
  "simple_server os = idle_data\<lparr>on_accept := greet_on_accept os idle_data,
     on_read_complete := echo_on_read_complete os idle_data\<rparr>"

definition simple_client :: "'k os \<Rightarrow> 'k tp_shared_data" where
  "simple_client os = idle_data\<lparr>on_read_complete := echo_on_read_complete os idle_data\<rparr>"

lemma simple_handlers_set:
  "simple_server os = set_on_read_complete (echo_on_read_complete os idle_data) (set_on_accept (greet_on_accept os idle_data) idle_data)"
  "simple_client os = set_on_read_complete (echo_on_read_complete os idle_data) idle_data"
  by (simp_all add: simple_server_def simple_client_def set_on_read_complete_def set_on_accept_def)

section \<open>Statements about results\<close>

text \<open>When the action returns, the result is in \<open>Q\<close>. With \<open>ensures\<close> this is total correctness.\<close>

definition results :: "('k reactor \<Rightarrow> bool) \<Rightarrow> ('k, 'a) act \<Rightarrow> ('a \<Rightarrow> 'k reactor \<Rightarrow> bool) \<Rightarrow> bool" where
  "results P m Q \<longleftrightarrow> (\<forall>st st' x. P st \<and> m st = (st', Inr x) \<longrightarrow> Q x st')"

lemma resultsI: "(\<And>st st' x. P st \<Longrightarrow> m st = (st', Inr x) \<Longrightarrow> Q x st') \<Longrightarrow> results P m Q"
  by (auto simp: results_def)

lemma resultsD: "results P m Q \<Longrightarrow> P st \<Longrightarrow> m st = (st', Inr x) \<Longrightarrow> Q x st'"
  by (auto simp: results_def)

lemma results_andthen: "results P m R \<Longrightarrow> (\<And>x. results (R x) (f x) Q) \<Longrightarrow> results P (andthen m f) Q"
  unfolding results_def andthen_def by (auto split: prod.splits sum.splits) blast

lemma results_if:
  "results P m Q \<Longrightarrow> results P m' Q \<Longrightarrow> results P (\<lambda>st. if c st then m st else m' st) Q"
  by (auto simp: results_def)

lemma results_read: "results P (\<lambda>st. (st, r st)) (\<lambda>_. P)"
  by (simp add: results_def)

lemma ensures_results:
  "ensures P m Q \<Longrightarrow> results P' m Q' \<Longrightarrow> ensures (\<lambda>st. P st \<and> P' st) m (\<lambda>x st. Q x st \<and> Q' x st)"
  unfolding ensures_def results_def by blast

section \<open>The bytes of a connection\<close>

text \<open>Epoll moves no bytes, writing receives none and reading sends none.\<close>

definition flow_kernel :: "'k os \<Rightarrow> ('k \<Rightarrow> char list) \<Rightarrow> ('k \<Rightarrow> char list) \<Rightarrow> bool" where
  "flow_kernel os sent recv \<longleftrightarrow>
     wr_keeps recv (os_sys os) \<and> rd_keeps sent (os_sys os) \<and>
     (\<forall>k efd fd m. sent (snd (ep_add (os_ep os) k efd fd m)) = sent k \<and> recv (snd (ep_add (os_ep os) k efd fd m)) = recv k) \<and>
     (\<forall>k efd fd. sent (snd (ep_del (os_ep os) k efd fd)) = sent k \<and> recv (snd (ep_del (os_ep os) k efd fd)) = recv k)"

text \<open>What was sent, what waits to be sent and what is read but not handled are, in this order, a
  first part and everything received.\<close>

definition flow :: "('k \<Rightarrow> char list) \<Rightarrow> ('k \<Rightarrow> char list) \<Rightarrow> char list \<Rightarrow> nat \<Rightarrow> 'k reactor \<Rightarrow> bool" where
  "flow sent recv base n st \<longleftrightarrow>
     sent (rt_k st) @ contents (io_wbuf (rt_objs st n)) @ contents (io_rbuf (rt_objs st n)) = base @ recv (rt_k st)"

definition handled :: "nat \<Rightarrow> 'k reactor \<Rightarrow> bool" where
  "handled n st \<longleftrightarrow> contents (io_rbuf (rt_objs st n)) = []"

lemma flow_registered [simp]:
  "flow sent recv base n (registered j n ev cb st) = flow sent recv base n st"
  "handled n (registered j n ev cb st) = handled n st"
  by (simp_all add: flow_def handled_def registered_def set_evlp_def Let_def)

lemma flow_erased [simp]:
  "flow sent recv base n (erased j fd st) = flow sent recv base n st" "handled n (erased j fd st) = handled n st"
  by (simp_all add: flow_def handled_def erased_def)

lemma flow_kernel_step:
  "sent k = sent (rt_k st) \<Longrightarrow> recv k = recv (rt_k st) \<Longrightarrow>
     flow sent recv base n (st\<lparr>rt_k := k\<rparr>) = flow sent recv base n st"
  "handled n (st\<lparr>rt_k := k\<rparr>) = handled n st"
  by (simp_all add: flow_def handled_def)

abbreviation flow0 where
  "flow0 sent recv base n st \<equiv> flow sent recv base n st \<and> handled n st"

lemma flow_ep:
  assumes "flow_kernel os sent recv"
  shows "ep_add (os_ep os) k efd fd m = (r, k') \<Longrightarrow> sent k' = sent k \<and> recv k' = recv k"
    and "ep_del (os_ep os) k efd fd = (r, k') \<Longrightarrow> sent k' = sent k \<and> recv k' = recv k"
  using assms unfolding flow_kernel_def by (metis snd_conv)+

lemma flow_register:
  assumes "flow_kernel os sent recv"
  shows "results (flow0 sent recv base n) (loop_register os j n ev cb activate) (\<lambda>_. flow0 sent recv base n)"
proof (rule resultsI)
  fix st st' x
  assume p: "flow0 sent recv base n st" and run: "loop_register os j n ev cb activate st = (st', Inr x)"
  show "flow0 sent recv base n st'"
  proof (cases activate)
    case True
    with run obtain k where k: "ep_add (os_ep os) (rt_k st) (el_fd (rt_loops st j)) (io_fd (rt_objs st n)) (fd_map_to_sys (os_ep os) ev) = (None, k)"
        "st' = (registered j n ev cb st)\<lparr>rt_k := k\<rparr>"
      by (auto simp: loop_register_eq split: option.splits prod.splits)
    with flow_ep(1) [OF assms k(1)] p show ?thesis
      by (simp add: flow_kernel_step(2)) (simp add: flow_def registered_def set_evlp_def Let_def)
  qed (use run p in \<open>auto simp: loop_register_eq\<close>)
qed

lemma flow_remove:
  assumes "flow_kernel os sent recv"
  shows "results (flow0 sent recv base n) (on_loop j (fd_remove (os_ep os) n clean deactivate)) (\<lambda>_. flow0 sent recv base n)"
proof (rule resultsI)
  fix st st' x
  assume p: "flow0 sent recv base n st" and run: "on_loop j (fd_remove (os_ep os) n clean deactivate) st = (st', Inr x)"
  then consider "st' = (if clean then erased j (io_fd (rt_objs st n)) st else st)"
    | k where "ep_del (os_ep os) (rt_k st) (el_fd (rt_loops st j)) (io_fd (rt_objs st n)) = (None, k)"
        "st' = (if clean then erased j (io_fd (rt_objs st n)) (st\<lparr>rt_k := k\<rparr>) else st\<lparr>rt_k := k\<rparr>)"
    by (auto simp: loop_remove_eq Let_def split: if_splits option.splits prod.splits)
  then show "flow0 sent recv base n st'"
  proof cases
    case 2
    with flow_ep(2) [OF assms 2(1)] p show ?thesis
      by (simp add: flow_kernel_step)
  qed (use p in simp)
qed

lemma flow_at_loop:
  "(\<And>j. results P (g j) Q) \<Longrightarrow> results P (andthen (evlp_of n) g) Q"
  by (rule results_andthen [where R = "\<lambda>_. P"]) (simp_all add: results_def evlp_of_def)

lemma flow_evlp_register:
  assumes "flow_kernel os sent recv"
  shows "results (flow0 sent recv base n) (evlp_register os n ev cb activate) (\<lambda>_. flow0 sent recv base n)"
  unfolding evlp_register_def by (rule flow_at_loop [OF flow_register [OF assms]])

lemma flow_evlp_remove:
  assumes "flow_kernel os sent recv"
  shows "results (flow0 sent recv base n) (evlp_remove os n clean deactivate) (\<lambda>_. flow0 sent recv base n)"
  unfolding evlp_remove_def by (rule flow_at_loop [OF flow_remove [OF assms]])


lemma flow_write:
  assumes k: "conn_kernel os efd interest fd sent rcv pend intr" and f: "flow_kernel os sent recv"
  shows "results (\<lambda>st. conn interest j efd n fd rs m st \<and> flow0 sent recv base n st) (obj_write_all os (os_step os) n)
     (\<lambda>_. flow0 sent recv base n)"
proof (rule resultsI)
  fix st st' x
  assume p: "conn interest j efd n fd rs m st \<and> flow0 sent recv base n st" and run: "obj_write_all os (os_step os) n st = (st', Inr x)"
  let ?s = "rt_objs st n"
  have s: "io_fd ?s = fd" "buf_ok (io_wbuf ?s)"
    using p by (simp_all add: conn_def Let_def)
  obtain k' s' where w: "st' = st\<lparr>rt_k := k', rt_objs := (rt_objs st)(n := s')\<rparr>" "io_rbuf s' = io_rbuf ?s"
      "sent k' @ contents (io_wbuf s') = sent (rt_k st) @ contents (io_wbuf ?s)" "recv k' = recv (rt_k st)"
    using obj_write_all_ok [of os ?s sent intr st n "os_step os" recv] k f s run
    unfolding conn_kernel_def flow_kernel_def tx_frame_def by fastforce
  have "sent k' @ contents (io_wbuf s') @ contents (io_rbuf ?s) = sent (rt_k st) @ contents (io_wbuf ?s) @ contents (io_rbuf ?s)"
    using w(3) by (metis append.assoc)
  with w p show "flow0 sent recv base n st'"
    by (auto simp: flow_def handled_def)
qed

lemma flow_async_write:
  assumes k: "conn_kernel os efd interest fd sent rcv pend intr" and f: "flow_kernel os sent recv"
    and h: "results (flow0 sent recv base n) (on_write_complete dp n) (\<lambda>_. flow0 sent recv base n)"
  shows "results (\<lambda>st. conn interest j efd n fd rs m st \<and> flow0 sent recv base n st) (async_write os dp n) (\<lambda>_. flow0 sent recv base n)"
  unfolding async_write_def
  by (rule flow_at_loop, rule results_andthen [OF flow_write [OF k f]], rule results_if [OF h],
      rule results_andthen [OF flow_evlp_remove [OF f] flow_evlp_register [OF f]])

text \<open>Clearing the read buffer loses nothing when it was handled.\<close>

lemma clear_contents: "clear b = Inr b' \<Longrightarrow> contents b' = []"
  by (auto simp: clear_def rbind_eq_Inr contents_def)

lemma flow_clear: "results (flow0 sent recv base n) (rbuf_clear n) (\<lambda>_. flow0 sent recv base n)"
  by (rule resultsI)
    (auto simp: rbuf_clear_def obj_buf_def rbind_eq_Inr flow_def handled_def clear_contents Let_def split: sum.splits)

text \<open>Reading, with room for what may come.\<close>

definition flow_room :: "'k os \<Rightarrow> ('k \<Rightarrow> nat) \<Rightarrow> nat \<Rightarrow> 'k reactor \<Rightarrow> bool" where
  "flow_room os pend n st \<longleftrightarrow> has_room os pend n st \<and> b_offset (io_wbuf (rt_objs st n)) + int (pend (rt_k st)) \<le> 1073741824"

lemma ensures_flow_read:
  assumes k: "conn_kernel os efd interest fd sent recv pend intr" and f: "flow_kernel os sent recv"
  shows "ensures (\<lambda>st. conn interest j efd n fd rs m st \<and> drained n st \<and> flow0 sent recv base n st \<and> flow_room os pend n st)
     (obj_read_all os (os_step os) n)
     (\<lambda>_ st. conn interest j efd n fd rs m st \<and> drained n st \<and> flow sent recv base n st \<and> reply_fits n st)"
proof (rule ensuresI)
  fix st
  assume p: "conn interest j efd n fd rs m st \<and> drained n st \<and> flow0 sent recv base n st \<and> flow_room os pend n st"
  let ?s = "rt_objs st n"
  have s: "io_fd ?s = fd" "buf_ok (io_wbuf ?s)" "buf_ok (io_rbuf ?s)"
    using p by (simp_all add: conn_def Let_def)
  have rx: "rx_kernel (os_sys os) (io_fd ?s) recv pend intr" "0 < os_step os"
      "b_offset (io_rbuf ?s) + int (pend (rt_k st)) + os_step os \<le> 1073741824"
    using k p s(1) by (simp_all add: conn_kernel_def flow_room_def has_room_def)
  obtain k' s' bs r where run: "read_all (os_sys os) (rt_k st) ?s (os_step os) = Some (k', s', io_count (length bs) r)"
    and o: "rx_outcome (os_sys os) (io_fd ?s) recv pend intr (rt_k st) ?s (int (pend (rt_k st)) + os_step os) k' s' bs r"
    using read_all_outcome [OF rx(1) s(3) rx(2,3)] by blast
  have post: "buf_ok (io_rbuf s')" "rx_frame ?s s'" "contents (io_rbuf s') = contents (io_rbuf ?s) @ bs"
      "recv k' = recv (rt_k st) @ bs" "length bs \<le> pend (rt_k st)"
    using o unfolding rx_outcome_def by auto
  have "rd_keeps (\<lambda>k. (interest k, sent k)) (os_sys os)"
    using k f by (simp add: conn_kernel_def flow_kernel_def rd_keeps_def)
  from read_all_keeps [OF run this] have keep: "interest k' = interest (rt_k st)" "sent k' = sent (rt_k st)"
    by simp_all
  obtain k2 s2 c where "obj_read_all os (os_step os) n st = (st\<lparr>rt_k := k2, rt_objs := (rt_objs st)(n := s2)\<rparr>, Inr c)"
    using obj_read_all_ok [OF rx(1) refl s(3) rx(2,3), of interest] k s(1) unfolding conn_kernel_def by metis
  moreover have "obj_read_all os (os_step os) n st = (st\<lparr>rt_k := k', rt_objs := (rt_objs st)(n := s')\<rparr>, io_count (length bs) r)"
    using run by (simp add: obj_read_all_def obj_io_def)
  ultimately have eq: "obj_read_all os (os_step os) n st = (st\<lparr>rt_k := k', rt_objs := (rt_objs st)(n := s')\<rparr>, Inr c)"
    by simp
  let ?st = "st\<lparr>rt_k := k', rt_objs := (rt_objs st)(n := s')\<rparr>"
  have "conn interest j efd n fd rs m ?st"
    using p post(1,2) keep(1) s(2) by (intro conn_io [where s = ?s]) (simp_all add: rx_frame_def)
  moreover have "drained n ?st" "flow sent recv base n ?st"
    using p post keep(2) by (auto simp: drained_def flow_def handled_def rx_frame_def)
  moreover have "reply_fits n ?st"
    using p post by (simp add: reply_fits_def flow_room_def handled_def rx_frame_def)
  ultimately show "\<exists>st' x. obj_read_all os (os_step os) n st = (st', Inr x) \<and> conn interest j efd n fd rs m st' \<and> drained n st' \<and>
      flow sent recv base n st' \<and> reply_fits n st'"
    using eq by simp
qed

text \<open>The handler moves what was read to what waits to be sent.\<close>

lemma echo_copy_ok:
  assumes c: "conn interest j efd n fd rs m st" and fits: "reply_fits n st"
  shows "\<exists>s. echo_copy n st = (st\<lparr>rt_objs := (rt_objs st)(n := s)\<rparr>, Inr ()) \<and>
           conn interest j efd n fd rs m (st\<lparr>rt_objs := (rt_objs st)(n := s)\<rparr>) \<and> contents (io_rbuf s) = [] \<and>
           contents (io_wbuf s) = contents (io_wbuf (rt_objs st n)) @ contents (io_rbuf (rt_objs st n))"
proof -
  let ?s = "rt_objs st n"
  have s: "buf_ok (io_wbuf ?s)" "buf_ok (io_rbuf ?s)"
    using c by (simp_all add: conn_def Let_def)
  obtain r where r: "get_string (io_rbuf ?s) (-1) True = Inr (contents (io_rbuf ?s), r)" "buf_ok r" "contents r = []"
    using get_string_ok [OF s(2) order_refl] by (auto simp: get_string_all [OF s(2)])
  obtain w where w: "put_string (io_wbuf ?s) (contents (io_rbuf ?s)) = Inr w" "buf_ok w"
      "contents w = contents (io_wbuf ?s) @ contents (io_rbuf ?s)"
    using put_string_ok [OF s(1)] fits unfolding reply_fits_def by blast
  have "echo_copy n st = (st\<lparr>rt_objs := (rt_objs st)(n := ?s\<lparr>io_rbuf := r, io_wbuf := w\<rparr>)\<rparr>, Inr ())"
    using r(1) w(1) by (simp add: echo_copy_def obj_buf_def)
  moreover have "conn interest j efd n fd rs m (st\<lparr>rt_objs := (rt_objs st)(n := ?s\<lparr>io_rbuf := r, io_wbuf := w\<rparr>)\<rparr>)"
    using c r(2) w(2) by (intro conn_obj) (simp_all add: conn_def Let_def)
  ultimately show ?thesis
    using r(3) w(3) by fastforce
qed

lemma ensures_echo_copy:
  "ensures (\<lambda>st. conn interest j efd n fd rs m st \<and> flow sent recv base n st \<and> reply_fits n st)
     (echo_copy n) (\<lambda>_ st. conn interest j efd n fd rs m st \<and> flow0 sent recv base n st)"
  by (rule ensuresI) (use echo_copy_ok in \<open>fastforce simp: flow_def handled_def\<close>)

section \<open>The callbacks with these handlers\<close>

lemma idle_data_simps:
  "on_write_complete idle_data = idle_handler" "on_closed idle_data = idle_handler" "on_read_complete idle_data = idle_handler"
  "on_accept idle_data = idle_handler" "on_connect idle_data = idle_handler"
  by (simp_all add: idle_data_def)

lemma idle_results: "results P (idle_handler n) (\<lambda>_. P)"
  by (simp add: results_def idle_handler_def)

lemma idle_handlers: "conn_handlers os interest j efd n fd idle_data"
  by (simp add: conn_handlers_def idle_data_simps ensures_idle) (simp add: ensures_def idle_handler_def)

lemma ensures_send:
  assumes "conn_kernel os efd interest fd sent recv pend intr"
  shows "ensures (conn interest j efd n fd io_regs (Some (ep_in (os_ep os)))) (async_write os idle_data n)
     (\<lambda>_. settled os interest j efd n fd)"
  by (rule ensures_async_write [OF assms]) (simp add: idle_data_simps ensures_def idle_handler_def)

text \<open>The echo keeps the contract of a handler, whatever kernel is below it.\<close>

lemma ensures_echo_settled:
  assumes "conn_kernel os efd interest fd sent recv pend intr"
  shows "ensures (\<lambda>st. settled os interest j efd n fd st \<and> drained n st \<and> reply_fits n st)
     (echo_on_read_complete os idle_data n) (\<lambda>_. settled os interest j efd n fd)"
proof -
  let ?c = "conn interest j efd n fd io_regs (Some (ep_in (os_ep os)))"
  have "ensures (\<lambda>st. settled os interest j efd n fd st \<and> drained n st \<and> reply_fits n st) (echo_copy n) (\<lambda>_. ?c)"
    by (rule ensuresI) (use echo_copy_ok in \<open>fastforce simp: settled_def\<close>)
  then show ?thesis
    unfolding echo_on_read_complete_def by (rule ensures_andthen [OF _ ensures_send [OF assms]])
qed

lemma echo_handlers:
  assumes "conn_kernel os efd interest fd sent recv pend intr"
  shows "conn_handlers os interest j efd n fd (simple_client os)"
  using ensures_echo_settled [OF assms, of j n] idle_handlers [of os interest j efd n fd]
  by (simp add: conn_handlers_def simple_client_def idle_data_simps)

lemma ensures_echo:
  assumes k: "conn_kernel os efd interest fd sent recv pend intr" and f: "flow_kernel os sent recv"
  shows "ensures (\<lambda>st. conn interest j efd n fd io_regs (Some (ep_in (os_ep os))) st \<and> drained n st \<and> flow sent recv base n st \<and>
        reply_fits n st)
     (echo_on_read_complete os idle_data n) (\<lambda>_ st. settled os interest j efd n fd st \<and> flow0 sent recv base n st)"
proof -
  let ?c = "conn interest j efd n fd io_regs (Some (ep_in (os_ep os)))"
  from ensures_send [OF k] flow_async_write [OF k f, of base n idle_data j io_regs "Some (ep_in (os_ep os))"]
  have "ensures (\<lambda>st. ?c st \<and> ?c st \<and> flow0 sent recv base n st) (async_write os idle_data n)
      (\<lambda>_ st. settled os interest j efd n fd st \<and> flow0 sent recv base n st)"
    by (intro ensures_results) (simp_all add: idle_data_simps idle_results)
  then show ?thesis
    unfolding echo_on_read_complete_def
    by (intro ensures_andthen [OF ensures_weaken [OF ensures_echo_copy]]) (auto elim: ensures_weaken)
qed

lemma flow_closing:
  assumes f: "flow_kernel os sent recv"
  shows "results (flow0 sent recv base n)
     (\<lambda>st. if c st then andthen (idle_handler n) (\<lambda>_. evlp_remove os n True True) st else (st, Inr ()))
     (\<lambda>_. flow0 sent recv base n)"
  by (rule results_if, rule results_andthen [OF idle_results flow_evlp_remove [OF f]]) (rule results_read)

lemma flow_on_writable:
  assumes k: "conn_kernel os efd interest fd sent recv pend intr" and f: "flow_kernel os sent recv"
  shows "results (\<lambda>st. conn interest j efd n fd rs m st \<and> flow0 sent recv base n st) (on_writable os idle_data n)
     (\<lambda>_. flow0 sent recv base n)"
proof -
  have cast: "results P (cast_tcp n) (\<lambda>_. P)" for P
    by (simp add: results_def cast_tcp_def)
  have reg: "results (flow0 sent recv base n)
      (\<lambda>st. if \<not> io_closed (rt_objs st n) then evlp_register os n fd_readable None True st else (st, Inr ())) (\<lambda>_. flow0 sent recv base n)"
    by (rule results_if [OF flow_evlp_register [OF f] results_read])
  have mid: "results (flow0 sent recv base n)
      (\<lambda>st. if buf_size (io_wbuf (rt_objs st n)) = 0
        then andthen (evlp_remove os n False True) (\<lambda>_. andthen (idle_handler n) (\<lambda>_ st.
          if \<not> io_closed (rt_objs st n) then evlp_register os n fd_readable None True st else (st, Inr ()))) st
        else (st, Inr ())) (\<lambda>_. flow0 sent recv base n)"
    by (rule results_if [OF results_andthen [OF flow_evlp_remove [OF f] results_andthen [OF idle_results reg]] results_read])
  show ?thesis
    unfolding on_writable_def idle_data_simps
    by (rule results_andthen [OF cast], rule flow_at_loop, rule results_andthen [OF flow_write [OF k f]],
        rule results_andthen [OF mid flow_closing [OF f]])
qed

lemma ensures_echo_readable:
  assumes k: "conn_kernel os efd interest fd sent recv pend intr" and f: "flow_kernel os sent recv"
    and dp: "on_read_complete dp = echo_on_read_complete os idle_data" "on_closed dp = idle_handler"
  shows "ensures (\<lambda>st. settled os interest j efd n fd st \<and> drained n st \<and> flow0 sent recv base n st \<and> flow_room os pend n st)
     (on_readable os dp n)
     (\<lambda>_ st. (if st_eof (rt_objs st n) \<or> st_reset (rt_objs st n)
             then released interest j efd n fd st else settled os interest j efd n fd st) \<and> flow0 sent recv base n st)"
proof -
  have ep: "ep_kernel (os_ep os) efd interest"
    using k by (simp add: conn_kernel_def)
  let ?P = "\<lambda>st. conn interest j efd n fd io_regs (Some (ep_in (os_ep os))) st \<and> drained n st \<and> flow0 sent recv base n st \<and> flow_room os pend n st"
  have cast: "ensures ?P (cast_tcp n) (\<lambda>_. ?P)" and evlp: "ensures ?P (evlp_of n) (\<lambda>_. ?P)"
    using ensures_cast ensures_evlp unfolding ensures_def cast_tcp_def evlp_of_def by fastforce+
  let ?S = "\<lambda>st. settled os interest j efd n fd st \<and> flow0 sent recv base n st"
  have cl: "ensures ?S (rbuf_clear n) (\<lambda>_. ?S)"
    using ensures_results [OF _ flow_clear, of "settled os interest j efd n fd" n "\<lambda>_. settled os interest j efd n fd" sent recv base]
      ensures_clear [where m = "\<lambda>d. Some (if d then ep_in (os_ep os) else ep_out (os_ep os))"]
    unfolding settled_def by blast
  have idle: "ensures (\<lambda>st. settled os interest j efd n fd st \<and> stream_flags n st = g) (on_closed idle_data n)
       (\<lambda>_ st. settled os interest j efd n fd st \<and> stream_flags n st = g)" for g
    by (simp add: idle_data_simps ensures_def idle_handler_def)
  have fin: "ensures ?S
      (\<lambda>st. if st_eof (rt_objs st n) \<or> st_reset (rt_objs st n) then andthen (idle_handler n) (\<lambda>_. evlp_remove os n True True) st else (st, Inr ()))
      (\<lambda>_ st. (if st_eof (rt_objs st n) \<or> st_reset (rt_objs st n)
             then released interest j efd n fd st else settled os interest j efd n fd st) \<and> flow0 sent recv base n st)"
    using ensures_results [OF ensures_closing [OF ep idle, where g = "\<lambda>(eof, eop, reset). eof \<or> reset"]
        flow_closing [OF f, of base n "\<lambda>st. case stream_flags n st of (eof, eop, reset) \<Rightarrow> eof \<or> reset", folded idle_data_simps(2)]]
    by (simp only: stream_flags_def prod.case idle_data_simps)
  have "ensures ?P (on_readable os dp n)
     (\<lambda>_ st. (if st_eof (rt_objs st n) \<or> st_reset (rt_objs st n)
             then released interest j efd n fd st else settled os interest j efd n fd st) \<and> flow0 sent recv base n st)"
    unfolding on_readable_def dp
    by (rule ensures_andthen [OF cast], rule ensures_andthen [OF evlp], rule ensures_andthen [OF ensures_flow_read [OF k f]],
        rule ensures_andthen [OF ensures_echo [OF k f]], rule ensures_andthen [OF cl fin])
  then show ?thesis
    by (rule ensures_weaken) (auto simp: settled_def)
qed

section \<open>A kernel with one connection\<close>

text \<open>Descriptor 7 delivers the bytes of \<open>wi_in\<close>, then the end of the stream if \<open>wi_eof\<close>, and takes at most \<open>wi_room\<close> bytes before it would block.\<close>

record wire =
  wi_in :: "char list"
  wi_recv :: "char list"
  wi_sent :: "char list"
  wi_room :: nat
  wi_eof :: bool
  wi_watch :: "int \<Rightarrow> 32 word option"

definition wire_read :: "wire \<Rightarrow> int \<Rightarrow> int \<Rightarrow> (errno + char list) \<times> wire" where
  "wire_read k fd n =
     (if wi_in k = [] then (if wi_eof k then Inr [] else Inl EAGAIN, k)
      else (Inr (take (nat n) (wi_in k)), k\<lparr>wi_in := drop (nat n) (wi_in k), wi_recv := wi_recv k @ take (nat n) (wi_in k)\<rparr>))"

definition wire_write :: "wire \<Rightarrow> int \<Rightarrow> char list \<Rightarrow> (errno + int) \<times> wire" where
  "wire_write k fd bs =
     (let n = min (wi_room k) (length bs) in
      if n = 0 then (Inl EAGAIN, k)
      else (Inr (int n), k\<lparr>wi_sent := wi_sent k @ take n bs, wi_room := wi_room k - n\<rparr>))"

definition wire_sys :: "wire sock_api" where
  "wire_sys = \<lparr>
     px_getfl = (\<lambda>k fd. (Inr 2, k)), px_setfl = (\<lambda>k fd w. (None, k)), px_nonblock = 2048,
     px_close = (\<lambda>k fd. k\<lparr>wi_watch := (wi_watch k)(fd := None)\<rparr>),
     px_read = wire_read, px_write = wire_write, px_errno = (\<lambda>k. EAGAIN),
     px_pton = (\<lambda>f s. Inr None), px_ntop = (\<lambda>f bs. Inr []), px_sun_size = 108,
     px_socket = (\<lambda>k f t. (Inl EPERM, k)), px_bind = (\<lambda>k fd a. (None, k)), px_listen = (\<lambda>k fd n. (None, k)),
     px_connect = (\<lambda>k fd a. (None, k)), px_accept = (\<lambda>k fd. (Inl EAGAIN, k)), px_shutdown = (\<lambda>k fd m. k),
     px_setsockopt = (\<lambda>k fd opt v. (None, k)), px_getsockopt = (\<lambda>k fd opt. (Inr [], k)),
     px_getsockname = (\<lambda>k fd. (Inl EBADF, k)), px_getpeername = (\<lambda>k fd. (Inl EBADF, k)),
     px_recvfrom = (\<lambda>k fd n. (Inl EAGAIN, k)), px_sendto = (\<lambda>k fd bs a. (Inl EAGAIN, k)),
     px_unlink = (\<lambda>k path. k), px_pipe = (\<lambda>k. (Inl EPERM, k)), px_mkfifo = (\<lambda>k path. (Some EEXIST, k)),
     px_open_rd = (\<lambda>k path. (Inl ENOENT, k)), px_open_wr = (\<lambda>k path. (Inl ENOENT, k))\<rparr>"

definition wire_ep :: "wire epoll_api" where
  "wire_ep = \<lparr>ep_in = 1, ep_out = 4, ep_create = (\<lambda>k n. (Inr 100, k)),
     ep_add = (\<lambda>k efd fd m. if wi_watch k fd = None then (None, k\<lparr>wi_watch := (wi_watch k)(fd \<mapsto> m)\<rparr>) else (Some EEXIST, k)),
     ep_del = (\<lambda>k efd fd. if wi_watch k fd = None then (Some ENOENT, k) else (None, k\<lparr>wi_watch := (wi_watch k)(fd := None)\<rparr>)),
     ep_wait = (\<lambda>k efd n t. (Inr [], k))\<rparr>"

definition wire_os :: "wire os" where
  "wire_os = \<lparr>os_sys = wire_sys, os_ep = wire_ep, os_step = 4, os_events = 2048, os_backlog = 128\<rparr>"

lemma wire_conn_kernel:
  "conn_kernel wire_os 100 wi_watch fd wi_sent wi_recv (\<lambda>k. length (wi_in k)) (\<lambda>_. 0)"
  by (auto simp: conn_kernel_def wire_os_def wire_sys_def wire_ep_def ep_kernel_def tx_kernel_def rx_kernel_def wr_keeps_def
      rd_keeps_def wire_read_def wire_write_def Let_def Suc_le_eq split: option.split)

lemma wire_flow_kernel: "flow_kernel wire_os wi_sent wi_recv"
  by (auto simp: flow_kernel_def wire_os_def wire_sys_def wire_ep_def wr_keeps_def rd_keeps_def wire_read_def wire_write_def Let_def)

text \<open>A settled connection whose peer has sent six bytes; the socket takes two at once.\<close>

definition wire_reactor :: "wire reactor" where
  "wire_reactor = \<lparr>
     rt_loops = (\<lambda>_. \<lparr>el_id = 0, el_fd = 100, el_fds = [(7, prio_val p0, 1, 10, fd_readable), (7, prio_val p0, 1, 11, fd_writable)],
       el_cbs = [], el_events = (\<lambda>_. None), el_stop = False\<rparr>),
     rt_objs = (\<lambda>_. sample_obj\<lparr>io_rbuf := empty_buffer\<rparr>), rt_code = (\<lambda>a. if a = 10 then On_readable else On_writable),
     rt_k = \<lparr>wi_in = ''abcdef'', wi_recv = [], wi_sent = [], wi_room = 2, wi_eof = False, wi_watch = [7 \<mapsto> 1]\<rparr>, rt_next = 20, rt_evls = [0],
     rt_failures = (\<lambda>_. []), rt_acpts = (\<lambda>_. None),
     rt_conts = (\<lambda>_. \<lparr>cn_rdp = 0, cn_wrp = 0, cn_hosts = [], cn_failures = []\<rparr>)\<rparr>"

lemma wire_reactor_ok:
  "settled wire_os wi_watch 0 100 1 7 wire_reactor" "drained 1 wire_reactor" "flow0 wi_sent wi_recv [] 1 wire_reactor"
  "flow_room wire_os (\<lambda>k. length (wi_in k)) 1 wire_reactor"
proof -
  show d: "drained 1 wire_reactor"
    using empty_buffer_ok(2) by (simp add: drained_def wire_reactor_def sample_obj_def)
  then show "settled wire_os wi_watch 0 100 1 7 wire_reactor"
    using empty_buffer_ok
    by (simp add: settled_def) (simp add: conn_def wire_reactor_def sample_obj_def fresh_code_def regs_of_def io_regs_def wire_os_def wire_ep_def)
  show "flow0 wi_sent wi_recv [] 1 wire_reactor"
    using empty_buffer_ok(2) by (simp add: flow_def handled_def wire_reactor_def sample_obj_def)
  show "flow_room wire_os (\<lambda>k. length (wi_in k)) 1 wire_reactor"
    by (simp add: flow_room_def has_room_def wire_os_def wire_reactor_def sample_obj_def empty_buffer_def)
qed

section \<open>Properties\<close>

text \<open>C8. The stress test echoes. For its server and its client, every read callback and every write
  callback of a connection returns and leaves the connection watched the way it should be, and after
  each of them what was sent followed by what waits to be sent is what it was at the start followed
  by everything received: no byte is lost, doubled or reordered, however the kernel cuts the stream.\<close>

theorem echo_in_order:
  assumes "conn_kernel os efd interest fd sent recv pend intr" and "flow_kernel os sent recv"
    and "dp \<in> {simple_server os, simple_client os}"
  shows "ensures (\<lambda>st. settled os interest j efd n fd st \<and> drained n st \<and> flow0 sent recv base n st \<and> flow_room os pend n st)
       (on_readable os dp n)
       (\<lambda>_ st. (if st_eof (rt_objs st n) \<or> st_reset (rt_objs st n)
               then released interest j efd n fd st else settled os interest j efd n fd st) \<and> flow0 sent recv base n st) \<and>
     ensures (\<lambda>st. conn interest j efd n fd io_regs (Some (ep_out (os_ep os))) st \<and> flow0 sent recv base n st)
       (on_writable os dp n)
       (\<lambda>_ st. (if st_eop (rt_objs st n) \<or> st_reset (rt_objs st n)
               then released interest j efd n fd st else settled os interest j efd n fd st) \<and> flow0 sent recv base n st)"
proof
  show "ensures (\<lambda>st. settled os interest j efd n fd st \<and> drained n st \<and> flow0 sent recv base n st \<and> flow_room os pend n st)
       (on_readable os dp n)
       (\<lambda>_ st. (if st_eof (rt_objs st n) \<or> st_reset (rt_objs st n)
               then released interest j efd n fd st else settled os interest j efd n fd st) \<and> flow0 sent recv base n st)"
    by (rule ensures_echo_readable [OF assms(1,2)]) (use assms(3) in \<open>auto simp: simple_server_def simple_client_def idle_data_simps\<close>)
  have "on_write_complete dp = idle_handler" "on_closed dp = idle_handler"
    using assms(3) by (auto simp: simple_server_def simple_client_def idle_data_simps)
  then have "on_writable os dp n = on_writable os idle_data n"
    by (simp only: on_writable_def idle_data_simps)
  moreover have "ensures (\<lambda>st. conn interest j efd n fd io_regs (Some (ep_out (os_ep os))) st \<and>
        (conn interest j efd n fd io_regs (Some (ep_out (os_ep os))) st \<and> flow0 sent recv base n st))
       (on_writable os idle_data n)
       (\<lambda>_ st. (if st_eop (rt_objs st n) \<or> st_reset (rt_objs st n)
               then released interest j efd n fd st else settled os interest j efd n fd st) \<and> flow0 sent recv base n st)"
    by (rule ensures_results [OF ensures_on_writable [OF assms(1) idle_handlers] flow_on_writable [OF assms(1,2)]])
  ultimately show "ensures (\<lambda>st. conn interest j efd n fd io_regs (Some (ep_out (os_ep os))) st \<and> flow0 sent recv base n st)
       (on_writable os dp n)
       (\<lambda>_ st. (if st_eop (rt_objs st n) \<or> st_reset (rt_objs st n)
               then released interest j efd n fd st else settled os interest j efd n fd st) \<and> flow0 sent recv base n st)"
    by simp
qed

theorem echo_in_order_witness:
  "\<exists>st'. on_readable wire_os (simple_server wire_os) 1 wire_reactor = (st', Inr ()) \<and>
     wi_sent (rt_k st') @ contents (io_wbuf (rt_objs st' 1)) = wi_recv (rt_k st')"
  using ensuresD [OF conjunct1 [OF echo_in_order [OF wire_conn_kernel wire_flow_kernel, of "simple_server wire_os" 0 1 7 "[]"]], of wire_reactor]
    wire_reactor_ok by (auto simp: flow_def handled_def)

end
