(* ===== verification/File_Transfer.thy ===== *)
theory File_Transfer
  imports Dataflow Logger
begin

text \<open>
  The file transfer of \<open>src/examples/file_transfer\<close>: a server that answers a line with the file of that
  name and closes, with a cache shared by its threads, and a client that appends what it receives to
  a copy. They are users of the reactor; what they rely on and what they trip over shows what the
  callbacks of the library give to a handler.
\<close>

section \<open>The server\<close>

text \<open>
  The external data of the server, its cache, is part of the state \<open>'k\<close>, next to the kernel:
  \<open>fi_cache\<close> and \<open>fi_store\<close> read and write it. \<open>fi_open\<close> is \<open>open\<close>, with the result -1 on failure, which the
  code does not test. The lock around \<open>lazyload\<close> makes it one step.
\<close>

record 'k files =
  fi_open :: "'k \<Rightarrow> string \<Rightarrow> int \<times> 'k"
  fi_cache :: "'k \<Rightarrow> string \<Rightarrow> nstream option"
  fi_store :: "'k \<Rightarrow> string \<Rightarrow> nstream \<Rightarrow> 'k"

definition chunk_size :: int where "chunk_size = 10485760"

text \<open>The file is read into an \<open>nstream\<close>, whose read buffer is the cached content.\<close>

definition lazyload :: "'k os \<Rightarrow> 'k files \<Rightarrow> string \<Rightarrow> ('k, buffer) act" where
  "lazyload os fs filename st =
     (case fi_cache fs (rt_k st) filename of
        Some iops \<Rightarrow> (st, Inr (io_rbuf iops))
      | None \<Rightarrow>
          (case fi_open fs (rt_k st) filename of (fd, k) \<Rightarrow>
           case nstream_new (os_sys os) k fd of
             (k, Inl e) \<Rightarrow> (st\<lparr>rt_k := k\<rparr>, Inl e)
           | (k, Inr iops) \<Rightarrow>
               (case read_all (os_sys os) k iops chunk_size of
                  None \<Rightarrow> (st, Inl Diverges)
                | Some (k, iops, Inl e) \<Rightarrow> (st\<lparr>rt_k := nio_destroy (os_sys os) k iops\<rparr>, Inl e)
                | Some (k, iops, Inr _) \<Rightarrow>
                    (st\<lparr>rt_k := fi_store fs (px_close (os_sys os) k fd) filename iops\<rparr>, Inr (io_rbuf iops)))))"

text \<open>\<open>iopt->wbuffer().produce(bf->rawbuf(), bf->size())\<close>\<close>

definition wbuf_produce :: "buffer \<Rightarrow> nat \<Rightarrow> ('k, unit) act" where
  "wbuf_produce bf = obj_buf (\<lambda>s.
     rbind (rawbuf bf) (\<lambda>ptr.
     rbind (produce (io_wbuf s) ptr (buf_size bf)) (\<lambda>w. Inr (s\<lparr>io_wbuf := w\<rparr>))))"

text \<open>\<open>get_string(-1, false)\<close> leaves the buffer alone; \<open>filename[filename.size() - 1]\<close> of an empty string is
  out of its bounds.\<close>

definition server_on_read_complete :: "'k os \<Rightarrow> 'k files \<Rightarrow> 'k tp_shared_data \<Rightarrow> nat \<Rightarrow> ('k, unit) act" where
  "server_on_read_complete os fs dp n st =
     (case get_string (io_rbuf (rt_objs st n)) (-1) False of
        Inl e \<Rightarrow> (st, Inl e)
      | Inr (filename, _) \<Rightarrow>
          if filename = [] then (st, Inl (Undefined Out_of_bounds))
          else if last filename \<noteq> CHR 0x0A then (st, Inr ())
          else andthen (rbuf_clear n) (\<lambda>_.
               andthen (lazyload os fs (butlast filename)) (\<lambda>bf.
               andthen (wbuf_produce bf n) (\<lambda>_.
               async_write os dp n))) st)"

definition server_on_write_complete :: "'k os \<Rightarrow> nat \<Rightarrow> ('k, unit) act" where
  "server_on_write_complete os n = safely_close os n"

text \<open>\<open>async_write\<close> finds \<open>on_write_complete\<close> through the loop.\<close>

definition closing_data :: "'k os \<Rightarrow> 'k tp_shared_data" where
  "closing_data os = idle_data\<lparr>on_write_complete := server_on_write_complete os\<rparr>"

definition file_server :: "'k os \<Rightarrow> 'k files \<Rightarrow> 'k tp_shared_data" where
  "file_server os fs = (closing_data os)\<lparr>on_read_complete := server_on_read_complete os fs (closing_data os)\<rparr>"

section \<open>The client\<close>

text \<open>\<open>fdcache\<close>: the stream of the copy of each connection, an object of the program, by descriptor, where
  a null pointer counts as none. \<open>fd_find\<close> and \<open>fd_store\<close> read and write the map, part of \<open>'k\<close> too;
  \<open>fd_tid\<close> is the id of the thread, which with the descriptor names the copy.\<close>

record 'k copies =
  fd_find :: "'k \<Rightarrow> int \<Rightarrow> nat option"
  fd_store :: "'k \<Rightarrow> int \<Rightarrow> nat \<Rightarrow> 'k"
  fd_open :: "'k \<Rightarrow> string \<Rightarrow> (errno + int) \<times> 'k"
  fd_tid :: "'k \<Rightarrow> int"

definition file_name :: string where
  "file_name = ''/tmp/test_cppev_file_transfer_6C0224787A17.file''"

text \<open>Storing a stream drops the one that was stored for the descriptor before, which closes its file.\<close>

definition setfd :: "'k os \<Rightarrow> 'k copies \<Rightarrow> int \<Rightarrow> int \<Rightarrow> ('k, unit) act" where
  "setfd os cs c fd st =
     (case nstream_new (os_sys os) (rt_k st) fd of
        (k, Inl e) \<Rightarrow> (st\<lparr>rt_k := k\<rparr>, Inl e)
      | (k, Inr s) \<Rightarrow>
          andthen (new_obj (of_stream s)) (\<lambda>m st.
            let old = fd_find cs (rt_k st) c; k = fd_store cs (rt_k st) c m in
            (st\<lparr>rt_k := (case old of None \<Rightarrow> k | Some m' \<Rightarrow> nio_destroy (os_sys os) k (rt_objs st m'))\<rparr>, Inr ()))
          (st\<lparr>rt_k := k\<rparr>))"

definition getfd :: "'k copies \<Rightarrow> int \<Rightarrow> ('k, nat) act" where
  "getfd cs c st =
     (st, case fd_find cs (rt_k st) c of None \<Rightarrow> Inl (Undefined Null_deref) | Some m \<Rightarrow> Inr m)"

definition client_on_connect :: "'k os \<Rightarrow> 'k copies \<Rightarrow> nat \<Rightarrow> ('k, unit) act" where
  "client_on_connect os cs n =
     andthen (wbuf_put file_name n) (\<lambda>_.
     andthen (wbuf_put [CHR 0x0A] n) (\<lambda>_.
     andthen (obj_write_all os (os_step os) n) (\<lambda>_ st.
     let c = io_fd (rt_objs st n);
         copy = file_name @ ''.'' @ to_string c @ ''.'' @ to_string (fd_tid cs (rt_k st)) @ ''.copy'' in
     case fd_open cs (rt_k st) copy of
       (Inl e, k) \<Rightarrow> (st\<lparr>rt_k := k\<rparr>, Inl (System_error ''open error'' e))
     | (Inr fd, k) \<Rightarrow> setfd os cs c fd (st\<lparr>rt_k := k\<rparr>))))"

text \<open>\<open>iops->wbuffer().put_string(iopt->rbuffer().get_string())\<close>, then \<open>iops->write_all()\<close>.\<close>

definition pass_on :: "nat \<Rightarrow> nat \<Rightarrow> ('k, unit) act" where
  "pass_on n m st =
     (case get_string (io_rbuf (rt_objs st n)) (-1) True of
        Inl e \<Rightarrow> (st, Inl e)
      | Inr (str, r) \<Rightarrow> wbuf_put str m (st\<lparr>rt_objs := (rt_objs st)(n := (rt_objs st n)\<lparr>io_rbuf := r\<rparr>)\<rparr>))"

definition client_on_read_complete :: "'k os \<Rightarrow> 'k copies \<Rightarrow> nat \<Rightarrow> ('k, unit) act" where
  "client_on_read_complete os cs n =
     andthen (obj_read_all os (os_step os) n) (\<lambda>_ st.
     andthen (getfd cs (io_fd (rt_objs st n))) (\<lambda>m.
     andthen (pass_on n m) (\<lambda>_.
     andthen (obj_write_all os (os_step os) m) (\<lambda>_.
     return ()))) st)"

definition file_client :: "'k os \<Rightarrow> 'k copies \<Rightarrow> 'k tp_shared_data" where
  "file_client os cs = idle_data\<lparr>on_connect := client_on_connect os cs, on_read_complete := client_on_read_complete os cs\<rparr>"

section \<open>A reply\<close>

text \<open>\<open>close\<close> sends nothing, and the kernel stops watching a descriptor that is closed.\<close>

definition close_kernel :: "'k os \<Rightarrow> ('k \<Rightarrow> int \<Rightarrow> 32 word option) \<Rightarrow> ('k \<Rightarrow> char list) \<Rightarrow> bool" where
  "close_kernel os interest sent \<longleftrightarrow>
     (\<forall>k fd. sent (px_close (os_sys os) k fd) = sent k \<and> interest (px_close (os_sys os) k fd) = (interest k)(fd := None))"

text \<open>After its reply a connection is closed, and nothing of it is registered or watched.\<close>

definition ended ::
  "('k \<Rightarrow> int \<Rightarrow> 32 word option) \<Rightarrow> nat \<Rightarrow> int \<Rightarrow> nat \<Rightarrow> int \<Rightarrow> 'k reactor \<Rightarrow> bool"
where
  "ended interest j efd n fd st \<longleftrightarrow>
     (let s = rt_objs st n in
      io_closed s \<and> io_evlp s = Some j \<and> io_fd s = fd \<and> buf_ok (io_rbuf s) \<and>
      el_fd (rt_loops st j) = efd \<and> regs_of j fd st = [] \<and> interest (rt_k st) fd = None)"

definition replied ::
  "'k os \<Rightarrow> ('k \<Rightarrow> int \<Rightarrow> 32 word option) \<Rightarrow> nat \<Rightarrow> int \<Rightarrow> nat \<Rightarrow> int \<Rightarrow> 'k reactor \<Rightarrow> bool"
where
  "replied os interest j efd n fd st \<longleftrightarrow>
     (if drained n st then ended interest j efd n fd st else settled os interest j efd n fd st)"

lemma ensures_close:
  assumes ck: "close_kernel os interest sent" and valid: "fd \<noteq> -1"
  shows "ensures (\<lambda>st. \<exists>m. conn interest j efd n fd rs m st \<and> drained n st) (safely_close os n)
     (\<lambda>_ st. ended interest j efd n fd st \<and> drained n st)"
proof (rule ensuresI)
  fix st
  assume "\<exists>m. conn interest j efd n fd rs m st \<and> drained n st"
  then obtain m where c: "conn interest j efd n fd rs m st" and d: "drained n st" by blast
  have e: "conn interest j efd n fd [] m (erased j fd st)" "io_fd (rt_objs st n) = fd"
    using conn_erased [OF c] c by (simp_all add: conn_def Let_def)
  let ?st = "(erased j fd st)\<lparr>rt_k := px_close (os_sys os) (rt_k st) fd, rt_objs := (rt_objs st)(n := (rt_objs st n)\<lparr>io_closed := True\<rparr>)\<rparr>"
  have "safely_close os n st = (?st, Inr ())"
    using e c by (simp add: safely_close_def evlp_remove_def andthen_def conn_evlp [OF c] loop_remove_eq nio_close_def erased_def valid)
  moreover have "ended interest j efd n fd ?st"
    using e ck by (simp add: ended_def conn_def Let_def regs_of_def close_kernel_def erased_def)
  ultimately show "\<exists>st' x. safely_close os n st = (st', Inr x) \<and> ended interest j efd n fd st' \<and> drained n st'"
    using d by (simp add: drained_def)
qed

lemma flow_close:
  assumes ck: "close_kernel os interest sent" and f: "flow_kernel os sent (\<lambda>_. [])"
  shows "results (flow0 sent (\<lambda>_. []) base n) (safely_close os n) (\<lambda>_. flow0 sent (\<lambda>_. []) base n)"
proof -
  have "results (flow0 sent (\<lambda>_. []) base n)
      (\<lambda>st. case nio_close (os_sys os) (rt_k st) (rt_objs st n) of (k, s) \<Rightarrow> (st\<lparr>rt_k := k, rt_objs := (rt_objs st)(n := s)\<rparr>, Inr ()))
      (\<lambda>_. flow0 sent (\<lambda>_. []) base n)"
    using ck by (intro resultsI) (auto simp: nio_close_def flow_def handled_def close_kernel_def split: if_splits)
  then show ?thesis
    unfolding safely_close_def by (rule results_andthen [OF flow_evlp_remove [OF f]])
qed

lemma closing_data_simps: "on_write_complete (closing_data os) = safely_close os" "on_closed (closing_data os) = idle_handler"
  by (simp_all add: closing_data_def server_on_write_complete_def fun_eq_iff idle_data_def)

lemma ensures_reply:
  assumes k: "conn_kernel os efd interest fd sent recv pend intr" and f: "flow_kernel os sent (\<lambda>_. [])"
    and ck: "close_kernel os interest sent" and valid: "fd \<noteq> -1"
  shows "ensures (\<lambda>st. conn interest j efd n fd io_regs (Some (ep_in (os_ep os))) st \<and> flow0 sent (\<lambda>_. []) base n st)
     (async_write os (closing_data os) n)
     (\<lambda>_ st. replied os interest j efd n fd st \<and> flow0 sent (\<lambda>_. []) base n st)"
proof -
  let ?c = "conn interest j efd n fd io_regs (Some (ep_in (os_ep os)))"
  have "ensures (\<lambda>st. settled os interest j efd n fd st \<and> drained n st) (safely_close os n) (\<lambda>_. replied os interest j efd n fd)"
    by (rule ensures_weaken [OF ensures_close [OF ck valid, where rs = io_regs and j = j and efd = efd and n = n]]) (auto simp: settled_def replied_def)
  then have "ensures ?c (async_write os (closing_data os) n) (\<lambda>_. replied os interest j efd n fd)"
    by (intro ensures_async_write_to [OF k]) (simp_all add: closing_data_simps replied_def)
  moreover have "results (\<lambda>st. ?c st \<and> flow0 sent (\<lambda>_. []) base n st) (async_write os (closing_data os) n) (\<lambda>_. flow0 sent (\<lambda>_. []) base n)"
    by (rule flow_async_write [OF k f]) (simp add: closing_data_simps flow_close [OF ck f])
  ultimately show ?thesis
    using ensures_results by (fastforce elim: ensures_weaken)
qed

text \<open>A reply that a cached file fills.\<close>

lemma produce_ok:
  assumes "buf_ok w" and "buf_ok b" and room: "b_offset w + int (length (contents b)) \<le> 1073741824"
  shows "\<exists>ptr w'. rawbuf b = Inr ptr \<and> produce w ptr (buf_size b) = Inr w' \<and> buf_ok w' \<and> contents w' = contents w @ contents b"
proof -
  obtain pre z where sh: "buf_shape w pre (contents w) z"
    using assms(1) by (rule buf_ok_shape)
  let ?ptr = "contents b @ replicate (nat (b_cap b - b_offset b)) NUL"
  obtain w' pre' z' where w': "produce w ?ptr (int (length (contents b))) = Inr w'"
      "buf_shape w' pre' (contents w @ take (length (contents b)) ?ptr) z'"
    using produce_shape [OF sh _ room, of ?ptr] by auto
  then show ?thesis
    using rawbuf_ok [OF assms(2)] buf_ok_size [OF assms(2)] by (auto simp: buf_shape_contents intro: buf_shape_ok)
qed

lemma lazyload_cached: "fi_cache fs (rt_k st) name = Some s \<Longrightarrow> lazyload os fs name st = (st, Inr (io_rbuf s))"
  by (simp add: lazyload_def)

section \<open>The callback\<close>

text \<open>What the read saw of the end of the stream, nothing after it changes.\<close>

lemma eof_register: "results (\<lambda>st. st_eof (rt_objs st n) = b) (evlp_register os n ev cb activate) (\<lambda>_ st. st_eof (rt_objs st n) = b)"
  unfolding evlp_register_def
  by (rule flow_at_loop)
    (auto intro!: resultsI simp: loop_register_eq registered_def set_evlp_def Let_def split: if_splits option.splits prod.splits)

lemma eof_remove: "results (\<lambda>st. st_eof (rt_objs st n) = b) (evlp_remove os n clean deactivate) (\<lambda>_ st. st_eof (rt_objs st n) = b)"
  unfolding evlp_remove_def
  by (rule flow_at_loop)
    (auto intro!: resultsI simp: loop_remove_eq erased_def Let_def split: if_splits option.splits prod.splits)

lemma eof_close: "results (\<lambda>st. st_eof (rt_objs st n) = b) (safely_close os n) (\<lambda>_ st. st_eof (rt_objs st n) = b)"
  unfolding safely_close_def
  by (rule results_andthen [OF eof_remove]) (auto intro!: resultsI simp: nio_close_def split: if_splits)

lemma eof_write:
  assumes k: "conn_kernel os efd interest fd sent recv pend intr"
  shows "results (\<lambda>st. conn interest j efd n fd rs m st \<and> st_eof (rt_objs st n) = b) (obj_write_all os (os_step os) n)
     (\<lambda>_ st. st_eof (rt_objs st n) = b)"
proof (rule resultsI)
  fix st st' x
  assume p: "conn interest j efd n fd rs m st \<and> st_eof (rt_objs st n) = b" and run: "obj_write_all os (os_step os) n st = (st', Inr x)"
  let ?s = "rt_objs st n"
  have "io_fd ?s = fd" "buf_ok (io_wbuf ?s)"
    using p by (simp_all add: conn_def Let_def)
  then show "st_eof (rt_objs st' n) = b"
    using obj_write_all_ok [of os ?s sent intr st n "os_step os" interest] k run p
    unfolding conn_kernel_def tx_frame_def by fastforce
qed

lemma eof_reply:
  assumes k: "conn_kernel os efd interest fd sent recv pend intr"
  shows "results (\<lambda>st. conn interest j efd n fd rs m st \<and> st_eof (rt_objs st n) = b) (async_write os (closing_data os) n)
     (\<lambda>_ st. st_eof (rt_objs st n) = b)"
  unfolding async_write_def closing_data_simps
  by (rule flow_at_loop, rule results_andthen [OF eof_write [OF k]], rule results_if [OF eof_close],
      rule results_andthen [OF eof_remove eof_register])

text \<open>A file is read once: what was loaded is found by the next request, without a call of the system.\<close>

lemma lazyload_once:
  assumes store: "\<And>k s. fi_cache fs (fi_store fs k name s) name = Some s"
    and load: "lazyload os fs name st = (st', Inr b)"
  shows "lazyload os fs name st' = (st', Inr b)"
  using load store by (auto simp: lazyload_def split: option.splits prod.splits sum.splits)

lemma server_reply:
  assumes k: "conn_kernel os efd interest fd sent recv pend intr" and f: "flow_kernel os sent (\<lambda>_. [])"
    and ck: "close_kernel os interest sent" and valid: "fd \<noteq> -1"
    and c: "conn interest j efd n fd io_regs (Some (ep_in (os_ep os))) st" and d: "drained n st"
    and req: "contents (io_rbuf (rt_objs st n)) = name @ [CHR 0x0A]"
    and cached: "fi_cache fs (rt_k st) name = Some s" "buf_ok (io_rbuf s)"
    and room: "b_offset (io_wbuf (rt_objs st n)) + int (length (contents (io_rbuf s))) \<le> 1073741824"
  shows "\<exists>st'. server_on_read_complete os fs (closing_data os) n st = (st', Inr ()) \<and>
           sent (rt_k st') @ contents (io_wbuf (rt_objs st' n)) = sent (rt_k st) @ contents (io_rbuf s) \<and>
           replied os interest j efd n fd st' \<and> st_eof (rt_objs st' n) = st_eof (rt_objs st n)"
proof -
  let ?s = "rt_objs st n"
  let ?c = "conn interest j efd n fd io_regs (Some (ep_in (os_ep os)))"
  have ok: "buf_ok (io_rbuf ?s)" "buf_ok (io_wbuf ?s)"
    using c by (simp_all add: conn_def Let_def)
  have name: "get_string (io_rbuf ?s) (-1) False = Inr (name @ [CHR 0x0A], io_rbuf ?s)"
    using make_string_ok [OF ok(1) order_refl] req by (simp add: get_string_all [OF ok(1)]) (simp add: get_string_def)
  obtain b where b: "clear (io_rbuf ?s) = Inr b" "buf_ok b"
    using clear_ok [OF ok(1)] by blast
  obtain ptr w where w: "rawbuf (io_rbuf s) = Inr ptr" "produce (io_wbuf ?s) ptr (buf_size (io_rbuf s)) = Inr w" "buf_ok w"
      "contents w = contents (io_wbuf ?s) @ contents (io_rbuf s)"
    using produce_ok [OF ok(2) cached(2) room] by blast
  let ?st1 = "st\<lparr>rt_objs := (rt_objs st)(n := ?s\<lparr>io_rbuf := b\<rparr>)\<rparr>"
  let ?st2 = "st\<lparr>rt_objs := (rt_objs st)(n := ?s\<lparr>io_rbuf := b, io_wbuf := w\<rparr>)\<rparr>"
  have clr: "rbuf_clear n st = (?st1, Inr ())"
    using b(1) by (simp add: rbuf_clear_def obj_buf_def)
  have put: "wbuf_produce (io_rbuf s) n ?st1 = (?st2, Inr ())"
    using w(1,2) by (simp add: wbuf_produce_def obj_buf_def)
  have run: "server_on_read_complete os fs (closing_data os) n st = async_write os (closing_data os) n ?st2"
    using name clr put lazyload_cached [of fs ?st1 name s os] cached(1) by (simp add: server_on_read_complete_def andthen_def)
  have "?c ?st2"
    using c b(2) w(3) by (intro conn_obj) (simp_all add: conn_def Let_def)
  moreover have "flow0 sent (\<lambda>_. []) (sent (rt_k st) @ contents (io_rbuf s)) n ?st2"
    using d w(4) clear_contents [OF b(1)] by (simp add: flow_def handled_def drained_def)
  ultimately obtain st' where "async_write os (closing_data os) n ?st2 = (st', Inr ())"
      "replied os interest j efd n fd st'" "flow0 sent (\<lambda>_. []) (sent (rt_k st) @ contents (io_rbuf s)) n st'"
    using ensuresD [OF ensures_reply [OF k f ck valid, of j n]] by fastforce
  moreover from this(1) have "st_eof (rt_objs st' n) = st_eof (rt_objs ?st2 n)"
    by (rule resultsD [OF eof_reply [OF k], rotated]) (use \<open>?c ?st2\<close> in simp)
  ultimately show ?thesis
    using run by (auto simp: flow_def handled_def)
qed

lemma sent_remove:
  assumes f: "flow_kernel os sent recv"
  shows "results (\<lambda>st. sent (rt_k st) = b) (evlp_remove os n clean deactivate) (\<lambda>_ st. sent (rt_k st) = b)"
  unfolding evlp_remove_def
  by (rule flow_at_loop)
    (auto intro!: resultsI simp: loop_remove_eq erased_def Let_def dest!: flow_ep(2) [OF f] split: if_splits option.splits prod.splits)

lemma remove_ended:
  assumes "ep_kernel (os_ep os) efd interest" and "ended interest j efd n fd st"
  shows "evlp_remove os n True True st = (st, Inl (System_error ''epoll_ctl del error'' ENOENT))"
proof -
  have i: "interest (rt_k st) fd = None" "io_fd (rt_objs st n) = fd" "el_fd (rt_loops st j) = efd" "evlp_of n st = (st, Inr j)"
    using assms(2) by (simp_all add: ended_def Let_def evlp_of_def)
  show ?thesis
    using ep_kernel_None(2) [OF assms(1) i(1)] i by (simp add: evlp_remove_def andthen_def loop_remove_eq)
qed

lemma clear_replied:
  assumes "replied os interest j efd n fd st"
  shows "\<exists>st'. rbuf_clear n st = (st', Inr ()) \<and> replied os interest j efd n fd st' \<and> drained n st' = drained n st \<and>
           rt_k st' = rt_k st \<and> io_wbuf (rt_objs st' n) = io_wbuf (rt_objs st n) \<and> stream_flags n st' = stream_flags n st"
proof -
  let ?s = "rt_objs st n"
  have ok: "buf_ok (io_rbuf ?s)"
    using assms by (auto simp: replied_def ended_def settled_def conn_def Let_def split: if_splits)
  obtain b where b: "clear (io_rbuf ?s) = Inr b" "buf_ok b"
    using clear_ok [OF ok] by blast
  let ?st = "st\<lparr>rt_objs := (rt_objs st)(n := ?s\<lparr>io_rbuf := b\<rparr>)\<rparr>"
  have d: "drained n ?st = drained n st" by (simp add: drained_def)
  have "settled os interest j efd n fd ?st" if "\<not> drained n st"
    using assms b(2) that unfolding replied_def settled_def d
    by (simp add: if_False) (rule conn_obj, simp_all add: conn_def Let_def)
  moreover have "ended interest j efd n fd ?st" if "drained n st"
    using assms b(2) that by (simp add: replied_def ended_def Let_def regs_of_def)
  ultimately have "replied os interest j efd n fd ?st"
    by (simp add: replied_def d)
  moreover have "rbuf_clear n st = (?st, Inr ())"
    using b(1) by (simp add: rbuf_clear_def obj_buf_def)
  ultimately show ?thesis
    using d by (auto simp: stream_flags_def)
qed

text \<open>The whole read callback: what it does with the connection when the peer is gone, and otherwise.\<close>

definition served ::
  "'k os \<Rightarrow> ('k \<Rightarrow> int \<Rightarrow> 32 word option) \<Rightarrow> nat \<Rightarrow> int \<Rightarrow> nat \<Rightarrow> int \<Rightarrow> 'k reactor \<times> unit res \<Rightarrow> bool"
where
  "served os interest j efd n fd y \<longleftrightarrow>
     (let st = fst y in
      if \<not> st_eof (rt_objs st n) \<and> \<not> st_reset (rt_objs st n) then snd y = Inr () \<and> replied os interest j efd n fd st
      else if drained n st then snd y = Inl (System_error ''epoll_ctl del error'' ENOENT) \<and> ended interest j efd n fd st
      else snd y = Inr () \<and> released interest j efd n fd st)"

lemma serve_end:
  assumes k: "conn_kernel os efd interest fd sent recv pend intr" and f: "flow_kernel os sent (\<lambda>_. [])"
    and r: "replied os interest j efd n fd st"
  shows "\<exists>st' r. (\<lambda>st. if st_eof (rt_objs st n) \<or> st_reset (rt_objs st n)
             then andthen (idle_handler n) (\<lambda>_. evlp_remove os n True True) st else (st, Inr ())) st = (st', r) \<and>
           served os interest j efd n fd (st', r) \<and> sent (rt_k st') = sent (rt_k st) \<and>
           io_wbuf (rt_objs st' n) = io_wbuf (rt_objs st n) \<and> stream_flags n st' = stream_flags n st"
proof -
  have ep: "ep_kernel (os_ep os) efd interest"
    using k by (simp add: conn_kernel_def)
  let ?gone = "st_eof (rt_objs st n) \<or> st_reset (rt_objs st n)"
  consider "\<not> ?gone" | "?gone" "drained n st" | "?gone" "\<not> drained n st" by blast
  then show ?thesis
  proof cases
    case 1
    then show ?thesis using r by (simp add: served_def)
  next
    case 2
    then have e: "ended interest j efd n fd st" using r by (simp add: replied_def)
    show ?thesis
      using 2 e remove_ended [OF ep e] by (simp add: served_def andthen_def idle_handler_def)
  next
    case 3
    let ?V = "\<lambda>s. io_wbuf s = io_wbuf (rt_objs st n) \<and> (st_eof s, st_eop s, st_reset s) = stream_flags n st"
    have c: "\<exists>m. conn interest j efd n fd io_regs (Some m) st"
      using 3 r by (auto simp: replied_def settled_def)
    have V: "?V (view n st)" by (simp add: view_def stream_flags_def)
    obtain st' where st': "evlp_remove os n True True st = (st', Inr ())" "conn interest j efd n fd [] None st'" "?V (view n st')"
      using ensuresD [OF ensures_remove [OF ep, where V = ?V and clean = True and rs = io_regs]] c V by fastforce
    have "sent (rt_k st') = sent (rt_k st)"
      using resultsD [OF sent_remove [OF f] refl st'(1)] .
    with 3 st' show ?thesis
      by (auto simp: served_def andthen_def idle_handler_def released_def view_def stream_flags_def drained_def)
  qed
qed


lemma settled_read:
  assumes k: "conn_kernel os efd interest fd sent recv pend intr"
    and st: "settled os interest j efd n fd st" "drained n st" "has_room os pend n st"
  shows "\<exists>st1 c. obj_read_all os (os_step os) n st = (st1, Inr c) \<and>
           conn interest j efd n fd io_regs (Some (ep_in (os_ep os))) st1 \<and> drained n st1"
  using ensuresD [OF ensures_read [OF k, of j n io_regs "Some (ep_in (os_ep os))" False], of st] st by (simp add: settled_def)

lemma serve_request:
  assumes k: "conn_kernel os efd interest fd sent recv pend intr" and f: "flow_kernel os sent (\<lambda>_. [])"
    and ck: "close_kernel os interest sent" and valid: "fd \<noteq> -1"
    and st: "settled os interest j efd n fd st" "drained n st" "has_room os pend n st"
    and read: "obj_read_all os (os_step os) n st = (st1, Inr c)" "contents (io_rbuf (rt_objs st1 n)) = name @ [CHR 0x0A]"
    and cached: "fi_cache fs (rt_k st1) name = Some s" "buf_ok (io_rbuf s)"
    and room: "b_offset (io_wbuf (rt_objs st1 n)) + int (length (contents (io_rbuf s))) \<le> 1073741824"
  shows "\<exists>st' r. on_readable os (file_server os fs) n st = (st', r) \<and> served os interest j efd n fd (st', r) \<and>
           sent (rt_k st') @ contents (io_wbuf (rt_objs st' n)) = sent (rt_k st1) @ contents (io_rbuf s) \<and>
           st_eof (rt_objs st' n) = st_eof (rt_objs st1 n)"
proof -
  let ?c = "conn interest j efd n fd io_regs (Some (ep_in (os_ep os)))"
  have c: "?c st" using st(1,2) by (simp add: settled_def)
  have c1: "?c st1" "drained n st1"
    using settled_read [OF k st] read(1) by auto
  obtain st2 where st2: "server_on_read_complete os fs (closing_data os) n st1 = (st2, Inr ())"
      "sent (rt_k st2) @ contents (io_wbuf (rt_objs st2 n)) = sent (rt_k st1) @ contents (io_rbuf s)"
      "replied os interest j efd n fd st2" "st_eof (rt_objs st2 n) = st_eof (rt_objs st1 n)"
    using server_reply [OF k f ck valid c1 read(2) cached room] by blast
  obtain st3 where st3: "rbuf_clear n st2 = (st3, Inr ())" "replied os interest j efd n fd st3" "rt_k st3 = rt_k st2"
      "io_wbuf (rt_objs st3 n) = io_wbuf (rt_objs st2 n)" "stream_flags n st3 = stream_flags n st2"
    using clear_replied [OF st2(3)] by blast
  obtain st' r where fin: "(\<lambda>st. if st_eof (rt_objs st n) \<or> st_reset (rt_objs st n)
        then andthen (idle_handler n) (\<lambda>_. evlp_remove os n True True) st else (st, Inr ())) st3 = (st', r)"
      "served os interest j efd n fd (st', r)" "sent (rt_k st') = sent (rt_k st3)"
      "io_wbuf (rt_objs st' n) = io_wbuf (rt_objs st3 n)" "stream_flags n st' = stream_flags n st3"
    using serve_end [OF k f st3(2)] by blast
  have cast: "cast_tcp n st = (st, Inr (the (tcp_of (rt_objs st n))))"
    using c by (auto simp: cast_tcp_def tcp_of_def conn_def Let_def)
  have dp: "on_read_complete (file_server os fs) = server_on_read_complete os fs (closing_data os)"
      "on_closed (file_server os fs) = idle_handler"
    by (simp_all add: file_server_def closing_data_simps)
  have "on_readable os (file_server os fs) n st = (st', r)"
    unfolding on_readable_def dp using cast conn_evlp [OF c] read(1) st2(1) st3(1) fin(1) by (simp add: andthen_def)
  moreover have "st_eof (rt_objs st' n) = st_eof (rt_objs st1 n)"
    using fin(5) st3(5) st2(4) by (simp add: stream_flags_def)
  ultimately show ?thesis
    using fin(2-4) st3(3,4) st2(2) by auto
qed


section \<open>The copy\<close>

text \<open>A file takes bytes like a stream; reading from the connection does not touch it, nor the map of
  copies, and writing to it does not touch the connection.\<close>

definition copy_kernel ::
  "'k os \<Rightarrow> 'k copies \<Rightarrow> int \<Rightarrow> ('k \<Rightarrow> char list) \<Rightarrow> ('k \<Rightarrow> char list) \<Rightarrow> ('k \<Rightarrow> nat) \<Rightarrow> bool"
where
  "copy_kernel os cs fd written recv intr \<longleftrightarrow>
     tx_kernel (os_sys os) fd written intr \<and> wr_keeps recv (os_sys os) \<and>
     rd_keeps (\<lambda>k. (written k, fd_find cs k)) (os_sys os) \<and>
     (\<forall>k bs e k'. px_write (os_sys os) k fd bs = (Inl e, k') \<longrightarrow> e \<in> {EINTR, EAGAIN, EWOULDBLOCK, EPIPE, ECONNRESET})"

lemma pass_on_ok:
  assumes "n \<noteq> m" and "buf_ok (io_rbuf (rt_objs st n))" and "buf_ok (io_wbuf (rt_objs st m))"
    and "b_offset (io_wbuf (rt_objs st m)) + int (length (contents (io_rbuf (rt_objs st n)))) \<le> 1073741824"
  shows "\<exists>r w. pass_on n m st = (st\<lparr>rt_objs := (rt_objs st)(n := (rt_objs st n)\<lparr>io_rbuf := r\<rparr>, m := (rt_objs st m)\<lparr>io_wbuf := w\<rparr>)\<rparr>, Inr ()) \<and>
           contents r = [] \<and> buf_ok w \<and> contents w = contents (io_wbuf (rt_objs st m)) @ contents (io_rbuf (rt_objs st n))"
proof -
  let ?r = "io_rbuf (rt_objs st n)" and ?w = "io_wbuf (rt_objs st m)"
  obtain r where "get_string ?r (-1) True = Inr (contents ?r, r)" "contents r = []"
    using get_string_ok [OF assms(2) order_refl] by (auto simp: get_string_all [OF assms(2)])
  moreover obtain w where "put_string ?w (contents ?r) = Inr w" "buf_ok w" "contents w = contents ?w @ contents ?r"
    using put_string_ok [OF assms(3,4)] by blast
  ultimately show ?thesis
    using assms(1) by (auto simp: pass_on_def wbuf_put_def obj_buf_def)
qed

lemma client_copies:
  assumes k: "conn_kernel os efd interest fd sent recv pend intr" and ck: "copy_kernel os cs (io_fd (rt_objs st m)) written recv intr'"
    and c: "conn interest j efd n fd rs w st" and m: "n \<noteq> m" "fd_find cs (rt_k st) fd = Some m" "buf_ok (io_wbuf (rt_objs st m))"
    and room: "has_room os pend n st"
      "b_offset (io_wbuf (rt_objs st m)) + int (length (contents (io_rbuf (rt_objs st n)))) + int (pend (rt_k st)) \<le> 1073741824"
  shows "\<exists>st' bs. client_on_read_complete os cs n st = (st', Inr ()) \<and> recv (rt_k st') = recv (rt_k st) @ bs \<and>
           written (rt_k st') @ contents (io_wbuf (rt_objs st' m)) =
             written (rt_k st) @ contents (io_wbuf (rt_objs st m)) @ contents (io_rbuf (rt_objs st n)) @ bs \<and>
           handled n st'"
proof -
  let ?s = "rt_objs st n"
  have s: "io_fd ?s = fd" "buf_ok (io_rbuf ?s)"
    using c by (simp_all add: conn_def Let_def)
  have rx: "rx_kernel (os_sys os) (io_fd ?s) recv pend intr" "0 < os_step os"
      "b_offset (io_rbuf ?s) + int (pend (rt_k st)) + os_step os \<le> 1073741824"
    using k room(1) s(1) by (simp_all add: conn_kernel_def has_room_def)
  obtain k' s' bs r where run: "read_all (os_sys os) (rt_k st) ?s (os_step os) = Some (k', s', io_count (length bs) r)"
    and o: "rx_outcome (os_sys os) (io_fd ?s) recv pend intr (rt_k st) ?s (int (pend (rt_k st)) + os_step os) k' s' bs r"
    using read_all_outcome [OF rx(1) s(2) rx(2,3)] by blast
  have post: "buf_ok (io_rbuf s')" "rx_frame ?s s'" "contents (io_rbuf s') = contents (io_rbuf ?s) @ bs"
      "recv k' = recv (rt_k st) @ bs" "length bs \<le> pend (rt_k st)"
    using o unfolding rx_outcome_def by auto
  have keep: "written k' = written (rt_k st)" "fd_find cs k' = fd_find cs (rt_k st)"
    using read_all_keeps [OF run, of "\<lambda>k. (written k, fd_find cs k)"] ck by (simp_all add: copy_kernel_def)
  obtain k2 s2 x where "obj_read_all os (os_step os) n st = (st\<lparr>rt_k := k2, rt_objs := (rt_objs st)(n := s2)\<rparr>, Inr x)"
    using obj_read_all_ok [OF rx(1) refl s(2) rx(2,3), of interest] k s(1) unfolding conn_kernel_def by metis
  then have read: "obj_read_all os (os_step os) n st = (st\<lparr>rt_k := k', rt_objs := (rt_objs st)(n := s')\<rparr>, Inr x)"
    using run by (simp add: obj_read_all_def obj_io_def)
  let ?st1 = "st\<lparr>rt_k := k', rt_objs := (rt_objs st)(n := s')\<rparr>"
  have fd: "io_fd (rt_objs ?st1 n) = fd" using post(2) s(1) by (simp add: rx_frame_def)
  have "\<exists>r w. pass_on n m ?st1 = (?st1\<lparr>rt_objs := (rt_objs ?st1)(n := (rt_objs ?st1 n)\<lparr>io_rbuf := r\<rparr>, m := (rt_objs ?st1 m)\<lparr>io_wbuf := w\<rparr>)\<rparr>, Inr ()) \<and>
           contents r = [] \<and> buf_ok w \<and> contents w = contents (io_wbuf (rt_objs ?st1 m)) @ contents (io_rbuf (rt_objs ?st1 n))"
    using m post room(2) by (intro pass_on_ok) simp_all
  then obtain r w where pass: "pass_on n m ?st1 = (?st1\<lparr>rt_objs := (rt_objs ?st1)(n := (rt_objs ?st1 n)\<lparr>io_rbuf := r\<rparr>, m := (rt_objs ?st1 m)\<lparr>io_wbuf := w\<rparr>)\<rparr>, Inr ())"
      "contents r = []" "buf_ok w" "contents w = contents (io_wbuf (rt_objs ?st1 m)) @ contents (io_rbuf (rt_objs ?st1 n))"
    by blast
  let ?st2 = "?st1\<lparr>rt_objs := (rt_objs ?st1)(n := (rt_objs ?st1 n)\<lparr>io_rbuf := r\<rparr>, m := (rt_objs ?st1 m)\<lparr>io_wbuf := w\<rparr>)\<rparr>"
  have tx: "tx_kernel (os_sys os) (io_fd (rt_objs ?st2 m)) written intr'" "buf_ok (io_wbuf (rt_objs ?st2 m))" "wr_keeps recv (os_sys os)"
      "\<And>k bs e k'. px_write (os_sys os) k (io_fd (rt_objs ?st2 m)) bs = (Inl e, k') \<Longrightarrow> e \<in> {EINTR, EAGAIN, EWOULDBLOCK, EPIPE, ECONNRESET}"
    using ck m(1) pass(3) unfolding copy_kernel_def by auto
  obtain k3 s3 y where wr: "obj_write_all os (os_step os) m ?st2 = (?st2\<lparr>rt_k := k3, rt_objs := (rt_objs ?st2)(m := s3)\<rparr>, Inr y)"
      "written k3 @ contents (io_wbuf s3) = written (rt_k ?st2) @ contents (io_wbuf (rt_objs ?st2 m))" "recv k3 = recv (rt_k ?st2)"
    using obj_write_all_ok [OF tx(1) refl tx(2) rx(2) tx(4) tx(3), of "\<lambda>k bs e k'. k" "\<lambda>k bs e k'. bs" "\<lambda>k bs e k'. k'"] by blast
  have "client_on_read_complete os cs n st = (?st2\<lparr>rt_k := k3, rt_objs := (rt_objs ?st2)(m := s3)\<rparr>, Inr ())"
    using read fd keep(2) m(2) pass(1) wr(1)
    by (simp only: client_on_read_complete_def andthen_def getfd_def return_def prod.case sum.case) simp
  then show ?thesis
    using wr(2,3) pass(2,4) keep(1) post(3,4) m(1) by (auto simp: handled_def)
qed

section \<open>A server with one cached file\<close>

definition wire_files :: "wire files" where
  "wire_files = \<lparr>fi_open = (\<lambda>k name. (-1, k)),
     fi_cache = (\<lambda>k name. if name = ''ab'' then Some (nstream.truncate sample_obj) else None), fi_store = (\<lambda>k name s. k)\<rparr>"

text \<open>The peer has sent \<open>bs\<close> and, when \<open>eof\<close>, closed its side; the socket takes \<open>room\<close> bytes.\<close>

definition wire_request :: "char list \<Rightarrow> bool \<Rightarrow> nat \<Rightarrow> wire reactor" where
  "wire_request bs eof room = wire_reactor\<lparr>rt_k := (rt_k wire_reactor)\<lparr>wi_in := bs, wi_eof := eof, wi_room := room\<rparr>\<rparr>"

lemma wire_request_ok:
  assumes "length bs \<le> 6"
  shows "settled wire_os wi_watch 0 100 1 7 (wire_request bs eof room)" "drained 1 (wire_request bs eof room)"
    "has_room wire_os (\<lambda>k. length (wi_in k)) 1 (wire_request bs eof room)"
proof -
  show d: "drained 1 (wire_request bs eof room)"
    using wire_reactor_ok(2) by (simp add: drained_def wire_request_def)
  have "conn wi_watch 0 100 1 7 io_regs (Some 1) wire_reactor"
    using wire_reactor_ok(1,2) by (simp add: settled_def wire_os_def wire_ep_def)
  then have "conn wi_watch 0 100 1 7 io_regs (Some 1) (wire_request bs eof room)"
    unfolding wire_request_def by (rule conn_kernel_step) (simp add: wire_reactor_def)
  with d show "settled wire_os wi_watch 0 100 1 7 (wire_request bs eof room)"
    by (simp add: settled_def wire_os_def wire_ep_def)
  show "has_room wire_os (\<lambda>k. length (wi_in k)) 1 (wire_request bs eof room)"
    using assms by (simp add: has_room_def wire_request_def wire_os_def wire_reactor_def sample_obj_def empty_buffer_def)
qed

lemma wire_kernels:
  "flow_kernel wire_os wi_sent (\<lambda>_. [])" "close_kernel wire_os wi_watch wi_sent"
  using wire_flow_kernel by (auto simp: flow_kernel_def wr_keeps_def close_kernel_def wire_os_def wire_sys_def)

text \<open>The loops of the streams compute by their equations.\<close>

declare read_loop.simps [code] read_all_loop.simps [code] write_loop.simps [code] write_all_loop.simps [code]

lemma wire_request_read:
  assumes "length bs \<le> 6"
  shows "\<exists>c. obj_read_all wire_os (os_step wire_os) 1 (wire_request bs eof room) =
           (fst (obj_read_all wire_os 4 1 (wire_request bs eof room)), Inr c)"
proof -
  let ?st = "wire_request bs eof room"
  have step: "os_step wire_os = 4" by (simp add: wire_os_def)
  have "\<exists>st1 c. obj_read_all wire_os (os_step wire_os) 1 ?st = (st1, Inr c)"
    using settled_read [OF wire_conn_kernel wire_request_ok [OF assms]] by blast
  then show ?thesis unfolding step by (metis fst_conv)
qed

lemma wire_request_cached:
  "fi_cache wire_files k ''ab'' = Some (nstream.truncate sample_obj)" "buf_ok (io_rbuf (nstream.truncate sample_obj))"
  "contents (io_rbuf (nstream.truncate sample_obj)) = ''ab''"
  by (simp add: wire_files_def) code_simp+

text \<open>A client with its connection, object 1, and the copy, object 2 on descriptor 8.\<close>

definition wire_copies :: "wire copies" where
  "wire_copies = \<lparr>fd_find = (\<lambda>k fd. if fd = 7 then Some 2 else None), fd_store = (\<lambda>k fd m. k), fd_open = (\<lambda>k name. (Inr 8, k)),
     fd_tid = (\<lambda>_. 1)\<rparr>"

definition wire_client :: "wire reactor" where
  "wire_client = wire_reactor\<lparr>rt_objs := (rt_objs wire_reactor)(2 := (rt_objs wire_reactor 2)\<lparr>io_fd := 8\<rparr>)\<rparr>"

lemma wire_client_ok:
  "conn wi_watch 0 100 1 7 io_regs (Some 1) wire_client" "fd_find wire_copies (rt_k wire_client) 7 = Some 2"
  "buf_ok (io_wbuf (rt_objs wire_client 2))" "has_room wire_os (\<lambda>k. length (wi_in k)) 1 wire_client"
  "b_offset (io_wbuf (rt_objs wire_client 2)) + int (length (contents (io_rbuf (rt_objs wire_client 1)))) +
     int (length (wi_in (rt_k wire_client))) \<le> 1073741824"
proof -
  have "conn wi_watch 0 100 1 7 io_regs (Some 1) wire_reactor"
    using wire_reactor_ok(1,2) by (simp add: settled_def wire_os_def wire_ep_def)
  then show "conn wi_watch 0 100 1 7 io_regs (Some 1) wire_client"
    by (simp add: conn_def wire_client_def regs_of_def fresh_code_def Let_def)
  show "fd_find wire_copies (rt_k wire_client) 7 = Some 2"
    by (simp add: wire_copies_def)
  show "buf_ok (io_wbuf (rt_objs wire_client 2))"
    using empty_buffer_ok by (simp add: wire_client_def wire_reactor_def sample_obj_def)
  show "has_room wire_os (\<lambda>k. length (wi_in k)) 1 wire_client"
    by (simp add: has_room_def wire_client_def wire_os_def wire_reactor_def sample_obj_def empty_buffer_def)
  show "b_offset (io_wbuf (rt_objs wire_client 2)) + int (length (contents (io_rbuf (rt_objs wire_client 1)))) +
      int (length (wi_in (rt_k wire_client))) \<le> 1073741824"
    using empty_buffer_ok(2) by (simp add: wire_client_def wire_reactor_def sample_obj_def) (simp add: empty_buffer_def)
qed

lemma wire_copy_kernel: "copy_kernel wire_os wire_copies fd wi_sent wi_recv (\<lambda>_. 0)"
  using wire_conn_kernel [of fd] wire_flow_kernel
  by (auto simp: copy_kernel_def conn_kernel_def flow_kernel_def rd_keeps_def wire_copies_def)

section \<open>Properties\<close>

text \<open>C11. A client of the file server that asks for a cached file and keeps its side open is answered:
  what the read callback sent and left to be sent is the content of the file, and the connection is
  closed with nothing registered when all was taken, or watched for writing until it is. Only a
  connection that the kernel resets meanwhile may end otherwise.\<close>

theorem file_reply:
  assumes "conn_kernel os efd interest fd sent recv pend intr" and "flow_kernel os sent (\<lambda>_. [])"
    and "close_kernel os interest sent" and "fd \<noteq> -1"
    and "settled os interest j efd n fd st" and "drained n st" and "has_room os pend n st"
    and "obj_read_all os (os_step os) n st = (st1, Inr c)" and "contents (io_rbuf (rt_objs st1 n)) = name @ [CHR 0x0A]"
    and "\<not> st_eof (rt_objs st1 n)"
    and "fi_cache fs (rt_k st1) name = Some s" and "buf_ok (io_rbuf s)"
    and "b_offset (io_wbuf (rt_objs st1 n)) + int (length (contents (io_rbuf s))) \<le> 1073741824"
  shows "\<exists>st' r. on_readable os (file_server os fs) n st = (st', r) \<and>
           sent (rt_k st') @ contents (io_wbuf (rt_objs st' n)) = sent (rt_k st1) @ contents (io_rbuf s) \<and>
           (\<not> st_reset (rt_objs st' n) \<longrightarrow> r = Inr () \<and>
              (if drained n st' then ended interest j efd n fd st' else settled os interest j efd n fd st'))"
  using serve_request [OF assms(1-9,11-13)] assms(10) by (fastforce simp: served_def Let_def replied_def)

theorem file_reply_witness:
  "\<exists>st' r. on_readable wire_os (file_server wire_os wire_files) 1 (wire_request (''ab'' @ [CHR 0x0A]) False 1) = (st', r) \<and>
     wi_sent (rt_k st') @ contents (io_wbuf (rt_objs st' 1)) = ''ab''"
proof -
  let ?st = "wire_request (''ab'' @ [CHR 0x0A]) False 1"
  let ?st1 = "fst (obj_read_all wire_os 4 1 ?st)"
  obtain c where read: "obj_read_all wire_os (os_step wire_os) 1 ?st = (?st1, Inr c)"
    using wire_request_read by fastforce
  have c: "contents (io_rbuf (rt_objs ?st1 1)) = ''ab'' @ [CHR 0x0A]" by code_simp
  have e: "\<not> st_eof (rt_objs ?st1 1)" by code_simp
  have r: "b_offset (io_wbuf (rt_objs ?st1 1)) + int (length (contents (io_rbuf (nstream.truncate sample_obj)))) \<le> 1073741824" by code_simp
  have s: "wi_sent (rt_k ?st1) = []" by code_simp
  show ?thesis
    using file_reply [OF wire_conn_kernel wire_kernels _ wire_request_ok read c e wire_request_cached(1,2) r] s
    by (auto simp: wire_request_cached(3))
qed

text \<open>C39. A client that closes its sending side after the request, as a client that has nothing more to
  say may, does not get the file: when the kernel took the whole reply at once, the handler has closed
  the connection, and the read callback then removes it from the loop a second time, which fails
  and throws out of the worker's thread; when it did not, the rest of the file stays in the buffer of
  a connection nothing watches any more.\<close>

theorem half_close_breaks:
  assumes "conn_kernel os efd interest fd sent recv pend intr" and "flow_kernel os sent (\<lambda>_. [])"
    and "close_kernel os interest sent" and "fd \<noteq> -1"
    and "settled os interest j efd n fd st" and "drained n st" and "has_room os pend n st"
    and "obj_read_all os (os_step os) n st = (st1, Inr c)" and "contents (io_rbuf (rt_objs st1 n)) = name @ [CHR 0x0A]"
    and "st_eof (rt_objs st1 n)"
    and "fi_cache fs (rt_k st1) name = Some s" and "buf_ok (io_rbuf s)"
    and "b_offset (io_wbuf (rt_objs st1 n)) + int (length (contents (io_rbuf s))) \<le> 1073741824"
  shows "\<exists>st' r. on_readable os (file_server os fs) n st = (st', r) \<and>
           (if sent (rt_k st') = sent (rt_k st1) @ contents (io_rbuf s)
            then io_closed (rt_objs st' n) \<and> (\<exists>e. r = Inl (System_error ''epoll_ctl del error'' e))
            else r = Inr () \<and> released interest j efd n fd st' \<and>
              (\<exists>rest. rest \<noteq> [] \<and> contents (io_wbuf (rt_objs st' n)) = rest \<and>
                sent (rt_k st') @ rest = sent (rt_k st1) @ contents (io_rbuf s)))"
proof -
  obtain st' r where run: "on_readable os (file_server os fs) n st = (st', r)" "served os interest j efd n fd (st', r)"
      "sent (rt_k st') @ contents (io_wbuf (rt_objs st' n)) = sent (rt_k st1) @ contents (io_rbuf s)" "st_eof (rt_objs st' n)"
    using serve_request [OF assms(1-9,11-13)] assms(10) by blast
  moreover have "drained n st' \<longleftrightarrow> sent (rt_k st') = sent (rt_k st1) @ contents (io_rbuf s)"
    using run(3) unfolding drained_def by (metis append_Nil2 append_self_conv)
  ultimately show ?thesis
    by (auto simp: served_def Let_def ended_def drained_def)
qed

theorem half_close_breaks_witness:
  "\<exists>st' e. on_readable wire_os (file_server wire_os wire_files) 1 (wire_request (''ab'' @ [CHR 0x0A]) True 2) =
     (st', Inl (System_error ''epoll_ctl del error'' e)) \<and> wi_sent (rt_k st') = ''ab''"
proof -
  let ?st = "wire_request (''ab'' @ [CHR 0x0A]) True 2"
  let ?st1 = "fst (obj_read_all wire_os 4 1 ?st)"
  obtain c where read: "obj_read_all wire_os (os_step wire_os) 1 ?st = (?st1, Inr c)"
    using wire_request_read by fastforce
  have c: "contents (io_rbuf (rt_objs ?st1 1)) = ''ab'' @ [CHR 0x0A]" by code_simp
  have e: "st_eof (rt_objs ?st1 1)" by code_simp
  have r: "b_offset (io_wbuf (rt_objs ?st1 1)) + int (length (contents (io_rbuf (nstream.truncate sample_obj)))) \<le> 1073741824" by code_simp
  have "wi_sent (rt_k ?st1) @ contents (io_rbuf (nstream.truncate sample_obj)) = ''ab''" by code_simp
  moreover have "wi_sent (rt_k (fst (on_readable wire_os (file_server wire_os wire_files) 1 ?st))) = ''ab''" by code_simp
  ultimately show ?thesis
    using half_close_breaks [OF wire_conn_kernel wire_kernels _ wire_request_ok read c e wire_request_cached(1,2) r]
    by (auto split: if_splits)
qed

text \<open>A request that is not one whole line is lost, or worse. When the read that wakes the server
  delivers nothing, because the client just closed, the handler reads a character outside
  of an empty string; when it delivers a line without its end, the handler returns to wait for
  the rest, but the callback clears the read buffer after it, so the first part is gone and nothing is
  ever sent for it.\<close>

theorem split_request_lost:
  assumes "conn_kernel os efd interest fd sent recv pend intr"
    and "settled os interest j efd n fd st" and "drained n st" and "has_room os pend n st"
    and "obj_read_all os (os_step os) n st = (st1, Inr c)" and "contents (io_rbuf (rt_objs st1 n)) = bs"
    and "bs = [] \<or> last bs \<noteq> CHR 0x0A" and "\<not> st_eof (rt_objs st1 n) \<and> \<not> st_reset (rt_objs st1 n) \<or> bs = []"
  shows "\<exists>st' r. on_readable os (file_server os fs) n st = (st', r) \<and> rt_k st' = rt_k st1 \<and>
           (if bs = [] then r = Inl (Undefined Out_of_bounds)
            else r = Inr () \<and> settled os interest j efd n fd st' \<and> drained n st' \<and> contents (io_rbuf (rt_objs st' n)) = [])"
proof -
  let ?c = "conn interest j efd n fd io_regs (Some (ep_in (os_ep os)))"
  have c: "?c st" using assms(2,3) by (simp add: settled_def)
  have c1: "?c st1" "drained n st1"
    using settled_read [OF assms(1-4)] assms(5) by auto
  let ?s = "rt_objs st1 n"
  have ok: "buf_ok (io_rbuf ?s)" using c1(1) by (simp add: conn_def Let_def)
  have name: "get_string (io_rbuf ?s) (-1) False = Inr (bs, io_rbuf ?s)"
    using make_string_ok [OF ok order_refl] assms(6) by (simp add: get_string_all [OF ok]) (simp add: get_string_def)
  have cast: "cast_tcp n st = (st, Inr (the (tcp_of (rt_objs st n))))"
    using c by (auto simp: cast_tcp_def tcp_of_def conn_def Let_def)
  have dp: "on_read_complete (file_server os fs) = server_on_read_complete os fs (closing_data os)"
      "on_closed (file_server os fs) = idle_handler"
    by (simp_all add: file_server_def closing_data_simps)
  obtain b where b: "clear (io_rbuf ?s) = Inr b" "buf_ok b"
    using clear_ok [OF ok] by blast
  let ?st = "st1\<lparr>rt_objs := (rt_objs st1)(n := ?s\<lparr>io_rbuf := b\<rparr>)\<rparr>"
  show ?thesis
  proof (cases "bs = []")
    case True
    then have "on_readable os (file_server os fs) n st = (st1, Inl (Undefined Out_of_bounds))"
      unfolding on_readable_def dp using cast conn_evlp [OF c] assms(5) name
      by (simp add: andthen_def server_on_read_complete_def)
    with True show ?thesis by simp
  next
    case False
    have clr: "rbuf_clear n st1 = (?st, Inr ())"
      using b(1) by (simp add: rbuf_clear_def obj_buf_def)
    have "on_readable os (file_server os fs) n st = (?st, Inr ())"
      unfolding on_readable_def dp using cast conn_evlp [OF c] assms(5,7,8) name clr False
      by (simp add: andthen_def server_on_read_complete_def)
    moreover have d: "drained n ?st" using c1(2) by (simp add: drained_def)
    moreover have "?c ?st"
      using c1(1) b(2) by (intro conn_obj) (simp_all add: conn_def Let_def)
    ultimately show ?thesis
      using False clear_contents [OF b(1)] by (simp add: settled_def)
  qed
qed

theorem split_request_lost_witness:
  "\<exists>st'. on_readable wire_os (file_server wire_os wire_files) 1 (wire_request ''ab'' False 2) = (st', Inr ()) \<and>
     wi_recv (rt_k st') = ''ab'' \<and> contents (io_rbuf (rt_objs st' 1)) = []"
proof -
  let ?st = "wire_request ''ab'' False 2"
  let ?st1 = "fst (obj_read_all wire_os 4 1 ?st)"
  obtain c where read: "obj_read_all wire_os (os_step wire_os) 1 ?st = (?st1, Inr c)"
    using wire_request_read by fastforce
  have c: "contents (io_rbuf (rt_objs ?st1 1)) = ''ab''" by code_simp
  have e: "\<not> st_eof (rt_objs ?st1 1) \<and> \<not> st_reset (rt_objs ?st1 1) \<or> ''ab'' = []" by code_simp
  have w: "wi_recv (rt_k ?st1) = ''ab''" by code_simp
  show ?thesis
    using split_request_lost [OF wire_conn_kernel wire_request_ok read c _ e, of wire_files] w by auto
qed

text \<open>The client of the file transfer copies what it receives: its read handler returns, the read buffer
  is empty afterwards, and the file followed by what waits to be written to it has grown by what was
  in the buffer and everything received meanwhile, in order.\<close>

theorem copy_in_order:
  assumes "conn_kernel os efd interest fd sent recv pend intr" and "copy_kernel os cs (io_fd (rt_objs st m)) written recv intr'"
    and "conn interest j efd n fd rs w st" and "n \<noteq> m" and "fd_find cs (rt_k st) fd = Some m" and "buf_ok (io_wbuf (rt_objs st m))"
    and "has_room os pend n st"
    and "b_offset (io_wbuf (rt_objs st m)) + int (length (contents (io_rbuf (rt_objs st n)))) + int (pend (rt_k st)) \<le> 1073741824"
  shows "\<exists>st' bs. on_read_complete (file_client os cs) n st = (st', Inr ()) \<and> recv (rt_k st') = recv (rt_k st) @ bs \<and>
           written (rt_k st') @ contents (io_wbuf (rt_objs st' m)) =
             written (rt_k st) @ contents (io_wbuf (rt_objs st m)) @ contents (io_rbuf (rt_objs st n)) @ bs \<and>
           contents (io_rbuf (rt_objs st' n)) = []"
  using client_copies [OF assms] by (simp add: file_client_def handled_def)

theorem copy_in_order_witness:
  "\<exists>st' bs. on_read_complete (file_client wire_os wire_copies) 1 wire_client = (st', Inr ()) \<and> wi_recv (rt_k st') = bs \<and>
     wi_sent (rt_k st') @ contents (io_wbuf (rt_objs st' 2)) = bs"
proof -
  have "wi_recv (rt_k wire_client) = []" "wi_sent (rt_k wire_client) = []" "contents (io_wbuf (rt_objs wire_client 2)) = []"
      "contents (io_rbuf (rt_objs wire_client 1)) = []"
    using empty_buffer_ok(2) by (simp_all add: wire_client_def wire_reactor_def sample_obj_def)
  then show ?thesis
    using copy_in_order [OF wire_conn_kernel wire_copy_kernel wire_client_ok(1) _ wire_client_ok(2-5)] by fastforce
qed

end
