(* ===== verification/Lanes.thy ===== *)
theory Lanes
  imports Isolation Dataflow
begin

text \<open>
  Several connections of one loop (\<open>src/src/lib/tcp.cc\<close>): what the callbacks of one leave alone of the
  loop's table, of epoll and of the other connections, and where they leave its read buffer.
\<close>

section \<open>Connections of one loop\<close>

text \<open>Connection \<open>n\<close> on descriptor \<open>fd\<close> of loop \<open>j\<close>, whose epoll instance is \<open>efd\<close>; what an action of
  it does to the table of the loop and to epoll concerns \<open>fd\<close> alone.\<close>

definition holds :: "nat \<Rightarrow> int \<Rightarrow> nat \<Rightarrow> int \<Rightarrow> 'k reactor \<Rightarrow> bool" where
  "holds j efd n fd st \<longleftrightarrow> belongs j n st \<and> el_fd (rt_loops st j) = efd \<and> io_fd (rt_objs st n) = fd"

definition entries :: "nat \<Rightarrow> int \<Rightarrow> 'k reactor \<Rightarrow> (int \<times> registration) list" where
  "entries j fd st = filter (\<lambda>(fd', r). fd' = fd) (el_fds (rt_loops st j))"

definition lane :: "('k \<Rightarrow> int \<Rightarrow> 32 word option) \<Rightarrow> nat \<Rightarrow> nat \<Rightarrow> int \<Rightarrow> 'k reactor \<Rightarrow> 'k reactor \<Rightarrow> bool" where
  "lane interest j n fd st st' \<longleftrightarrow> apart j n st st' \<and>
     (\<forall>fd'. fd' \<noteq> fd \<longrightarrow> entries j fd' st' = entries j fd' st \<and> interest (rt_k st') fd' = interest (rt_k st) fd')"

interpretation lane: act_frame "holds j efd n fd" "lane interest j n fd" for j efd n fd interest
  by unfold_locales (auto simp: lane_def elim: apart_trans)

abbreviation in_lane ::
  "('k \<Rightarrow> int \<Rightarrow> 32 word option) \<Rightarrow> nat \<Rightarrow> int \<Rightarrow> nat \<Rightarrow> int \<Rightarrow> ('k, 'a) act \<Rightarrow> bool"
where
  "in_lane interest j efd n fd \<equiv> keeps (holds j efd n fd) (lane interest j n fd)"

lemma laneD: "in_lane interest j efd n fd m \<Longrightarrow> holds j efd n fd st \<Longrightarrow> m st = (st', r) \<Longrightarrow> lane interest j n fd st st'"
  by (auto dest: keepsD)

lemma entries_iff: "(fd, r) \<in> set (entries j fd st) \<longleftrightarrow> (fd, r) \<in> set (el_fds (rt_loops st j))"
  by (auto simp: entries_def)

lemma holds_evlp: "holds j efd n fd st \<Longrightarrow> io_evlp (rt_objs st n) = Some j"
  by (simp add: holds_def belongs_def)

text \<open>What stays with its connection and leaves the table and the kernel's watching of other descriptors
  alone is in the lane.\<close>

lemma in_laneI:
  assumes "stays j n m"
    and "\<And>st st' r. holds j efd n fd st \<Longrightarrow> m st = (st', r) \<Longrightarrow> io_fd (rt_objs st' n) = fd"
    and "\<And>st st' r fd'. holds j efd n fd st \<Longrightarrow> m st = (st', r) \<Longrightarrow> fd' \<noteq> fd \<Longrightarrow>
      entries j fd' st' = entries j fd' st \<and> interest (rt_k st') fd' = interest (rt_k st) fd'"
  shows "in_lane interest j efd n fd m"
proof (rule keepsI)
  fix st st' r
  assume h: "holds j efd n fd st" and run: "m st = (st', r)"
  then have "belongs j n st'" "apart j n st st'"
    using keepsD [OF assms(1) _ run] by (simp_all add: holds_def)
  then show "holds j efd n fd st' \<and> lane interest j n fd st st'"
    using h assms(2,3) [OF h run] by (simp add: holds_def lane_def apart_def)
qed

lemma ep_others:
  assumes "ep_kernel ep efd interest" and "fd' \<noteq> fd"
  shows "ep_add ep k efd fd m = (r, k') \<Longrightarrow> interest k' fd' = interest k fd'"
    and "ep_del ep k efd fd = (r, k') \<Longrightarrow> interest k' fd' = interest k fd'"
  using ep_kernelD [OF assms(1), of k fd m] assms(2) by (auto split: option.splits)

lemma lane_register:
  assumes ep: "ep_kernel (os_ep os) efd interest"
  shows "in_lane interest j efd n fd (evlp_register os n ev cb activate)"
  unfolding evlp_register_def
proof (rule lane.at_loop [OF holds_evlp], assumption, rule in_laneI [OF stays_register], goal_cases)
  case (1 st st' r)
  then show ?case
    by (auto simp: loop_register_eq holds_def registered_def Let_def split: if_splits option.splits prod.splits)
next
  case (2 st st' r fd')
  then show ?case
    by (auto simp: loop_register_eq holds_def registered_def entries_def Let_def dest: ep_others(1) [OF ep]
        split: if_splits option.splits prod.splits)
qed

lemma lane_remove:
  assumes ep: "ep_kernel (os_ep os) efd interest"
  shows "in_lane interest j efd n fd (evlp_remove os n clean deactivate)"
  unfolding evlp_remove_def
proof (rule lane.at_loop [OF holds_evlp], assumption, rule in_laneI [OF stays_remove], goal_cases)
  case (1 st st' r)
  then show ?case
    by (auto simp: loop_remove_eq holds_def erased_def Let_def split: if_splits option.splits prod.splits)
next
  case (2 st st' r fd')
  have "filter (\<lambda>(x, r). x = fd') (filter (\<lambda>(x, r). x \<noteq> fd) xs) = filter (\<lambda>(x, r). x = fd') xs" for xs :: "(int \<times> registration) list"
    using 2(3) by (induction xs) auto
  with 2 show ?case
    by (auto simp: loop_remove_eq holds_def erased_def entries_def Let_def dest: ep_others(2) [OF ep]
        simp del: filter_filter split: if_splits option.splits prod.splits)
qed

lemma lane_read:
  assumes "rd_keeps interest (os_sys os)"
  shows "in_lane interest j efd n fd (obj_read_all os step n)"
proof (rule in_laneI [OF stays_read_all], goal_cases)
  case (1 st st' r)
  then show ?case
    by (auto simp: obj_read_all_def obj_io_def holds_def dest: read_all_home split: option.splits)
next
  case (2 st st' r fd')
  then show ?case
    by (auto simp: obj_read_all_def obj_io_def holds_def entries_def dest: read_all_keeps [OF _ assms] split: option.splits)
qed

lemma lane_write:
  assumes "wr_keeps interest (os_sys os)"
  shows "in_lane interest j efd n fd (obj_write_all os step n)"
proof (rule in_laneI [OF stays_write_all], goal_cases)
  case (1 st st' r)
  then show ?case
    by (auto simp: obj_write_all_def obj_io_def holds_def dest: write_all_desk split: option.splits)
next
  case (2 st st' r fd')
  then show ?case
    by (auto simp: obj_write_all_def obj_io_def holds_def entries_def dest: write_all_keeps [OF _ assms] split: option.splits)
qed

lemma lane_clear: "in_lane interest j efd n fd (rbuf_clear n)"
  by (rule in_laneI [OF stays_rbuf_clear])
    (auto simp: rbuf_clear_def obj_buf_def holds_def entries_def rbind_eq_Inr split: sum.splits)

section \<open>Room to read and to reply\<close>

text \<open>Between callbacks the read buffer of a connection starts at the front of its array, so that
  there is room for whatever the kernel can hold for it, and so does an empty write buffer, so that
  all of it can be sent back.\<close>

definition sent_front :: "nat \<Rightarrow> 'k reactor \<Rightarrow> bool" where
  "sent_front n st \<longleftrightarrow> (buf_size (io_wbuf (rt_objs st n)) = 0 \<longrightarrow> b_offset (io_wbuf (rt_objs st n)) = 0)"

definition at_front :: "nat \<Rightarrow> 'k reactor \<Rightarrow> bool" where
  "at_front n st \<longleftrightarrow> b_offset (io_rbuf (rt_objs st n)) = 0 \<and> sent_front n st"

lemmas front_defs = at_front_def sent_front_def

lemma write_chunk_front:
  "write_chunk sys k s len = Some (k', s', Inr n) \<Longrightarrow> buf_size (io_wbuf s') = 0 \<Longrightarrow> b_offset (io_wbuf s') = 0"
  by (auto simp: write_chunk_def clear_def rbind_eq_Inr Let_def split: option.splits sum.splits if_splits)

lemma write_all_front:
  assumes "write_all sys k s step = Some (k', s', Inr n)"
  shows "buf_size (io_wbuf s') = 0 \<Longrightarrow> b_offset (io_wbuf s') = 0"
proof -
  have "\<forall>n. snd (snd y) = Inr n \<longrightarrow> buf_size (io_wbuf (fst (snd y))) = 0 \<longrightarrow> b_offset (io_wbuf (fst (snd y))) = 0"
    if "write_all_loop sys k s step tot = Some y" for sys k s step tot y
  proof (rule write_all_loop.raw_induct [OF _ that, where P = "\<lambda>sys k s step tot y. \<forall>n. snd (snd y) = Inr n \<longrightarrow>
      buf_size (io_wbuf (fst (snd y))) = 0 \<longrightarrow> b_offset (io_wbuf (fst (snd y))) = 0"], goal_cases)
    case (1 f sys k s step tot y)
    then obtain k1 s1 r where c: "write_chunk sys k s step = Some (k1, s1, r)" by (auto split: option.splits)
    with 1 write_chunk_front [of sys k s step k1 s1] show ?case by (cases r; cases y) (auto split: sum.splits if_splits)
  qed
  from this [OF assms [unfolded write_all_def]] show "buf_size (io_wbuf s') = 0 \<Longrightarrow> b_offset (io_wbuf s') = 0" by simp
qed

lemma front_write: "results (\<lambda>_. True) (obj_write_all os step n) (\<lambda>_. sent_front n)"
  by (rule resultsI) (auto simp: obj_write_all_def obj_io_def sent_front_def dest: write_all_front split: option.splits)

abbreviation rewound :: "nat \<Rightarrow> ('k, 'a) act \<Rightarrow> bool" where
  "rewound n m \<equiv> results (at_front n) m (\<lambda>_. at_front n)"

lemma rewound_register: "rewound n (evlp_register os n ev cb activate)"
  unfolding evlp_register_def
  by (rule flow_at_loop) (auto intro!: resultsI simp: loop_register_eq registered_def front_defs set_evlp_def Let_def
      split: if_splits option.splits prod.splits)

lemma rewound_remove: "rewound n (evlp_remove os n clean deactivate)"
  unfolding evlp_remove_def
  by (rule flow_at_loop) (auto intro!: resultsI simp: loop_remove_eq erased_def front_defs Let_def
      split: if_splits option.splits prod.splits)

lemma rewound_write: "rewound n (obj_write_all os step n)"
  by (rule resultsI) (auto simp: obj_write_all_def obj_io_def front_defs dest: write_all_desk write_all_front split: option.splits)

lemma rewound_clear: "results (sent_front n) (rbuf_clear n) (\<lambda>_. at_front n)"
  by (rule resultsI) (auto simp: rbuf_clear_def obj_buf_def rbind_eq_Inr clear_def front_defs split: sum.splits)

lemma front_register: "results (sent_front n) (evlp_register os n ev cb activate) (\<lambda>_. sent_front n)"
  unfolding evlp_register_def
  by (rule flow_at_loop) (auto intro!: resultsI simp: loop_register_eq registered_def front_defs set_evlp_def Let_def
      split: if_splits option.splits prod.splits)

lemma front_remove: "results (sent_front n) (evlp_remove os n clean deactivate) (\<lambda>_. sent_front n)"
  unfolding evlp_remove_def
  by (rule flow_at_loop) (auto intro!: resultsI simp: loop_remove_eq erased_def front_defs Let_def
      split: if_splits option.splits prod.splits)

lemma front_async_write:
  assumes "results (sent_front n) (on_write_complete dp n) (\<lambda>_. sent_front n)"
  shows "results (\<lambda>_. True) (async_write os dp n) (\<lambda>_. sent_front n)"
  unfolding async_write_def
  by (rule flow_at_loop, rule results_andthen [OF front_write], rule results_if, rule assms,
      rule results_andthen [OF front_remove front_register])

lemma front_read: "results (sent_front n) (obj_read_all os step n) (\<lambda>_. sent_front n)"
  by (rule resultsI) (auto simp: obj_read_all_def obj_io_def front_defs dest: read_all_home split: option.splits)

lemma rewound_cast: "results P (cast_tcp n) (\<lambda>_. P)"
  by (simp add: results_def cast_tcp_def)

lemma rewound_async_write: "rewound n (on_write_complete dp n) \<Longrightarrow> rewound n (async_write os dp n)"
  unfolding async_write_def
  by (rule flow_at_loop, rule results_andthen [OF rewound_write], rule results_if, assumption,
      rule results_andthen [OF rewound_remove rewound_register])

lemma rewound_on_readable:
  assumes "results (sent_front n) (on_read_complete dp n) (\<lambda>_. sent_front n)" and "rewound n (on_closed dp n)"
  shows "results (sent_front n) (on_readable os dp n) (\<lambda>_. at_front n)"
  unfolding on_readable_def
  by (rule results_andthen [OF rewound_cast], rule flow_at_loop, rule results_andthen [OF front_read],
      rule results_andthen [OF assms(1)], rule results_andthen [OF rewound_clear],
      rule results_if, rule results_andthen [OF assms(2) rewound_remove], rule results_read)

lemma rewound_on_writable:
  assumes "rewound n (on_write_complete dp n)" and "rewound n (on_closed dp n)"
  shows "rewound n (on_writable os dp n)"
proof -
  have mid: "rewound n (\<lambda>st. if buf_size (io_wbuf (rt_objs st n)) = 0
      then andthen (evlp_remove os n False True) (\<lambda>_. andthen (on_write_complete dp n) (\<lambda>_ st.
           if \<not> io_closed (rt_objs st n) then evlp_register os n fd_readable None True st else (st, Inr ()))) st
      else (st, Inr ()))"
    by (rule results_if [OF results_andthen [OF rewound_remove results_andthen [OF assms(1) results_if [OF rewound_register results_read]]] results_read])
  show ?thesis
    unfolding on_writable_def
    by (rule results_andthen [OF rewound_cast], rule flow_at_loop, rule results_andthen [OF rewound_write],
        rule results_andthen [OF mid results_if [OF results_andthen [OF assms(2) rewound_remove] results_read]])
qed

lemma rewound_on_acpt_writable:
  assumes "rewound n (on_accept dp n)"
  shows "rewound n (on_acpt_writable os dp n)"
  unfolding on_acpt_writable_def conn_init_def
  by (rule results_andthen [OF rewound_cast], rule flow_at_loop, rule results_andthen [OF rewound_remove],
      rule results_andthen [OF rewound_register], rule results_andthen [OF assms rewound_register])

section \<open>The echo in its lane\<close>

lemma stays_echo_copy: "stays j n (echo_copy n)"
  unfolding echo_copy_def by (rule stays_buf) (auto simp: rbind_eq_Inr)

lemma lane_echo_copy: "in_lane interest j efd n fd (echo_copy n)"
  by (rule in_laneI [OF stays_echo_copy])
    (auto simp: echo_copy_def obj_buf_def holds_def entries_def rbind_eq_Inr split: sum.splits)

lemma front_echo: "results (\<lambda>_. True) (echo_on_read_complete os idle_data n) (\<lambda>_. sent_front n)"
  unfolding echo_on_read_complete_def
  by (rule results_andthen [where R = "\<lambda>_ _. True"], simp add: results_def, rule front_async_write)
    (simp add: idle_data_simps idle_results)

end
