(* ===== verification/Worker.thy ===== *)
theory Worker
  imports Lanes
begin

text \<open>
  A worker of a server with all of its connections: what \<open>Reactor\<close> shows of one callback of one
  connection, \<open>Event_Loop\<close> of a round and \<open>Isolation\<close> of what callbacks leave alone is put together
  to an invariant of the worker's thread (\<open>iohandler::run_impl\<close> in \<open>src/src/lib/tcp.cc\<close>).
\<close>

section \<open>What a server asks of its parts\<close>

text \<open>
  The crew: the connections of the loop as pairs of object and descriptor. \<open>crew_kernel\<close> is the
  kernel under them, which holds at most so many unread bytes of a connection that they fit a
  buffer; \<open>crew_handlers\<close> asks of the user's handlers what \<open>conn_handlers\<close> asks, that they stay in their
  lane, that they leave the read buffer alone but for \<open>on_read_complete\<close>, and that they leave no
  empty write buffer off its front.
\<close>

type_synonym crew = "(nat \<times> int) set"

definition one_to_one :: "crew \<Rightarrow> bool" where
  "one_to_one C \<longleftrightarrow> (\<forall>(n, fd) \<in> C. \<forall>(n', fd') \<in> C. n = n' \<longleftrightarrow> fd = fd')"

definition crew_kernel :: "'k os \<Rightarrow> int \<Rightarrow> ('k \<Rightarrow> int \<Rightarrow> 32 word option) \<Rightarrow> crew \<Rightarrow> bool" where
  "crew_kernel os efd interest C \<longleftrightarrow> masks_ok (os_ep os) \<and> ep_kernel (os_ep os) efd interest \<and>
     (\<forall>(n, fd) \<in> C. \<exists>sent recv pend intr. conn_kernel os efd interest fd sent recv pend intr \<and>
        (\<forall>k. int (pend k) + os_step os \<le> 1073741824))"

definition crew_handlers :: "'k os \<Rightarrow> ('k \<Rightarrow> int \<Rightarrow> 32 word option) \<Rightarrow> nat \<Rightarrow> int \<Rightarrow> 'k tp_shared_data \<Rightarrow> crew \<Rightarrow> bool" where
  "crew_handlers os interest j efd dp C \<longleftrightarrow> (\<forall>(n, fd) \<in> C. conn_handlers os interest j efd n fd dp \<and>
     (\<forall>h \<in> {on_accept, on_read_complete, on_write_complete, on_closed}. in_lane interest j efd n fd (h dp n)) \<and>
     (\<forall>h \<in> {on_accept, on_write_complete, on_closed}. rewound n (h dp n)) \<and>
     results (sent_front n) (on_read_complete dp n) (\<lambda>_. sent_front n))"

text \<open>The echo of the stress test is such a set of handlers.\<close>

lemma idle_lane: "in_lane interest j efd n fd (idle_handler n)"
  by (auto intro: keepsI simp: idle_handler_def lane_def)

lemma lane_echo:
  assumes "conn_kernel os efd interest fd sent recv pend intr"
  shows "in_lane interest j efd n fd (echo_on_read_complete os idle_data n)"
proof -
  have k: "wr_keeps interest (os_sys os)" "ep_kernel (os_ep os) efd interest"
    using assms by (simp_all add: conn_kernel_def)
  show ?thesis
    unfolding echo_on_read_complete_def
    by (intro lane.andthen lane_echo_copy lane.async_write lane_write [OF k(1)] lane_remove [OF k(2)] lane_register [OF k(2)])
      (simp add: idle_data_simps idle_lane)
qed

lemma echo_crew:
  assumes "crew_kernel os efd interest C"
  shows "crew_handlers os interest j efd (simple_client os) C"
proof -
  have "results (sent_front n) (echo_on_read_complete os idle_data n) (\<lambda>_. sent_front n)" for n
    using front_echo [of os n] by (auto simp: results_def)
  then show ?thesis
    using assms unfolding crew_kernel_def crew_handlers_def
    by (fastforce simp: simple_client_def idle_data_simps idle_lane idle_results intro: echo_handlers [unfolded simple_client_def] lane_echo)
qed

text \<open>\<open>epoll_wait\<close> reports a descriptor once, with directions it watches (and hang-ups), or is
  interrupted.\<close>

definition reported_ok :: "'k os \<Rightarrow> (int \<Rightarrow> 32 word option) \<Rightarrow> (int \<times> 32 word) list \<Rightarrow> bool" where
  "reported_ok os watch evs \<longleftrightarrow> distinct (map fst evs) \<and>
     (\<forall>(fd, e) \<in> set evs. \<exists>m. watch fd = Some m \<and>
        (and e (ep_in (os_ep os)) \<noteq> 0 \<longrightarrow> and m (ep_in (os_ep os)) \<noteq> 0) \<and>
        (and e (ep_out (os_ep os)) \<noteq> 0 \<longrightarrow> and m (ep_out (os_ep os)) \<noteq> 0))"

definition wait_kernel :: "'k os \<Rightarrow> int \<Rightarrow> ('k \<Rightarrow> int \<Rightarrow> 32 word option) \<Rightarrow> bool" where
  "wait_kernel os efd interest \<longleftrightarrow>
     (\<forall>k n t. case ep_wait (os_ep os) k efd n t of
        (Inl e, k') \<Rightarrow> e = EINTR \<and> interest k' = interest k
      | (Inr evs, k') \<Rightarrow> interest k' = interest k \<and> reported_ok os (interest k) evs)"

section \<open>The states between callbacks\<close>

definition arrived ::
  "'k os \<Rightarrow> ('k \<Rightarrow> int \<Rightarrow> 32 word option) \<Rightarrow> nat \<Rightarrow> int \<Rightarrow> nat \<Rightarrow> int \<Rightarrow> 'k reactor \<Rightarrow> bool"
where
  "arrived os interest j efd n fd st \<longleftrightarrow>
     conn interest j efd n fd [(fd_writable, On_acpt_writable)] (Some (ep_out (os_ep os))) st \<and> drained n st"

definition fine ::
  "'k os \<Rightarrow> ('k \<Rightarrow> int \<Rightarrow> 32 word option) \<Rightarrow> nat \<Rightarrow> int \<Rightarrow> nat \<Rightarrow> int \<Rightarrow> 'k reactor \<Rightarrow> bool"
where
  "fine os interest j efd n fd st \<longleftrightarrow> at_front n st \<and>
     (arrived os interest j efd n fd st \<or> settled os interest j efd n fd st \<or> released interest j efd n fd st)"

text \<open>What a queued callback finds.\<close>

fun ready ::
  "'k os \<Rightarrow> ('k \<Rightarrow> int \<Rightarrow> 32 word option) \<Rightarrow> nat \<Rightarrow> int \<Rightarrow> callback \<Rightarrow> nat \<Rightarrow> int \<Rightarrow> 'k reactor \<Rightarrow> bool"
where
  "ready os interest j efd On_acpt_writable n fd st = arrived os interest j efd n fd st"
| "ready os interest j efd On_readable n fd st = (settled os interest j efd n fd st \<and> drained n st)"
| "ready os interest j efd On_writable n fd st = (settled os interest j efd n fd st \<and> \<not> drained n st)"
| "ready os interest j efd cb n fd st = False"

lemma conn_lane:
  assumes l: "lane interest j n fd st st'" and ne: "n' \<noteq> n" "fd' \<noteq> fd" and c: "conn interest j efd n' fd' rs m st"
    and fresh: "fresh_code j st'"
  shows "conn interest j efd n' fd' rs m st'"
proof -
  have same: "rt_objs st' n' = rt_objs st n'" "interest (rt_k st') fd' = interest (rt_k st) fd'" "entries j fd' st' = entries j fd' st"
      "a < rt_next st \<Longrightarrow> rt_code st' a = rt_code st a" "el_id (rt_loops st' j) = el_id (rt_loops st j)"
      "el_fd (rt_loops st' j) = el_fd (rt_loops st j)" for a
    using l ne by (auto simp: lane_def apart_def)
  have "fresh_code j st" using c by (simp add: conn_def Let_def)
  then have "regs_of j fd' st' = regs_of j fd' st"
    using same(3,4) unfolding regs_of_def entries_def by (auto simp: fresh_code_def)
  then show ?thesis
    using c same fresh by (simp add: conn_def Let_def)
qed

lemma fine_fresh: "fine os interest j efd n fd st \<Longrightarrow> fresh_code j st"
  by (auto simp: fine_def arrived_def settled_def released_def conn_def Let_def)

lemma ready_at:
  assumes "ready os interest j efd cb n fd st"
  shows "holds j efd n fd st" "cb \<in> {On_acpt_writable, On_readable, On_writable}"
  using assms by (cases cb; auto simp: arrived_def settled_def conn_def holds_def belongs_def Let_def)+

lemma states_lane:
  assumes "lane interest j n fd st st'" and "n' \<noteq> n" "fd' \<noteq> fd" and "fresh_code j st'"
  shows "drained n' st' = drained n' st" "at_front n' st' = at_front n' st"
    and "settled os interest j efd n' fd' st \<Longrightarrow> settled os interest j efd n' fd' st'"
    and "fine os interest j efd n' fd' st \<Longrightarrow> fine os interest j efd n' fd' st'"
    and "ready os interest j efd cb n' fd' st \<Longrightarrow> ready os interest j efd cb n' fd' st'"
proof -
  have obj: "rt_objs st' n' = rt_objs st n'" using assms(1,2) by (simp add: lane_def apart_def)
  show d: "drained n' st' = drained n' st" and z: "at_front n' st' = at_front n' st"
    by (simp_all add: drained_def front_defs obj)
  note c = conn_lane [OF assms(1-3) _ assms(4)]
  show set: "settled os interest j efd n' fd' st \<Longrightarrow> settled os interest j efd n' fd' st'"
    unfolding settled_def d by (rule c)
  have arr: "arrived os interest j efd n' fd' st \<Longrightarrow> arrived os interest j efd n' fd' st'"
    unfolding arrived_def d by (blast intro: c)
  have rel: "released interest j efd n' fd' st \<Longrightarrow> released interest j efd n' fd' st'"
    unfolding released_def by (rule c)
  show "fine os interest j efd n' fd' st \<Longrightarrow> fine os interest j efd n' fd' st'"
    unfolding fine_def z using arr set rel by blast
  show "ready os interest j efd cb n' fd' st \<Longrightarrow> ready os interest j efd cb n' fd' st'"
    using arr set d by (cases cb) auto
qed

section \<open>One callback\<close>

lemma callback_fine:
  assumes k: "crew_kernel os efd interest C" and h: "crew_handlers os interest j efd dp C" and m: "(n, fd) \<in> C"
    and z: "at_front n st" and r: "ready os interest j efd cb n fd st"
  shows "\<exists>st'. run_callback os dp cb n st = (st', Inr ()) \<and> fine os interest j efd n fd st' \<and> lane interest j n fd st st' \<and>
           (settled os interest j efd n fd st' \<or> cb \<noteq> On_acpt_writable \<and> released interest j efd n fd st')"
proof -
  obtain sent recv pend intr where ck: "conn_kernel os efd interest fd sent recv pend intr"
      "\<And>k. int (pend k) + os_step os \<le> 1073741824"
    using k m unfolding crew_kernel_def by blast
  have keep: "rd_keeps interest (os_sys os)" "wr_keeps interest (os_sys os)" "ep_kernel (os_ep os) efd interest"
    using ck(1) by (simp_all add: conn_kernel_def)
  have ch: "conn_handlers os interest j efd n fd dp"
    and ln: "in_lane interest j efd n fd (on_accept dp n)" "in_lane interest j efd n fd (on_read_complete dp n)"
      "in_lane interest j efd n fd (on_write_complete dp n)" "in_lane interest j efd n fd (on_closed dp n)"
    and rw: "rewound n (on_accept dp n)" "rewound n (on_write_complete dp n)" "rewound n (on_closed dp n)"
      "results (sent_front n) (on_read_complete dp n) (\<lambda>_. sent_front n)"
    using h m unfolding crew_handlers_def by fastforce+
  note rules = lane_read [OF keep(1)] lane_write [OF keep(2)] lane_clear lane_remove [OF keep(3)] lane_register [OF keep(3)]
  note at = ready_at(1) [OF r]
  from ready_at(2) [OF r] consider "cb = On_acpt_writable" | "cb = On_readable" | "cb = On_writable" by blast
  then show ?thesis
  proof cases
    case 1
    then have "(\<exists>m. conn interest j efd n fd [(fd_writable, On_acpt_writable)] (Some m) st) \<and> drained n st"
      using r by (auto simp: arrived_def)
    from ensuresD [OF ensures_on_acpt_writable [OF keep(3) ch] this]
    obtain st' where run: "on_acpt_writable os dp n st = (st', Inr ())" "settled os interest j efd n fd st'" by auto
    have il: "in_lane interest j efd n fd (on_acpt_writable os dp n)"
      by (intro lane.on_acpt_writable rules ln)
    show ?thesis
      using run laneD [OF il at run(1)] resultsD [OF rewound_on_acpt_writable [OF rw(1)] z run(1)] 1 by (auto simp: fine_def)
  next
    case 2
    then have s: "settled os interest j efd n fd st" "drained n st" using r by simp_all
    then have b: "buf_ok (io_rbuf (rt_objs st n))" "buf_size (io_wbuf (rt_objs st n)) = 0"
      using drained_size [of interest j efd n fd] unfolding settled_def by (auto simp: conn_def Let_def)
    have "has_room os pend n st" using z ck(2) by (simp add: has_room_def front_defs)
    moreover have "contents (io_rbuf (rt_objs st n)) = []"
      using b(1) z by (simp add: contents_def buf_ok_def front_defs split: option.splits)
    then have "reply_room pend n st"
      using b(2) z ck(2) [of "rt_k st"] ck(1) by (simp add: reply_room_def front_defs conn_kernel_def)
    ultimately have "settled os interest j efd n fd st \<and> drained n st \<and> has_room os pend n st \<and> reply_room pend n st"
      using s by simp
    from ensuresD [OF ensures_on_readable [OF ck(1) ch] this]
    obtain st' where run: "on_readable os dp n st = (st', Inr ())"
        "settled os interest j efd n fd st' \<or> released interest j efd n fd st'" by (auto split: if_splits)
    have il: "in_lane interest j efd n fd (on_readable os dp n)"
      by (intro lane.on_readable rules ln)
    show ?thesis
      using run laneD [OF il at run(1)] resultsD [OF rewound_on_readable [OF rw(4,3)] _ run(1)] z 2 by (auto simp: fine_def at_front_def [of n st])
  next
    case 3
    then have "conn interest j efd n fd io_regs (Some (ep_out (os_ep os))) st"
      using r by (auto simp: settled_def)
    from ensuresD [OF ensures_on_writable [OF ck(1) ch] this]
    obtain st' where run: "on_writable os dp n st = (st', Inr ())"
        "settled os interest j efd n fd st' \<or> released interest j efd n fd st'" by (auto split: if_splits)
    have il: "in_lane interest j efd n fd (on_writable os dp n)"
      by (intro lane.on_writable rules ln)
    show ?thesis
      using run laneD [OF il at run(1)] resultsD [OF rewound_on_writable [OF rw(2,3)] z run(1)] 3 by (auto simp: fine_def)
  qed
qed

section \<open>A round\<close>

text \<open>The worker between two rounds, but for the queue of its loop.\<close>

definition worker_state :: "'k os \<Rightarrow> ('k \<Rightarrow> int \<Rightarrow> 32 word option) \<Rightarrow> nat \<Rightarrow> int \<Rightarrow> crew \<Rightarrow> 'k reactor \<Rightarrow> bool" where
  "worker_state os interest j efd C st \<longleftrightarrow>
     el_id (rt_loops st j) = j \<and> el_fd (rt_loops st j) = efd \<and>
     (\<forall>(fd, r) \<in> set (el_fds (rt_loops st j)). fd \<in> snd ` C) \<and>
     (\<forall>(n, fd) \<in> C. fine os interest j efd n fd st)"

abbreviation requeued :: "nat \<Rightarrow> queued list \<Rightarrow> 'k reactor \<Rightarrow> 'k reactor" where
  "requeued j q st \<equiv> st\<lparr>rt_loops := (rt_loops st)(j := (rt_loops st j)\<lparr>el_cbs := q\<rparr>)\<rparr>"

lemma requeued_conn [simp]:
  "conn interest j efd n fd rs m (requeued j q st) = conn interest j efd n fd rs m st"
  "drained n (requeued j q st) = drained n st" "at_front n (requeued j q st) = at_front n st"
  by (simp_all add: conn_def regs_of_def fresh_code_def drained_def front_defs Let_def)

lemma requeued_states [simp]:
  "settled os interest j efd n fd (requeued j q st) = settled os interest j efd n fd st"
  "fine os interest j efd n fd (requeued j q st) = fine os interest j efd n fd st"
  "ready os interest j efd cb n fd (requeued j q st) = ready os interest j efd cb n fd st"
  by (simp_all add: settled_def arrived_def released_def fine_def) (cases cb; simp add: settled_def arrived_def)

definition queue_ok ::
  "'k os \<Rightarrow> ('k \<Rightarrow> int \<Rightarrow> 32 word option) \<Rightarrow> nat \<Rightarrow> int \<Rightarrow> crew \<Rightarrow> queued list \<Rightarrow> 'k reactor \<Rightarrow> bool"
where
  "queue_ok os interest j efd C q st \<longleftrightarrow> distinct (map (\<lambda>(p, n, a). n) q) \<and>
     (\<forall>(p, n, a) \<in> set q. a < rt_next st \<and> (\<exists>fd. (n, fd) \<in> C \<and> ready os interest j efd (rt_code st a) n fd st))"

lemma requeued_worker:
  "worker_state os interest j efd C (requeued j q st) = worker_state os interest j efd C st"
  "queue_ok os interest j efd C q' (requeued j q st) = queue_ok os interest j efd C q' st"
  by (simp_all add: worker_state_def queue_ok_def)

text \<open>Calling the first queued callback.\<close>

lemma queue_step:
  assumes k: "crew_kernel os efd interest C" and h: "crew_handlers os interest j efd dp C" and one: "one_to_one C"
    and w: "worker_state os interest j efd C st" and q: "queue_ok os interest j efd C ((p, n, a) # q) st"
  shows "\<exists>st' fd. run_callback os dp (rt_code st a) n (requeued j q st) = (st', Inr ()) \<and> el_cbs (rt_loops st' j) = q \<and>
           worker_state os interest j efd C st' \<and> queue_ok os interest j efd C q st' \<and> (n, fd) \<in> C \<and>
           (rt_code st a = On_acpt_writable \<longrightarrow> settled os interest j efd n fd st') \<and>
           (\<forall>(n', fd') \<in> C. n' \<noteq> n \<and> settled os interest j efd n' fd' st \<longrightarrow> settled os interest j efd n' fd' st') \<and>
           (\<forall>a' < rt_next st. rt_code st' a' = rt_code st a')"
proof -
  let ?st = "requeued j q st"
  obtain fd where m: "(n, fd) \<in> C" and r: "ready os interest j efd (rt_code st a) n fd ?st"
    using q by (auto simp: queue_ok_def)
  have z: "at_front n ?st"
    using w m by (auto simp: worker_state_def fine_def)
  obtain st' where run: "run_callback os dp (rt_code st a) n ?st = (st', Inr ())" and f: "fine os interest j efd n fd st'"
    and l: "lane interest j n fd ?st st'" and s: "rt_code st a = On_acpt_writable \<longrightarrow> settled os interest j efd n fd st'"
    using callback_fine [OF k h m z r] by blast
  have ap: "apart j n ?st st'" "\<And>fd'. fd' \<noteq> fd \<Longrightarrow> entries j fd' st' = entries j fd' ?st"
    using l by (simp_all add: lane_def)
  have codes: "rt_code st' a' = rt_code st a'" if "a' < rt_next st" for a'
    using ap(1) that by (simp add: apart_def)
  have other: "n' \<noteq> n \<and> fd' \<noteq> fd" if "(n', fd') \<in> C" "n' \<noteq> n" for n' fd'
    using one m that unfolding one_to_one_def by fastforce
  note keep = states_lane [OF l _ _ fine_fresh [OF f]]
  have "fine os interest j efd n' fd' st'" if "(n', fd') \<in> C" for n' fd'
  proof (cases "n' = n")
    case True
    with that m one have "fd' = fd" unfolding one_to_one_def by fastforce
    with True f show ?thesis by simp
  next
    case False
    with other [OF that] w that show ?thesis
      by (intro keep(4)) (auto simp: worker_state_def)
  qed
  moreover have "x \<in> snd ` C" if "(x, r) \<in> set (el_fds (rt_loops st' j))" for x r
  proof (cases "x = fd")
    case False
    then have "(x, r) \<in> set (el_fds (rt_loops ?st j))"
      using ap(2) [OF False] that by (metis entries_iff)
    with w show ?thesis by (auto simp: worker_state_def)
  qed (use m in force)
  moreover have "el_id (rt_loops st' j) = j" "el_fd (rt_loops st' j) = efd" "el_cbs (rt_loops st' j) = q"
    using ap(1) w by (auto simp: apart_def worker_state_def)
  ultimately have "worker_state os interest j efd C st'" "el_cbs (rt_loops st' j) = q"
    by (auto simp: worker_state_def)
  moreover have "queue_ok os interest j efd C q st'"
  proof -
    have "a' < rt_next st' \<and> (\<exists>fd. (n', fd) \<in> C \<and> ready os interest j efd (rt_code st' a') n' fd st')"
      if x: "(p', n', a') \<in> set q" for p' n' a'
    proof -
      obtain fd' where c: "(n', fd') \<in> C" "ready os interest j efd (rt_code st a') n' fd' ?st" "a' < rt_next st"
        using q x by (fastforce simp: queue_ok_def)
      have "n' \<noteq> n" using q x by (force simp: queue_ok_def)
      with other [OF c(1)] keep(5) [OF _ _ c(2)] codes [OF c(3)] c(1,3) ap(1) show ?thesis
        by (auto simp: apart_def)
    qed
    then show ?thesis using q by (auto simp: queue_ok_def)
  qed
  moreover have "settled os interest j efd n' fd' st'" if "(n', fd') \<in> C" "n' \<noteq> n" "settled os interest j efd n' fd' st" for n' fd'
    using other [OF that(1,2)] that(3) by (intro keep(3)) auto
  ultimately show ?thesis
    using run m s codes by blast
qed

text \<open>All of them.\<close>

lemma drain_queue:
  assumes k: "crew_kernel os efd interest C" and h: "crew_handlers os interest j efd dp C" and one: "one_to_one C"
  shows "el_cbs (w_loop w) = q \<Longrightarrow> worker_state os interest j efd C (leave_all j w) \<Longrightarrow>
     queue_ok os interest j efd C q (leave_all j w) \<Longrightarrow>
     \<exists>w'. drain (run_in_loop os dp j) w = Some (w', Inr ()) \<and> el_cbs (w_loop w') = [] \<and>
       worker_state os interest j efd C (leave_all j w') \<and>
       (\<forall>(n, fd) \<in> C. (\<exists>p a. (p, n, a) \<in> set q \<and> w_code w a = On_acpt_writable) \<or>
            n \<notin> (\<lambda>(p, n, a). n) ` set q \<and> settled os interest j efd n fd (leave_all j w) \<longrightarrow>
          settled os interest j efd n fd (leave_all j w'))"
proof (induction q arbitrary: w)
  case Nil
  then show ?case by (subst drain.simps) auto
next
  case (Cons x q)
  obtain p n a where x: "x = (p, n, a)" by (metis prod_cases3)
  let ?st = "leave_all j w"
  obtain st' fd where run: "run_callback os dp (rt_code ?st a) n (requeued j q ?st) = (st', Inr ())" "el_cbs (rt_loops st' j) = q"
    and w': "worker_state os interest j efd C st'" "queue_ok os interest j efd C q st'" "(n, fd) \<in> C"
    and s: "rt_code ?st a = On_acpt_writable \<longrightarrow> settled os interest j efd n fd st'"
      "\<And>n' fd'. (n', fd') \<in> C \<Longrightarrow> n' \<noteq> n \<Longrightarrow> settled os interest j efd n' fd' ?st \<Longrightarrow> settled os interest j efd n' fd' st'"
    and codes: "\<And>a'. a' < rt_next ?st \<Longrightarrow> rt_code st' a' = rt_code ?st a'"
    using queue_step [OF k h one Cons.prems(2) Cons.prems(3) [unfolded x]] by blast
  let ?w = "enter_all j st'"
  have st': "leave_all j ?w = st'" and code: "rt_code ?st = w_code w" by (simp_all add: leave_all_def enter_all_def)
  have "leave_all j (set_cbs q w) = requeued j q ?st" by (simp add: leave_all_def)
  with run(1) Cons.prems(1) x have step: "drain (run_in_loop os dp j) w = drain (run_in_loop os dp j) ?w"
    by (subst drain.simps) (simp add: run_in_loop_def code)
  have cbs: "el_cbs (w_loop ?w) = q" using run(2) by (simp add: enter_all_def)
  obtain w2 where w2: "drain (run_in_loop os dp j) ?w = Some (w2, Inr ())" "el_cbs (w_loop w2) = []"
      "worker_state os interest j efd C (leave_all j w2)"
    and ball: "\<forall>(n, fd) \<in> C. (\<exists>p a. (p, n, a) \<in> set q \<and> w_code ?w a = On_acpt_writable) \<or>
          n \<notin> (\<lambda>(p, n, a). n) ` set q \<and> settled os interest j efd n fd st' \<longrightarrow> settled os interest j efd n fd (leave_all j w2)"
    using Cons.IH [OF cbs, unfolded st', OF w'(1,2)] by (elim exE conjE) (rule that)
  from ball have s2: "settled os interest j efd n fd (leave_all j w2)"
    if "(n, fd) \<in> C" "(\<exists>p a. (p, n, a) \<in> set q \<and> w_code ?w a = On_acpt_writable) \<or>
      n \<notin> (\<lambda>(p, n, a). n) ` set q \<and> settled os interest j efd n fd st'" for n fd
    using that by blast
  have late: "n' \<noteq> n \<and> a' < rt_next ?st" if "(p', n', a') \<in> set q" for p' n' a'
    using Cons.prems(3) that by (force simp: queue_ok_def x)
  have "settled os interest j efd n' fd' (leave_all j w2)"
    if c: "(n', fd') \<in> C" and begun: "(\<exists>p a. (p, n', a) \<in> set (x # q) \<and> w_code w a = On_acpt_writable) \<or>
      n' \<notin> (\<lambda>(p, n, a). n) ` set (x # q) \<and> settled os interest j efd n' fd' ?st" for n' fd'
  proof (cases "n' = n")
    case True
    then have "fd' = fd" using c w'(3) one unfolding one_to_one_def by fastforce
    have "n \<notin> (\<lambda>(p, n, a). n) ` set q" using late by fastforce
    with begun True x have "w_code w a = On_acpt_writable" by force
    with s(1) True \<open>fd' = fd\<close> \<open>n \<notin> _\<close> show ?thesis
      by (intro s2 [OF c]) (simp add: code)
  next
    case False
    with begun x consider p' a' where "(p', n', a') \<in> set q" "w_code w a' = On_acpt_writable"
      | "n' \<notin> (\<lambda>(p, n, a). n) ` set q" "settled os interest j efd n' fd' ?st" by auto
    then show ?thesis
    proof cases
      case 1
      then have "w_code ?w a' = On_acpt_writable"
        using codes [of a'] late [OF 1(1)] by (simp add: enter_all_def code)
      with 1 show ?thesis by (intro s2 [OF c]) blast
    next
      case 2
      with s(2) [OF c False] show ?thesis by (intro s2 [OF c]) simp
    qed
  qed
  then show ?case
    unfolding step using w2 by blast
qed

text \<open>The callbacks an event makes due, through the callbacks' addresses.\<close>

lemma due_regs:
  "map (\<lambda>(p, n, a). (n, rt_code st a)) (due_of ep (el_fds (rt_loops st j)) (fd, e))
     = map (\<lambda>(n, ev, cb). (n, cb)) (filter (\<lambda>(n, ev, cb). and ev (fd_map_to_event ep e) \<noteq> 0) (regs_of j fd st))"
proof -
  have "map (\<lambda>(p, n, a). (n, code a)) (map (\<lambda>(fd', p, n, a, t). (p, n, a)) (filter (\<lambda>(fd', p, n, a, t). fd' = fd \<and> and t d \<noteq> 0) fds))
      = map (\<lambda>(n, ev, cb). (n, cb)) (filter (\<lambda>(n, ev, cb). and ev d \<noteq> 0)
          (map (\<lambda>(fd', p, n, a, ev). (n, ev, code a)) (filter (\<lambda>(fd', r). fd' = fd) fds)))"
    for fds :: "(int \<times> registration) list" and code :: "nat \<Rightarrow> callback" and d
    by (induction fds) auto
  then show ?thesis
    by (simp add: due_of_def regs_of_def)
qed

lemma map_to_event_bits:
  "and fd_readable (fd_map_to_event ep e) \<noteq> 0 \<longleftrightarrow> and e (ep_in ep) \<noteq> 0"
  "and fd_writable (fd_map_to_event ep e) \<noteq> 0 \<longleftrightarrow> and e (ep_out ep) \<noteq> 0"
  by (auto simp: fd_map_to_event_def fd_readable_def fd_writable_def Let_def)

lemma due_of_fd: "(\<And>r. (fd, r) \<notin> set fds) \<Longrightarrow> due_of ep fds (fd, e) = []"
  by (auto simp: due_of_def filter_empty_conv)

lemma due_of_code: "fresh_code j st \<Longrightarrow> (p, n, a) \<in> set (due_of ep (el_fds (rt_loops st j)) (fd, e)) \<Longrightarrow> a < rt_next st"
  by (force simp: fresh_code_def due_of_def)

lemma due_ready:
  assumes masks: "masks_ok (os_ep os)" and f: "fine os interest j efd n fd st"
    and i: "interest (rt_k st) fd = Some m" "and e (ep_in (os_ep os)) \<noteq> 0 \<longrightarrow> and m (ep_in (os_ep os)) \<noteq> 0"
      "and e (ep_out (os_ep os)) \<noteq> 0 \<longrightarrow> and m (ep_out (os_ep os)) \<noteq> 0"
  defines "q \<equiv> due_of (os_ep os) (el_fds (rt_loops st j)) (fd, e)"
  shows "q = [] \<or> (\<exists>p a. q = [(p, n, a)] \<and> a < rt_next st \<and> ready os interest j efd (rt_code st a) n fd st)"
    and "arrived os interest j efd n fd st \<Longrightarrow> and e (ep_out (os_ep os)) \<noteq> 0 \<Longrightarrow> \<exists>p a. q = [(p, n, a)] \<and> rt_code st a = On_acpt_writable"
proof -
  have exclusive: "and (ep_in (os_ep os)) (ep_out (os_ep os)) = 0" "and (ep_out (os_ep os)) (ep_in (os_ep os)) = 0"
    using masks by (simp_all add: masks_ok_def and.commute)
  note regs = due_regs [where ep = "os_ep os" and j = j and fd = fd and e = e and st = st, folded q_def]
  have one: "\<exists>p a. q = [(p, n, a)] \<and> rt_code st a = cb" if "map (\<lambda>(p, n, a). (n, rt_code st a)) q = [(n, cb)]" for cb
    using that by auto
  have codes: "a < rt_next st" if "(p, n', a) \<in> set q" for p n' a
    using due_of_code [OF fine_fresh [OF f]] that unfolding q_def by blast
  have acpt: "map (\<lambda>(p, n, a). (n, rt_code st a)) q = (if and e (ep_out (os_ep os)) \<noteq> 0 then [(n, On_acpt_writable)] else [])"
    if "arrived os interest j efd n fd st"
    using that map_to_event_bits [of "os_ep os" e] by (simp add: regs arrived_def conn_def Let_def)
  then show "arrived os interest j efd n fd st \<Longrightarrow> and e (ep_out (os_ep os)) \<noteq> 0 \<Longrightarrow> \<exists>p a. q = [(p, n, a)] \<and> rt_code st a = On_acpt_writable"
    by (intro one) simp
  from f i(1) consider "arrived os interest j efd n fd st" | "settled os interest j efd n fd st"
    by (auto simp: fine_def released_def conn_def Let_def)
  then show "q = [] \<or> (\<exists>p a. q = [(p, n, a)] \<and> a < rt_next st \<and> ready os interest j efd (rt_code st a) n fd st)"
  proof cases
    case 1
    then show ?thesis
      using one [of On_acpt_writable] acpt codes by (cases "and e (ep_out (os_ep os)) = 0") fastforce+
  next
    case 2
    then have c: "conn interest j efd n fd io_regs (Some (if drained n st then ep_in (os_ep os) else ep_out (os_ep os))) st"
      by (simp add: settled_def)
    then have m: "m = (if drained n st then ep_in (os_ep os) else ep_out (os_ep os))"
      using i(1) by (simp add: conn_def Let_def)
    have "map (\<lambda>(p, n, a). (n, rt_code st a)) q =
        (if and e (ep_in (os_ep os)) \<noteq> 0 then [(n, On_readable)] else []) @ (if and e (ep_out (os_ep os)) \<noteq> 0 then [(n, On_writable)] else [])"
      using c map_to_event_bits [of "os_ep os" e] by (simp add: regs io_regs_def conn_def Let_def)
    then consider "q = []" | "drained n st" "map (\<lambda>(p, n, a). (n, rt_code st a)) q = [(n, On_readable)]"
      | "\<not> drained n st" "map (\<lambda>(p, n, a). (n, rt_code st a)) q = [(n, On_writable)]"
      using i(2,3) m exclusive by (auto split: if_splits)
    then show ?thesis
      using one 2 codes by cases fastforce+
  qed
qed

text \<open>What \<open>epoll_wait\<close> reports of the crew makes a good queue.\<close>

lemma due_single:
  assumes masks: "masks_ok (os_ep os)" and w: "worker_state os interest j efd C st"
    and rep: "reported_ok os (interest (rt_k st)) evs" and ev: "(fd, e) \<in> set evs"
  defines "q \<equiv> due_of (os_ep os) (el_fds (rt_loops st j)) (fd, e)"
  shows "q = [] \<or> (\<exists>p n a. q = [(p, n, a)] \<and> a < rt_next st \<and> (n, fd) \<in> C \<and> ready os interest j efd (rt_code st a) n fd st)"
proof (cases "fd \<in> snd ` C")
  case True
  then obtain n where c: "(n, fd) \<in> C" by auto
  obtain m where m: "interest (rt_k st) fd = Some m" "and e (ep_in (os_ep os)) \<noteq> 0 \<longrightarrow> and m (ep_in (os_ep os)) \<noteq> 0"
      "and e (ep_out (os_ep os)) \<noteq> 0 \<longrightarrow> and m (ep_out (os_ep os)) \<noteq> 0"
    using rep ev unfolding reported_ok_def by blast
  have "fine os interest j efd n fd st" using w c by (auto simp: worker_state_def)
  from due_ready(1) [OF masks this m] c show ?thesis unfolding q_def by blast
next
  case False
  then have "q = []" unfolding q_def using w by (intro due_of_fd) (auto simp: worker_state_def)
  then show ?thesis by simp
qed

lemma due_crew:
  assumes masks: "masks_ok (os_ep os)" and one: "one_to_one C" and w: "worker_state os interest j efd C st"
  shows "reported_ok os (interest (rt_k st)) evs \<Longrightarrow> queue_ok os interest j efd C (due (os_ep os) (el_fds (rt_loops st j)) evs) st \<and>
     (\<forall>(p, n, a) \<in> set (due (os_ep os) (el_fds (rt_loops st j)) evs). \<exists>fd \<in> fst ` set evs. (n, fd) \<in> C)"
proof (induction evs)
  case Nil
  show ?case by (simp add: due_def queue_ok_def)
next
  case (Cons ev evs)
  obtain fd e where ev: "ev = (fd, e)" by fastforce
  let ?fds = "el_fds (rt_loops st j)"
  have rest: "reported_ok os (interest (rt_k st)) evs" "fd \<notin> fst ` set evs"
    using Cons.prems by (auto simp: reported_ok_def ev)
  have due: "due (os_ep os) ?fds (ev # evs) = due_of (os_ep os) ?fds (fd, e) @ due (os_ep os) ?fds evs"
    by (simp add: due_def ev)
  from due_single [OF masks w Cons.prems, of fd e]
  consider "due_of (os_ep os) ?fds (fd, e) = []"
    | p n a where "due_of (os_ep os) ?fds (fd, e) = [(p, n, a)]" "a < rt_next st" "(n, fd) \<in> C" "ready os interest j efd (rt_code st a) n fd st"
    by (auto simp: ev)
  then show ?case
  proof cases
    case 1
    with Cons.IH [OF rest(1)] show ?thesis by (auto simp: due)
  next
    case 2
    have "n \<notin> (\<lambda>(p, n, a). n) ` set (due (os_ep os) ?fds evs)"
    proof
      assume "n \<in> (\<lambda>(p, n, a). n) ` set (due (os_ep os) ?fds evs)"
      then obtain fd' where "fd' \<in> fst ` set evs" "(n, fd') \<in> C"
        using Cons.IH [OF rest(1)] by fastforce
      with one 2(3) rest(2) show False unfolding one_to_one_def by fastforce
    qed
    with 2 Cons.IH [OF rest(1)] show ?thesis
      unfolding due by (fastforce simp: queue_ok_def ev)
  qed
qed

lemma queue_ok_mset:
  assumes "mset q' = mset q"
  shows "queue_ok os interest j efd C q' st = queue_ok os interest j efd C q st"
proof -
  have "distinct (map f q') = distinct (map f q)" for f :: "queued \<Rightarrow> nat"
    using assms by (intro mset_eq_imp_distinct_iff) simp
  moreover have "set q' = set q" using assms by (rule mset_eq_setD)
  ultimately show ?thesis by (simp add: queue_ok_def)
qed

lemma due_arrived:
  assumes masks: "masks_ok (os_ep os)" and w: "worker_state os interest j efd C st"
    and rep: "reported_ok os (interest (rt_k st)) evs" "(fd, e) \<in> set evs" "and e (ep_out (os_ep os)) \<noteq> 0"
    and c: "(n, fd) \<in> C" "arrived os interest j efd n fd st"
  shows "\<exists>p a. (p, n, a) \<in> set (due (os_ep os) (el_fds (rt_loops st j)) evs) \<and> rt_code st a = On_acpt_writable"
proof -
  obtain m where m: "interest (rt_k st) fd = Some m" "and e (ep_in (os_ep os)) \<noteq> 0 \<longrightarrow> and m (ep_in (os_ep os)) \<noteq> 0"
      "and e (ep_out (os_ep os)) \<noteq> 0 \<longrightarrow> and m (ep_out (os_ep os)) \<noteq> 0"
    using rep(1,2) unfolding reported_ok_def by blast
  have "fine os interest j efd n fd st" using w c(1) by (auto simp: worker_state_def)
  from due_ready(2) [OF masks this m c(2) rep(3)] obtain p a where
    "due_of (os_ep os) (el_fds (rt_loops st j)) (fd, e) = [(p, n, a)]" "rt_code st a = On_acpt_writable" by blast
  moreover from this(1) rep(2) have "(p, n, a) \<in> set (due (os_ep os) (el_fds (rt_loops st j)) evs)"
    by (auto simp: due_def intro!: bexI [of _ "(fd, e)"])
  ultimately show ?thesis by blast
qed

lemma worker_state_kernel:
  assumes "worker_state os interest j efd C st" and "interest k = interest (rt_k st)"
  shows "worker_state os interest j efd C (st\<lparr>rt_k := k\<rparr>)"
proof -
  have c: "conn interest j efd n fd rs m (st\<lparr>rt_k := k\<rparr>) = conn interest j efd n fd rs m st" for n fd rs m
    using assms(2) by (simp add: conn_def regs_of_def fresh_code_def Let_def)
  then show ?thesis
    using assms(1) by (simp add: worker_state_def fine_def arrived_def settled_def released_def drained_def front_defs)
qed

text \<open>The round from the loop's side; its world and the reactor are two views of one state.\<close>

definition crew_ok ::
  "'k os \<Rightarrow> ('k \<Rightarrow> int \<Rightarrow> 32 word option) \<Rightarrow> nat \<Rightarrow> int \<Rightarrow> 'k tp_shared_data \<Rightarrow> crew \<Rightarrow> bool"
where
  "crew_ok os interest j efd dp C \<longleftrightarrow> one_to_one C \<and> crew_kernel os efd interest C \<and>
     crew_handlers os interest j efd dp C \<and> wait_kernel os efd interest"

definition on_duty :: "'k os \<Rightarrow> ('k \<Rightarrow> int \<Rightarrow> 32 word option) \<Rightarrow> nat \<Rightarrow> int \<Rightarrow> crew \<Rightarrow> 'k reactor \<Rightarrow> bool" where
  "on_duty os interest j efd C st \<longleftrightarrow> worker_state os interest j efd C st \<and> el_cbs (rt_loops st j) = []"

definition called_first ::
  "'k os \<Rightarrow> ('k \<Rightarrow> int \<Rightarrow> 32 word option) \<Rightarrow> nat \<Rightarrow> int \<Rightarrow> crew \<Rightarrow> (int \<times> 32 word) list \<Rightarrow> 'k reactor \<Rightarrow> 'k reactor \<Rightarrow> bool"
where
  "called_first os interest j efd C evs st st' \<longleftrightarrow>
     (\<forall>(n, fd) \<in> C. \<forall>e. (fd, e) \<in> set evs \<and> and e (ep_out (os_ep os)) \<noteq> 0 \<and> arrived os interest j efd n fd st \<longrightarrow>
        settled os interest j efd n fd st')"

lemma reactor_ep_simps:
  "due_of (reactor_ep ep) = due_of ep"
  "ep_wait (reactor_ep ep) st e n t = (case ep_wait ep (rt_k st) e n t of (r, k) \<Rightarrow> (r, st\<lparr>rt_k := k\<rparr>))"
  by (simp_all add: fun_eq_iff due_of_def fd_map_to_event_def reactor_ep_def Let_def)

lemma leave_all_simps:
  "rt_k (leave_all j w) = rt_k (w_k w)" "rt_loops (leave_all j w) j = w_loop w" "rt_code (leave_all j w) = w_code w"
  "leave_all j (w\<lparr>w_k := (w_k w)\<lparr>rt_k := k\<rparr>\<rparr>) = (leave_all j w)\<lparr>rt_k := k\<rparr>"
  "leave_all j (set_cbs q w) = requeued j q (leave_all j w)" "leave_all j (enter_all j st) = st"
  by (simp_all add: leave_all_def enter_all_def)

lemma worker_round:
  assumes ok: "crew_ok os interest j efd dp C" and w: "on_duty os interest j efd C (leave_all j w)"
  shows "\<exists>w'. loop_once (reactor_ep (os_ep os)) ne (run_in_loop os dp j) t w = Some (w', Inr ()) \<and>
           on_duty os interest j efd C (leave_all j w') \<and>
           (\<forall>evs k. ep_wait (os_ep os) (rt_k (w_k w)) efd ne t = (Inr evs, k) \<longrightarrow>
              called_first os interest j efd C evs (leave_all j w) (leave_all j w'))"
proof -
  have k: "crew_kernel os efd interest C" and h: "crew_handlers os interest j efd dp C" and one: "one_to_one C"
    and wait: "wait_kernel os efd interest" and masks: "masks_ok (os_ep os)"
    using ok by (simp_all add: crew_ok_def crew_kernel_def)
  let ?st = "leave_all j w"
  have ws: "worker_state os interest j efd C ?st" and cbs: "el_cbs (w_loop w) = []" and efd: "el_fd (w_loop w) = efd"
    using w by (simp_all add: on_duty_def worker_state_def leave_all_simps)
  obtain reply k' where reply: "ep_wait (os_ep os) (rt_k (w_k w)) efd ne t = (reply, k')" by fastforce
  have contract: "case reply of Inl e \<Rightarrow> e = EINTR \<and> interest k' = interest (rt_k (w_k w))
      | Inr evs \<Rightarrow> interest k' = interest (rt_k (w_k w)) \<and> reported_ok os (interest (rt_k (w_k w))) evs"
    using wait [unfolded wait_kernel_def, rule_format, of "rt_k (w_k w)" ne t] reply by simp
  then have kept: "interest k' = interest (rt_k ?st)"
    using contract by (cases reply) (simp_all add: leave_all_simps)
  let ?w = "w\<lparr>w_k := (w_k w)\<lparr>rt_k := k'\<rparr>\<rparr>"
  have ws': "worker_state os interest j efd C (leave_all j ?w)"
    using worker_state_kernel [OF ws kept] by (simp add: leave_all_simps)
  show ?thesis
  proof (cases reply)
    case (Inl e)
    have "e = EINTR"
      using contract Inl by simp
    then have "loop_once (reactor_ep (os_ep os)) ne (run_in_loop os dp j) t w = drain (run_in_loop os dp j) ?w"
      using reply Inl efd by (simp add: loop_once_def reactor_ep_simps)
    moreover have "drain (run_in_loop os dp j) ?w = Some (?w, Inr ())"
      using cbs by (subst drain.simps) simp
    ultimately show ?thesis
      using ws' cbs reply Inl by (auto simp: on_duty_def leave_all_simps)
  next
    case (Inr evs)
    have rep: "reported_ok os (interest k') evs"
      using contract Inr kept by (simp add: leave_all_simps)
    let ?due = "due (os_ep os) (el_fds (w_loop w)) evs"
    let ?q = "rev (sort ?due)"
    have enq: "enqueue (reactor_ep (os_ep os)) evs ?w = set_cbs ?q ?w"
      using cbs by (simp add: epoll_rounds.enq_due reactor_ep_simps fold_pq_push due_def)
    have run: "loop_once (reactor_ep (os_ep os)) ne (run_in_loop os dp j) t w = drain (run_in_loop os dp j) (set_cbs ?q ?w)"
      using reply Inr efd enq by (simp add: loop_once_def reactor_ep_simps)
    have q: "queue_ok os interest j efd C ?q (leave_all j ?w)"
      using conjunct1 [OF due_crew [OF masks one ws', of evs]] rep
      by (simp add: leave_all_simps queue_ok_mset [of ?q ?due])
    have again: "leave_all j (set_cbs ?q ?w) = requeued j ?q (leave_all j ?w)"
      by (rule leave_all_simps(5))
    have "queue_ok os interest j efd C ?q (leave_all j (set_cbs ?q ?w))"
      unfolding again requeued_worker by (rule q)
    moreover have "worker_state os interest j efd C (leave_all j (set_cbs ?q ?w))"
      unfolding again requeued_worker by (rule ws')
    ultimately obtain w' where w': "drain (run_in_loop os dp j) (set_cbs ?q ?w) = Some (w', Inr ())" "el_cbs (w_loop w') = []"
        "worker_state os interest j efd C (leave_all j w')"
      and ball: "\<forall>(n, fd) \<in> C. (\<exists>p a. (p, n, a) \<in> set ?q \<and> w_code (set_cbs ?q ?w) a = On_acpt_writable) \<or>
            n \<notin> (\<lambda>(p, n, a). n) ` set ?q \<and> settled os interest j efd n fd (leave_all j (set_cbs ?q ?w)) \<longrightarrow>
          settled os interest j efd n fd (leave_all j w')"
      using drain_queue [OF k h one, of "set_cbs ?q ?w" ?q] by auto
    have "called_first os interest j efd C evs ?st (leave_all j w')"
      unfolding called_first_def
    proof (clarify, goal_cases)
      case (1 n fd e)
      then have "arrived os interest j efd n fd (leave_all j ?w)"
        using kept by (simp add: arrived_def conn_def regs_of_def fresh_code_def drained_def leave_all_simps Let_def)
      from due_arrived [OF masks ws' _ 1(2,3,1) this] rep
      have "\<exists>p a. (p, n, a) \<in> set ?q \<and> w_code (set_cbs ?q ?w) a = On_acpt_writable"
        by (simp add: leave_all_simps)
      with ball 1(1) show ?case by blast
    qed
    with w' reply Inr show ?thesis
      by (auto simp: run on_duty_def leave_all_simps)
  qed
qed

lemma worker_loop:
  assumes ok: "crew_ok os interest j efd dp C" and w: "on_duty os interest j efd C (leave_all j w)"
    and run: "loop_forever (reactor_ep (os_ep os)) ne (run_in_loop os dp j) t w = Some y"
  shows "snd y = Inr () \<and> on_duty os interest j efd C (leave_all j (fst y)) \<and> el_stop (w_loop (fst y))"
proof -
  have "ep = reactor_ep (os_ep os) \<and> run = run_in_loop os dp j \<and> on_duty os interest j efd C (leave_all j w) \<longrightarrow>
      snd y = Inr () \<and> on_duty os interest j efd C (leave_all j (fst y)) \<and> el_stop (w_loop (fst y))"
    if "loop_forever ep ne run t w = Some y" for ep run w y
  proof (rule loop_forever.raw_induct [OF _ that, where P = "\<lambda>ep ne run t w y. ep = reactor_ep (os_ep os) \<and> run = run_in_loop os dp j \<and>
      on_duty os interest j efd C (leave_all j w) \<longrightarrow>
      snd y = Inr () \<and> on_duty os interest j efd C (leave_all j (fst y)) \<and> el_stop (w_loop (fst y))"], goal_cases)
    case (1 f ep ne run t w y)
    show ?case
    proof (intro impI, elim conjE)
      assume "ep = reactor_ep (os_ep os)" "run = run_in_loop os dp j" "on_duty os interest j efd C (leave_all j w)"
      with worker_round [OF ok this(3), of ne t] 1 show
        "snd y = Inr () \<and> on_duty os interest j efd C (leave_all j (fst y)) \<and> el_stop (w_loop (fst y))"
        by (auto split: if_splits)
    qed
  qed
  with assms show ?thesis by blast
qed

section \<open>New connections\<close>

text \<open>A connection the acceptor hands over joins the crew.\<close>

lemma conn_beside_registered:
  assumes c: "conn interest j efd n' fd' rs m st" and ne: "n' \<noteq> n" "fd' \<noteq> io_fd (rt_objs st n)"
  shows "conn interest j efd n' fd' rs m (registered j n ev (Some cb) st)"
proof -
  have fresh: "fresh_code j st" using c by (simp add: conn_def Let_def)
  have "regs_of j fd' (registered j n ev (Some cb) st) = regs_of j fd' st"
    using map_code_fresh [OF fresh, of cb fd'] ne unfolding regs_of_def by (auto simp: registered_def Let_def)
  moreover have "fresh_code j (registered j n ev (Some cb) st)"
    using fresh by (fastforce simp: fresh_code_def registered_def Let_def)
  ultimately show ?thesis
    using c ne(1) by (simp add: conn_def registered_def Let_def)
qed

definition newcomer ::
  "('k \<Rightarrow> int \<Rightarrow> 32 word option) \<Rightarrow> nat \<Rightarrow> crew \<Rightarrow> nat \<Rightarrow> int \<Rightarrow> 'k reactor \<Rightarrow> bool"
where
  "newcomer interest j C n fd st \<longleftrightarrow>
     (let s = rt_objs st n in
      n \<notin> fst ` C \<and> fd \<notin> snd ` C \<and> io_fd s = fd \<and> ro_sock s \<noteq> None \<and> \<not> io_closed s \<and> buf_ok (io_rbuf s) \<and>
      buf_ok (io_wbuf s) \<and> contents (io_wbuf s) = [] \<and> b_offset (io_wbuf s) = 0 \<and> b_offset (io_rbuf s) = 0 \<and>
      interest (rt_k st) fd = None \<and> fresh_code j st)"

section \<open>A worker with one connection\<close>

definition report_seven :: "sock_state \<Rightarrow> int \<Rightarrow> int \<Rightarrow> int \<Rightarrow> (errno + (int \<times> 32 word) list) \<times> sock_state" where
  "report_seven k efd n t = (case ss_watch k efd 7 of None \<Rightarrow> (Inr [], k) | Some m \<Rightarrow> (Inr [(7, m)], k))"

definition crew_os :: "sock_state os" where
  "crew_os = sample_os\<lparr>os_ep := sock_ep\<lparr>ep_wait := report_seven\<rparr>\<rparr>"

definition crew_reactor :: "sock_state reactor" where
  "crew_reactor = sample_reactor\<lparr>rt_objs := (\<lambda>_. sample_obj\<lparr>io_rbuf := empty_buffer\<rparr>)\<rparr>"

lemma crew_sample: "crew_ok crew_os (ss_interest 100) 0 100 idle_data {(1, 7)}"
proof -
  have ep: "ep_kernel (os_ep crew_os) 100 (ss_interest 100)"
    by (auto simp: ep_kernel_def crew_os_def sock_ep_def split: option.split)
  have "conn_kernel crew_os 100 (ss_interest 100) 7 (\<lambda>_. []) (\<lambda>_. []) (\<lambda>_. 0) (\<lambda>_. 0)"
    using sample_conn_kernel [of 7] ep by (simp add: conn_kernel_def crew_os_def)
  then have "crew_kernel crew_os 100 (ss_interest 100) {(1, 7)}"
    using ep by (auto simp: crew_kernel_def masks_ok_def crew_os_def sample_os_def sock_ep_def intro!: exI [of _ "\<lambda>_. 0"])
  moreover have "crew_handlers crew_os (ss_interest 100) 0 100 idle_data {(1, 7)}"
    by (simp add: crew_handlers_def idle_handlers idle_data_simps idle_lane idle_results del: One_nat_def)
  moreover have "wait_kernel crew_os 100 (ss_interest 100)"
    by (auto simp: wait_kernel_def crew_os_def report_seven_def reported_ok_def split: option.split)
  ultimately show ?thesis
    by (simp add: crew_ok_def one_to_one_def)
qed

lemma crew_reactor_ok:
  "on_duty crew_os (ss_interest 100) 0 100 {(1, 7)} crew_reactor" "arrived crew_os (ss_interest 100) 0 100 1 7 crew_reactor"
proof -
  show arr: "arrived crew_os (ss_interest 100) 0 100 1 7 crew_reactor"
    using sample_conn empty_buffer_ok
    by (simp add: arrived_def crew_reactor_def conn_def regs_of_def fresh_code_def drained_def sample_reactor_def sample_obj_def
        crew_os_def sample_os_def sock_ep_def Let_def)
  then show "on_duty crew_os (ss_interest 100) 0 100 {(1, 7)} crew_reactor"
    by (simp add: on_duty_def worker_state_def fine_def front_defs crew_reactor_def sample_reactor_def sample_obj_def empty_buffer_def)
qed

section \<open>Properties\<close>



end
