(* ===== verification/Turns.thy ===== *)
theory Turns
  imports Worker Load_Balance
begin

text \<open>
  Threads that take turns (\<open>iohandler\<close> and \<open>acceptor\<close> in \<open>src/src/lib/tcp.cc\<close>): a loop waits for events
  or calls one callback at a time, and what a worker's turn does to its own connections, to those of
  the others and to the epoll instances of the others.
\<close>

section \<open>What a worker leaves alone of the others\<close>

text \<open>Several epoll instances in one kernel: what one is told does not change what another watches.\<close>

definition elsewhere :: "('k \<Rightarrow> int \<Rightarrow> int \<Rightarrow> 32 word option) \<Rightarrow> int \<Rightarrow> 'k reactor \<Rightarrow> 'k reactor \<Rightarrow> bool" where
  "elsewhere watch efd st st' \<longleftrightarrow> (\<forall>efd'. efd' \<noteq> efd \<longrightarrow> watch (rt_k st') efd' = watch (rt_k st) efd')"

interpretation far: act_frame "holds j efd n fd" "elsewhere watch efd" for j efd n fd watch
  by unfold_locales (auto simp: elsewhere_def)

abbreviation leaves_others ::
  "('k \<Rightarrow> int \<Rightarrow> int \<Rightarrow> 32 word option) \<Rightarrow> nat \<Rightarrow> int \<Rightarrow> nat \<Rightarrow> int \<Rightarrow> ('k, 'a) act \<Rightarrow> bool"
where
  "leaves_others watch j efd n fd \<equiv> keeps (holds j efd n fd) (elsewhere watch efd)"

definition epoll_instances :: "'k epoll_api \<Rightarrow> ('k \<Rightarrow> int \<Rightarrow> int \<Rightarrow> 32 word option) \<Rightarrow> bool" where
  "epoll_instances ep watch \<longleftrightarrow> epolls ep watch \<and>
     (\<forall>k efd fd efd'. efd' \<noteq> efd \<longrightarrow> watch (snd (ep_del ep k efd fd)) efd' = watch k efd')"

lemma epoll_instancesD:
  assumes "epoll_instances ep watch"
  shows "epolls ep watch" "ep_kernel ep efd (\<lambda>k. watch k efd)"
    "ep_add ep k efd fd m = (r, k') \<Longrightarrow> efd' \<noteq> efd \<Longrightarrow> watch k' efd' = watch k efd'"
    "ep_del ep k efd fd = (r, k') \<Longrightarrow> efd' \<noteq> efd \<Longrightarrow> watch k' efd' = watch k efd'"
  using assms unfolding epoll_instances_def epolls_def by (auto, metis snd_conv, metis snd_conv)

lemma farI:
  assumes "in_lane interest j efd n fd m"
    and "\<And>st st' r. holds j efd n fd st \<Longrightarrow> m st = (st', r) \<Longrightarrow> elsewhere watch efd st st'"
  shows "leaves_others watch j efd n fd m"
  using assms by (auto intro!: keepsI dest: keepsD)

lemma far_register:
  assumes ep: "epoll_instances (os_ep os) watch"
  shows "leaves_others watch j efd n fd (evlp_register os n ev cb activate)"
proof (rule farI [OF lane_register [OF epoll_instancesD(2) [OF ep]]])
  fix st st' r
  assume h: "holds j efd n fd st" and run: "evlp_register os n ev cb activate st = (st', r)"
  then have "loop_register os j n ev cb activate st = (st', r)"
    by (simp add: evlp_register_def andthen_def evlp_of_def holds_evlp)
  with h show "elsewhere watch efd st st'"
    by (auto simp: elsewhere_def loop_register_eq holds_def registered_def Let_def dest: epoll_instancesD(3) [OF ep]
        split: if_splits option.splits prod.splits)
qed

lemma far_remove:
  assumes ep: "epoll_instances (os_ep os) watch"
  shows "leaves_others watch j efd n fd (evlp_remove os n clean deactivate)"
proof (rule farI [OF lane_remove [OF epoll_instancesD(2) [OF ep]]])
  fix st st' r
  assume h: "holds j efd n fd st" and run: "evlp_remove os n clean deactivate st = (st', r)"
  then have "on_loop j (fd_remove (os_ep os) n clean deactivate) st = (st', r)"
    by (simp add: evlp_remove_def andthen_def evlp_of_def holds_evlp)
  with h show "elsewhere watch efd st st'"
    by (auto simp: elsewhere_def loop_remove_eq holds_def erased_def Let_def dest: epoll_instancesD(4) [OF ep]
        split: if_splits option.splits prod.splits)
qed

lemma far_read:
  assumes "rd_keeps watch (os_sys os)"
  shows "leaves_others watch j efd n fd (obj_read_all os step n)"
proof (rule farI)
  show "in_lane (\<lambda>k. watch k efd) j efd n fd (obj_read_all os step n)"
    using assms by (intro lane_read) (simp add: rd_keeps_def)
  show "elsewhere watch efd st st'" if "obj_read_all os step n st = (st', r)" for st st' r
    using that by (auto simp: elsewhere_def obj_read_all_def obj_io_def dest: read_all_keeps [OF _ assms] split: option.splits)
qed

lemma far_write:
  assumes "wr_keeps watch (os_sys os)"
  shows "leaves_others watch j efd n fd (obj_write_all os step n)"
proof (rule farI)
  show "in_lane (\<lambda>k. watch k efd) j efd n fd (obj_write_all os step n)"
    using assms by (intro lane_write) (simp add: wr_keeps_def)
  show "elsewhere watch efd st st'" if "obj_write_all os step n st = (st', r)" for st st' r
    using that by (auto simp: elsewhere_def obj_write_all_def obj_io_def dest: write_all_keeps [OF _ assms] split: option.splits)
qed

lemma far_clear: "leaves_others watch j efd n fd (rbuf_clear n)"
  by (rule farI [OF lane_clear]) (auto simp: elsewhere_def rbuf_clear_def obj_buf_def split: sum.splits)

section \<open>Workers\<close>

text \<open>The connections a loop holds are those of its table.\<close>

definition in_table :: "nat \<Rightarrow> 'k reactor \<Rightarrow> crew" where
  "in_table j st = (\<lambda>(fd, p, n, a, t). (n, fd)) ` set (el_fds (rt_loops st j))"

abbreviation epfd :: "nat \<Rightarrow> 'k reactor \<Rightarrow> int" where
  "epfd j st \<equiv> el_fd (rt_loops st j)"

text \<open>A worker between two turns: its queue may be filled.\<close>

definition worker_ok :: "'k os \<Rightarrow> ('k \<Rightarrow> int \<Rightarrow> int \<Rightarrow> 32 word option) \<Rightarrow> nat \<Rightarrow> 'k reactor \<Rightarrow> bool" where
  "worker_ok os watch j st \<longleftrightarrow>
     worker_state os (\<lambda>k. watch k (epfd j st)) j (epfd j st) (in_table j st) st \<and>
     queue_ok os (\<lambda>k. watch k (epfd j st)) j (epfd j st) (in_table j st) (el_cbs (rt_loops st j)) st \<and>
     fresh_code j st \<and> (\<forall>(n, fd) \<in> in_table j st. n < rt_next st) \<and>
     (\<forall>fd m. watch (rt_k st) (epfd j st) fd = Some m \<longrightarrow> fd \<in> snd ` in_table j st)"

text \<open>What the server asks of the kernel and of the handlers, for any connection.\<close>

definition server_kernel :: "'k os \<Rightarrow> ('k \<Rightarrow> int \<Rightarrow> int \<Rightarrow> 32 word option) \<Rightarrow> bool" where
  "server_kernel os watch \<longleftrightarrow> epoll_instances (os_ep os) watch \<and>
     (\<forall>efd. crew_kernel os efd (\<lambda>k. watch k efd) UNIV) \<and>
     rd_keeps watch (os_sys os) \<and> wr_keeps watch (os_sys os) \<and> accept_keeps watch (os_sys os) \<and>
     (\<forall>k efd n t. case ep_wait (os_ep os) k efd n t of
        (Inl e, k') \<Rightarrow> e = EINTR \<and> watch k' = watch k
      | (Inr evs, k') \<Rightarrow> watch k' = watch k \<and> reported_ok os (watch k efd) evs)"

definition server_handlers :: "'k os \<Rightarrow> ('k \<Rightarrow> int \<Rightarrow> int \<Rightarrow> 32 word option) \<Rightarrow> 'k tp_shared_data \<Rightarrow> bool" where
  "server_handlers os watch dp \<longleftrightarrow>
     (\<forall>j efd. crew_handlers os (\<lambda>k. watch k efd) j efd dp UNIV \<and>
        (\<forall>n fd. \<forall>h \<in> {on_accept, on_read_complete, on_write_complete, on_closed}. leaves_others watch j efd n fd (h dp n)))"

lemma far_idle: "leaves_others watch j efd n fd (idle_handler n)"
  by (auto intro: keepsI simp: idle_handler_def lane_def elsewhere_def)

lemma far_echo:
  assumes "server_kernel os watch"
  shows "leaves_others watch j efd n fd (echo_on_read_complete os idle_data n)"
proof -
  have k: "wr_keeps watch (os_sys os)" "epoll_instances (os_ep os) watch"
    using assms by (simp_all add: server_kernel_def)
  have "leaves_others watch j efd n fd (echo_copy n)"
    by (rule farI [OF lane_echo_copy]) (auto simp: elsewhere_def echo_copy_def obj_buf_def split: sum.splits)
  then show ?thesis
    unfolding echo_on_read_complete_def
    by (intro far.andthen far.async_write far_write [OF k(1)] far_remove [OF k(2)] far_register [OF k(2)])
      (simp_all add: idle_data_simps far_idle)
qed

lemma echo_server:
  assumes "server_kernel os watch"
  shows "server_handlers os watch (simple_client os)"
proof -
  have "crew_handlers os (\<lambda>k. watch k efd) j efd (simple_client os) UNIV" for j efd
    using assms by (intro echo_crew) (simp add: server_kernel_def)
  then show ?thesis
    using far_echo [OF assms] by (simp add: server_handlers_def) (simp add: simple_client_def idle_data_simps far_idle)
qed

section \<open>What a worker needs of the rest\<close>

text \<open>\<open>spared j N\<close>: loop \<open>j\<close> and the objects \<open>N\<close> are as before, and callbacks keep their addresses.\<close>

definition spared :: "nat \<Rightarrow> nat set \<Rightarrow> 'k reactor \<Rightarrow> 'k reactor \<Rightarrow> bool" where
  "spared j N st st' \<longleftrightarrow> rt_loops st' j = rt_loops st j \<and> (\<forall>n \<in> N. rt_objs st' n = rt_objs st n) \<and>
     rt_next st \<le> rt_next st' \<and> (\<forall>a < rt_next st. rt_code st' a = rt_code st a)"

lemma conn_spared:
  assumes "conn interest j efd n fd rs m st" and "spared j N st st'" and "n \<in> N" and "interest (rt_k st') fd = interest (rt_k st) fd"
  shows "conn interest j efd n fd rs m st'"
proof -
  have fresh: "fresh_code j st" using assms(1) by (simp add: conn_def Let_def)
  have "fresh_code j st'"
    using fresh assms(2) by (fastforce simp: fresh_code_def spared_def)
  moreover have "regs_of j fd st' = regs_of j fd st"
    using fresh assms(2) by (auto simp: fresh_code_def regs_of_def spared_def)
  ultimately show ?thesis
    using assms by (simp add: conn_def spared_def Let_def)
qed

lemma states_spared:
  assumes "spared j N st st'" and "n \<in> N" and "interest (rt_k st') fd = interest (rt_k st) fd"
  shows "fine os interest j efd n fd st \<Longrightarrow> fine os interest j efd n fd st'"
    and "arrived os interest j efd n fd st \<Longrightarrow> arrived os interest j efd n fd st'"
    and "settled os interest j efd n fd st \<Longrightarrow> settled os interest j efd n fd st'"
    and "ready os interest j efd cb n fd st \<Longrightarrow> ready os interest j efd cb n fd st'"
proof -
  note c = conn_spared [of interest j _ n fd _ _ st N st', OF _ assms]
  have same: "drained n st' = drained n st" "at_front n st' = at_front n st"
    using assms(1,2) by (simp_all add: drained_def front_defs spared_def)
  show arr: "arrived os interest j efd n fd st \<Longrightarrow> arrived os interest j efd n fd st'"
    and set: "settled os interest j efd n fd st \<Longrightarrow> settled os interest j efd n fd st'"
    unfolding arrived_def settled_def same using c by blast+
  show "fine os interest j efd n fd st \<Longrightarrow> fine os interest j efd n fd st'"
    unfolding fine_def released_def same using c arr set by blast
  show "ready os interest j efd cb n fd st \<Longrightarrow> ready os interest j efd cb n fd st'"
    using arr set same by (cases cb) auto
qed

lemma worker_ok_spared:
  assumes w: "worker_ok os watch j st" and s: "spared j (fst ` in_table j st) st st'"
    and k: "watch (rt_k st') (epfd j st) = watch (rt_k st) (epfd j st)"
  shows "worker_ok os watch j st'" "in_table j st' = in_table j st"
proof -
  have l: "rt_loops st' j = rt_loops st j" and n: "rt_next st \<le> rt_next st'"
    using s by (simp_all add: spared_def)
  show held: "in_table j st' = in_table j st" by (simp add: in_table_def l)
  have fresh: "fresh_code j st'"
    using w l n by (fastforce simp: worker_ok_def fresh_code_def)
  let ?I = "\<lambda>k. watch k (epfd j st)"
  have keep: "fine os ?I j (epfd j st) m fd st \<Longrightarrow> fine os ?I j (epfd j st) m fd st'"
    "ready os ?I j (epfd j st) cb m fd st \<Longrightarrow> ready os ?I j (epfd j st) cb m fd st'" if "(m, fd) \<in> in_table j st" for m fd cb
    using states_spared(1,4) [OF s, of m ?I fd] that k by force+
  have "queue_ok os ?I j (epfd j st) (in_table j st) (el_cbs (rt_loops st j)) st'"
    unfolding queue_ok_def
  proof (intro conjI ballI, goal_cases)
    case (2 x)
    obtain p m a where x: "x = (p, m, a)" by (metis prod_cases3)
    then obtain fd where q: "a < rt_next st" "(m, fd) \<in> in_table j st" "ready os ?I j (epfd j st) (rt_code st a) m fd st"
      using w 2 by (auto simp: worker_ok_def queue_ok_def)
    with keep(2) [OF q(2,3)] s x show ?case by (auto simp: spared_def)
  qed (use w in \<open>simp add: worker_ok_def queue_ok_def\<close>)
  moreover have "worker_state os ?I j (epfd j st) (in_table j st) st'"
    using w keep(1) l by (auto simp: worker_ok_def worker_state_def)
  moreover have "m < rt_next st'" if "(m, fd) \<in> in_table j st" for m fd
    using w n that by (force simp: worker_ok_def)
  ultimately show "worker_ok os watch j st'"
    using w by (auto simp: worker_ok_def held fresh l k)
qed

section \<open>The connections a worker holds\<close>

lemma conn_held:
  assumes "conn interest j efd n fd rs m st" and "(n', fd) \<in> in_table j st"
  shows "n' = n" "rs \<noteq> []"
proof -
  obtain p a t where "(fd, p, n', a, t) \<in> set (el_fds (rt_loops st j))" using assms(2) by (auto simp: in_table_def)
  then have "(n', t, rt_code st a) \<in> set (regs_of j fd st)" by (force simp: regs_of_def)
  then show "n' = n" "rs \<noteq> []" using assms(1) by (auto simp: conn_def Let_def)
qed

lemma held_conn:
  assumes "conn interest j efd n fd rs m st" and "rs \<noteq> []"
  shows "(n, fd) \<in> in_table j st"
proof -
  obtain r rs' where rs: "rs = r # rs'" using assms(2) by (cases rs) auto
  then have "(n, fst r, snd r) \<in> set (regs_of j fd st)" using assms(1) by (simp add: conn_def Let_def split_def)
  then show ?thesis by (force simp: regs_of_def in_table_def)
qed

lemma begun_held:
  assumes "ready os interest j efd cb n fd st \<or> arrived os interest j efd n fd st \<or> settled os interest j efd n fd st"
  shows "(n, fd) \<in> in_table j st"
proof -
  have "settled os interest j efd n fd st \<or> arrived os interest j efd n fd st" using assms by (cases cb) auto
  then show ?thesis by (auto simp: settled_def arrived_def io_regs_def intro: held_conn)
qed

lemma fine_conn: "fine os interest j efd n fd st \<Longrightarrow> \<exists>rs m. conn interest j efd n fd rs m st"
  by (auto simp: fine_def arrived_def settled_def released_def)

lemma held_crew:
  assumes "worker_state os interest j efd C st"
  shows "in_table j st \<subseteq> C"
proof
  fix c
  assume c: "c \<in> in_table j st"
  obtain n fd where nf: "c = (n, fd)" by fastforce
  with c assms obtain n' where "(n', fd) \<in> C" by (fastforce simp: in_table_def worker_state_def)
  moreover from this assms have "fine os interest j efd n' fd st" by (auto simp: worker_state_def)
  then obtain rs m where "conn interest j efd n' fd rs m st" using fine_conn by blast
  from conn_held(1) [OF this] c nf have "n = n'" by simp
  ultimately show "c \<in> C" by (simp add: nf)
qed

lemma crew_held:
  assumes w: "worker_state os interest j efd C st"
  shows "worker_state os interest j efd (in_table j st) st"
    and "queue_ok os interest j efd C q st \<Longrightarrow> queue_ok os interest j efd (in_table j st) q st"
proof -
  show "worker_state os interest j efd (in_table j st) st"
    using w held_crew [OF w] unfolding worker_state_def by (force simp: in_table_def)
  show "queue_ok os interest j efd C q st \<Longrightarrow> queue_ok os interest j efd (in_table j st) q st"
    unfolding queue_ok_def using begun_held by fastforce
qed

lemma held_begun:
  assumes "fine os interest j efd n fd st" and "(n, fd) \<in> in_table j st"
  shows "arrived os interest j efd n fd st \<or> settled os interest j efd n fd st"
  using assms conn_held(2) [OF _ assms(2), of interest efd n "[]" None] by (auto simp: fine_def released_def)

section \<open>A thread's turn\<close>

text \<open>
  A thread whose queue is empty waits for events and queues the callbacks that are due; otherwise it
  calls the first one. A round of \<open>loop_once\<close> is a sequence of turns.
\<close>

definition poll :: "'k os \<Rightarrow> nat \<Rightarrow> ('k, unit) act" where
  "poll os j st =
     (case ep_wait (os_ep os) (rt_k st) (epfd j st) (os_events os) (- 1) of
        (Inl e, k) \<Rightarrow> (st\<lparr>rt_k := k\<rparr>, if e \<noteq> EINTR then Inl (System_error ''epoll_wait error'' e) else Inr ())
      | (Inr evs, k) \<Rightarrow> (leave_all j (enqueue (reactor_ep (os_ep os)) evs (enter_all j (st\<lparr>rt_k := k\<rparr>))), Inr ()))"

definition turn :: "'k os \<Rightarrow> 'k tp_shared_data \<Rightarrow> nat \<Rightarrow> ('k, unit) act" where
  "turn os dp j st =
     (case el_cbs (rt_loops st j) of
        [] \<Rightarrow> poll os j st
      | (p, n, a) # q \<Rightarrow> run_callback os dp (rt_code st a) n (requeued j q st))"

lemma poll_queue:
  assumes "el_cbs (rt_loops st j) = []" and "ep_wait (os_ep os) (rt_k st) (epfd j st) (os_events os) (- 1) = (Inr evs, k)"
  shows "poll os j st = (requeued j (rev (sort (due (os_ep os) (el_fds (rt_loops st j)) evs))) (st\<lparr>rt_k := k\<rparr>), Inr ())"
proof -
  let ?w = "enter_all j (st\<lparr>rt_k := k\<rparr>)"
  have "el_cbs (w_loop ?w) = []" "el_fds (w_loop ?w) = el_fds (rt_loops st j)" using assms(1) by (simp_all add: enter_all_def)
  then have "enqueue (reactor_ep (os_ep os)) evs ?w = set_cbs (rev (sort (due (os_ep os) (el_fds (rt_loops st j)) evs))) ?w"
    by (simp add: epoll_rounds.enq_due reactor_ep_simps fold_pq_push due_def)
  with assms(2) show ?thesis
    by (simp add: poll_def leave_all_simps)
qed

definition next_turn :: "'k os \<Rightarrow> 'k tp_shared_data \<Rightarrow> nat \<Rightarrow> 'k reactor \<times> unit res \<Rightarrow> 'k reactor \<times> unit res \<Rightarrow> bool" where
  "next_turn os dp j x y \<longleftrightarrow> snd x = Inr () \<and> y = turn os dp j (fst x)"

lemma drain_turns:
  assumes "drain (run_in_loop os dp j) w = Some y"
  shows "(next_turn os dp j)\<^sup>*\<^sup>* (leave_all j w, Inr ()) (leave_all j (fst y), snd y) \<and>
    (snd y = Inr () \<longrightarrow> el_cbs (w_loop (fst y)) = [])"
proof -
  have "run = run_in_loop os dp j \<longrightarrow> (next_turn os dp j)\<^sup>*\<^sup>* (leave_all j w, Inr ()) (leave_all j (fst y), snd y) \<and>
      (snd y = Inr () \<longrightarrow> el_cbs (w_loop (fst y)) = [])"
    if "drain run w = Some y" for run :: "callback \<Rightarrow> nat \<Rightarrow> 'a reactor rworld \<Rightarrow> 'a reactor rworld \<times> unit res" and w y
  proof (rule drain.raw_induct [OF _ that, where P = "\<lambda>run w y. run = run_in_loop os dp j \<longrightarrow>
      (next_turn os dp j)\<^sup>*\<^sup>* (leave_all j w, Inr ()) (leave_all j (fst y), snd y) \<and>
      (snd y = Inr () \<longrightarrow> el_cbs (w_loop (fst y)) = [])"], goal_cases)
    case (1 f run w y)
    show ?case
    proof (cases "el_cbs (w_loop w)")
      case Nil
      with 1(2) show ?thesis by auto
    next
      case (Cons x q)
      obtain p n a where x: "x = (p, n, a)" by (metis prod_cases3)
      have t: "turn os dp j (leave_all j w) = run_callback os dp (w_code w a) n (leave_all j (set_cbs q w))"
        using Cons x by (simp add: turn_def leave_all_simps)
      obtain st1 r1 where run: "run_callback os dp (w_code w a) n (leave_all j (set_cbs q w)) = (st1, r1)" by fastforce
      then have n: "next_turn os dp j (leave_all j w, Inr ()) (st1, r1)" by (simp add: next_turn_def t)
      show ?thesis
      proof (intro impI)
        assume "run = run_in_loop os dp j"
        with 1(2) Cons x run have y: "case r1 of Inl e \<Rightarrow> y = (enter_all j st1, Inl e) | Inr _ \<Rightarrow> f run (enter_all j st1) = Some y"
          by (auto simp: run_in_loop_def split: sum.splits)
        show "(next_turn os dp j)\<^sup>*\<^sup>* (leave_all j w, Inr ()) (leave_all j (fst y), snd y) \<and>
            (snd y = Inr () \<longrightarrow> el_cbs (w_loop (fst y)) = [])"
        proof (cases r1)
          case (Inl e)
          with y n show ?thesis by (auto simp: leave_all_simps)
        next
          case (Inr u)
          with y 1(1) [of run "enter_all j st1" y] \<open>run = _\<close> have "(next_turn os dp j)\<^sup>*\<^sup>* (st1, Inr ()) (leave_all j (fst y), snd y) \<and>
              (snd y = Inr () \<longrightarrow> el_cbs (w_loop (fst y)) = [])"
            by (simp add: leave_all_simps)
          with n Inr show ?thesis by (auto intro: converse_rtranclp_into_rtranclp)
        qed
      qed
    qed
  qed
  with assms show ?thesis by blast
qed

lemma loop_once_turns:
  assumes "el_cbs (w_loop w) = []" and "loop_once (reactor_ep (os_ep os)) (os_events os) (run_in_loop os dp j) (- 1) w = Some y"
  shows "(next_turn os dp j)\<^sup>*\<^sup>* (leave_all j w, Inr ()) (leave_all j (fst y), snd y) \<and>
    (snd y = Inr () \<longrightarrow> el_cbs (w_loop (fst y)) = [])"
proof -
  have t: "turn os dp j (leave_all j w) = poll os j (leave_all j w)"
    using assms(1) by (simp add: turn_def leave_all_simps)
  obtain reply k where reply: "ep_wait (os_ep os) (rt_k (w_k w)) (el_fd (w_loop w)) (os_events os) (- 1) = (reply, k)" by fastforce
  show ?thesis
  proof (cases "\<exists>e. reply = Inl e \<and> e \<noteq> EINTR")
    case True
    then have "y = (w\<lparr>w_k := (w_k w)\<lparr>rt_k := k\<rparr>\<rparr>, snd (turn os dp j (leave_all j w)))" "fst (turn os dp j (leave_all j w)) = leave_all j (fst y)"
      "snd y \<noteq> Inr ()"
      using assms(2) reply t by (auto simp: loop_once_def reactor_ep_simps poll_def leave_all_simps)
    then have "next_turn os dp j (leave_all j w, Inr ()) (leave_all j (fst y), snd y)"
      by (simp add: next_turn_def) (metis prod.collapse snd_conv)
    with \<open>snd y \<noteq> Inr ()\<close> show ?thesis by blast
  next
    case False
    let ?w = "w\<lparr>w_k := (w_k w)\<lparr>rt_k := k\<rparr>\<rparr>"
    have "\<exists>w1. turn os dp j (leave_all j w) = (leave_all j w1, Inr ()) \<and> drain (run_in_loop os dp j) w1 = Some y"
    proof (cases reply)
      case (Inl e)
      with False assms(2) reply t show ?thesis
        by (intro exI [of _ ?w]) (auto simp: loop_once_def reactor_ep_simps poll_def leave_all_simps)
    next
      case (Inr evs)
      let ?q = "rev (sort (due (os_ep os) (el_fds (w_loop w)) evs))"
      have "enqueue (reactor_ep (os_ep os)) evs ?w = set_cbs ?q ?w"
        using assms(1) by (simp add: epoll_rounds.enq_due reactor_ep_simps fold_pq_push due_def)
      moreover have "turn os dp j (leave_all j w) = (leave_all j (set_cbs ?q ?w), Inr ())"
        unfolding t using poll_queue [where os = os and j = j and st = "leave_all j w" and k = k and evs = evs] assms(1) reply Inr
        by (simp add: leave_all_simps) (simp add: leave_all_def)
      ultimately show ?thesis
        using assms(2) reply Inr by (intro exI [of _ "set_cbs ?q ?w"]) (simp add: loop_once_def reactor_ep_simps)
    qed
    then obtain w1 where w1: "next_turn os dp j (leave_all j w, Inr ()) (leave_all j w1, Inr ())" "drain (run_in_loop os dp j) w1 = Some y"
      by (auto simp: next_turn_def)
    with drain_turns [OF w1(2)] show ?thesis
      by (blast intro: converse_rtranclp_into_rtranclp)
  qed
qed

lemma loop_forever_turns:
  assumes "el_cbs (w_loop w) = []" and "loop_forever (reactor_ep (os_ep os)) (os_events os) (run_in_loop os dp j) (- 1) w = Some y"
  shows "(next_turn os dp j)\<^sup>*\<^sup>* (leave_all j w, Inr ()) (leave_all j (fst y), snd y)"
proof -
  let ?P = "\<lambda>ep ne run t w y. ep = reactor_ep (os_ep os) \<and> ne = os_events os \<and> run = run_in_loop os dp j \<and> t = - 1 \<and>
      el_cbs (w_loop w) = [] \<longrightarrow> (next_turn os dp j)\<^sup>*\<^sup>* (leave_all j w, Inr ()) (leave_all j (fst y), snd y)"
  have "?P ep ne run t w y" if "loop_forever ep ne run t w = Some y" for ep ne run t w y
  proof (rule loop_forever.raw_induct [OF _ that, where P = ?P], goal_cases)
    case (1 f ep ne run t w y)
    show ?case
    proof (intro impI, elim conjE)
      assume eq: "ep = reactor_ep (os_ep os)" "ne = os_events os" "run = run_in_loop os dp j" "t = - 1" and q: "el_cbs (w_loop w) = []"
      show "(next_turn os dp j)\<^sup>*\<^sup>* (leave_all j w, Inr ()) (leave_all j (fst y), snd y)"
      proof (cases "el_stop (w_loop w)")
        case True
        with 1(2) show ?thesis by auto
      next
        case False
        with 1(2) obtain w1 r1 where once: "loop_once ep ne run t w = Some (w1, r1)" by (auto split: option.splits)
        note turns = loop_once_turns [OF q once [unfolded eq]]
        from False once 1(2) have "case r1 of Inl e \<Rightarrow> y = (w1, Inl e) | Inr _ \<Rightarrow> f ep ne run t w1 = Some y"
          by (auto split: sum.splits)
        with turns 1(1) [of ep ne run t w1 y] eq show ?thesis
          by (cases r1) auto
      qed
    qed
  qed
  with assms show ?thesis by blast
qed


section \<open>A worker's turn\<close>

lemma server_kernelD:
  assumes "server_kernel os watch"
  shows "epoll_instances (os_ep os) watch" "crew_kernel os efd (\<lambda>k. watch k efd) C" "rd_keeps watch (os_sys os)"
    "wr_keeps watch (os_sys os)" "accept_keeps watch (os_sys os)" "masks_ok (os_ep os)"
  using assms by (auto simp: server_kernel_def crew_kernel_def)

lemma server_waits:
  assumes "server_kernel os watch" and reply: "ep_wait (os_ep os) k efd n t = (reply, k')"
  shows "watch k' = watch k" "case reply of Inl e \<Rightarrow> e = EINTR | Inr evs \<Rightarrow> reported_ok os (watch k efd) evs"
proof -
  have "case ep_wait (os_ep os) k efd n t of
        (Inl e, k') \<Rightarrow> e = EINTR \<and> watch k' = watch k
      | (Inr evs, k') \<Rightarrow> watch k' = watch k \<and> reported_ok os (watch k efd) evs"
    using assms(1) unfolding server_kernel_def by (elim conjE) (drule spec, drule spec, drule spec, erule spec)
  then show "watch k' = watch k" "case reply of Inl e \<Rightarrow> e = EINTR | Inr evs \<Rightarrow> reported_ok os (watch k efd) evs"
    by (simp_all add: reply split: sum.splits)
qed

lemma server_handlersD:
  assumes "server_handlers os watch dp"
  shows "crew_handlers os (\<lambda>k. watch k efd) j efd dp C"
    "leaves_others watch j efd n fd (on_accept dp n)" "leaves_others watch j efd n fd (on_read_complete dp n)"
    "leaves_others watch j efd n fd (on_write_complete dp n)" "leaves_others watch j efd n fd (on_closed dp n)"
  using assms unfolding server_handlers_def crew_handlers_def by fastforce+

lemma far_callback:
  assumes K: "server_kernel os watch" and H: "server_handlers os watch dp"
    and cb: "cb \<in> {On_acpt_writable, On_readable, On_writable}"
  shows "leaves_others watch j efd n fd (run_callback os dp cb n)"
proof -
  note ep = server_kernelD(1) [OF K]
  note rules = far_read [OF server_kernelD(3) [OF K]] far_write [OF server_kernelD(4) [OF K]] far_clear
    far_remove [OF ep] far_register [OF ep] server_handlersD(2-5) [OF H]
  show ?thesis
    using cb by (auto intro!: far.on_acpt_writable far.on_readable far.on_writable rules)
qed

lemma worker_call:
  assumes K: "server_kernel os watch" and H: "server_handlers os watch dp" and one: "one_to_one (in_table j st)"
    and w: "worker_ok os watch j st" and q: "el_cbs (rt_loops st j) = (p, n, a) # q"
  defines "efd \<equiv> epfd j st"
  shows "\<exists>st' fd. turn os dp j st = (st', Inr ()) \<and> worker_ok os watch j st' \<and> in_table j st' \<subseteq> in_table j st \<and>
     (n, fd) \<in> in_table j st \<and> apart j n (requeued j q st) st' \<and> elsewhere watch efd st st' \<and>
     fine os (\<lambda>k. watch k efd) j efd n fd st' \<and>
     (settled os (\<lambda>k. watch k efd) j efd n fd st' \<or>
        rt_code st a \<noteq> On_acpt_writable \<and> released (\<lambda>k. watch k efd) j efd n fd st') \<and>
     (\<forall>(n', fd') \<in> in_table j st. n' \<noteq> n \<longrightarrow>
        (arrived os (\<lambda>k. watch k efd) j efd n' fd' st \<longrightarrow> arrived os (\<lambda>k. watch k efd) j efd n' fd' st') \<and>
        (settled os (\<lambda>k. watch k efd) j efd n' fd' st \<longrightarrow> settled os (\<lambda>k. watch k efd) j efd n' fd' st'))"
proof -
  let ?I = "\<lambda>k. watch k efd" and ?C = "in_table j st" and ?st = "requeued j q st"
  have ws: "worker_state os ?I j efd ?C st" and qs: "queue_ok os ?I j efd ?C ((p, n, a) # q) st"
    using w q by (simp_all add: worker_ok_def efd_def)
  note k = server_kernelD(2) [OF K, of efd ?C] and h = server_handlersD(1) [OF H, of efd j ?C]
  obtain st' fd where run: "run_callback os dp (rt_code st a) n ?st = (st', Inr ())" "el_cbs (rt_loops st' j) = q"
    and post: "worker_state os ?I j efd ?C st'" "queue_ok os ?I j efd ?C q st'" "(n, fd) \<in> ?C"
      "\<forall>(n', fd') \<in> ?C. n' \<noteq> n \<and> settled os ?I j efd n' fd' st \<longrightarrow> settled os ?I j efd n' fd' st'"
    using queue_step [OF k h one ws qs] by blast
  obtain fd1 where r: "(n, fd1) \<in> ?C" "ready os ?I j efd (rt_code st a) n fd1 ?st"
    using qs by (auto simp: queue_ok_def)
  then have "fd1 = fd" using one post(3) unfolding one_to_one_def by fastforce
  note r = r [unfolded this]
  have z: "at_front n ?st" using ws post(3) by (auto simp: worker_state_def fine_def)
  have lane: "lane ?I j n fd ?st st'" and fine: "fine os ?I j efd n fd st'"
    and ends: "settled os ?I j efd n fd st' \<or> rt_code st a \<noteq> On_acpt_writable \<and> released ?I j efd n fd st'"
    using callback_fine [OF k h post(3) z r(2)] run(1) by auto
  note at = ready_at [OF r(2)]
  have far: "elsewhere watch efd st st'"
    using keepsD [OF far_callback [OF K H at(2)] at(1) run(1)] by (simp add: elsewhere_def)
  have turn: "turn os dp j st = (st', Inr ())" using run(1) q by (simp add: turn_def)
  have apart: "apart j n ?st st'" using lane by (simp add: lane_def)
  have sub: "in_table j st' \<subseteq> ?C" by (rule held_crew [OF post(1)])
  have efd': "epfd j st' = efd" using post(1) by (simp add: worker_state_def)
  have beside: "fd' \<noteq> fd" if "(n', fd') \<in> ?C" "n' \<noteq> n" for n' fd'
    using that one post(3) unfolding one_to_one_def by fastforce
  have fresh: "fresh_code j st'" by (rule fine_fresh [OF fine])
  have same: "(n', fd') \<in> in_table j st' \<longleftrightarrow> (n', fd') \<in> ?C" "watch (rt_k st') efd fd' = watch (rt_k st) efd fd'" if "fd' \<noteq> fd" for n' fd'
  proof -
    have "entries j fd' st' = entries j fd' st" "watch (rt_k st') efd fd' = watch (rt_k st) efd fd'"
      using lane that by (auto simp: lane_def entries_def)
    moreover have "(n', fd') \<in> in_table j x \<longleftrightarrow> (\<exists>p a t. (fd', p, n', a, t) \<in> set (entries j fd' x))" for x :: "'a reactor"
      by (force simp: in_table_def entries_def)
    ultimately show "(n', fd') \<in> in_table j st' \<longleftrightarrow> (n', fd') \<in> ?C" "watch (rt_k st') efd fd' = watch (rt_k st) efd fd'"
      by simp_all
  qed
  have watched: "fd' \<in> snd ` in_table j st'" if m: "watch (rt_k st') efd fd' = Some m" for fd' m
  proof (cases "fd' = fd")
    case True
    with fine m have "arrived os ?I j efd n fd st' \<or> settled os ?I j efd n fd st'"
      by (auto simp: fine_def released_def conn_def Let_def)
    with True begun_held show ?thesis by (metis image_eqI snd_conv)
  next
    case False
    with m same(2) w have "fd' \<in> snd ` ?C" by (auto simp: worker_ok_def efd_def)
    with same(1) [OF False] show ?thesis by force
  qed
  have "m < rt_next st'" if "(m, x) \<in> in_table j st'" for m x
  proof -
    have "(m, x) \<in> ?C" using that sub by blast
    then have "m < rt_next st" using w by (auto simp: worker_ok_def)
    also have "\<dots> \<le> rt_next st'" using apart by (simp add: apart_def)
    finally show ?thesis .
  qed
  then have "\<forall>(m, x) \<in> in_table j st'. m < rt_next st'" by blast
  then have "worker_ok os watch j st'"
    unfolding worker_ok_def efd' run(2)
    by (intro conjI allI impI crew_held(1) [OF post(1)] crew_held(2) [OF post(1,2)] fresh) (assumption, rule watched)
  moreover have "arrived os ?I j efd n' fd' st'" if "(n', fd') \<in> ?C" "n' \<noteq> n" "arrived os ?I j efd n' fd' st" for n' fd'
    using states_lane(5) [OF lane that(2) beside [OF that(1,2)] fresh, of os efd On_acpt_writable] that(3) by simp
  ultimately show ?thesis
    using turn sub post(3,4) apart far fine ends by blast
qed

lemma held_simps [simp]:
  "in_table i (requeued j q st) = in_table i st" "in_table i (st\<lparr>rt_k := k\<rparr>) = in_table i st"
  by (simp_all add: in_table_def)

lemma requeued_same: "el_cbs (rt_loops st j) = q \<Longrightarrow> requeued j q st = st"
  by (cases st, cases "rt_loops st j") (auto simp: fun_upd_idem)

lemma worker_ok_requeued:
  assumes "worker_ok os watch j st" and "queue_ok os (\<lambda>k. watch k (epfd j st)) j (epfd j st) (in_table j st) q st"
  shows "worker_ok os watch j (requeued j q st)"
  using assms by (simp add: worker_ok_def requeued_worker fresh_code_def)

lemma worker_ok_kernel: "worker_ok os watch j st \<Longrightarrow> watch k = watch (rt_k st) \<Longrightarrow> worker_ok os watch j (st\<lparr>rt_k := k\<rparr>)"
  by (rule worker_ok_spared(1)) (simp_all add: spared_def)

lemma worker_polls:
  assumes K: "server_kernel os watch" and one: "one_to_one (in_table j st)"
    and w: "worker_ok os watch j st" and q: "el_cbs (rt_loops st j) = []"
  shows "\<exists>k q. turn os dp j st = (requeued j q (st\<lparr>rt_k := k\<rparr>), Inr ()) \<and> watch k = watch (rt_k st) \<and>
     worker_ok os watch j (requeued j q (st\<lparr>rt_k := k\<rparr>))"
proof -
  let ?I = "\<lambda>k. watch k (epfd j st)" and ?C = "in_table j st"
  have ws: "worker_state os ?I j (epfd j st) ?C st" using w by (simp add: worker_ok_def)
  obtain reply k where reply: "ep_wait (os_ep os) (rt_k st) (epfd j st) (os_events os) (- 1) = (reply, k)" by fastforce
  note contract = server_waits [OF K reply]
  have ok: "worker_ok os watch j (requeued j q (st\<lparr>rt_k := k\<rparr>))" if "queue_ok os ?I j (epfd j st) ?C q (st\<lparr>rt_k := k\<rparr>)" for q
    using worker_ok_requeued [OF worker_ok_kernel [OF w contract(1)], of q] that by simp
  show ?thesis
  proof (cases reply)
    case (Inl e)
    have "queue_ok os ?I j (epfd j st) ?C [] (st\<lparr>rt_k := k\<rparr>)" by (simp add: queue_ok_def)
    moreover have "turn os dp j st = (requeued j [] (st\<lparr>rt_k := k\<rparr>), Inr ())"
      using q reply Inl contract(2) requeued_same [of "st\<lparr>rt_k := k\<rparr>" j "[]"] by (simp add: turn_def poll_def)
    ultimately show ?thesis using ok contract(1) by blast
  next
    case (Inr evs)
    let ?due = "due (os_ep os) (el_fds (rt_loops st j)) evs"
    have "queue_ok os ?I j (epfd j st) ?C ?due (st\<lparr>rt_k := k\<rparr>)"
      using due_crew [OF server_kernelD(6) [OF K] one worker_state_kernel [OF ws, of k], of evs] contract Inr by simp
    then have "queue_ok os ?I j (epfd j st) ?C (rev (sort ?due)) (st\<lparr>rt_k := k\<rparr>)"
      by (subst queue_ok_mset [of _ ?due]) simp_all
    moreover have "turn os dp j st = (requeued j (rev (sort ?due)) (st\<lparr>rt_k := k\<rparr>), Inr ())"
      using q poll_queue [OF q] reply Inr by (simp add: turn_def)
    ultimately show ?thesis using ok contract(1) by blast
  qed
qed

section \<open>Properties\<close>

text \<open>C4. What the thread of a loop does, from \<open>run_impl\<close> to its end, is a sequence of turns, each of which
  waits for events or calls one callback; and a round is such a sequence that ends with an empty queue.
  So whatever holds of every order of turns holds of the threads.\<close>

theorem run_is_turns:
  assumes "el_cbs (rt_loops st j) = []"
  shows "(\<forall>st' r. reactor_loop os dp j st = Some (st', r) \<longrightarrow> (next_turn os dp j)\<^sup>*\<^sup>* (st, Inr ()) (st', r)) \<and>
     (\<forall>w r. loop_once (reactor_ep (os_ep os)) (os_events os) (run_in_loop os dp j) (- 1) (enter_all j st) = Some (w, r) \<longrightarrow>
        (next_turn os dp j)\<^sup>*\<^sup>* (st, Inr ()) (leave_all j w, r) \<and> (r = Inr () \<longrightarrow> el_cbs (w_loop w) = []))"
proof -
  have q: "el_cbs (w_loop (enter_all j st)) = []" using assms by (simp add: enter_all_def)
  have "(next_turn os dp j)\<^sup>*\<^sup>* (st, Inr ()) (st', r)" if run: "reactor_loop os dp j st = Some (st', r)" for st' r
  proof -
    obtain y where y: "loop_forever (reactor_ep (os_ep os)) (os_events os) (run_in_loop os dp j) (- 1) (enter_all j st) = Some y"
        "st' = leave_all j (fst y)" "r = snd y"
      using run by (auto simp: reactor_loop_def)
    from loop_forever_turns [OF q y(1)] show ?thesis by (simp add: y(2,3) leave_all_simps)
  qed
  moreover have "(next_turn os dp j)\<^sup>*\<^sup>* (st, Inr ()) (leave_all j w, r) \<and> (r = Inr () \<longrightarrow> el_cbs (w_loop w) = [])"
    if "loop_once (reactor_ep (os_ep os)) (os_events os) (run_in_loop os dp j) (- 1) (enter_all j st) = Some (w, r)" for w r
    using loop_once_turns [OF q that] by (simp add: leave_all_simps)
  ultimately show ?thesis by blast
qed

text \<open>A worker whose epoll instance reports connection 7 as writable: its round polls and then calls
  \<open>on_acpt_writable\<close>.\<close>

theorem run_is_turns_witness:
  "\<exists>w. loop_once (reactor_ep (os_ep crew_os)) 2048 (run_in_loop crew_os idle_data 0) (- 1) (enter_all 0 crew_reactor) = Some (w, Inr ()) \<and>
     (next_turn crew_os idle_data 0)\<^sup>*\<^sup>* (crew_reactor, Inr ()) (leave_all 0 w, Inr ())"
proof -
  have "on_duty crew_os (ss_interest 100) 0 100 {(1, 7)} (leave_all 0 (enter_all 0 crew_reactor))"
    using crew_reactor_ok(1) by (simp add: leave_all_simps)
  from worker_round [OF crew_sample this, of 2048 "- 1"]
  obtain w where w: "loop_once (reactor_ep (os_ep crew_os)) 2048 (run_in_loop crew_os idle_data 0) (- 1) (enter_all 0 crew_reactor) = Some (w, Inr ())"
    by blast
  moreover have "os_events crew_os = 2048" "el_cbs (rt_loops crew_reactor 0) = []"
    by (simp_all add: crew_os_def sample_os_def crew_reactor_def sample_reactor_def)
  ultimately show ?thesis
    using conjunct2 [OF run_is_turns [of crew_reactor 0 crew_os idle_data]] by simp
qed

end
