(* ===== verification/Server.thy ===== *)
theory Server
  imports Turns
begin

text \<open>
  A whole server (\<open>tcp_server\<close> in \<open>src/src/lib/tcp.cc\<close>): its acceptors and its workers as threads that
  take turns in any order, and the invariant of all of them.
\<close>

section \<open>The parts of a server\<close>

text \<open>An acceptor is its loop \<open>a\<close> with its listening socket \<open>l\<close>, on descriptor \<open>lfd\<close>, alone in the table.\<close>

type_synonym acceptors = "(nat \<times> nat \<times> int) set"

definition acceptor_ok :: "nat \<Rightarrow> nat \<Rightarrow> int \<Rightarrow> 'k reactor \<Rightarrow> bool" where
  "acceptor_ok a l lfd st \<longleftrightarrow>
     (let s = rt_objs st l in
      io_fd s = lfd \<and> io_evlp s = Some a \<and> ro_sock s \<noteq> None \<and> l < rt_next st \<and>
      (\<exists>p c. el_fds (rt_loops st a) = [(lfd, p, l, c, fd_readable)] \<and> c < rt_next st \<and> rt_code st c = On_acpt_readable \<and>
         el_cbs (rt_loops st a) \<in> {[], [(p, l, c)]}))"

abbreviation connections :: "'k reactor \<Rightarrow> crew" where
  "connections st \<equiv> (\<Union>j \<in> set (rt_evls st). in_table j st)"

definition server_ok :: "'k os \<Rightarrow> ('k \<Rightarrow> int \<Rightarrow> int \<Rightarrow> 32 word option) \<Rightarrow> acceptors \<Rightarrow> 'k reactor \<Rightarrow> bool" where
  "server_ok os watch A st \<longleftrightarrow>
     rt_evls st \<noteq> [] \<and> inj_on fst A \<and> fst ` A \<inter> set (rt_evls st) = {} \<and> inj_on (\<lambda>j. epfd j st) (set (rt_evls st)) \<and>
     (\<forall>(a, l, lfd) \<in> A. acceptor_ok a l lfd st) \<and> (\<forall>j \<in> set (rt_evls st). worker_ok os watch j st) \<and> one_to_one (connections st)"

lemma acceptor_ok_spared: "acceptor_ok a l lfd st \<Longrightarrow> spared a {l} st st' \<Longrightarrow> acceptor_ok a l lfd st'"
  by (auto simp: acceptor_ok_def spared_def Let_def)


section \<open>A connection joins a worker\<close>

lemma beside_given:
  assumes ne: "n' \<noteq> n" "fd' \<noteq> io_fd (rt_objs st n)" and k: "interest k fd' = interest (rt_k st) fd'"
  shows "conn interest j efd n' fd' rs m st \<Longrightarrow> conn interest j efd n' fd' rs m (given j n cb k st)"
    and "arrived os interest j efd n' fd' st \<Longrightarrow> arrived os interest j efd n' fd' (given j n cb k st)"
    and "settled os interest j efd n' fd' st \<Longrightarrow> settled os interest j efd n' fd' (given j n cb k st)"
    and "fine os interest j efd n' fd' st \<Longrightarrow> fine os interest j efd n' fd' (given j n cb k st)"
    and "ready os interest j efd cb' n' fd' st \<Longrightarrow> ready os interest j efd cb' n' fd' (given j n cb k st)"
proof -
  have c: "conn interest j efd n' fd' rs m (given j n cb k st)" if "conn interest j efd n' fd' rs m st" for rs m
    unfolding given_def
    by (rule conn_kernel_step [OF conn_beside_registered [OF that ne]]) (use that k in \<open>simp add: conn_def Let_def\<close>)
  then show "conn interest j efd n' fd' rs m st \<Longrightarrow> conn interest j efd n' fd' rs m (given j n cb k st)" .
  have same: "drained n' (given j n cb k st) = drained n' st" "at_front n' (given j n cb k st) = at_front n' st"
    using ne(1) by (simp_all add: drained_def front_defs given_entry)
  show arr: "arrived os interest j efd n' fd' st \<Longrightarrow> arrived os interest j efd n' fd' (given j n cb k st)"
    and set: "settled os interest j efd n' fd' st \<Longrightarrow> settled os interest j efd n' fd' (given j n cb k st)"
    unfolding arrived_def settled_def same using c by blast+
  show "fine os interest j efd n' fd' st \<Longrightarrow> fine os interest j efd n' fd' (given j n cb k st)"
    unfolding fine_def released_def same using c arr set by blast
  show "ready os interest j efd cb' n' fd' st \<Longrightarrow> ready os interest j efd cb' n' fd' (given j n cb k st)"
    using arr set same by (cases cb') auto
qed

lemma newcomer_arrives:
  assumes new: "newcomer interest j C n fd st" and id: "el_id (rt_loops st j) = j" and tab: "\<And>r. (fd, r) \<notin> set (el_fds (rt_loops st j))"
    and k: "interest k fd = Some (ep_out (os_ep os))"
  shows "arrived os interest j (epfd j st) n fd (given j n On_acpt_writable k st)"
    and "fine os interest j (epfd j st) n fd (given j n On_acpt_writable k st)"
proof -
  let ?st = "registered j n fd_writable (Some On_acpt_writable) st"
  have s: "io_fd (rt_objs st n) = fd" "fresh_code j st" using new by (simp_all add: newcomer_def Let_def)
  have "regs_of j fd st = []" using tab by (auto simp: regs_of_def filter_empty_conv)
  moreover have "regs_of j fd ?st = (n, fd_writable, On_acpt_writable) # regs_of j fd st"
    using map_code_fresh [OF s(2)] s(1) unfolding regs_of_def by (simp add: registered_def Let_def)
  moreover have "fresh_code j ?st"
    using s(2) by (fastforce simp: fresh_code_def registered_def Let_def)
  ultimately have "conn interest j (epfd j st) n fd [(fd_writable, On_acpt_writable)] None ?st"
    using new id by (simp add: conn_def newcomer_def registered_def Let_def set_evlp_def)
  from conn_kernel_step [OF this, of k] k
  show "arrived os interest j (epfd j st) n fd (given j n On_acpt_writable k st)"
    using new by (simp add: given_def arrived_def drained_def newcomer_def registered_def set_evlp_def Let_def)
  then show "fine os interest j (epfd j st) n fd (given j n On_acpt_writable k st)"
    using new by (simp add: fine_def given_entry(3) front_defs newcomer_def set_evlp_def Let_def)
qed

lemma held_given: "in_table i (given j n cb k st) = (if i = j then insert (n, io_fd (rt_objs st n)) (in_table i st) else in_table i st)"
  by (auto simp: in_table_def given_entry)

lemma worker_joined:
  assumes w: "worker_ok os watch j st" and new: "newcomer (\<lambda>k. watch k (epfd j st)) j (in_table j st) n fd st" and n: "n < rt_next st"
    and k: "watch k (epfd j st) = (watch (rt_k st) (epfd j st))(fd \<mapsto> ep_out (os_ep os))"
  defines "st' \<equiv> given j n On_acpt_writable k st"
  shows "worker_ok os watch j st'"
proof -
  let ?I = "\<lambda>k. watch k (epfd j st)" and ?efd = "epfd j st"
  have ws: "worker_state os ?I j ?efd (in_table j st) st" and qs: "queue_ok os ?I j ?efd (in_table j st) (el_cbs (rt_loops st j)) st"
    using w by (simp_all add: worker_ok_def)
  have fd: "io_fd (rt_objs st n) = fd" using new by (simp add: newcomer_def Let_def)
  have beside: "n' \<noteq> n" "fd' \<noteq> io_fd (rt_objs st n)" "?I k fd' = ?I (rt_k st) fd'" if "(n', fd') \<in> in_table j st" for n' fd'
    using that new k by (force simp: newcomer_def Let_def)+
  have tab: "(fd, r) \<notin> set (el_fds (rt_loops st j))" for r
  proof
    assume "(fd, r) \<in> set (el_fds (rt_loops st j))"
    then have "fd \<in> snd ` in_table j st" by (cases r) (force simp: in_table_def)
    with new show False by (simp add: newcomer_def Let_def)
  qed
  note arr = newcomer_arrives [OF new _ tab, of k os, folded st'_def]
  note keep = beside_given [where interest = ?I and st = st and k = k and j = j and n = n and cb = On_acpt_writable, folded st'_def]
  have held': "in_table j st' = insert (n, fd) (in_table j st)" by (simp add: st'_def held_given fd)
  have "worker_state os ?I j ?efd (in_table j st') st'"
    unfolding worker_state_def held'
  proof (intro conjI ballI, goal_cases)
    case (3 x)
    then show ?case using ws by (auto simp: st'_def given_entry fd worker_state_def)
  next
    case (4 x)
    then show ?case
      using ws arr(2) k keep(4) [OF beside] by (auto simp: worker_state_def)
  qed (use ws in \<open>simp_all add: st'_def worker_state_def\<close>)
  moreover have "el_cbs (rt_loops st' j) = el_cbs (rt_loops st j)"
    by (simp add: st'_def given_def registered_def Let_def)
  moreover have "queue_ok os ?I j ?efd (in_table j st') (el_cbs (rt_loops st j)) st'"
    unfolding queue_ok_def
  proof (intro conjI ballI, goal_cases)
    case (2 x)
    obtain p m a where x: "x = (p, m, a)" by (metis prod_cases3)
    then obtain fd' where q: "a < rt_next st" "(m, fd') \<in> in_table j st" "ready os ?I j ?efd (rt_code st a) m fd' st"
      using qs 2 by (auto simp: queue_ok_def)
    with keep(5) [OF beside [OF q(2)] q(3)] x held' show ?case
      by (auto simp: st'_def given_entry(2))
  qed (use qs in \<open>simp add: queue_ok_def\<close>)
  moreover have "fresh_code j st'"
    using w by (fastforce simp: worker_ok_def fresh_code_def st'_def given_entry(1))
  moreover have "\<forall>(n', fd') \<in> in_table j st'. n' < rt_next st'"
    unfolding held' using w n by (auto simp: worker_ok_def st'_def less_Suc_eq)
  moreover have "fd' \<in> snd ` in_table j st'" if "watch (rt_k st') ?efd fd' = Some m" for fd' m
    unfolding held' using that w k by (cases "fd' = fd") (auto simp: worker_ok_def st'_def)
  ultimately show ?thesis
    by (simp add: worker_ok_def st'_def)
qed


section \<open>The acceptor's turn\<close>

text \<open>Sockets come out of \<open>accept\<close> with empty buffers.\<close>

definition fresh_sock :: "nsocktcp \<Rightarrow> bool" where
  "fresh_sock t \<longleftrightarrow> \<not> io_closed t \<and> buffer_default = Inr (io_rbuf t) \<and> buffer_default = Inr (io_wbuf t)"

lemma tcp_new_fresh: "tcp_new sys k fd f = (k', Inr t) \<Longrightarrow> fresh_sock t"
  by (auto simp: tcp_new_def nstream_new_def nio_new_def fresh_sock_def nio.defs nstream.defs nsocktcp.defs split: prod.splits sum.splits)

lemma accept_loop_fresh:
  "accept_loop sys k s m acc = (k', Inr ts) \<Longrightarrow> list_all fresh_sock acc \<Longrightarrow> list_all fresh_sock ts"
proof (induction m arbitrary: k acc)
  case 0
  then show ?case by simp
next
  case (Suc m)
  have peer: "fresh_sock (t\<lparr>tcp_sock := p\<rparr>) = fresh_sock t" for t p by (simp add: fresh_sock_def)
  show ?case
    using Suc.prems Suc.IH tcp_new_fresh peer
    by (fastforce simp: Let_def split: prod.splits sum.splits if_splits)
qed

lemma fresh_newcomer:
  assumes "fresh_sock t" and "n \<notin> fst ` C" and "io_fd t \<notin> snd ` C" and "interest (rt_k st) (io_fd t) = None" and "fresh_code j st"
    and "rt_objs st n = of_tcp t"
  shows "newcomer interest j C n (io_fd t) st"
proof -
  have "buffer_default = Inr empty_buffer" by (simp add: buffer_default_def buffer_new_def empty_buffer_def int_limits)
  then have "io_rbuf t = empty_buffer" "io_wbuf t = empty_buffer" "\<not> io_closed t" using assms(1) unfolding fresh_sock_def by (metis sum.inject(2))+
  then show ?thesis
    using assms(2-6) empty_buffer_ok
    by (auto simp: newcomer_def of_tcp_def nstream.defs empty_buffer_def Let_def)
qed

text \<open>Room in the tables of the workers for more connections.\<close>

definition room_for :: "nat \<Rightarrow> 'k reactor \<Rightarrow> bool" where
  "room_for r st \<longleftrightarrow> (\<forall>j \<in> set (rt_evls st). int (load st j + r) < int_max)"

text \<open>What stays of the connections but \<open>N\<close>.\<close>

definition in_state ::
  "bool \<Rightarrow> 'k os \<Rightarrow> ('k \<Rightarrow> int \<Rightarrow> int \<Rightarrow> 32 word option) \<Rightarrow> nat \<Rightarrow> nat \<Rightarrow> int \<Rightarrow> 'k reactor \<Rightarrow> bool"
where
  "in_state begun os watch j n fd st \<longleftrightarrow> j \<in> set (rt_evls st) \<and>
     (if begun then settled os (\<lambda>k. watch k (epfd j st)) j (epfd j st) n fd st
      else arrived os (\<lambda>k. watch k (epfd j st)) j (epfd j st) n fd st)"

definition undisturbed :: "'k os \<Rightarrow> ('k \<Rightarrow> int \<Rightarrow> int \<Rightarrow> 32 word option) \<Rightarrow> nat set \<Rightarrow> 'k reactor \<Rightarrow> 'k reactor \<Rightarrow> bool" where
  "undisturbed os watch N st st' \<longleftrightarrow>
     (\<forall>begun j n fd. n \<notin> N \<and> in_state begun os watch j n fd st \<longrightarrow> in_state begun os watch j n fd st')"

lemma undisturbed_trans: "undisturbed os watch N s t \<Longrightarrow> undisturbed os watch N t u \<Longrightarrow> undisturbed os watch N s u"
  by (simp add: undisturbed_def)

lemma undisturbed_spared:
  assumes "rt_evls st' = rt_evls st"
    and "\<And>j. j \<in> set (rt_evls st) \<Longrightarrow> spared j (fst ` in_table j st - N) st st' \<and> watch (rt_k st') (epfd j st) = watch (rt_k st) (epfd j st)"
  shows "undisturbed os watch N st st'"
  unfolding undisturbed_def
proof (intro allI impI, elim conjE)
  fix begun j n fd
  assume n: "n \<notin> N" and i: "in_state begun os watch j n fd st"
  then have j: "j \<in> set (rt_evls st)" "(n, fd) \<in> in_table j st"
    by (auto simp: in_state_def intro: begun_held split: if_splits)
  with n assms(2) [OF j(1)] have s: "spared j (fst ` in_table j st - N) st st'" "n \<in> fst ` in_table j st - N"
      "watch (rt_k st') (epfd j st) = watch (rt_k st) (epfd j st)" by force+
  moreover have "epfd j st' = epfd j st" using s(1) by (simp add: spared_def)
  ultimately show "in_state begun os watch j n fd st'"
    using i states_spared(2,3) [OF s(1,2), of "\<lambda>k. watch k (epfd j st)" fd os "epfd j st"] assms(1)
    by (auto simp: in_state_def)
qed


lemma pool_of_server:
  assumes ok: "server_ok os watch A st" and r: "room_for r st"
  shows "pool_ok r st"
  using ok r by (auto simp: server_ok_def pool_ok_def room_for_def worker_ok_def worker_state_def)

lemma unwatched_of_server:
  assumes ok: "server_ok os watch A st" and f: "fd \<notin> snd ` connections st"
  shows "unwatched watch fd st"
proof -
  have "watch (rt_k st) (epfd j st) fd = None" if j: "j \<in> set (rt_evls st)" for j
  proof (cases "watch (rt_k st) (epfd j st) fd")
    case (Some m)
    then have "fd \<in> snd ` in_table j st" using ok j by (auto simp: server_ok_def worker_ok_def)
    with f j show ?thesis by force
  qed
  then show ?thesis by (simp add: unwatched_def)
qed

lemma one_to_one_insert: "one_to_one C \<Longrightarrow> n \<notin> fst ` C \<Longrightarrow> fd \<notin> snd ` C \<Longrightarrow> one_to_one (insert (n, fd) C)"
  unfolding one_to_one_def by (auto simp: image_iff)

text \<open>One connection is assigned.\<close>

lemma server_assigns:
  assumes ep: "epolls (os_ep os) watch" and ok: "server_ok os watch A st" and r: "room_for (Suc r) st"
    and t: "fresh_sock t" and f: "io_fd t \<notin> snd ` connections st"
  shows "\<exists>st'. andthen (new_obj (of_tcp t)) (\<lambda>n. minloads_register os n On_acpt_writable) st = (st', Inr ()) \<and>
     server_ok os watch A st' \<and> room_for r st' \<and> snd ` connections st' = insert (io_fd t) (snd ` connections st) \<and>
     undisturbed os watch {} st st' \<and> (\<exists>j n. in_state False os watch j n (io_fd t) st')"
proof -
  let ?n = "rt_next st" and ?st = "with_obj (of_tcp t) st"
  have pool: "pool_ok (Suc r) ?st" "unwatched watch (io_fd (rt_objs ?st ?n)) ?st"
    using pool_of_server [OF ok r] unwatched_of_server [OF ok f] by simp_all
  obtain j k where run: "minloads_register os ?n On_acpt_writable ?st = (given j ?n On_acpt_writable k ?st, Inr ())"
    and j: "j \<in> set (rt_evls st)"
    and k: "watch k = (watch (rt_k st))(epfd j st := (watch (rt_k st) (epfd j st))(io_fd t \<mapsto> ep_out (os_ep os)))"
    using minloads_register_ok [OF ep pool, of On_acpt_writable] by auto
  let ?st' = "given j ?n On_acpt_writable k ?st"
  have w: "\<And>i. i \<in> set (rt_evls st) \<Longrightarrow> worker_ok os watch i st" and one: "one_to_one (connections st)"
    and inj: "inj_on (\<lambda>j. epfd j st) (set (rt_evls st))" and A: "fst ` A \<inter> set (rt_evls st) = {}" "inj_on fst A"
    and acc: "\<And>a l lfd. (a, l, lfd) \<in> A \<Longrightarrow> acceptor_ok a l lfd st"
    and evls: "rt_evls st \<noteq> []"
    using ok unfolding server_ok_def by blast+
  have old: "m < ?n" if "i \<in> set (rt_evls st)" "(m, fd) \<in> in_table i st" for i m fd
    using w [OF that(1)] that(2) by (auto simp: worker_ok_def)
  have held: "in_table i ?st = in_table i st" for i by (simp add: in_table_def)
  have sp0: "spared i (fst ` in_table i st) st ?st" if "i \<in> set (rt_evls st)" for i
    using old [OF that] by (fastforce simp: spared_def)
  have ws: "worker_ok os watch i ?st" if "i \<in> set (rt_evls st)" for i
    by (rule worker_ok_spared(1) [OF w [OF that] sp0 [OF that]]) simp
  have new: "newcomer (\<lambda>k. watch k (epfd j ?st)) j (in_table j ?st) ?n (io_fd t) ?st"
  proof (rule fresh_newcomer [OF t])
    show "?n \<notin> fst ` in_table j ?st" using old [OF j] by (force simp: held)
    show "io_fd t \<notin> snd ` in_table j ?st" using f j by (force simp: held)
    show "watch (rt_k ?st) (epfd j ?st) (io_fd t) = None" using pool(2) j by (simp add: unwatched_def)
    show "fresh_code j ?st" using ws [OF j] by (simp add: worker_ok_def)
  qed simp
  have wj: "worker_ok os watch j ?st'"
    by (rule worker_joined [OF ws [OF j] new]) (simp_all add: k fun_eq_iff)
  have sp: "spared i (fst ` in_table i st) st ?st'" if "i \<in> set (rt_evls st)" "i \<noteq> j" for i
    using old [OF that(1)] that(2) by (fastforce simp: spared_def given_entry given_def registered_def Let_def)
  have far: "watch k (epfd i st) = watch (rt_k st) (epfd i st)" if "i \<in> set (rt_evls st)" "i \<noteq> j" for i
    using that j inj by (auto simp: k inj_on_def)
  have wi: "worker_ok os watch i ?st'" if "i \<in> set (rt_evls st)" for i
  proof (cases "i = j")
    case False
    then show ?thesis using worker_ok_spared(1) [OF w sp] far that by simp
  qed (use wj in simp)
  have conns: "connections ?st' = insert (?n, io_fd t) (connections st)"
    using j by (auto simp: held_given held)
  have "one_to_one (connections ?st')"
    unfolding conns by (rule one_to_one_insert [OF one _ f]) (use old in force)
  moreover have "acceptor_ok a l lfd ?st'" if c: "(a, l, lfd) \<in> A" for a l lfd
  proof (rule acceptor_ok_spared [OF acc [OF c]])
    have "a \<noteq> j" using A(1) c j by force
    then show "spared a {l} st ?st'"
      using acc [OF c] by (auto simp: spared_def acceptor_ok_def given_entry given_def registered_def Let_def)
  qed
  then have "\<forall>(a, l, lfd) \<in> A. acceptor_ok a l lfd ?st'" by blast
  moreover have "undisturbed os watch {} st ?st'"
    unfolding undisturbed_def
  proof (intro allI impI, elim conjE)
    fix begun i m fd
    assume i: "in_state begun os watch i m fd st"
    then have h: "i \<in> set (rt_evls st)" "(m, fd) \<in> in_table i st"
      by (auto simp: in_state_def intro: begun_held split: if_splits)
    have ne: "m \<noteq> ?n" "fd \<noteq> io_fd t" using old [OF h] f h by force+
    show "in_state begun os watch i m fd ?st'"
    proof (cases "i = j")
      case True
      have "in_state begun os watch i m fd ?st"
        using i states_spared(2,3) [OF sp0 [OF h(1)], of m "\<lambda>k. watch k (epfd i st)" fd os "epfd i st"] h(2)
        by (force simp: in_state_def)
      then show ?thesis
        using True ne k beside_given(2,3) [where n = ?n and st = ?st and n' = m and fd' = fd and j = j and k = k and
            interest = "\<lambda>k. watch k (epfd j st)" and os = os and efd = "epfd j st" and cb = On_acpt_writable]
        by (auto simp: in_state_def)
    next
      case False
      then show ?thesis
        using i states_spared(2,3) [OF sp [OF h(1) False], of m "\<lambda>k. watch k (epfd i st)" fd os "epfd i st"] h(2) far [OF h(1) False]
        by (force simp: in_state_def)
    qed
  qed
  moreover have "in_state False os watch j ?n (io_fd t) ?st'"
  proof -
    have "(io_fd t, x) \<notin> set (el_fds (rt_loops ?st j))" for x
      using new by (cases x) (force simp: newcomer_def in_table_def Let_def)
    moreover have "el_id (rt_loops ?st j) = j" using ws [OF j] by (simp add: worker_ok_def worker_state_def)
    ultimately show ?thesis
      using newcomer_arrives(1) [OF new, of k os] j k by (simp add: in_state_def)
  qed
  moreover have "room_for r ?st'"
    using r by (auto simp: room_for_def)
  moreover have "inj_on (\<lambda>j. epfd j ?st') (set (rt_evls ?st'))"
    using inj by simp
  ultimately have "server_ok os watch A ?st'" "undisturbed os watch {} st ?st'" "in_state False os watch j ?n (io_fd t) ?st'"
      "room_for r ?st'"
    using wi A evls by (simp_all only: server_ok_def given_simps with_obj_simps) blast
  moreover have "andthen (new_obj (of_tcp t)) (\<lambda>n. minloads_register os n On_acpt_writable) st = (?st', Inr ())"
    using run by (simp add: andthen_def new_obj_eq)
  moreover have "snd ` connections ?st' = insert (io_fd t) (snd ` connections st)"
    unfolding conns by simp
  ultimately show ?thesis
    by blast
qed


lemma server_assigns_all:
  assumes ep: "epolls (os_ep os) watch"
  shows "server_ok os watch A st \<Longrightarrow> room_for (length ts + r) st \<Longrightarrow> list_all fresh_sock ts \<Longrightarrow> distinct (map io_fd ts) \<Longrightarrow>
    io_fd ` set ts \<inter> snd ` connections st = {} \<Longrightarrow>
    \<exists>st'. assign_conns os ts st = (st', Inr ()) \<and> server_ok os watch A st' \<and> undisturbed os watch {} st st' \<and>
      (\<forall>t \<in> set ts. \<exists>j n. in_state False os watch j n (io_fd t) st') \<and>
      snd ` connections st' = io_fd ` set ts \<union> snd ` connections st"
proof (induction ts arbitrary: st)
  case Nil
  then show ?case by (auto simp: return_def undisturbed_def)
next
  case (Cons t ts)
  obtain st1 where st1: "andthen (new_obj (of_tcp t)) (\<lambda>n. minloads_register os n On_acpt_writable) st = (st1, Inr ())"
      "server_ok os watch A st1" "room_for (length ts + r) st1" "undisturbed os watch {} st st1"
      "snd ` connections st1 = insert (io_fd t) (snd ` connections st)"
      "\<exists>j n. in_state False os watch j n (io_fd t) st1"
    using server_assigns [OF ep Cons.prems(1), of "length ts + r" t] Cons.prems(2-5) by auto
  have "io_fd ` set ts \<inter> snd ` connections st1 = {}" using Cons.prems(4,5) by (auto simp: st1(5))
  then obtain st2 where st2: "assign_conns os ts st1 = (st2, Inr ())" "server_ok os watch A st2" "undisturbed os watch {} st1 st2"
      "\<forall>t \<in> set ts. \<exists>j n. in_state False os watch j n (io_fd t) st2"
      "snd ` connections st2 = io_fd ` set ts \<union> snd ` connections st1"
    using Cons.IH [OF st1(2,3)] Cons.prems(3,4) by auto
  have "assign_conns os (t # ts) st = andthen (andthen (new_obj (of_tcp t)) (\<lambda>n. minloads_register os n On_acpt_writable))
      (\<lambda>_. assign_conns os ts) st"
    by (simp add: andthen_assoc)
  then have "assign_conns os (t # ts) st = (st2, Inr ())"
    using st1(1) st2(1) by (simp add: andthen_def [of "andthen _ _"])
  moreover have "\<exists>j n. in_state False os watch j n (io_fd t) st2"
    using st1(6) st2(3) unfolding undisturbed_def by blast
  moreover have "snd ` connections st2 = io_fd ` set (t # ts) \<union> snd ` connections st"
    by (simp only: st2(5) st1(5)) auto
  ultimately show ?case
    using st2(2,4) undisturbed_trans [OF st1(4) st2(3)] by (intro exI [of _ st2]) simp
qed

text \<open>The state of the server does not depend on the kernel but for what it watches, nor on the acceptor's queue.\<close>

lemma server_ok_kernel:
  assumes ok: "server_ok os watch A st" and k: "watch k = watch (rt_k st)"
  shows "server_ok os watch A (st\<lparr>rt_k := k\<rparr>)" "undisturbed os watch N st (st\<lparr>rt_k := k\<rparr>)"
proof -
  have "acceptor_ok a l lfd (st\<lparr>rt_k := k\<rparr>) = acceptor_ok a l lfd st" for a l lfd
    by (simp add: acceptor_ok_def Let_def)
  then show "server_ok os watch A (st\<lparr>rt_k := k\<rparr>)"
    using ok worker_ok_kernel [OF _ k] by (simp add: server_ok_def)
  show "undisturbed os watch N st (st\<lparr>rt_k := k\<rparr>)"
    by (rule undisturbed_spared) (simp_all add: spared_def k)
qed

lemma server_ok_acceptor_queue:
  assumes ok: "server_ok os watch A st" and m: "(a, l, lfd) \<in> A" and q: "acceptor_ok a l lfd (requeued a q st)"
  shows "server_ok os watch A (requeued a q st)" "undisturbed os watch N st (requeued a q st)"
proof -
  have s: "spared j M st (requeued a q st)" if "j \<noteq> a" for j M
    using that by (auto simp: spared_def)
  have a: "a \<notin> set (rt_evls st)" using ok m by (force simp: server_ok_def)
  have "acceptor_ok b l' lfd' (requeued a q st)" if c: "(b, l', lfd') \<in> A" for b l' lfd'
  proof (cases "b = a")
    case True
    then have "(b, l', lfd') = (a, l, lfd)"
      using ok m c unfolding server_ok_def inj_on_def by (metis fst_conv)
    then show ?thesis using q by simp
  next
    case False
    show ?thesis by (rule acceptor_ok_spared [OF _ s [OF False]]) (use ok c in \<open>auto simp: server_ok_def\<close>)
  qed
  then have "\<forall>(b, l', lfd') \<in> A. acceptor_ok b l' lfd' (requeued a q st)" by blast
  moreover  have "worker_ok os watch j (requeued a q st)" if "j \<in> set (rt_evls st)" for j
    using ok that a by (intro worker_ok_spared(1) [OF _ s]) (auto simp: server_ok_def)
  moreover have "epfd j (requeued a q st) = epfd j st" for j by simp
  ultimately show "server_ok os watch A (requeued a q st)"
    using ok unfolding server_ok_def by simp
  show "undisturbed os watch N st (requeued a q st)"
    using a by (intro undisturbed_spared) (auto intro!: s)
qed

text \<open>What the acceptor may find: descriptors that are not in use, and room for them.\<close>

definition waiting_ok :: "('k \<Rightarrow> int list) \<Rightarrow> 'k reactor \<Rightarrow> bool" where
  "waiting_ok backlog st \<longleftrightarrow>
     (let fds = backlog (rt_k st) in
      distinct fds \<and> length fds \<le> nat int_max \<and> room_for (length fds) st \<and> set fds \<inter> snd ` connections st = {})"

lemma acceptor_calls:
  assumes K: "server_kernel os watch" and A: "accept_kernel (os_sys os) lfd backlog flags"
    and ok: "server_ok os watch A st" and m: "(a, l, lfd) \<in> A" and wait: "waiting_ok backlog st" and q: "el_cbs (rt_loops st a) \<noteq> []"
  shows "\<exists>st'. turn os dp a st = (st', Inr ()) \<and> server_ok os watch A st' \<and> undisturbed os watch {} st st' \<and>
     (\<forall>fd \<in> set (backlog (rt_k st)). \<exists>j n. in_state False os watch j n fd st')"
proof -
  have acc: "acceptor_ok a l lfd st" using ok m by (auto simp: server_ok_def)
  then obtain p c where tab: "el_cbs (rt_loops st a) = [(p, l, c)]" "rt_code st c = On_acpt_readable"
      "io_evlp (rt_objs st l) = Some a" "ro_sock (rt_objs st l) \<noteq> None" "io_fd (rt_objs st l) = lfd"
    using q by (auto simp: acceptor_ok_def Let_def)
  let ?st = "requeued a [] st"
  have acc': "acceptor_ok a l lfd ?st" using acc by (auto simp: acceptor_ok_def Let_def)
  obtain sp where sp: "ro_sock (rt_objs st l) = Some sp" using tab(4) by blast
  let ?s = "nstream.extend (nstream.truncate (rt_objs st l)) \<lparr>tcp_sock = sp\<rparr>"
  have cast: "cast_tcp l ?st = (?st, Inr ?s)" by (simp add: cast_tcp_def tcp_of_def sp)
  have "io_fd ?s = lfd" by (simp add: nstream.defs tab(5))
  with A have A': "accept_kernel (os_sys os) (io_fd ?s) backlog flags" by simp
  obtain k ts where ts: "tcp_accept (os_sys os) (rt_k st) ?s int_max = (k, Inr ts)" "map io_fd ts = backlog (rt_k st)"
    using accept_loop_ok [OF A', of "[]" "rt_k st" "nat int_max"] wait by (auto simp: tcp_accept_def waiting_ok_def Let_def)
  have fresh: "list_all fresh_sock ts"
    using accept_loop_fresh ts(1) unfolding tcp_accept_def by fastforce
  have k: "watch k = watch (rt_k st)"
    using accept_loop_keeps [OF server_kernelD(5) [OF K]] ts(1) unfolding tcp_accept_def by blast
  let ?st1 = "?st\<lparr>rt_k := k\<rparr>"
  note ok1 = server_ok_acceptor_queue [OF ok m acc']
  have k': "watch k = watch (rt_k ?st)" using k by simp
  note ok2 = server_ok_kernel [OF ok1(1) k']
  have fds: "io_fd ` set ts = set (backlog (rt_k st))" and len: "length ts = length (backlog (rt_k st))"
    using ts(2) by (metis set_map, metis length_map)
  have room: "room_for (length ts + 0) ?st1" "distinct (map io_fd ts)" "io_fd ` set ts \<inter> snd ` connections ?st1 = {}"
    using wait fds len ts(2) ok by (auto simp: waiting_ok_def room_for_def load_def Let_def server_ok_def)
  obtain st' where st': "assign_conns os ts ?st1 = (st', Inr ())" "server_ok os watch A st'" "undisturbed os watch {} ?st1 st'"
      "\<forall>t \<in> set ts. \<exists>j n. in_state False os watch j n (io_fd t) st'"
    using server_assigns_all [OF _ ok2(1) room(1) fresh room(2,3)] server_kernelD(1) [OF K] by (auto simp: epoll_instances_def)
  have "turn os dp a st = on_acpt_readable os l ?st"
    using tab(1,2) by (simp add: turn_def)
  also have "\<dots> = (st', Inr ())"
    using cast ts(1) st'(1) tab(3) by (simp add: on_acpt_readable_def andthen_def evlp_of_def)
  finally have "turn os dp a st = (st', Inr ())" .
  moreover have "undisturbed os watch {} st st'"
    using undisturbed_trans [OF undisturbed_trans [OF ok1(2) ok2(2)] st'(3)] .
  moreover have "\<forall>fd \<in> set (backlog (rt_k st)). \<exists>j n. in_state False os watch j n fd st'"
    using st'(4) unfolding fds [symmetric] by blast
  ultimately show ?thesis using st'(2) by blast
qed


lemma due_lone:
  "distinct (map fst evs) \<Longrightarrow> due ep [(x, p, l, c, t)] evs \<in> {[], [(p, l, c)]}"
proof (induction evs)
  case Nil
  then show ?case by (simp add: due_def)
next
  case (Cons ev evs)
  obtain y e where ev: "ev = (y, e)" by fastforce
  have none: "due ep [(x, p, l, c, t)] evs = []" if "y = x"
    using Cons.prems that by (auto simp: due_def due_of_def ev image_iff)
  have "due ep [(x, p, l, c, t)] (ev # evs) = due_of ep [(x, p, l, c, t)] (y, e) @ due ep [(x, p, l, c, t)] evs"
    by (simp add: due_def ev)
  then show ?case
    using Cons none by (cases "y = x") (auto simp: due_of_def)
qed

lemma acceptor_polls:
  assumes K: "server_kernel os watch" and ok: "server_ok os watch A st" and m: "(a, l, lfd) \<in> A" and q: "el_cbs (rt_loops st a) = []"
  shows "\<exists>st'. turn os dp a st = (st', Inr ()) \<and> server_ok os watch A st' \<and> undisturbed os watch {} st st'"
proof -
  obtain reply k where reply: "ep_wait (os_ep os) (rt_k st) (epfd a st) (os_events os) (- 1) = (reply, k)" by fastforce
  note contract = server_waits [OF K reply]
  note ok1 = server_ok_kernel [OF ok contract(1)]
  show ?thesis
  proof (cases reply)
    case (Inl e)
    then have "turn os dp a st = (st\<lparr>rt_k := k\<rparr>, Inr ())"
      using q reply contract(2) by (simp add: turn_def poll_def)
    with ok1 show ?thesis by blast
  next
    case (Inr evs)
    let ?q = "rev (sort (due (os_ep os) (el_fds (rt_loops st a)) evs))"
    have acc: "acceptor_ok a l lfd (st\<lparr>rt_k := k\<rparr>)" using ok1(1) m by (auto simp: server_ok_def)
    then obtain p c where tab: "el_fds (rt_loops st a) = [(lfd, p, l, c, fd_readable)]"
      by (auto simp: acceptor_ok_def Let_def)
    have "distinct (map fst evs)" using contract(2) Inr by (simp add: reported_ok_def)
    from due_lone [OF this, of "os_ep os" lfd p l c fd_readable]
    have "?q \<in> {[], [(p, l, c)]}" by (auto simp: tab)
    then have "acceptor_ok a l lfd (requeued a ?q (st\<lparr>rt_k := k\<rparr>))"
      using acc tab by (auto simp: acceptor_ok_def Let_def)
    note ok2 = server_ok_acceptor_queue [OF ok1(1) m this]
    have "turn os dp a st = (requeued a ?q (st\<lparr>rt_k := k\<rparr>), Inr ())"
      using q poll_queue [OF q] reply Inr by (simp add: turn_def)
    with ok2 undisturbed_trans [OF ok1(2) ok2(2)] show ?thesis by blast
  qed
qed

section \<open>A worker's turn in the server\<close>

lemma held_evlp:
  assumes "worker_ok os watch j st" and "(n, fd) \<in> in_table j st"
  shows "io_evlp (rt_objs st n) = Some j"
proof -
  have "fine os (\<lambda>k. watch k (epfd j st)) j (epfd j st) n fd st"
    using assms unfolding worker_ok_def worker_state_def by blast
  from fine_conn [OF this] show ?thesis
    by (auto simp: conn_def Let_def)
qed

lemma one_to_one_subset: "one_to_one C \<Longrightarrow> D \<subseteq> C \<Longrightarrow> one_to_one D"
  unfolding one_to_one_def split_def by blast

text \<open>What a worker does to its own loop and connections leaves the server in order.\<close>

lemma server_ok_worker:
  assumes ok: "server_ok os watch A st" and j: "j \<in> set (rt_evls st)" and w: "worker_ok os watch j st'"
    and sub: "in_table j st' \<subseteq> in_table j st" and efd: "epfd j st' = epfd j st" and evls: "rt_evls st' = rt_evls st"
    and s: "\<And>i. i \<noteq> j \<Longrightarrow> spared i (- fst ` in_table j st) st st'"
    and far: "\<And>e. e \<noteq> epfd j st \<Longrightarrow> watch (rt_k st') e = watch (rt_k st) e"
  shows "server_ok os watch A st'"
proof -
  have ws: "\<And>i. i \<in> set (rt_evls st) \<Longrightarrow> worker_ok os watch i st" and aj: "\<And>a l lfd. (a, l, lfd) \<in> A \<Longrightarrow> a \<noteq> j"
    and acc: "\<And>a l lfd. (a, l, lfd) \<in> A \<Longrightarrow> acceptor_ok a l lfd st"
    and inj: "inj_on (\<lambda>j. epfd j st) (set (rt_evls st))" and one: "one_to_one (connections st)"
    using ok j unfolding server_ok_def by force+
  have "acceptor_ok a l lfd st'" if c: "(a, l, lfd) \<in> A" for a l lfd
  proof -
    have "l \<notin> fst ` in_table j st"
      using held_evlp [OF ws [OF j]] acc [OF c] aj [OF c] by (force simp: acceptor_ok_def Let_def)
    then have "spared a {l} st st'" using s [OF aj [OF c]] by (simp add: spared_def)
    with acc [OF c] show ?thesis by (rule acceptor_ok_spared)
  qed
  then have "\<forall>(a, l, lfd) \<in> A. acceptor_ok a l lfd st'" by blast
  moreover have "worker_ok os watch i st' \<and> in_table i st' \<subseteq> in_table i st" if i: "i \<in> set (rt_evls st)" for i
  proof (cases "i = j")
    case False
    have "n \<notin> fst ` in_table j st" if "(n, fd) \<in> in_table i st" for n fd
      using held_evlp [OF ws [OF i] that] held_evlp [OF ws [OF j]] False by auto
    then have "fst c \<in> - fst ` in_table j st" if "c \<in> in_table i st" for c
      using that by (cases c) simp
    then have "fst ` in_table i st \<subseteq> - fst ` in_table j st" by (rule image_subsetI)
    then have "spared i (fst ` in_table i st) st st'" using s [OF False] unfolding spared_def by blast
    moreover have "epfd i st \<noteq> epfd j st" using inj i j False by (auto simp: inj_on_def)
    ultimately have "worker_ok os watch i st'" "in_table i st' = in_table i st"
      using worker_ok_spared [OF ws [OF i]] far by blast+
    then show ?thesis by simp
  qed (use w sub in simp)
  moreover from this have "one_to_one (connections st')"
    by (intro one_to_one_subset [OF one]) (auto simp: evls)
  moreover have same: "epfd i st' = epfd i st" for i
    using s [of i] efd by (cases "i = j") (simp_all add: spared_def)
  ultimately show ?thesis
    using ok evls unfolding server_ok_def by (simp)
qed

lemma in_state_requeued: "in_state begun os watch i n fd (requeued j q st) = in_state begun os watch i n fd st"
proof -
  have "conn interest i efd n fd rs m (requeued j q st) = conn interest i efd n fd rs m st" for interest efd rs m
    by (auto simp: conn_def regs_of_def fresh_code_def Let_def)
  moreover have "epfd i (requeued j q st) = epfd i st" by simp
  ultimately show ?thesis
    unfolding in_state_def arrived_def settled_def by (simp add: drained_def)
qed

lemma server_worker_turn:
  assumes K: "server_kernel os watch" and H: "server_handlers os watch dp" and ok: "server_ok os watch A st"
    and j: "j \<in> set (rt_evls st)"
  shows "\<exists>st'. turn os dp j st = (st', Inr ()) \<and> server_ok os watch A st' \<and>
     (case el_cbs (rt_loops st j) of
        [] \<Rightarrow> undisturbed os watch {} st st'
      | (p, n, c) # q \<Rightarrow> undisturbed os watch {n} st st' \<and> (\<exists>fd. (n, fd) \<in> in_table j st \<and>
          (in_state True os watch j n fd st' \<or> rt_code st c \<noteq> On_acpt_writable \<and> released (\<lambda>k. watch k (epfd j st)) j (epfd j st) n fd st')))"
proof -
  have w: "worker_ok os watch j st" and one: "one_to_one (in_table j st)"
    using ok j by (auto simp: server_ok_def intro: one_to_one_subset)
  show ?thesis
  proof (cases "el_cbs (rt_loops st j)")
    case Nil
    obtain k q where t: "turn os dp j st = (requeued j q (st\<lparr>rt_k := k\<rparr>), Inr ())" "watch k = watch (rt_k st)"
        "worker_ok os watch j (requeued j q (st\<lparr>rt_k := k\<rparr>))"
      using worker_polls [OF K one w Nil] by blast
    obtain st1 where st1: "st1 = st\<lparr>rt_k := k\<rparr>" by simp
    note ok1 = server_ok_kernel [OF ok t(2), folded st1]
    have j1: "j \<in> set (rt_evls st1)" using j by (simp add: st1)
    have "server_ok os watch A (requeued j q st1)"
      by (rule server_ok_worker [OF ok1(1) j1 t(3) [folded st1]]) (simp_all add: spared_def)
    moreover have "undisturbed os watch {} st1 (requeued j q st1)"
      unfolding undisturbed_def in_state_requeued by simp
    ultimately show ?thesis
      using t(1) Nil undisturbed_trans [OF ok1(2)] unfolding st1 [symmetric] by (intro exI [of _ "requeued j q st1"]) simp
  next
    case (Cons x q)
    obtain p n c where x: "x = (p, n, c)" by (metis prod_cases3)
    let ?I = "\<lambda>k. watch k (epfd j st)"
    obtain st' fd where t: "turn os dp j st = (st', Inr ())" "worker_ok os watch j st'" "in_table j st' \<subseteq> in_table j st" "(n, fd) \<in> in_table j st"
        "apart j n (requeued j q st) st'" "elsewhere watch (epfd j st) st st'" "fine os ?I j (epfd j st) n fd st'"
        "settled os ?I j (epfd j st) n fd st' \<or> rt_code st c \<noteq> On_acpt_writable \<and> released ?I j (epfd j st) n fd st'"
      and rest: "\<And>n' fd'. (n', fd') \<in> in_table j st \<Longrightarrow> n' \<noteq> n \<Longrightarrow>
        (arrived os ?I j (epfd j st) n' fd' st \<longrightarrow> arrived os ?I j (epfd j st) n' fd' st') \<and>
        (settled os ?I j (epfd j st) n' fd' st \<longrightarrow> settled os ?I j (epfd j st) n' fd' st')"
      using worker_call [OF K H one w Cons [unfolded x]] by (elim exE conjE) (rule that, auto)
    have n: "n \<in> fst ` in_table j st" using t(4) by force
    have efd: "epfd j st' = epfd j st" and evls: "rt_evls st' = rt_evls st" using t(5) by (simp_all add: apart_def)
    have "server_ok os watch A st'"
      by (rule server_ok_worker [OF ok j t(2,3)]) (use t(5,6) n in \<open>auto simp: spared_def apart_def elsewhere_def\<close>)
    moreover have "undisturbed os watch {n} st st'"
      unfolding undisturbed_def
    proof (intro allI impI, elim conjE)
      fix begun i m x
      assume m: "m \<notin> {n}" and i: "in_state begun os watch i m x st"
      then have h: "i \<in> set (rt_evls st)" "(m, x) \<in> in_table i st"
        by (auto simp: in_state_def intro: begun_held split: if_splits)
      show "in_state begun os watch i m x st'"
      proof (cases "i = j")
        case True
        with i h rest [of m x] m efd evls show ?thesis by (auto simp: in_state_def)
      next
        case False
        then have "spared i {m} st st'" using t(5) m by (auto simp: spared_def apart_def)
        moreover have "epfd i st \<noteq> epfd j st" using ok h(1) j False unfolding server_ok_def inj_on_def by blast
        then have "watch (rt_k st') (epfd i st) = watch (rt_k st) (epfd i st)"
          using t(6) by (simp add: elsewhere_def)
        ultimately show ?thesis
          using i states_spared(2,3) [of i "{m}" st st' m "\<lambda>k. watch k (epfd i st)" x os "epfd i st"] evls
          by (auto simp: in_state_def spared_def)
      qed
    qed
    moreover have "in_state True os watch j n fd st' \<or> rt_code st c \<noteq> On_acpt_writable \<and> released ?I j (epfd j st) n fd st'"
      using t(7,8) j efd evls by (auto simp: in_state_def)
    ultimately show ?thesis
      using t(1,4) Cons x by (intro exI [of _ st']) auto
  qed
qed


section \<open>The server\<close>

text \<open>
  The threads take turns in any order; between two turns the outside world changes the kernel, but
  not what the loops watch. An acceptor's turn relies on \<open>waiting_ok\<close>.
\<close>

inductive server_step ::
  "'k os \<Rightarrow> ('k \<Rightarrow> int \<Rightarrow> int \<Rightarrow> 32 word option) \<Rightarrow> (int \<Rightarrow> 'k \<Rightarrow> int list) \<Rightarrow> 'k tp_shared_data \<Rightarrow> acceptors \<Rightarrow>
   'k reactor \<times> unit res \<Rightarrow> 'k reactor \<times> unit res \<Rightarrow> bool"
  for os watch backlog dp A
where
  outside: "watch k = watch (rt_k st) \<Longrightarrow> server_step os watch backlog dp A (st, Inr ()) (st\<lparr>rt_k := k\<rparr>, Inr ())"
| acceptor: "(a, l, lfd) \<in> A \<Longrightarrow> waiting_ok (backlog lfd) st \<Longrightarrow>
    server_step os watch backlog dp A (st, Inr ()) (turn os dp a st)"
| worker: "j \<in> set (rt_evls st) \<Longrightarrow> server_step os watch backlog dp A (st, Inr ()) (turn os dp j st)"

inductive_cases server_stepE: "server_step os watch backlog dp A x y"

definition server_env ::
  "'k os \<Rightarrow> ('k \<Rightarrow> int \<Rightarrow> int \<Rightarrow> 32 word option) \<Rightarrow> (int \<Rightarrow> 'k \<Rightarrow> int list) \<Rightarrow> 'k tp_shared_data \<Rightarrow> acceptors \<Rightarrow> bool"
where
  "server_env os watch backlog dp A \<longleftrightarrow> server_kernel os watch \<and> server_handlers os watch dp \<and>
     (\<forall>(a, l, lfd) \<in> A. \<exists>flags. accept_kernel (os_sys os) lfd (backlog lfd) flags)"

text \<open>The start: the workers hold nothing, and every acceptor has registered its socket.\<close>

definition server_start :: "('k \<Rightarrow> int \<Rightarrow> int \<Rightarrow> 32 word option) \<Rightarrow> acceptors \<Rightarrow> 'k reactor \<Rightarrow> bool" where
  "server_start watch A st \<longleftrightarrow>
     rt_evls st \<noteq> [] \<and> inj_on fst A \<and> fst ` A \<inter> set (rt_evls st) = {} \<and> inj_on (\<lambda>j. epfd j st) (set (rt_evls st)) \<and>
     (\<forall>(a, l, lfd) \<in> A. acceptor_ok a l lfd st) \<and>
     (\<forall>j \<in> set (rt_evls st). el_id (rt_loops st j) = j \<and> el_fds (rt_loops st j) = [] \<and> el_cbs (rt_loops st j) = [] \<and>
        (\<forall>fd. watch (rt_k st) (epfd j st) fd = None))"

lemma server_start_ok: "server_start watch A st \<Longrightarrow> server_ok os watch A st"
  by (auto simp: server_start_def server_ok_def worker_ok_def worker_state_def queue_ok_def in_table_def fresh_code_def one_to_one_def)

lemma server_turns_ok:
  assumes env: "server_env os watch backlog dp A" and ok: "server_ok os watch A st"
    and step: "server_step os watch backlog dp A (st, Inr ()) y"
  shows "snd y = Inr () \<and> server_ok os watch A (fst y)"
  using step
proof (cases rule: server_step.cases)
  case (outside k)
  then show ?thesis using server_ok_kernel(1) [OF ok] by simp
next
  case (acceptor a l lfd)
  obtain flags where f: "accept_kernel (os_sys os) lfd (backlog lfd) flags"
    using env acceptor(2) by (auto simp: server_env_def)
  have K: "server_kernel os watch" using env by (simp add: server_env_def)
  show ?thesis
    using acceptor_calls [OF K f ok acceptor(2,3), of dp] acceptor_polls [OF K ok acceptor(2), of dp] acceptor(1)
    by (cases "el_cbs (rt_loops st a) = []") auto
next
  case (worker j)
  then show ?thesis
    using server_worker_turn [of os watch dp A st j] env ok by (auto simp: server_env_def)
qed

definition server_inv ::
  "'k os \<Rightarrow> ('k \<Rightarrow> int \<Rightarrow> int \<Rightarrow> 32 word option) \<Rightarrow> (int \<Rightarrow> 'k \<Rightarrow> int list) \<Rightarrow> 'k tp_shared_data \<Rightarrow> acceptors \<Rightarrow>
   'k reactor \<times> unit res \<Rightarrow> bool"
where
  "server_inv os watch backlog dp A x \<longleftrightarrow> server_env os watch backlog dp A \<and> snd x = Inr () \<and> server_ok os watch A (fst x)"

definition server_begin ::
  "'k os \<Rightarrow> ('k \<Rightarrow> int \<Rightarrow> int \<Rightarrow> 32 word option) \<Rightarrow> (int \<Rightarrow> 'k \<Rightarrow> int list) \<Rightarrow> 'k tp_shared_data \<Rightarrow> acceptors \<Rightarrow>
   'k reactor \<times> unit res \<Rightarrow> bool"
where
  "server_begin os watch backlog dp A x \<longleftrightarrow> server_env os watch backlog dp A \<and> snd x = Inr () \<and> server_start watch A (fst x)"

interpretation server_system:
  invariant_system "server_begin os watch backlog dp A" "server_step os watch backlog dp A" "server_inv os watch backlog dp A"
  for os watch backlog dp A
proof
  show "server_inv os watch backlog dp A x" if "server_begin os watch backlog dp A x" for x
    using that by (simp add: server_begin_def server_inv_def server_start_ok)
  show "server_inv os watch backlog dp A y"
    if "server_inv os watch backlog dp A x" "server_step os watch backlog dp A x y" for x y
  proof -
    have "x = (fst x, Inr ())" using that(1) by (cases x) (simp add: server_inv_def)
    then obtain st where x: "x = (st, Inr ())" by blast
    from server_turns_ok [of os watch backlog dp A st y] that show ?thesis
      by (simp add: server_inv_def x)
  qed
qed

text \<open>A connection is in order where it is held.\<close>

lemma server_ok_connections:
  assumes ok: "server_ok os watch A st" and j: "j \<in> set (rt_evls st)" and c: "(n, fd) \<in> in_table j st"
  shows "\<exists>begun. in_state begun os watch j n fd st" "(n', fd) \<in> in_table i st \<Longrightarrow> i \<in> set (rt_evls st) \<Longrightarrow> i = j \<and> n' = n"
proof -
  let ?I = "\<lambda>k. watch k (epfd j st)"
  have w: "worker_ok os watch j st" using ok j by (simp add: server_ok_def)
  then have "fine os ?I j (epfd j st) n fd st" using c unfolding worker_ok_def worker_state_def by blast
  from held_begun [OF this c] show "\<exists>begun. in_state begun os watch j n fd st"
    using j unfolding in_state_def by auto
  assume c': "(n', fd) \<in> in_table i st" and i: "i \<in> set (rt_evls st)"
  have "(n', fd) \<in> connections st" "(n, fd) \<in> connections st" using c c' i j by auto
  then have "n' = n" using ok unfolding server_ok_def one_to_one_def split_def by (metis fst_conv snd_conv)
  moreover have "io_evlp (rt_objs st n') = Some i" "io_evlp (rt_objs st n) = Some j"
    using held_evlp [OF _ c'] held_evlp [OF w c] ok i by (auto simp: server_ok_def)
  ultimately show "i = j \<and> n' = n" by simp
qed


section \<open>A concrete server\<close>

text \<open>Workers 1 and 2 that echo, and acceptor 3 with a socket on descriptor 3 at which three connections
  wait.\<close>

definition report_some :: "sock_state \<Rightarrow> int \<Rightarrow> int \<Rightarrow> int \<Rightarrow> (errno + (int \<times> 32 word) list) \<times> sock_state" where
  "report_some k efd n t =
     (Inr (concat (map (\<lambda>fd. case ss_watch k efd fd of None \<Rightarrow> [] | Some m \<Rightarrow> [(fd, m)]) [3, 7, 8, 9])), k)"

definition server_os :: "sock_state os" where
  "server_os = sample_os\<lparr>os_ep := sock_ep\<lparr>ep_wait := report_some\<rparr>\<rparr>"

definition sample_server :: "sock_state reactor" where
  "sample_server = sample_reactor\<lparr>rt_evls := [1, 2],
     rt_loops := (\<lambda>j. \<lparr>el_id = j, el_fd = 100 + int j, el_fds = (if j = 3 then [(3, 20, 1, 10, fd_readable)] else []),
       el_cbs = [], el_events = (\<lambda>_. None), el_stop = False\<rparr>),
     rt_objs := (\<lambda>_. sample_obj\<lparr>io_fd := 3, io_evlp := Some 3\<rparr>), rt_code := (\<lambda>_. On_acpt_readable),
     rt_k := sample_sock_state\<lparr>ss_watch := (\<lambda>_ _. None)(103 := [3 \<mapsto> 1])\<rparr>\<rparr>"

abbreviation echo_data :: "sock_state tp_shared_data" where
  "echo_data \<equiv> simple_client server_os"

abbreviation sample_acceptors :: acceptors where
  "sample_acceptors \<equiv> {(3, 1, 3)}"

lemma server_os_simps:
  "os_sys server_os = sock_sys" "os_ep server_os = sock_ep\<lparr>ep_wait := report_some\<rparr>" "os_step server_os = 1024"
  "os_events server_os = 2048"
  by (simp_all add: server_os_def sample_os_def)

lemma sample_server_env: "server_env server_os ss_watch (\<lambda>_. ss_backlog) echo_data sample_acceptors"
proof -
  have ep: "ep_kernel (os_ep server_os) efd (ss_interest efd)" for efd
    by (auto simp: ep_kernel_def server_os_simps sock_ep_def split: option.split)
  have keeps: "rd_keeps ss_watch sock_sys" "wr_keeps ss_watch sock_sys"
    by (auto simp: rd_keeps_def wr_keeps_def sock_sys_def)
  have inst: "epoll_instances (os_ep server_os) ss_watch"
    using ep by (auto simp: epoll_instances_def epolls_def server_os_simps sock_ep_def)
  have conn: "conn_kernel server_os efd (ss_interest efd) fd (\<lambda>_. []) (\<lambda>_. []) (\<lambda>_. 0) (\<lambda>_. 0)" for efd fd
    using sample_conn_kernel [of fd] ep [of efd] keeps
    by (simp add: conn_kernel_def server_os_simps sample_os_def rd_keeps_def wr_keeps_def)
  have "\<exists>sent recv pend intr. conn_kernel server_os efd (ss_interest efd) fd sent recv pend intr \<and>
      (\<forall>k. int (pend k) + os_step server_os \<le> 1073741824)" for efd fd
    by (rule exI [of _ "\<lambda>_. []"], rule exI [of _ "\<lambda>_. []"], rule exI [of _ "\<lambda>_. 0"], rule exI [of _ "\<lambda>_. 0"])
      (simp add: conn, simp add: server_os_simps)
  moreover have "masks_ok (os_ep server_os)" by (simp add: masks_ok_def server_os_simps sock_ep_def)
  ultimately have "crew_kernel server_os efd (\<lambda>k. ss_watch k efd) UNIV" for efd
    using ep by (simp add: crew_kernel_def)
  moreover have "case ep_wait (os_ep server_os) k efd n t of
        (Inl e, k') \<Rightarrow> e = EINTR \<and> ss_watch k' = ss_watch k
      | (Inr evs, k') \<Rightarrow> ss_watch k' = ss_watch k \<and> reported_ok server_os (ss_watch k efd) evs" for k efd n t
    by (auto simp: server_os_simps report_some_def reported_ok_def split: option.splits)
  ultimately have "server_kernel server_os ss_watch"
    using inst keeps sock_accept_keeps by (simp add: server_kernel_def server_os_simps)
  moreover from this have "server_handlers server_os ss_watch echo_data" by (rule echo_server)
  moreover have "accept_kernel (os_sys server_os) 3 ss_backlog ss_flags"
    using sock_accept by (simp add: server_os_simps)
  ultimately show ?thesis by (auto simp: server_env_def)
qed

lemma sample_server_start: "server_start ss_watch sample_acceptors sample_server"
  by (auto simp: server_start_def sample_server_def acceptor_ok_def sample_obj_def sample_reactor_def inj_on_def Let_def)

section \<open>Properties\<close>

text \<open>C1. A server stays in order whatever its threads and the kernel do. In every state its acceptors
  and workers reach, taking turns in any order while the outside world sends, closes and connects as
  it likes, no thread has met an exception; every connection in a worker's table is held under one
  object by one worker only and has arrived there or is settled; and the callbacks that
  are queued are due.\<close>

theorem server_serves:
  assumes "server_env os watch backlog dp A" and "server_start watch A st0"
    and "(server_step os watch backlog dp A)\<^sup>*\<^sup>* (st0, Inr ()) (st, r)"
  shows "r = Inr () \<and>
     (\<forall>j \<in> set (rt_evls st). \<forall>(n, fd) \<in> in_table j st. (\<exists>begun. in_state begun os watch j n fd st) \<and>
        (\<forall>i \<in> set (rt_evls st). \<forall>n'. (n', fd) \<in> in_table i st \<longrightarrow> i = j \<and> n' = n)) \<and>
     (\<forall>j \<in> set (rt_evls st). \<forall>(p, n, a) \<in> set (el_cbs (rt_loops st j)).
        \<exists>fd. (n, fd) \<in> in_table j st \<and> ready os (\<lambda>k. watch k (epfd j st)) j (epfd j st) (rt_code st a) n fd st)"
proof -
  have "server_inv os watch backlog dp A (st0, Inr ())"
    using assms(1,2) by (simp add: server_inv_def server_start_ok)
  from server_system.steps_inv [OF assms(3) this]
  have r: "r = Inr ()" and ok: "server_ok os watch A st" by (simp_all add: server_inv_def)
  have "\<exists>fd. (n, fd) \<in> in_table j st \<and> ready os (\<lambda>k. watch k (epfd j st)) j (epfd j st) (rt_code st a) n fd st"
    if "j \<in> set (rt_evls st)" "(p, n, a) \<in> set (el_cbs (rt_loops st j))" for j p n a
    using ok that by (auto simp: server_ok_def worker_ok_def queue_ok_def)
  moreover have "(\<exists>begun. in_state begun os watch j n fd st) \<and>
      (\<forall>i \<in> set (rt_evls st). \<forall>n'. (n', fd) \<in> in_table i st \<longrightarrow> i = j \<and> n' = n)"
    if "j \<in> set (rt_evls st)" "(n, fd) \<in> in_table j st" for j n fd
    using server_ok_connections [OF ok that] by blast
  ultimately show ?thesis using r by auto
qed

theorem server_serves_witness:
  "snd (turn server_os echo_data 3 sample_server) = Inr () \<and> snd (turn server_os echo_data 1 sample_server) = Inr ()"
proof -
  have "waiting_ok ss_backlog sample_server"
    by (auto simp: waiting_ok_def sample_server_def sample_sock_state_def room_for_def load_def in_table_def int_max_def Let_def)
  then have "server_step server_os ss_watch (\<lambda>_. ss_backlog) echo_data sample_acceptors (sample_server, Inr ()) (turn server_os echo_data 3 sample_server)"
    by (intro server_step.acceptor) auto
  moreover have "server_step server_os ss_watch (\<lambda>_. ss_backlog) echo_data sample_acceptors (sample_server, Inr ()) (turn server_os echo_data 1 sample_server)"
    by (rule server_step.worker) (simp add: sample_server_def)
  moreover have "snd y = Inr ()"
    if "server_step server_os ss_watch (\<lambda>_. ss_backlog) echo_data sample_acceptors (sample_server, Inr ()) y" for y
  proof -
    have "(server_step server_os ss_watch (\<lambda>_. ss_backlog) echo_data sample_acceptors)\<^sup>*\<^sup>* (sample_server, Inr ()) (fst y, snd y)"
      using that by simp
    from server_serves [OF sample_server_env sample_server_start this] show ?thesis by blast
  qed
  ultimately show ?thesis by blast
qed

text \<open>C2. What a turn of the server achieves. When an acceptor calls its callback, every descriptor that
  waits arrives at one of the workers; when a worker calls a callback, the connection it belongs to is
  settled afterwards, or released, but for its first callback; every other connection keeps the state it
  was in, and a turn that polls disturbs none.\<close>

theorem server_progress:
  assumes "server_env os watch backlog dp A" and "server_start watch A st0"
    and "(server_step os watch backlog dp A)\<^sup>*\<^sup>* (st0, Inr ()) (st, Inr ())"
  shows "(\<forall>(a, l, lfd) \<in> A. waiting_ok (backlog lfd) st \<longrightarrow>
        undisturbed os watch {} st (fst (turn os dp a st)) \<and>
        (el_cbs (rt_loops st a) \<noteq> [] \<longrightarrow>
           (\<forall>fd \<in> set (backlog lfd (rt_k st)). \<exists>j n. in_state False os watch j n fd (fst (turn os dp a st))))) \<and>
     (\<forall>j \<in> set (rt_evls st). case el_cbs (rt_loops st j) of
        [] \<Rightarrow> undisturbed os watch {} st (fst (turn os dp j st))
      | (p, n, c) # q \<Rightarrow> undisturbed os watch {n} st (fst (turn os dp j st)) \<and>
          (\<exists>fd. (n, fd) \<in> in_table j st \<and> (in_state True os watch j n fd (fst (turn os dp j st)) \<or>
             rt_code st c \<noteq> On_acpt_writable \<and>
             released (\<lambda>k. watch k (epfd j st)) j (epfd j st) n fd (fst (turn os dp j st)))))"
proof -
  have "server_inv os watch backlog dp A (st0, Inr ())"
    using assms(1,2) by (simp add: server_inv_def server_start_ok)
  from server_system.steps_inv [OF assms(3) this]
  have ok: "server_ok os watch A st" by (simp add: server_inv_def)
  have K: "server_kernel os watch" and H: "server_handlers os watch dp" using assms(1) by (simp_all add: server_env_def)
  have "undisturbed os watch {} st (fst (turn os dp a st)) \<and> (el_cbs (rt_loops st a) \<noteq> [] \<longrightarrow>
      (\<forall>fd \<in> set (backlog lfd (rt_k st)). \<exists>j n. in_state False os watch j n fd (fst (turn os dp a st))))"
    if m: "(a, l, lfd) \<in> A" and w: "waiting_ok (backlog lfd) st" for a l lfd
  proof -
    obtain flags where f: "accept_kernel (os_sys os) lfd (backlog lfd) flags"
      using assms(1) m by (auto simp: server_env_def)
    show ?thesis
      using acceptor_calls [OF K f ok m w, of dp] acceptor_polls [OF K ok m, of dp] by (cases "el_cbs (rt_loops st a) = []") auto
  qed
  then show ?thesis
    using server_worker_turn [OF K H ok] by (fastforce split: list.splits prod.splits)
qed


theorem server_progress_witness:
  "let st = fst (turn server_os echo_data 3 (fst (turn server_os echo_data 3 sample_server))) in
     (\<exists>j n. in_state False server_os ss_watch j n 7 st) \<and> (\<exists>j n. in_state False server_os ss_watch j n 8 st) \<and>
     (\<exists>j n. in_state False server_os ss_watch j n 9 st)"
proof -
  let ?st = "requeued 3 [(20, 1, 10)] sample_server"
  have turn: "turn server_os echo_data 3 sample_server = (?st, Inr ())"
  proof -
    have q: "el_cbs (rt_loops sample_server 3) = []" by (simp add: sample_server_def)
    have w: "ep_wait (os_ep server_os) (rt_k sample_server) (epfd 3 sample_server) (os_events server_os) (- 1) = (Inr [(3, 1)], rt_k sample_server)"
      by (simp add: server_os_simps report_some_def sample_server_def)
    have d: "due (os_ep server_os) (el_fds (rt_loops sample_server 3)) [(3, 1)] = [(20, 1, 10)]"
      by (simp add: due_def due_of_def fd_map_to_event_def server_os_simps sock_ep_def sample_server_def fd_readable_def fd_writable_def)
    show ?thesis
      using poll_queue [OF q w] by (simp add: turn_def q d)
  qed
  have wait: "waiting_ok ss_backlog sample_server" "waiting_ok ss_backlog ?st"
    by (auto simp: waiting_ok_def sample_server_def sample_sock_state_def room_for_def load_def in_table_def int_max_def Let_def)
  have "server_step server_os ss_watch (\<lambda>_. ss_backlog) echo_data sample_acceptors (sample_server, Inr ()) (?st, Inr ())"
    using server_step.acceptor [of 3 1 3 sample_acceptors "\<lambda>_. ss_backlog" sample_server server_os ss_watch echo_data] wait(1) turn by simp
  then have "(server_step server_os ss_watch (\<lambda>_. ss_backlog) echo_data sample_acceptors)\<^sup>*\<^sup>* (sample_server, Inr ()) (?st, Inr ())"
    by (rule r_into_rtranclp)
  from conjunct1 [OF server_progress [OF sample_server_env sample_server_start this]] wait(2)
  have "\<forall>fd \<in> set (ss_backlog (rt_k ?st)). \<exists>j n. in_state False server_os ss_watch j n fd (fst (turn server_os echo_data 3 ?st))"
    by simp
  then show ?thesis
    unfolding turn by (simp add: Let_def) (simp add: sample_server_def sample_sock_state_def)
qed

end
