(* ===== verification/Ownership.thy ===== *)
theory Ownership
  imports Nio_Socket Ipc
begin

text \<open>
  Who closes a descriptor: the move constructors and move assignments of the io objects
  (\<open>src/src/include/cppev/nio.h\<close>) and of \<open>shared_memory\<close> and \<open>semaphore\<close> (\<open>src/src/include/cppev/ipc.h\<close>),
  and an account of every descriptor in a program that constructs, moves, closes and destroys
  sockets.
\<close>

section \<open>Moves\<close>

text \<open>
  A move works on the object under construction (raw storage) or assigned to and on the other
  object; \<open>same\<close> is the test \<open>&other == this\<close>. The class \<open>nio\<close> is a virtual base: its constructor runs
  for the most derived object only, so the constructors of \<open>nstream\<close> and \<open>nsock\<close> move it when they
  build a complete object and leave it alone when they build a part of \<open>nsocktcp\<close> or \<open>nsockudp\<close>.
\<close>

definition nio_move_new :: "bool \<Rightarrow> 'm nio_scheme \<Rightarrow> 'm nio_scheme \<Rightarrow> 'm nio_scheme \<times> 'm nio_scheme" where
  "nio_move_new same this other = (if same then (this, other) else nio_move this other)"

definition nio_assign :: "bool \<Rightarrow> 'm nio_scheme \<Rightarrow> 'm nio_scheme \<Rightarrow> 'm nio_scheme \<times> 'm nio_scheme" where
  "nio_assign same this other = (if same then (this, other) else nio_move this other)"

definition nstream_move_new ::
  "bool \<Rightarrow> bool \<Rightarrow> 'm nstream_scheme \<Rightarrow> 'm nstream_scheme \<Rightarrow> 'm nstream_scheme \<times> 'm nstream_scheme"
where
  "nstream_move_new complete same this other =
     (let (this, other) = (if complete then nio_move_new same this other else (this, other)) in
      if same then (this, other) else nstream_move False this other)"

definition nstream_assign ::
  "bool \<Rightarrow> 'm nstream_scheme \<Rightarrow> 'm nstream_scheme \<Rightarrow> 'm nstream_scheme \<times> 'm nstream_scheme"
where
  "nstream_assign same this other = (if same then (this, other) else nstream_move True this other)"

text \<open>The part of \<open>nsock\<close> in a derived object.\<close>

definition nsock_move_new :: "bool \<Rightarrow> sockpart \<Rightarrow> sockpart \<Rightarrow> sockpart" where
  "nsock_move_new same this other = (if same then this else sockpart_move this other)"

text \<open>A complete \<open>nsock\<close> has the members of a \<open>nsockudp\<close>, which is a \<open>nio\<close> and a \<open>nsock\<close>.\<close>

definition nsock_assign :: "bool \<Rightarrow> nsockudp \<Rightarrow> nsockudp \<Rightarrow> nsockudp \<times> nsockudp" where
  "nsock_assign same this other =
     (if same then (this, other)
      else let (this, other) = nio_move this other in
           (this\<lparr>udp_sock := sockpart_move (udp_sock this) (udp_sock other)\<rparr>, other))"

text \<open>\<open>nsocktcp::move\<close> and \<open>nsockudp::move\<close> do nothing without the base.\<close>

definition tcp_move_if :: "bool \<Rightarrow> nsocktcp \<Rightarrow> nsocktcp \<Rightarrow> nsocktcp \<times> nsocktcp" where
  "tcp_move_if move_base this other = (if move_base then tcp_move this other else (this, other))"

definition udp_move_if :: "bool \<Rightarrow> nsockudp \<Rightarrow> nsockudp \<Rightarrow> nsockudp \<times> nsockudp" where
  "udp_move_if move_base this other = (if move_base then udp_move this other else (this, other))"

definition tcp_move_new :: "bool \<Rightarrow> nsocktcp \<Rightarrow> nsocktcp \<Rightarrow> nsocktcp \<times> nsocktcp" where
  "tcp_move_new same this other =
     (let (this, other) = nio_move_new same this other;
          this = this\<lparr>tcp_sock := nsock_move_new same (tcp_sock this) (tcp_sock other)\<rparr>;
          (this, other) = nstream_move_new False same this other
      in if same then (this, other) else tcp_move_if False this other)"

definition tcp_assign :: "bool \<Rightarrow> nsocktcp \<Rightarrow> nsocktcp \<Rightarrow> nsocktcp \<times> nsocktcp" where
  "tcp_assign same this other = (if same then (this, other) else tcp_move_if True this other)"

definition udp_move_new :: "bool \<Rightarrow> nsockudp \<Rightarrow> nsockudp \<Rightarrow> nsockudp \<times> nsockudp" where
  "udp_move_new same this other =
     (let (this, other) = nio_move_new same this other;
          this = this\<lparr>udp_sock := nsock_move_new same (udp_sock this) (udp_sock other)\<rparr>
      in if same then (this, other) else udp_move_if False this other)"

definition udp_assign :: "bool \<Rightarrow> nsockudp \<Rightarrow> nsockudp \<Rightarrow> nsockudp \<times> nsockudp" where
  "udp_assign same this other = (if same then (this, other) else udp_move_if True this other)"

text \<open>The other owners of a resource.\<close>

definition shm_move_new :: "bool \<Rightarrow> 'd shm \<Rightarrow> 'd shm \<Rightarrow> 'd shm \<times> 'd shm" where
  "shm_move_new same this other = shm_move same this other"

definition shm_assign :: "bool \<Rightarrow> 'd shm \<Rightarrow> 'd shm \<Rightarrow> 'd shm \<times> 'd shm" where
  "shm_assign same this other = shm_move same this other"

definition sem_move_new :: "bool \<Rightarrow> 'd semaphore \<Rightarrow> 'd semaphore \<Rightarrow> 'd semaphore \<times> 'd semaphore" where
  "sem_move_new same this other = sem_move same this other"

definition sem_assign :: "bool \<Rightarrow> 'd semaphore \<Rightarrow> 'd semaphore \<Rightarrow> 'd semaphore \<times> 'd semaphore" where
  "sem_assign same this other = sem_move same this other"

text \<open>What a move makes of two sockets.\<close>

lemmas tcp_moves = tcp_move_new_def tcp_assign_def tcp_move_if_def tcp_move_def nio_move_new_def nsock_move_new_def
  nstream_move_new_def nstream_move_def nio_move_def sockpart_move_def buf_move_def

lemmas udp_moves = udp_move_new_def udp_assign_def udp_move_if_def udp_move_def nio_move_new_def nsock_move_new_def
  nio_move_def sockpart_move_def buf_move_def

text \<open>
  The constructor does without \<open>nsocktcp::move\<close>, as its bases have moved everything; whatever the raw
  storage held, it builds what an assignment makes of any object.
\<close>

lemma tcp_move_agree: "tcp_move_new False raw other = tcp_assign False this other"
  by (simp add: tcp_moves Let_def)

lemma udp_move_agree: "udp_move_new False raw other = udp_assign False this other"
  by (simp add: udp_moves Let_def)

lemma udp_assign_nsock: "udp_assign same this other = nsock_assign same this other"
  by (simp add: udp_moves nsock_assign_def)

lemma tcp_assign_parts:
  assumes "tcp_assign same this other = (t, s)"
  shows "io_fd t = (if same then io_fd this else io_fd other)" "io_closed t = (if same then io_closed this else io_closed other)"
    "io_fd s = (if same then io_fd other else - 1)" "io_closed s = (if same then io_closed other else True)"
    "\<not> same \<Longrightarrow> contents (io_rbuf t) = contents (io_rbuf other) \<and> st_eof t = st_eof other \<and> st_reset t = st_reset other \<and>
       st_eop t = st_eop other \<and> tcp_connpeer t = tcp_connpeer other \<and> io_evlp t = io_evlp other"
  using assms by (auto simp: tcp_moves tcp_connpeer_def Let_def split: if_splits)

section \<open>A program with sockets\<close>

text \<open>
  The sockets of a program by number; a destroyed one is \<open>None\<close>. The account beside them: the
  descriptors given to constructors, those no object owns any more although they are open, and
  those closed when their object was closed already.
\<close>

record 'k estate =
  es_k :: 'k
  es_socks :: "nsocktcp option list"
  es_opened :: "int multiset"
  es_lost :: "int multiset"
  es_again :: "int multiset"

datatype handling = Create int family | Move_new nsocktcp nat | Assign nat nat | Close nat | Destroy nat

definition descriptor :: "int \<Rightarrow> int multiset" where
  "descriptor fd = (if fd = -1 then {#} else {#fd#})"

text \<open>The descriptor an object answers for: its destructor closes it.\<close>

definition owned :: "nsocktcp option \<Rightarrow> int multiset" where
  "owned x = (case x of None \<Rightarrow> {#} | Some s \<Rightarrow> if io_closed s then {#} else descriptor (io_fd s))"

definition sock_at :: "nsocktcp option list \<Rightarrow> nat \<Rightarrow> nsocktcp option" where
  "sock_at xs i = (if i < length xs then xs ! i else None)"

text \<open>An operation on an object that does not exist is not a step of a program.\<close>

fun handle :: "('k, 'z) sock_api_scheme \<Rightarrow> handling \<Rightarrow> 'k estate \<Rightarrow> 'k estate option" where
  "handle sys (Create fd f) e =
     (case tcp_new sys (es_k e) fd f of
        (k, Inl _) \<Rightarrow> Some (e\<lparr>es_k := k, es_opened := es_opened e + descriptor fd, es_lost := es_lost e + descriptor fd\<rparr>)
      | (k, Inr s) \<Rightarrow> Some (e\<lparr>es_k := k, es_opened := es_opened e + descriptor fd, es_socks := es_socks e @ [Some s]\<rparr>))"
| "handle sys (Move_new raw j) e =
     (case sock_at (es_socks e) j of
        None \<Rightarrow> None
      | Some other \<Rightarrow> (case tcp_move_new False raw other of (t, s) \<Rightarrow>
          Some (e\<lparr>es_socks := (es_socks e)[j := Some s] @ [Some t]\<rparr>)))"
| "handle sys (Assign i j) e =
     (case (sock_at (es_socks e) i, sock_at (es_socks e) j) of
        (Some this, Some other) \<Rightarrow> (case tcp_assign (i = j) this other of (t, s) \<Rightarrow>
          Some (e\<lparr>es_socks := (es_socks e)[j := Some s, i := Some t],
                  es_lost := es_lost e + (if i = j then {#} else owned (Some this))\<rparr>))
      | _ \<Rightarrow> None)"
| "handle sys (Close i) e =
     (case sock_at (es_socks e) i of
        None \<Rightarrow> None
      | Some s \<Rightarrow> (case nio_close sys (es_k e) s of (k, t) \<Rightarrow>
          Some (e\<lparr>es_k := k, es_socks := (es_socks e)[i := Some t],
                  es_again := es_again e + (if io_closed s then descriptor (io_fd s) else {#})\<rparr>)))"
| "handle sys (Destroy i) e =
     (case sock_at (es_socks e) i of
        None \<Rightarrow> None
      | Some s \<Rightarrow> Some (e\<lparr>es_k := nio_destroy sys (es_k e) s, es_socks := (es_socks e)[i := None]\<rparr>))"

fun handle_all :: "('k, 'z) sock_api_scheme \<Rightarrow> handling list \<Rightarrow> 'k estate \<Rightarrow> 'k estate option" where
  "handle_all sys [] e = Some e"
| "handle_all sys (h # hs) e = (case handle sys h e of None \<Rightarrow> None | Some e' \<Rightarrow> handle_all sys hs e')"

definition no_sockets :: "'k \<Rightarrow> 'k estate" where
  "no_sockets k = \<lparr>es_k = k, es_socks = [], es_opened = {#}, es_lost = {#}, es_again = {#}\<rparr>"

text \<open>\<open>closed\<close> are the descriptors closed so far; the other calls close none.\<close>

definition closing_kernel :: "('k, 'z) sock_api_scheme \<Rightarrow> ('k \<Rightarrow> int multiset) \<Rightarrow> bool" where
  "closing_kernel sys closed \<longleftrightarrow>
     (\<forall>k fd. closed (px_close sys k fd) = closed k + {#fd#}) \<and>
     (\<forall>k fd r k'. px_getfl sys k fd = (r, k') \<longrightarrow> closed k' = closed k) \<and>
     (\<forall>k fd v r k'. px_setfl sys k fd v = (r, k') \<longrightarrow> closed k' = closed k)"

section \<open>The account balances\<close>

definition accounted :: "('k \<Rightarrow> int multiset) \<Rightarrow> 'k estate \<Rightarrow> bool" where
  "accounted closed e \<longleftrightarrow>
     closed (es_k e) + es_lost e + (\<Sum>x\<leftarrow>es_socks e. owned x) = es_opened e + es_again e"

lemma sum_list_slot:
  "i < length xs \<Longrightarrow> (\<Sum>x\<leftarrow>xs[i := y]. f x) + f (xs ! i) = (\<Sum>x\<leftarrow>xs. f x) + (f y :: 'b::comm_monoid_add)"
  by (induction xs arbitrary: i) (auto simp: ac_simps split: nat.split)

lemma sock_at_Some [simp]: "sock_at xs i = Some s \<longleftrightarrow> i < length xs \<and> xs ! i = Some s"
  by (simp add: sock_at_def)

lemma tcp_new_owned:
  assumes "closing_kernel sys closed" and "tcp_new sys k fd f = (k', r)"
  shows "closed k' = closed k" "r = Inr s \<Longrightarrow> owned (Some s) = descriptor fd"
  using assms by (auto simp: closing_kernel_def tcp_new_def nstream_new_def nio_new_def set_io_nonblock_def owned_def
      nio.defs nstream.defs nsocktcp.defs split: prod.splits sum.splits option.splits)

lemma closed_close:
  assumes "closing_kernel sys closed" and "nio_close sys k s = (k', t)"
  shows "closed k' = closed k + descriptor (io_fd s)" "owned (Some t) = {#}"
  using assms by (auto simp: closing_kernel_def nio_close_def owned_def descriptor_def)

lemma closed_destroy:
  assumes "closing_kernel sys closed"
  shows "closed (nio_destroy sys k s) = closed k + owned (Some s)"
  using closed_close(1) [OF assms prod.collapse [symmetric], of k s] by (auto simp: nio_destroy_def owned_def)

lemma tcp_move_owned:
  assumes "tcp_assign False this other = (t, s)"
  shows "owned (Some t) = owned (Some other)" "owned (Some s) = {#}"
  using tcp_assign_parts(1-4) [OF assms] by (simp_all add: owned_def)

lemma accounted_slot:
  assumes "accounted closed e" and "i < length (es_socks e)"
    and "closed k' + es_lost e' + owned y + es_again e =
         closed (es_k e) + es_lost e + owned (es_socks e ! i) + es_again e'"
    and "es_k e' = k'" "es_opened e' = es_opened e" "es_socks e' = (es_socks e)[i := y]"
  shows "accounted closed e'"
proof -
  let ?n = "\<Sum>x\<leftarrow>es_socks e. owned x"
  have "(\<Sum>x\<leftarrow>es_socks e'. owned x) + owned (es_socks e ! i) = ?n + owned y"
    using sum_list_slot [OF assms(2)] assms(6) by metis
  note eqs = this assms(1) [unfolded accounted_def] assms(3)
  show ?thesis
    unfolding accounted_def
  proof (rule multiset_eqI)
    fix x
    show "count (closed (es_k e') + es_lost e' + (\<Sum>x\<leftarrow>es_socks e'. owned x)) x = count (es_opened e' + es_again e') x"
      using eqs [THEN arg_cong [of _ _ "\<lambda>m. count m x"]] assms(4,5) by simp
  qed
qed

lemma handle_accounted:
  assumes k: "closing_kernel sys closed" and b: "accounted closed e" and h: "handle sys h e = Some e'"
  shows "accounted closed e'"
proof (cases h)
  case (Create fd f)
  obtain k' r where r: "tcp_new sys (es_k e) fd f = (k', r)" by fastforce
  show ?thesis
    using h b tcp_new_owned [OF k r] r Create by (cases r) (auto simp: accounted_def ac_simps owned_def)
next
  case (Move_new raw j)
  then obtain other t s where j: "j < length (es_socks e)" "es_socks e ! j = Some other" and
      m: "tcp_move_new False raw other = (t, s)" and e': "e' = e\<lparr>es_socks := (es_socks e)[j := Some s] @ [Some t]\<rparr>"
    using h by (auto split: option.splits prod.splits)
  note o = tcp_move_owned [OF trans [OF tcp_move_agree [symmetric] m]]
  show ?thesis
    using b sum_list_slot [OF j(1), of owned "Some s"] j(2) by (simp add: e' o accounted_def ac_simps)
next
  case (Assign i j)
  then obtain this other t s where at: "i < length (es_socks e)" "es_socks e ! i = Some this"
      "j < length (es_socks e)" "es_socks e ! j = Some other" and m: "tcp_assign (i = j) this other = (t, s)"
    and e': "e' = e\<lparr>es_socks := (es_socks e)[j := Some s, i := Some t], es_lost := es_lost e + (if i = j then {#} else owned (Some this))\<rparr>"
    using h by (auto split: option.splits prod.splits)
  show ?thesis
  proof (cases "i = j")
    case True
    then show ?thesis
      using m at e' b list_update_id [of "es_socks e" j] by (simp add: tcp_assign_def accounted_def)
  next
    case False
    let ?xs = "(es_socks e)[j := Some s]"
    have "tcp_assign False this other = (t, s)" using m False by simp
    note o = tcp_move_owned [OF this]
    have "?xs ! i = Some this" "i < length ?xs" using at False by simp_all
    with sum_list_slot [OF this(2), of owned "Some t"] sum_list_slot [OF at(3), of owned "Some s"] at(4)
    have "(\<Sum>x\<leftarrow>es_socks e. owned x) = (\<Sum>x\<leftarrow>?xs[i := Some t]. owned x) + owned (Some this)"
      by (simp add: o ac_simps)
    then show ?thesis using b False by (simp add: e' accounted_def ac_simps)
  qed
next
  case (Close i)
  then obtain s k' t where at: "i < length (es_socks e)" "es_socks e ! i = Some s" and c: "nio_close sys (es_k e) s = (k', t)"
    and e': "e' = e\<lparr>es_k := k', es_socks := (es_socks e)[i := Some t],
                  es_again := es_again e + (if io_closed s then descriptor (io_fd s) else {#})\<rparr>"
    using h by (auto split: option.splits prod.splits)
  show ?thesis
  proof (rule accounted_slot [OF b at(1)])
    show "closed k' + es_lost e' + owned (Some t) + es_again e = closed (es_k e) + es_lost e + owned (es_socks e ! i) + es_again e'"
      using closed_close [OF k c] by (simp add: e' at(2)) (simp add: owned_def)
  qed (simp_all add: e')
next
  case (Destroy i)
  then obtain s where at: "i < length (es_socks e)" "es_socks e ! i = Some s"
    and e': "e' = e\<lparr>es_k := nio_destroy sys (es_k e) s, es_socks := (es_socks e)[i := None]\<rparr>"
    using h by (auto split: option.splits)
  show ?thesis
  proof (rule accounted_slot [OF b at(1)])
    show "closed (es_k e') + es_lost e' + owned None + es_again e = closed (es_k e) + es_lost e + owned (es_socks e ! i) + es_again e'"
      using closed_destroy [OF k, of "es_k e" s] by (simp add: e' at(2) owned_def [of None])
  qed (simp_all add: e')
qed

lemma handle_all_accounted:
  assumes "closing_kernel sys closed" and "accounted closed e" and "handle_all sys hs e = Some e'"
  shows "accounted closed e'"
  using assms(2,3) by (induction hs arbitrary: e) (auto split: option.splits dest: handle_accounted [OF assms(1)])

section \<open>Properties\<close>

text \<open>A kernel that notes the descriptors closed.\<close>

definition noting :: "int multiset sock_api" where
  "noting =
     \<lparr>px_getfl = \<lambda>k fd. (Inr 0, k), px_setfl = \<lambda>k fd v. (if fd = 13 then Some EINTR else None, k), px_nonblock = 2048,
      px_close = \<lambda>k fd. k + {#fd#}, px_read = \<lambda>k fd n. (Inl EAGAIN, k), px_write = \<lambda>k fd bs. (Inl EAGAIN, k),
      px_errno = \<lambda>k. EAGAIN, px_pton = \<lambda>f ip. Inr None, px_ntop = \<lambda>f bs. Inr [], px_sun_size = 108,
      px_socket = \<lambda>k f t. (Inl EAGAIN, k), px_bind = \<lambda>k fd a. (None, k), px_listen = \<lambda>k fd n. (None, k),
      px_connect = \<lambda>k fd a. (None, k), px_accept = \<lambda>k fd. (Inl EAGAIN, k), px_shutdown = \<lambda>k fd h. k,
      px_setsockopt = \<lambda>k fd opt v. (None, k), px_getsockopt = \<lambda>k fd opt. (Inr [0], k),
      px_getsockname = \<lambda>k fd. (Inl EAGAIN, k), px_getpeername = \<lambda>k fd. (Inl EAGAIN, k),
      px_recvfrom = \<lambda>k fd n. (Inl EAGAIN, k), px_sendto = \<lambda>k fd bs a. (Inl EAGAIN, k), px_unlink = \<lambda>k path. k,
      px_pipe = \<lambda>k. (Inl EAGAIN, k), px_mkfifo = \<lambda>k path. (None, k), px_open_rd = \<lambda>k path. (Inl EAGAIN, k),
      px_open_wr = \<lambda>k path. (Inl EAGAIN, k)\<rparr>"

lemma noting_kernel: "closing_kernel noting (\<lambda>k. k)"
  by (simp add: closing_kernel_def noting_def)

text \<open>C5. Whatever a program does with its sockets (construct, move-construct, move-assign, close,
  destroy), every descriptor is accounted for: those closed, those an object still answers for
  and those lost are together the ones given to constructors and the ones closed again by a second
  \<open>close()\<close>. So moves never make two objects close one descriptor: when all objects are destroyed, none
  was closed twice and nothing was lost, each descriptor has been closed exactly once.\<close>

theorem descriptors_accounted:
  assumes "closing_kernel sys closed" and "closed k = {#}" and "handle_all sys hs (no_sockets k) = Some e"
  shows "closed (es_k e) + (\<Sum>x\<leftarrow>es_socks e. owned x) + es_lost e = es_opened e + es_again e \<and>
     (set (es_socks e) \<subseteq> {None} \<and> es_lost e = {#} \<and> es_again e = {#} \<longrightarrow> closed (es_k e) = es_opened e)"
proof -
  have "accounted closed (no_sockets k)" using assms(2) by (simp add: accounted_def no_sockets_def)
  from handle_all_accounted [OF assms(1) this assms(3)]
  have b: "closed (es_k e) + (\<Sum>x\<leftarrow>es_socks e. owned x) + es_lost e = es_opened e + es_again e"
    by (simp add: accounted_def ac_simps)
  have "(\<Sum>x\<leftarrow>xs. owned x) = {#}" if "set xs \<subseteq> {None}" for xs
    using that by (induction xs) (auto simp: owned_def)
  with b show ?thesis by auto
qed

theorem descriptors_accounted_witness:
  "\<exists>e. handle_all noting [Create 5 ipv4, Move_new sample_tcp 0, Create 6 ipv6, Destroy 0, Destroy 1, Destroy 2] (no_sockets {#}) = Some e \<and>
     es_k e = {#5, 6#}"
proof -
  let ?hs = "[Create 5 ipv4, Move_new sample_tcp 0, Create 6 ipv6, Destroy 0, Destroy 1, Destroy 2]"
  note run = no_sockets_def tcp_new_def nstream_new_def nio_new_def set_io_nonblock_def noting_def descriptor_def nio_destroy_def
    nio_close_def tcp_moves buffer_default_def buffer_new_def nio.defs nstream.defs nsocktcp.defs sock_at_def owned_def
  obtain e where e: "handle_all noting ?hs (no_sockets {#}) = Some e" "es_socks e = [None, None, None]"
      "es_lost e = {#}" "es_again e = {#}" "es_opened e = {#5, 6#}"
    by (simp add: run Let_def)
  with descriptors_accounted [OF noting_kernel _ e(1)] show ?thesis by auto
qed

text \<open>Assigning over a socket loses its descriptor; so does a constructor that throws.\<close>

theorem assign_loses_descriptor:
  "\<exists>e. handle_all noting [Create 5 ipv4, Create 6 ipv4, Create 13 ipv4, Assign 0 1, Destroy 0, Destroy 1] (no_sockets {#}) = Some e \<and>
     es_k e = {#6#} \<and> es_lost e = {#5, 13#} \<and> set (es_socks e) = {None}"
  by (simp add: no_sockets_def tcp_new_def nstream_new_def nio_new_def set_io_nonblock_def noting_def descriptor_def nio_destroy_def
    nio_close_def tcp_moves buffer_default_def buffer_new_def nio.defs nstream.defs nsocktcp.defs sock_at_def owned_def Let_def)

end
