(* ===== verification/Loop_Examples.thy ===== *)
theory Loop_Examples
  imports Reactor
begin

text \<open>
  The programs of \<open>src/examples/nio_evlp\<close>: a server and a client over stream sockets and over datagram
  sockets, written against the event loop alone. Their output is what they log, an entry per
  whole message (operands of \<open><<\<close> are evaluated from left to right, as C++17 says).
\<close>

section \<open>Programs over one event loop\<close>

text \<open>Beside the kernel a program has a heap, of which only the next free address matters, and its log.\<close>

datatype entry =
    Tcp_readable int int string endpoint endpoint
  | Udp_readable int int string endpoint
  | Connect_failed int

record 'k shell =
  ex_k :: 'k
  ex_next :: nat
  ex_log :: "entry list"

type_synonym ('h, 'k, 'm) app = "('h, 'k shell, 'm) world"

type_synonym ('h, 'k, 'm, 'a) prog = "('h, 'k, 'm) app \<Rightarrow> ('h, 'k, 'm) app \<times> 'a res"

definition next_do :: "('h, 'k, 'm, 'a) prog \<Rightarrow> ('a \<Rightarrow> ('h, 'k, 'm, 'b) prog) \<Rightarrow> ('h, 'k, 'm, 'b) prog" where
  "next_do m f w = (case m w of (w, Inl e) \<Rightarrow> (w, Inl e) | (w, Inr x) \<Rightarrow> f x w)"

definition done_with :: "'a \<Rightarrow> ('h, 'k, 'm, 'a) prog" where "done_with x w = (w, Inr x)"

definition fails :: "fault \<Rightarrow> ('h, 'k, 'm, 'a) prog" where "fails e w = (w, Inl e)"

text \<open>A call of the kernel, and an operation on the object at an address.\<close>

definition sys_call :: "('k \<Rightarrow> 'k \<times> 'a res) \<Rightarrow> ('h, 'k, 'm, 'a) prog" where
  "sys_call f w = (case f (ex_k (w_k w)) of (k, r) \<Rightarrow> (w\<lparr>w_k := (w_k w)\<lparr>ex_k := k\<rparr>\<rparr>, r))"

definition obj_call ::
  "nat \<Rightarrow> ('k \<Rightarrow> 'm nio_scheme \<Rightarrow> ('k \<times> 'm nio_scheme \<times> 'a res) option) \<Rightarrow> ('h, 'k, 'm, 'a) prog"
where
  "obj_call n f w =
     (case f (ex_k (w_k w)) (w_nios w n) of
        None \<Rightarrow> (w, Inl Diverges)
      | Some (k, s, r) \<Rightarrow> (w\<lparr>w_k := (w_k w)\<lparr>ex_k := k\<rparr>, w_nios := (w_nios w)(n := s)\<rparr>, r))"

definition fresh_address :: "('h, 'k, 'm, nat) prog" where
  "fresh_address w = (w\<lparr>w_k := (w_k w)\<lparr>ex_next := ex_next (w_k w) + 1\<rparr>\<rparr>, Inr (ex_next (w_k w)))"

definition store :: "'m nio_scheme \<Rightarrow> ('h, 'k, 'm, nat) prog" where
  "store s = next_do fresh_address (\<lambda>n w. (w\<lparr>w_nios := (w_nios w)(n := s)\<rparr>, Inr n))"

definition log_entry :: "entry \<Rightarrow> ('h, 'k, 'm, unit) prog" where
  "log_entry x w = (w\<lparr>w_k := (w_k w)\<lparr>ex_log := ex_log (w_k w) @ [x]\<rparr>\<rparr>, Inr ())"

text \<open>Epoll under such a program.\<close>

definition back_in :: "'k shell \<Rightarrow> 'a \<times> 'k \<Rightarrow> 'a \<times> 'k shell" where
  "back_in x y = (fst y, x\<lparr>ex_k := snd y\<rparr>)"

definition shell_ep :: "'k epoll_api \<Rightarrow> 'k shell epoll_api" where
  "shell_ep ep =
     \<lparr>ep_in = ep_in ep, ep_out = ep_out ep, ep_create = (\<lambda>x n. back_in x (ep_create ep (ex_k x) n)),
      ep_add = (\<lambda>x efd fd m. back_in x (ep_add ep (ex_k x) efd fd m)),
      ep_del = (\<lambda>x efd fd. back_in x (ep_del ep (ex_k x) efd fd)),
      ep_wait = (\<lambda>x efd n t. back_in x (ep_wait ep (ex_k x) efd n t))\<rparr>"

text \<open>\<open>fd_register\<close> with its default arguments for activation and priority, and \<open>iop->evlp()\<close>.\<close>

definition app_register :: "'k os \<Rightarrow> nat \<Rightarrow> fd_event \<Rightarrow> 'h \<Rightarrow> ('h, 'k, 'm, unit) prog" where
  "app_register os n ev cb = next_do fresh_address (\<lambda>a. fd_register (shell_ep (os_ep os)) a n ev (Some cb) True p0)"

definition app_evlp :: "nat \<Rightarrow> ('h, 'k, 'm, unit) prog" where
  "app_evlp n w = (w, if io_evlp (w_nios w n) = None then Inl (Undefined Null_deref) else Inr ())"

text \<open>The string in the read buffer, taken out of it.\<close>

definition take_string :: "'k \<Rightarrow> 'm nio_scheme \<Rightarrow> ('k \<times> 'm nio_scheme \<times> string res) option" where
  "take_string k s =
     (case get_string (io_rbuf s) (-1) True of
        Inl e \<Rightarrow> Some (k, s, Inl e)
      | Inr (str, b) \<Rightarrow> Some (k, s\<lparr>io_rbuf := b\<rparr>, Inr str))"

section \<open>Constants\<close>

definition tcp_ipv4_port :: int where "tcp_ipv4_port = 18004"

definition tcp_ipv6_port :: int where "tcp_ipv6_port = 18006"

definition tcp_unix_path :: string where "tcp_unix_path = ''/tmp/test_cppev_tcp_unix_6C0224787A17.sock''"

definition udp_ipv4_port :: int where "udp_ipv4_port = 19004"

definition udp_ipv6_port :: int where "udp_ipv6_port = 19006"

definition udp_unix_path :: string where "udp_unix_path = ''/tmp/test_cppev_udp_unix_6C0224787A17.sock''"

text \<open>The literal has a NUL in it and one at its end; the length leaves out the last.\<close>

definition msg :: "char list" where "msg = ''Cppev'' @ [NUL] @ ''Nice'' @ [NUL]"

definition msg_len :: int where "msg_len = 10"

section \<open>Streams\<close>

datatype tcp_callback = Listening | Accepted | Connecting

type_synonym 'k tcp_app = "(tcp_callback, 'k, (unit nsocktcp_ext) nstream_ext) app"

type_synonym ('k, 'a) tcp_prog = "'k tcp_app \<Rightarrow> 'k tcp_app \<times> 'a res"

text \<open>Calls on a socket that do not change the object.\<close>

definition tcp_call :: "nat \<Rightarrow> ('k \<Rightarrow> nsocktcp \<Rightarrow> 'k \<times> 'a res) \<Rightarrow> ('k, 'a) tcp_prog" where
  "tcp_call n f = obj_call n (\<lambda>k s. case f k s of (k, r) \<Rightarrow> Some (k, s, r))"

definition accepted_socket_callback :: "'k os \<Rightarrow> nat \<Rightarrow> ('k, unit) tcp_prog" where
  "accepted_socket_callback os n =
     next_do (obj_call n (\<lambda>k s. read_all (os_sys os) k s (os_step os))) (\<lambda>_.
     next_do (tcp_call n (tcp_sockname (os_sys os))) (\<lambda>sock.
     next_do (tcp_call n (tcp_peername (os_sys os))) (\<lambda>peer.
     next_do (tcp_call n (\<lambda>k s. (k, Inr (buf_size (io_rbuf s))))) (\<lambda>size.
     next_do (obj_call n take_string) (\<lambda>str.
     next_do (\<lambda>w. log_entry (Tcp_readable (fd_of w n) size str sock peer) w) (\<lambda>_.
     next_do (app_evlp n) (\<lambda>_.
     fd_remove (shell_ep (os_ep os)) n True True)))))))"

definition listening_socket_callback :: "'k os \<Rightarrow> nat \<Rightarrow> ('k, unit) tcp_prog" where
  "listening_socket_callback os n =
     next_do (tcp_call n (\<lambda>k s. tcp_accept (os_sys os) k s 1)) (\<lambda>conns.
     case conns of
       [] \<Rightarrow> fails (Undefined Out_of_bounds)
     | s # _ \<Rightarrow>
         next_do (store s) (\<lambda>m.
         next_do (app_evlp n) (\<lambda>_.
         app_register os m fd_readable Accepted)))"

definition connecting_socket_callback :: "'k os \<Rightarrow> nat \<Rightarrow> ('k, unit) tcp_prog" where
  "connecting_socket_callback os n =
     next_do (tcp_call n (check_connect (os_sys os))) (\<lambda>ok.
     if \<not> ok then (\<lambda>w. log_entry (Connect_failed (fd_of w n)) w)
     else next_do (obj_call n (\<lambda>k s. case produce (io_wbuf s) msg msg_len of
                     Inl e \<Rightarrow> Some (k, s, Inl e)
                   | Inr b \<Rightarrow> Some (k, s\<lparr>io_wbuf := b\<rparr>, Inr ()))) (\<lambda>_.
          next_do (obj_call n (\<lambda>k s. write_all (os_sys os) k s (os_step os))) (\<lambda>_.
          done_with ())))"

fun run_tcp :: "'k os \<Rightarrow> tcp_callback \<Rightarrow> nat \<Rightarrow> ('k, unit) tcp_prog" where
  "run_tcp os Listening n = listening_socket_callback os n"
| "run_tcp os Accepted n = accepted_socket_callback os n"
| "run_tcp os Connecting n = connecting_socket_callback os n"

definition new_tcp :: "'k os \<Rightarrow> family \<Rightarrow> ('k, nat) tcp_prog" where
  "new_tcp os f = next_do (sys_call (\<lambda>k. get_nsocktcp (os_sys os) k f)) store"

definition bind_tcp :: "'k os \<Rightarrow> nat \<Rightarrow> int \<Rightarrow> ('k, unit) tcp_prog" where
  "bind_tcp os n port = tcp_call n (\<lambda>k s. nsock_bind (os_sys os) k (io_fd s) (tcp_sock s) None port)"

definition bind_tcp_unix :: "'k os \<Rightarrow> nat \<Rightarrow> string \<Rightarrow> bool \<Rightarrow> ('k, unit) tcp_prog" where
  "bind_tcp_unix os n path rem = obj_call n (\<lambda>k s.
     case nsock_bind_unix (os_sys os) k (io_fd s) (tcp_sock s) path rem of
       (k, p, r) \<Rightarrow> Some (k, s\<lparr>tcp_sock := p\<rparr>, r))"

definition listen_tcp :: "'k os \<Rightarrow> nat \<Rightarrow> ('k, unit) tcp_prog" where
  "listen_tcp os n = tcp_call n (\<lambda>k s. tcp_listen (os_sys os) k s (os_backlog os))"

definition start_tcp_server :: "'k os \<Rightarrow> ('k, unit) tcp_prog" where
  "start_tcp_server os =
     next_do (new_tcp os ipv4) (\<lambda>tcp_ipv4.
     next_do (new_tcp os ipv6) (\<lambda>tcp_ipv6.
     next_do (new_tcp os local_family) (\<lambda>tcp_unix.
     next_do (bind_tcp os tcp_ipv4 tcp_ipv4_port) (\<lambda>_.
     next_do (bind_tcp os tcp_ipv6 tcp_ipv6_port) (\<lambda>_.
     next_do (bind_tcp_unix os tcp_unix tcp_unix_path True) (\<lambda>_.
     next_do (listen_tcp os tcp_ipv4) (\<lambda>_.
     next_do (listen_tcp os tcp_ipv6) (\<lambda>_.
     next_do (listen_tcp os tcp_unix) (\<lambda>_.
     next_do (app_register os tcp_ipv4 fd_readable Listening) (\<lambda>_.
     next_do (app_register os tcp_ipv6 fd_readable Listening) (\<lambda>_.
     app_register os tcp_unix fd_readable Listening)))))))))))"

definition tcp_server_loop :: "'k os \<Rightarrow> 'k tcp_app \<Rightarrow> ('k tcp_app \<times> unit res) option" where
  "tcp_server_loop os w =
     (case start_tcp_server os w of
        (w, Inl e) \<Rightarrow> Some (w, Inl e)
      | (w, Inr _) \<Rightarrow> loop_forever (shell_ep (os_ep os)) (os_events os) (run_tcp os) (-1) w)"

text \<open>The client; \<open>nap\<close> is \<open>sleep_for\<close>, in milliseconds. What \<open>connect\<close> returns is not looked at.\<close>

definition connect_tcp :: "'k os \<Rightarrow> nat \<Rightarrow> string \<Rightarrow> int \<Rightarrow> ('k, bool) tcp_prog" where
  "connect_tcp os n ip port = obj_call n (\<lambda>k s. case tcp_connect (os_sys os) k s ip port of (k, s, r) \<Rightarrow> Some (k, s, r))"

definition connect_tcp_unix :: "'k os \<Rightarrow> nat \<Rightarrow> string \<Rightarrow> ('k, bool) tcp_prog" where
  "connect_tcp_unix os n path = obj_call n (\<lambda>k s. case tcp_connect_unix (os_sys os) k s path of (k, s, r) \<Rightarrow> Some (k, s, r))"

definition connect_to_servers :: "'k os \<Rightarrow> (int \<Rightarrow> 'k \<Rightarrow> 'k) \<Rightarrow> ('k, unit) tcp_prog" where
  "connect_to_servers os nap =
     next_do (new_tcp os ipv4) (\<lambda>tcp_ipv4.
     next_do (new_tcp os ipv6) (\<lambda>tcp_ipv6.
     next_do (new_tcp os local_family) (\<lambda>tcp_unix.
     next_do (new_tcp os ipv4) (\<lambda>tcp_ipv4_to_ipv6.
     next_do (connect_tcp os tcp_ipv4 ''127.0.0.1'' tcp_ipv4_port) (\<lambda>_.
     next_do (connect_tcp os tcp_ipv6 ''::1'' tcp_ipv6_port) (\<lambda>_.
     next_do (connect_tcp_unix os tcp_unix tcp_unix_path) (\<lambda>_.
     next_do (app_register os tcp_ipv4 fd_writable Connecting) (\<lambda>_.
     next_do (app_register os tcp_ipv6 fd_writable Connecting) (\<lambda>_.
     next_do (app_register os tcp_unix fd_writable Connecting) (\<lambda>_.
     sys_call (\<lambda>k. (nap 100 k, Inr ()))))))))))))"

definition tcp_client_round :: "'k os \<Rightarrow> (int \<Rightarrow> 'k \<Rightarrow> 'k) \<Rightarrow> 'k tcp_app \<Rightarrow> ('k tcp_app \<times> unit res) option" where
  "tcp_client_round os nap w =
     (case connect_to_servers os nap w of
        (w, Inl e) \<Rightarrow> Some (w, Inl e)
      | (w, Inr _) \<Rightarrow> loop_once (shell_ep (os_ep os)) (os_events os) (run_tcp os) (-1) w)"

section \<open>Datagrams\<close>

datatype udp_callback = Binding

type_synonym 'k udp_app = "(udp_callback, 'k, unit nsockudp_ext) app"

type_synonym ('k, 'a) udp_prog = "'k udp_app \<Rightarrow> 'k udp_app \<times> 'a res"

definition udp_call :: "nat \<Rightarrow> ('k \<Rightarrow> nsockudp \<Rightarrow> 'k \<times> nsockudp \<times> 'a res) \<Rightarrow> ('k, 'a) udp_prog" where
  "udp_call n f = obj_call n (\<lambda>k s. Some (f k s))"

definition binding_socket_callback :: "'k os \<Rightarrow> nat \<Rightarrow> ('k, unit) udp_prog" where
  "binding_socket_callback os n =
     next_do (udp_call n (udp_recv (os_sys os))) (\<lambda>cli.
     next_do (udp_call n (\<lambda>k s. (k, s, Inr (buf_size (io_rbuf s))))) (\<lambda>size.
     next_do (obj_call n take_string) (\<lambda>str w.
     log_entry (Udp_readable (fd_of w n) size str cli) w)))"

fun run_udp :: "'k os \<Rightarrow> udp_callback \<Rightarrow> nat \<Rightarrow> ('k, unit) udp_prog" where
  "run_udp os Binding n = binding_socket_callback os n"

text \<open>\<open>room\<close> is \<open>sysconfig::udp_buffer_size\<close>.\<close>

definition new_udp :: "'k os \<Rightarrow> int \<Rightarrow> family \<Rightarrow> ('k, nat) udp_prog" where
  "new_udp os room f = next_do (sys_call (\<lambda>k. get_nsockudp (os_sys os) room k f)) store"

definition bind_udp :: "'k os \<Rightarrow> nat \<Rightarrow> int \<Rightarrow> ('k, unit) udp_prog" where
  "bind_udp os n port = udp_call n (\<lambda>k s. case nsock_bind (os_sys os) k (io_fd s) (udp_sock s) None port of (k, r) \<Rightarrow> (k, s, r))"

definition bind_udp_unix :: "'k os \<Rightarrow> nat \<Rightarrow> string \<Rightarrow> bool \<Rightarrow> ('k, unit) udp_prog" where
  "bind_udp_unix os n path rem = udp_call n (\<lambda>k s.
     case nsock_bind_unix (os_sys os) k (io_fd s) (udp_sock s) path rem of (k, p, r) \<Rightarrow> (k, s\<lparr>udp_sock := p\<rparr>, r))"

definition start_udp_server :: "'k os \<Rightarrow> int \<Rightarrow> ('k, unit) udp_prog" where
  "start_udp_server os room =
     next_do (new_udp os room ipv4) (\<lambda>udp_ipv4.
     next_do (new_udp os room ipv6) (\<lambda>udp_ipv6.
     next_do (new_udp os room local_family) (\<lambda>udp_unix.
     next_do (bind_udp os udp_ipv4 udp_ipv4_port) (\<lambda>_.
     next_do (bind_udp os udp_ipv6 udp_ipv6_port) (\<lambda>_.
     next_do (bind_udp_unix os udp_unix udp_unix_path True) (\<lambda>_.
     next_do (app_register os udp_ipv4 fd_readable Binding) (\<lambda>_.
     next_do (app_register os udp_ipv6 fd_readable Binding) (\<lambda>_.
     app_register os udp_unix fd_readable Binding))))))))"

definition udp_server_loop :: "'k os \<Rightarrow> int \<Rightarrow> 'k udp_app \<Rightarrow> ('k udp_app \<times> unit res) option" where
  "udp_server_loop os room w =
     (case start_udp_server os room w of
        (w, Inl e) \<Rightarrow> Some (w, Inl e)
      | (w, Inr _) \<Rightarrow> loop_forever (shell_ep (os_ep os)) (os_events os) (run_udp os) (-1) w)"

definition put_msg :: "nat \<Rightarrow> ('k, unit) udp_prog" where
  "put_msg n = udp_call n (\<lambda>k s. case produce (io_wbuf s) msg msg_len of
     Inl e \<Rightarrow> (k, s, Inl e) | Inr b \<Rightarrow> (k, s\<lparr>io_wbuf := b\<rparr>, Inr ()))"

definition send_to_servers :: "'k os \<Rightarrow> int \<Rightarrow> ('k, unit) udp_prog" where
  "send_to_servers os room =
     next_do (new_udp os room ipv4) (\<lambda>udp_ipv4.
     next_do (new_udp os room ipv6) (\<lambda>udp_ipv6.
     next_do (new_udp os room local_family) (\<lambda>udp_unix.
     next_do (put_msg udp_ipv4) (\<lambda>_.
     next_do (put_msg udp_ipv6) (\<lambda>_.
     next_do (put_msg udp_unix) (\<lambda>_.
     next_do (udp_call udp_ipv4 (\<lambda>k s. udp_send (os_sys os) k s (Some ''127.0.0.1'') udp_ipv4_port)) (\<lambda>_.
     next_do (udp_call udp_ipv6 (\<lambda>k s. udp_send (os_sys os) k s (Some ''::1'') udp_ipv6_port)) (\<lambda>_.
     udp_call udp_unix (\<lambda>k s. udp_send_unix (os_sys os) k s udp_unix_path)))))))))"

section \<open>The programs\<close>

text \<open>A program makes its loop first; what \<open>raw\<close> and \<open>code\<close> say of memory that is not in use does not matter.
  Its result is the kernel, the log and the exception that ended it, if any; the end of the
  process closes what is open.\<close>

definition run_app ::
  "'k os \<Rightarrow> (nat \<Rightarrow> 'm nio_scheme) \<Rightarrow> (nat \<Rightarrow> 'h) \<Rightarrow> (('h, 'k, 'm) app \<Rightarrow> (('h, 'k, 'm) app \<times> unit res) option) \<Rightarrow>
   'k \<Rightarrow> ('k \<times> entry list \<times> unit res) option"
where
  "run_app os raw code body k =
     (case event_loop_new (os_ep os) (os_events os) 0 k of
        (k, Inl e) \<Rightarrow> Some (k, [], Inl e)
      | (k, Inr l) \<Rightarrow>
          (case body \<lparr>w_loop = l, w_nios = raw, w_code = code, w_k = \<lparr>ex_k = k, ex_next = 0, ex_log = []\<rparr>\<rparr> of
             None \<Rightarrow> None
           | Some (w, r) \<Rightarrow> Some (ex_k (w_k w), ex_log (w_k w), r)))"

definition tcp_server_main where "tcp_server_main os raw code = run_app os raw code (tcp_server_loop os)"

definition tcp_client_main where "tcp_client_main os nap raw code = run_app os raw code (tcp_client_round os nap)"

definition udp_server_main where "udp_server_main os room raw code = run_app os raw code (udp_server_loop os room)"

definition udp_client_main where
  "udp_client_main os room raw code = run_app os raw code (\<lambda>w. Some (send_to_servers os room w))"

section \<open>Datagrams arrive\<close>

lemma next_do_simps [simp]:
  "m w = (w', Inr x) \<Longrightarrow> next_do m f w = f x w'" "m w = (w', Inl e) \<Longrightarrow> next_do m f w = (w', Inl e)"
  by (simp_all add: next_do_def)

lemma udp_call_at: "udp_call n f w = (case f (ex_k (w_k w)) (w_nios w n) of
    (k, s, r) \<Rightarrow> (w\<lparr>w_k := (w_k w)\<lparr>ex_k := k\<rparr>, w_nios := (w_nios w)(n := s)\<rparr>, r))"
  by (simp add: udp_call_def obj_call_def split: prod.split)

text \<open>Taking the whole string out clears the buffer and keeps its array.\<close>

lemma get_whole:
  assumes "buf_ok b"
  shows "\<exists>b'. get_string b (-1) True = Inr (contents b, b') \<and> buf_ok b' \<and> contents b' = [] \<and> b_cap b' = b_cap b \<and> b_offset b' = 0"
proof -
  obtain b' where b': "get_string b (-1) True = Inr (contents b, b')" "buf_ok b'" "contents b' = []"
    using get_string_ok [OF assms order_refl] by (auto simp: get_string_all [OF assms])
  moreover have "b_start b \<le> b_offset b" using assms by (simp add: buf_ok_def)
  ultimately have "b_cap b' = b_cap b \<and> b_offset b' = 0"
    by (auto simp: get_string_def consume_def clear_def buf_size_def rbind_eq_Inr chk32_Inr Let_def split: if_splits)
  with b' show ?thesis by blast
qed

text \<open>The datagrams that wait at a socket. A read takes the first, cut to the size asked for.\<close>

definition inbox_kernel :: "'k sock_api \<Rightarrow> int \<Rightarrow> ('k \<Rightarrow> (char list \<times> sockaddr) list) \<Rightarrow> bool" where
  "inbox_kernel sys fd inbox \<longleftrightarrow> (\<forall>k n bs a rest. inbox k = (bs, a) # rest \<longrightarrow>
     (\<exists>k'. px_recvfrom sys k fd n = (Inr (take (nat n) bs, a), k') \<and> inbox k' = rest))"

definition sender :: "'k sock_api \<Rightarrow> nsockudp \<Rightarrow> sockaddr \<Rightarrow> endpoint res" where
  "sender sys s a =
     (if so_family (udp_sock s) = local_family then Inr (fst (so_peer (udp_sock s)), -1, local_family)
      else query_ip_port_family sys a)"

text \<open>A socket between two callbacks, and a datagram it can take.\<close>

definition udp_idle :: "nsockudp \<Rightarrow> bool" where
  "udp_idle s \<longleftrightarrow> buf_ok (io_rbuf s) \<and> b_offset (io_rbuf s) = 0"

definition acceptable :: "'k sock_api \<Rightarrow> nsockudp \<Rightarrow> char list \<times> sockaddr \<Rightarrow> bool" where
  "acceptable sys s d \<longleftrightarrow> (case d of (bs, a) \<Rightarrow>
     bs \<noteq> [] \<and> int (length bs) \<le> b_cap (io_rbuf s) \<and> (\<exists>ep. sender sys s a = Inr ep))"

definition logged :: "'k sock_api \<Rightarrow> nsockudp \<Rightarrow> char list \<times> sockaddr \<Rightarrow> entry" where
  "logged sys s d = (case d of (bs, a) \<Rightarrow> Udp_readable (io_fd s) (int (length bs)) bs (projr (sender sys s a)))"

lemma binding_ok:
  assumes s: "w_nios w n = s" "udp_idle s" "inbox_kernel (os_sys os) (io_fd s) inbox"
    and d: "inbox (ex_k (w_k w)) = d # rest" "acceptable (os_sys os) s d"
  shows "\<exists>b k. binding_socket_callback os n w =
       (w\<lparr>w_k := (w_k w)\<lparr>ex_k := k, ex_log := ex_log (w_k w) @ [logged (os_sys os) s d]\<rparr>,
          w_nios := (w_nios w)(n := s\<lparr>io_rbuf := b\<rparr>)\<rparr>, Inr ()) \<and>
     inbox k = rest \<and> udp_idle (s\<lparr>io_rbuf := b\<rparr>) \<and> b_cap b = b_cap (io_rbuf s)"
proof -
  obtain bs a where bs: "d = (bs, a)" by fastforce
  let ?b = "io_rbuf s"
  have b: "buf_ok ?b" "b_offset ?b = 0" "contents ?b = []" and len: "bs \<noteq> []" "int (length bs) \<le> b_cap ?b"
    using s(2) d(2) bs by (auto simp: udp_idle_def acceptable_def contents_def buf_ok_def split: option.splits)
  obtain cli where sd: "sender (os_sys os) s a = Inr cli" using d(2) bs by (auto simp: acceptable_def)
  obtain k where k: "px_recvfrom (os_sys os) (ex_k (w_k w)) (io_fd s) (b_cap ?b) = (Inr (take (nat (b_cap ?b)) bs, a), k)" "inbox k = rest"
    using s(3) d(1) bs unfolding inbox_kernel_def by blast
  have "nat (b_cap ?b) \<ge> length bs" using len by simp
  then have r: "px_recvfrom (os_sys os) (ex_k (w_k w)) (io_fd s) (b_cap ?b - b_offset ?b) = (Inr (bs, a), k)"
    using k b(2) by simp
  let ?b1 = "\<lambda>m. ?b\<lparr>b_mem := Some m, b_offset := b_offset ?b + int (length bs)\<rparr>"
  obtain m where m: "rbind (the_mem ?b) (\<lambda>m. blit_at m (b_offset ?b) bs) = Inr m" "buf_ok (?b1 m)" "contents (?b1 m) = bs"
    using blit_ok [OF b(1), of bs] b(2,3) len by auto
  have recv: "udp_recv (os_sys os) (ex_k (w_k w)) s = (k, s\<lparr>io_rbuf := ?b1 m\<rparr>, Inr cli)"
    using r len(1) m(1) sd by (simp add: udp_recv_def sender_def Let_def split: if_splits)
  obtain b2 where b2: "get_string (?b1 m) (-1) True = Inr (bs, b2)" "buf_ok b2" "b_cap b2 = b_cap ?b" "b_offset b2 = 0"
    using get_whole [OF m(2)] m(3) by auto
  have "binding_socket_callback os n w =
       (w\<lparr>w_k := (w_k w)\<lparr>ex_k := k, ex_log := ex_log (w_k w) @ [logged (os_sys os) s d]\<rparr>,
          w_nios := (w_nios w)(n := s\<lparr>io_rbuf := b2\<rparr>)\<rparr>, Inr ())"
    using s(1) recv b2(1) buf_ok_size [OF m(2)] m(3) sd bs
    by (simp add: binding_socket_callback_def next_do_def udp_call_at obj_call_def take_string_def log_entry_def logged_def)
  with k(2) b2 show ?thesis by (fastforce simp: udp_idle_def)
qed

section \<open>A round\<close>

text \<open>Descriptor \<open>fd\<close> is in the table once, for reading, with object \<open>n\<close> and the callback at \<open>a\<close>. A round in
  which epoll reports it and nothing else calls that callback.\<close>

definition only_reader :: "int \<Rightarrow> nat \<Rightarrow> nat \<Rightarrow> ('h, 'k, 'm) world \<Rightarrow> bool" where
  "only_reader fd n a w \<longleftrightarrow> el_cbs (w_loop w) = [] \<and>
     (\<exists>p. filter (\<lambda>(fd', r). fd' = fd) (el_fds (w_loop w)) = [(fd, p, n, a, fd_readable)])"

lemma due_filter: "due_of ep fds (fd, e) = due_of ep (filter (\<lambda>(fd', r). fd' = fd) fds) (fd, e)"
  by (induction fds) (auto simp: due_of_def)

lemma round_calls:
  assumes r: "only_reader fd n a w" and masks: "masks_ok (os_ep os)"
    and k: "ep_wait (os_ep os) (ex_k (w_k w)) (el_fd (w_loop w)) (os_events os) (-1) = (Inr [(fd, ep_in (os_ep os))], k1)"
    and run: "run (w_code w a) n (w\<lparr>w_k := (w_k w)\<lparr>ex_k := k1\<rparr>\<rparr>) = (w', r)"
  shows "r = Inr () \<Longrightarrow> el_cbs (w_loop w') = [] \<Longrightarrow>
       loop_once (shell_ep (os_ep os)) (os_events os) run (-1) w = Some (w', Inr ())"
    and "r = Inl e \<Longrightarrow> loop_once (shell_ep (os_ep os)) (os_events os) run (-1) w = Some (w', Inl e)"
proof -
  let ?w = "w\<lparr>w_k := (w_k w)\<lparr>ex_k := k1\<rparr>\<rparr>"
  obtain p where reg: "filter (\<lambda>(fd', r). fd' = fd) (el_fds (w_loop w)) = [(fd, p, n, a, fd_readable)]" and cbs: "el_cbs (w_loop w) = []"
    using r by (auto simp: only_reader_def)
  have "and fd_readable (fd_map_to_event (shell_ep (os_ep os)) (ep_in (os_ep os))) \<noteq> 0"
    using masks by (auto simp: fd_map_to_event_def shell_ep_def fd_readable_def fd_writable_def masks_ok_def Let_def)
  then have "due_of (shell_ep (os_ep os)) (el_fds (w_loop w)) (fd, ep_in (os_ep os)) = [(p, n, a)]"
    by (subst due_filter, subst reg) (simp add: due_of_def)
  then have enq: "enqueue (shell_ep (os_ep os)) [(fd, ep_in (os_ep os))] ?w = set_cbs [(p, n, a)] ?w"
    by (simp add: enqueue_def cbs)
  have "set_cbs [] ?w = ?w" using cbs by simp
  then have "drain run (set_cbs [(p, n, a)] ?w) = (case r of Inl e \<Rightarrow> Some (w', Inl e) | Inr _ \<Rightarrow> drain run w')"
    using run by (subst drain.simps) simp
  then have once: "loop_once (shell_ep (os_ep os)) (os_events os) run (-1) w = (case r of Inl e \<Rightarrow> Some (w', Inl e) | Inr _ \<Rightarrow> drain run w')"
    using k enq by (simp add: loop_once_def shell_ep_def back_in_def)
  show "r = Inr () \<Longrightarrow> el_cbs (w_loop w') = [] \<Longrightarrow>
       loop_once (shell_ep (os_ep os)) (os_events os) run (-1) w = Some (w', Inr ())"
    unfolding once by (subst drain.simps) simp
  show "r = Inl e \<Longrightarrow> loop_once (shell_ep (os_ep os)) (os_events os) run (-1) w = Some (w', Inl e)"
    by (simp add: once)
qed

lemma loop_ends:
  assumes "loop_once ep n run (-1) w = Some (w', Inl e)" and "\<not> el_stop (w_loop w)"
  shows "loop_forever ep n run (-1) w = Some (w', Inl e)"
  using assms by (subst loop_forever.simps) simp

text \<open>Rounds of the datagram server's loop.\<close>

fun udp_rounds :: "'k os \<Rightarrow> nat \<Rightarrow> 'k udp_app \<Rightarrow> ('k udp_app \<times> unit res) option" where
  "udp_rounds os 0 w = Some (w, Inr ())"
| "udp_rounds os (Suc m) w =
     (case loop_once (shell_ep (os_ep os)) (os_events os) (run_udp os) (-1) w of
        Some (w, Inr _) \<Rightarrow> udp_rounds os m w
      | y \<Rightarrow> y)"

text \<open>Epoll reports the socket as long as datagrams wait.\<close>

definition reports_inbox :: "'k epoll_api \<Rightarrow> int \<Rightarrow> int \<Rightarrow> ('k \<Rightarrow> (char list \<times> sockaddr) list) \<Rightarrow> bool" where
  "reports_inbox ep efd fd inbox \<longleftrightarrow>
     (\<forall>k m t. inbox k \<noteq> [] \<longrightarrow> (\<exists>k'. ep_wait ep k efd m t = (Inr [(fd, ep_in ep)], k') \<and> inbox k' = inbox k))"

definition udp_serving :: "nat \<Rightarrow> nsockudp \<Rightarrow> 'k udp_app \<Rightarrow> bool" where
  "udp_serving n s w \<longleftrightarrow> (\<exists>a. only_reader (io_fd s) n a w) \<and> udp_idle (w_nios w n) \<and>
     io_fd (w_nios w n) = io_fd s \<and> udp_sock (w_nios w n) = udp_sock s \<and> b_cap (io_rbuf (w_nios w n)) = b_cap (io_rbuf s)"

lemma same_socket:
  assumes "io_fd t = io_fd s" "udp_sock t = udp_sock s" "b_cap (io_rbuf t) = b_cap (io_rbuf s)"
  shows "acceptable sys t d = acceptable sys s d" "logged sys t d = logged sys s d"
  using assms by (simp_all add: acceptable_def logged_def sender_def split: prod.split)

lemma udp_round:
  assumes w: "udp_serving n s w" and masks: "masks_ok (os_ep os)"
    and k: "inbox_kernel (os_sys os) (io_fd s) inbox" "reports_inbox (os_ep os) (el_fd (w_loop w)) (io_fd s) inbox"
    and d: "inbox (ex_k (w_k w)) = d # rest" "acceptable (os_sys os) s d"
  shows "\<exists>w'. loop_once (shell_ep (os_ep os)) (os_events os) (run_udp os) (-1) w = Some (w', Inr ()) \<and>
     udp_serving n s w' \<and> inbox (ex_k (w_k w')) = rest \<and> el_fd (w_loop w') = el_fd (w_loop w) \<and>
     ex_log (w_k w') = ex_log (w_k w) @ [logged (os_sys os) s d]"
proof -
  obtain k1 where k1: "ep_wait (os_ep os) (ex_k (w_k w)) (el_fd (w_loop w)) (os_events os) (-1) = (Inr [(io_fd s, ep_in (os_ep os))], k1)"
      "inbox k1 = d # rest"
    using k(2) d(1) unfolding reports_inbox_def by (metis list.distinct(1))
  let ?v = "w\<lparr>w_k := (w_k w)\<lparr>ex_k := k1\<rparr>\<rparr>"
  obtain a where r: "only_reader (io_fd s) n a w" using w by (auto simp: udp_serving_def)
  have t: "udp_idle (w_nios w n)" "io_fd (w_nios w n) = io_fd s" "udp_sock (w_nios w n) = udp_sock s"
      "b_cap (io_rbuf (w_nios w n)) = b_cap (io_rbuf s)"
    using w by (simp_all add: udp_serving_def)
  note same = same_socket [OF t(2-4), of "os_sys os" d]
  obtain b k2 where run: "binding_socket_callback os n ?v =
       (?v\<lparr>w_k := (w_k ?v)\<lparr>ex_k := k2, ex_log := ex_log (w_k ?v) @ [logged (os_sys os) s d]\<rparr>,
          w_nios := (w_nios ?v)(n := (w_nios w n)\<lparr>io_rbuf := b\<rparr>)\<rparr>, Inr ())" (is "_ = (?w', _)")
      "inbox k2 = rest" "udp_idle ((w_nios w n)\<lparr>io_rbuf := b\<rparr>)" "b_cap b = b_cap (io_rbuf s)"
    using binding_ok [of ?v n "w_nios w n" os inbox d rest] t k(1) k1(2) d(2) same by auto
  have "run_udp os (w_code w a) n ?v = (?w', Inr ())"
    using run(1) by (cases "w_code w a") simp
  from round_calls(1) [where run = "run_udp os", OF r masks k1(1) this] r
  have "loop_once (shell_ep (os_ep os)) (os_events os) (run_udp os) (-1) w = Some (?w', Inr ())"
    by (simp add: only_reader_def)
  moreover have "udp_serving n s ?w'"
    using run(3,4) r t by (auto simp: udp_serving_def only_reader_def)
  ultimately show ?thesis using run(2) by (intro exI [of _ ?w']) simp
qed

section \<open>Datagrams leave\<close>

text \<open>A kernel that makes sockets and takes every datagram, which \<open>outbox\<close> notes with its address.\<close>

definition outbox_kernel :: "'k sock_api \<Rightarrow> ('k \<Rightarrow> (char list \<times> sockaddr) list) \<Rightarrow> bool" where
  "outbox_kernel sys outbox \<longleftrightarrow>
     (\<forall>k f t. \<exists>fd k'. px_socket sys k f t = (Inr fd, k') \<and> outbox k' = outbox k) \<and>
     (\<forall>k fd. \<exists>v k'. px_getfl sys k fd = (Inr v, k') \<and> outbox k' = outbox k) \<and>
     (\<forall>k fd v. \<exists>k'. px_setfl sys k fd v = (None, k') \<and> outbox k' = outbox k) \<and>
     (\<forall>k fd bs a. \<exists>k'. px_sendto sys k fd bs a = (Inr (int (length bs)), k') \<and> outbox k' = outbox k @ [(bs, a)])"

definition hello :: string where "hello = ''Cppev'' @ [NUL] @ ''Nice''"

text \<open>The client's socket with \<open>bs\<close> to send.\<close>

definition holding :: "family \<Rightarrow> char list \<Rightarrow> nsockudp \<Rightarrow> bool" where
  "holding f bs s \<longleftrightarrow> buf_ok (io_wbuf s) \<and> contents (io_wbuf s) = bs \<and> b_offset (io_wbuf s) = int (length bs) \<and> so_family (udp_sock s) = f"

lemma udp_new_ok:
  assumes "outbox_kernel sys outbox"
  shows "\<exists>k' s. udp_new sys k fd f = (k', Inr s) \<and> outbox k' = outbox k \<and> holding f [] s \<and> buf_ok (io_rbuf s)"
proof -
  obtain v k1 k2 where k: "px_getfl sys k fd = (Inr v, k1)" "px_setfl sys k1 fd (or v (px_nonblock sys)) = (None, k2)"
      "outbox k2 = outbox k"
    using assms unfolding outbox_kernel_def by metis
  obtain b where b: "buffer_default = Inr b"
    by (auto simp: buffer_default_def buffer_new_def)
  show ?thesis
    using default_ok [OF b] k by (simp add: b udp_new_def nio_new_def set_io_nonblock_def holding_def nio.defs)
qed

lemma new_udp_ok:
  assumes k: "outbox_kernel (os_sys os) outbox" and room: "room \<le> 1073741824"
  shows "\<exists>w'. new_udp os room f w = (w', Inr (ex_next (w_k w))) \<and> ex_next (w_k w') = ex_next (w_k w) + 1 \<and>
     outbox (ex_k (w_k w')) = outbox (ex_k (w_k w)) \<and> holding f [] (w_nios w' (ex_next (w_k w))) \<and>
     (\<forall>m. m \<noteq> ex_next (w_k w) \<longrightarrow> w_nios w' m = w_nios w m)"
proof -
  obtain fd k1 where k1: "px_socket (os_sys os) (ex_k (w_k w)) f SOCK_DGRAM = (Inr fd, k1)" "outbox k1 = outbox (ex_k (w_k w))"
    using k unfolding outbox_kernel_def by metis
  obtain k2 s where s: "udp_new (os_sys os) k1 fd f = (k2, Inr s)" "outbox k2 = outbox k1" "holding f [] s" "buf_ok (io_rbuf s)"
    using udp_new_ok [OF k] by blast
  obtain r where r: "resize (io_rbuf s) room = Inr r" using resize_ok [OF s(4) room] by blast
  obtain b where b: "resize (io_wbuf s) room = Inr b" "buf_ok b" "contents b = []" "b_offset b = 0"
    using resize_ok [OF _ room, of "io_wbuf s"] s(3) by (auto simp: holding_def)
  have "get_nsockudp (os_sys os) room (ex_k (w_k w)) f = (k2, Inr (s\<lparr>io_rbuf := r, io_wbuf := b\<rparr>))"
    using k1(1) s(1) r b(1) by (simp add: get_nsockudp_def)
  then show ?thesis
    using k1(2) s(2,3) b by (simp add: new_udp_def next_do_def sys_call_def store_def fresh_address_def holding_def)
qed

lemma put_msg_ok:
  assumes "holding f [] (w_nios w n)"
  shows "\<exists>w'. put_msg n w = (w', Inr ()) \<and> w_k w' = w_k w \<and> holding f hello (w_nios w' n) \<and>
     (\<forall>m. m \<noteq> n \<longrightarrow> w_nios w' m = w_nios w m)"
proof -
  let ?b = "io_wbuf (w_nios w n)"
  have ok: "buf_ok ?b" "contents ?b = []" "b_offset ?b = 0" using assms by (simp_all add: holding_def)
  have m: "msg = hello @ [NUL]" "msg_len = to_int (int (length hello))"
    by (simp_all add: msg_def hello_def msg_len_def to_int_id int_limits)
  obtain b where "put_string ?b hello = Inr b" "buf_ok b" "contents b = hello" "b_offset b = int (length hello)"
    using put_string_ok [OF ok(1), of hello] ok(2,3) by (auto simp: hello_def)
  then show ?thesis
    using assms by (simp add: put_msg_def udp_call_at put_string_def m holding_def)
qed

lemma udp_sendto_ok:
  assumes k: "outbox_kernel sys outbox" and h: "holding f bs s" and ne: "bs \<noteq> []"
  shows "\<exists>k' b. udp_sendto sys k s a = (k', s\<lparr>io_wbuf := b\<rparr>, Inr ()) \<and> outbox k' = outbox k @ [(bs, a)]"
proof -
  have b: "buf_ok (io_wbuf s)" "contents (io_wbuf s) = bs" using h by (simp_all add: holding_def)
  obtain k' where k': "px_sendto sys k (io_fd s) bs a = (Inr (int (length bs)), k')" "outbox k' = outbox k @ [(bs, a)]"
    using k unfolding outbox_kernel_def by blast
  obtain c where "consume (io_wbuf s) (int (length bs)) = Inr c"
    using consume_ok [OF b(1), of "length bs"] b(2) by auto
  with k' b ne show ?thesis
    by (simp add: udp_sendto_def wbuf_bytes [OF b(1)]) blast
qed

section \<open>Concrete kernels\<close>

text \<open>Datagrams wait on descriptor 7.\<close>

definition ss_inbox :: "sock_state \<Rightarrow> (char list \<times> sockaddr) list" where
  "ss_inbox k = map projr (takeWhile (\<lambda>d. \<not> isl d) (ss_dgrams k))"

definition udp_os :: "sock_state os" where
  "udp_os = sample_os\<lparr>os_ep := sock_ep\<lparr>ep_wait := (\<lambda>k efd n t. (Inr [(7, 1)], k))\<rparr>\<rparr>"

definition udp7 :: nsockudp where
  "udp7 = (let b = \<lparr>b_cap = 16, b_start = 0, b_offset = 0, b_mem = Some (replicate 16 NUL)\<rparr> in
     \<lparr>io_fd = 7, io_closed = False, io_rbuf = b, io_wbuf = b, io_evlp = Some 0,
      udp_sock = \<lparr>so_family = ipv4, so_peer = ([], 0)\<rparr>\<rparr>)"

definition udp_world :: "(errno + char list \<times> sockaddr) list \<Rightarrow> sock_state udp_app" where
  "udp_world dgrams =
     \<lparr>w_loop = \<lparr>el_id = 0, el_fd = 100, el_fds = [(7, 20, 0, 1, fd_readable)], el_cbs = [], el_events = (\<lambda>_. None), el_stop = False\<rparr>,
      w_nios = (\<lambda>_. udp7), w_code = (\<lambda>_. Binding), w_k = \<lparr>ex_k = sample_sock_state\<lparr>ss_dgrams := dgrams\<rparr>, ex_next = 2, ex_log = []\<rparr>\<rparr>"

abbreviation peer80 :: sockaddr where "peer80 \<equiv> Sa_ip ipv4 [] (htons 80)"

lemma udp_world_ok:
  "udp_serving 0 udp7 (udp_world ds)" "masks_ok (os_ep udp_os)" "inbox_kernel (os_sys udp_os) 7 ss_inbox"
  "reports_inbox (os_ep udp_os) 100 7 ss_inbox" "sender (os_sys udp_os) udp7 peer80 = Inr (''1.2.3.4'', 80, ipv4)"
proof -
  show "udp_serving 0 udp7 (udp_world ds)"
    by (simp add: udp_serving_def only_reader_def udp_idle_def udp_world_def udp7_def buf_ok_def int_limits list_all_iff Let_def)
  show "masks_ok (os_ep udp_os)" "reports_inbox (os_ep udp_os) 100 7 ss_inbox"
    by (simp_all add: masks_ok_def reports_inbox_def udp_os_def sample_os_def sock_ep_def)
  show "inbox_kernel (os_sys udp_os) 7 ss_inbox"
    by (auto simp: inbox_kernel_def udp_os_def sample_os_def sock_sys_def ss_recvfrom_def ss_inbox_def
        split: list.splits sum.splits if_splits)
  show "sender (os_sys udp_os) udp7 peer80 = Inr (''1.2.3.4'', 80, ipv4)"
    by (simp add: sender_def udp7_def udp_os_def sample_os_def sock_sys_def query_ip_port_family_def htons_htons Let_def)
qed

text \<open>A kernel that keeps what is sent.\<close>

definition post_sys :: "(char list \<times> sockaddr) list sock_api" where
  "post_sys =
     \<lparr>px_getfl = \<lambda>k fd. (Inr 0, k), px_setfl = \<lambda>k fd v. (None, k), px_nonblock = 2048,
      px_close = \<lambda>k fd. k, px_read = \<lambda>k fd n. (Inl EAGAIN, k), px_write = \<lambda>k fd bs. (Inl EAGAIN, k),
      px_errno = \<lambda>k. EAGAIN, px_pton = \<lambda>f ip. Inr (Some ip), px_ntop = \<lambda>f bs. Inr bs, px_sun_size = 108,
      px_socket = \<lambda>k f t. (Inr 5, k), px_bind = \<lambda>k fd a. (None, k), px_listen = \<lambda>k fd n. (None, k),
      px_connect = \<lambda>k fd a. (None, k), px_accept = \<lambda>k fd. (Inl EAGAIN, k), px_shutdown = \<lambda>k fd h. k,
      px_setsockopt = \<lambda>k fd opt v. (None, k), px_getsockopt = \<lambda>k fd opt. (Inr [0], k),
      px_getsockname = \<lambda>k fd. (Inl EAGAIN, k), px_getpeername = \<lambda>k fd. (Inl EAGAIN, k),
      px_recvfrom = \<lambda>k fd n. (Inl EAGAIN, k), px_sendto = \<lambda>k fd bs a. (Inr (int (length bs)), k @ [(bs, a)]),
      px_unlink = \<lambda>k path. k, px_pipe = \<lambda>k. (Inl EAGAIN, k), px_mkfifo = \<lambda>k path. (None, k),
      px_open_rd = \<lambda>k path. (Inl EAGAIN, k), px_open_wr = \<lambda>k path. (Inl EAGAIN, k)\<rparr>"

definition post_os :: "(char list \<times> sockaddr) list os" where
  "post_os = \<lparr>os_sys = post_sys, os_ep = \<lparr>ep_in = 1, ep_out = 4, ep_create = (\<lambda>k n. (Inr 3, k)), ep_add = (\<lambda>k efd fd m. (None, k)),
     ep_del = (\<lambda>k efd fd. (None, k)), ep_wait = (\<lambda>k efd n t. (Inr [], k))\<rparr>, os_step = 1024, os_events = 2048, os_backlog = 128\<rparr>"

definition post_world :: "(char list \<times> sockaddr) list udp_app" where
  "post_world = \<lparr>w_loop = \<lparr>el_id = 0, el_fd = 3, el_fds = [], el_cbs = [], el_events = (\<lambda>_. None), el_stop = False\<rparr>,
     w_nios = (\<lambda>_. udp7), w_code = (\<lambda>_. Binding), w_k = \<lparr>ex_k = [], ex_next = 0, ex_log = []\<rparr>\<rparr>"

lemma post_kernel: "outbox_kernel (os_sys post_os) (\<lambda>k. k)"
  by (simp add: outbox_kernel_def post_os_def post_sys_def)

section \<open>Properties\<close>

text \<open>C12. The datagram server loses, mixes up and cuts no datagram: after as many rounds as datagrams
  wait at one of its sockets, it has logged each of them, in order and with its sender, its
  length and all of its bytes, embedded NULs included, and is ready for the next.\<close>

theorem datagrams_logged:
  assumes "udp_serving n s w" and "masks_ok (os_ep os)"
    and "inbox_kernel (os_sys os) (io_fd s) inbox" and "reports_inbox (os_ep os) (el_fd (w_loop w)) (io_fd s) inbox"
    and "\<forall>d \<in> set (inbox (ex_k (w_k w))). acceptable (os_sys os) s d"
  shows "\<exists>w'. udp_rounds os (length (inbox (ex_k (w_k w)))) w = Some (w', Inr ()) \<and> udp_serving n s w' \<and>
     inbox (ex_k (w_k w')) = [] \<and> ex_log (w_k w') = ex_log (w_k w) @ map (logged (os_sys os) s) (inbox (ex_k (w_k w)))"
  using assms
proof (induction "inbox (ex_k (w_k w))" arbitrary: w)
  case (Cons d rest)
  then obtain w1 where w1: "loop_once (shell_ep (os_ep os)) (os_events os) (run_udp os) (-1) w = Some (w1, Inr ())"
      "udp_serving n s w1" "inbox (ex_k (w_k w1)) = rest" "el_fd (w_loop w1) = el_fd (w_loop w)"
      "ex_log (w_k w1) = ex_log (w_k w) @ [logged (os_sys os) s d]"
    using udp_round [of n s w os inbox d rest] by (metis list.set_intros(1))
  have "\<forall>d \<in> set (inbox (ex_k (w_k w1))). acceptable (os_sys os) s d"
    using Cons.prems(5) Cons.hyps(2) w1(3) by (metis list.set_intros(2))
  from Cons.hyps(1) [OF w1(3) [symmetric] w1(2) Cons.prems(2,3) _ this] Cons.prems(4) w1
  obtain w' where w': "udp_rounds os (length rest) w1 = Some (w', Inr ())" "udp_serving n s w'" "inbox (ex_k (w_k w')) = []"
      "ex_log (w_k w') = ex_log (w_k w1) @ map (logged (os_sys os) s) rest"
    by auto
  with w1(1,5) show ?case
    unfolding Cons.hyps(2) [symmetric] by (intro exI [of _ w']) simp
qed (auto simp: intro!: exI)

theorem datagrams_logged_witness:
  "\<exists>w'. udp_rounds udp_os 2 (udp_world [Inr (hello, peer80), Inr (''hey'', peer80)]) = Some (w', Inr ()) \<and>
     ex_log (w_k w') = [Udp_readable 7 10 (''Cppev'' @ [NUL] @ ''Nice'') (''1.2.3.4'', 80, ipv4), Udp_readable 7 3 ''hey'' (''1.2.3.4'', 80, ipv4)]"
proof -
  let ?w = "udp_world [Inr (hello, peer80), Inr (''hey'', peer80)]"
  have i: "ss_inbox (ex_k (w_k ?w)) = [(hello, peer80), (''hey'', peer80)]" "el_fd (w_loop ?w) = 100" "io_fd udp7 = 7" "ex_log (w_k ?w) = []"
    by (simp_all add: ss_inbox_def udp_world_def udp7_def Let_def)
  have l: "logged (os_sys udp_os) udp7 (bs, peer80) = Udp_readable 7 (int (length bs)) bs (''1.2.3.4'', 80, ipv4)" for bs
    using udp_world_ok(5) i(3) by (simp add: logged_def)
  have cap: "b_cap (io_rbuf udp7) = 16" by (simp add: udp7_def Let_def)
  have "\<forall>d \<in> set (ss_inbox (ex_k (w_k ?w))). acceptable (os_sys udp_os) udp7 d"
    unfolding i(1) using udp_world_ok(5) cap by (simp add: acceptable_def hello_def)
  from datagrams_logged [where inbox = ss_inbox and w = ?w, OF udp_world_ok(1,2) _ _ this] udp_world_ok(3,4) i show ?thesis
    by (simp add: l) (auto simp: hello_def numeral_2_eq_2)
qed

text \<open>The datagram client sends the whole message, with the NUL in its middle and without the one at
  its end, once to each of the three addresses.\<close>

theorem message_sent:
  assumes k: "outbox_kernel (os_sys os) outbox" and room: "room \<le> 1073741824" and sun: "48 \<le> px_sun_size (os_sys os)"
    and a4: "set_ip_port (os_sys os) ipv4 (Some ''127.0.0.1'') udp_ipv4_port = Inr a4"
    and a6: "set_ip_port (os_sys os) ipv6 (Some ''::1'') udp_ipv6_port = Inr a6"
  shows "\<exists>w'. send_to_servers os room w = (w', Inr ()) \<and> outbox (ex_k (w_k w')) = outbox (ex_k (w_k w)) @
     [(''Cppev'' @ [NUL] @ ''Nice'', a4), (''Cppev'' @ [NUL] @ ''Nice'', a6), (''Cppev'' @ [NUL] @ ''Nice'', Sa_un udp_unix_path)]"
proof -
  let ?n = "ex_next (w_k w)"
  obtain w1 where w1: "new_udp os room ipv4 w = (w1, Inr ?n)" "ex_next (w_k w1) = ?n + 1" "outbox (ex_k (w_k w1)) = outbox (ex_k (w_k w))"
      "holding ipv4 [] (w_nios w1 ?n)"
    using new_udp_ok [OF k room] by blast
  obtain w2 where w2: "new_udp os room ipv6 w1 = (w2, Inr (?n + 1))" "ex_next (w_k w2) = ?n + 2" "outbox (ex_k (w_k w2)) = outbox (ex_k (w_k w))"
      "holding ipv4 [] (w_nios w2 ?n)" "holding ipv6 [] (w_nios w2 (?n + 1))"
    using new_udp_ok [OF k room, of ipv6 w1] w1(2-4) by auto
  obtain w3 where w3: "new_udp os room local_family w2 = (w3, Inr (?n + 2))" "outbox (ex_k (w_k w3)) = outbox (ex_k (w_k w))"
      "holding ipv4 [] (w_nios w3 ?n)" "holding ipv6 [] (w_nios w3 (?n + 1))" "holding local_family [] (w_nios w3 (?n + 2))"
    using new_udp_ok [OF k room, of local_family w2] w2(2-5) by auto
  obtain w4 where w4: "put_msg ?n w3 = (w4, Inr ())" "w_k w4 = w_k w3"
      "holding ipv4 hello (w_nios w4 ?n)" "holding ipv6 [] (w_nios w4 (?n + 1))" "holding local_family [] (w_nios w4 (?n + 2))"
    using put_msg_ok [OF w3(3)] w3(4,5) by auto
  obtain w5 where w5: "put_msg (?n + 1) w4 = (w5, Inr ())" "w_k w5 = w_k w3"
      "holding ipv4 hello (w_nios w5 ?n)" "holding ipv6 hello (w_nios w5 (?n + 1))" "holding local_family [] (w_nios w5 (?n + 2))"
    using put_msg_ok [OF w4(4)] w4(2,3,5) by auto
  obtain w6 where w6: "put_msg (?n + 2) w5 = (w6, Inr ())" "w_k w6 = w_k w3"
      "holding ipv4 hello (w_nios w6 ?n)" "holding ipv6 hello (w_nios w6 (?n + 1))" "holding local_family hello (w_nios w6 (?n + 2))"
    using put_msg_ok [OF w5(5)] w5(2-4) by auto
  have ne: "hello \<noteq> []" by (simp add: hello_def)
  have send: "\<exists>w'. udp_call n f u = (w', Inr ()) \<and> outbox (ex_k (w_k w')) = outbox (ex_k (w_k u)) @ [(hello, a)] \<and>
      (\<forall>m. m \<noteq> n \<longrightarrow> w_nios w' m = w_nios u m)"
    if "holding g hello (w_nios u n)" "\<And>k. f k (w_nios u n) = udp_sendto (os_sys os) k (w_nios u n) a" for n f u a g
    using udp_sendto_ok [OF k that(1) ne, of "ex_k (w_k u)" a] that(2) by (auto simp: udp_call_at)
  obtain w7 where w7: "udp_call ?n (\<lambda>k s. udp_send (os_sys os) k s (Some ''127.0.0.1'') udp_ipv4_port) w6 = (w7, Inr ())"
      "outbox (ex_k (w_k w7)) = outbox (ex_k (w_k w)) @ [(hello, a4)]"
      "holding ipv6 hello (w_nios w7 (?n + 1))" "holding local_family hello (w_nios w7 (?n + 2))"
    using send [OF w6(3), where f = "\<lambda>k s. udp_send (os_sys os) k s (Some ''127.0.0.1'') udp_ipv4_port" and a = a4]
      w6(2-5) w3(2) a4 by (auto simp: udp_send_def holding_def)
  obtain w8 where w8: "udp_call (?n + 1) (\<lambda>k s. udp_send (os_sys os) k s (Some ''::1'') udp_ipv6_port) w7 = (w8, Inr ())"
      "outbox (ex_k (w_k w8)) = outbox (ex_k (w_k w)) @ [(hello, a4), (hello, a6)]" "holding local_family hello (w_nios w8 (?n + 2))"
    using send [OF w7(3), where f = "\<lambda>k s. udp_send (os_sys os) k s (Some ''::1'') udp_ipv6_port" and a = a6]
      w7(2-4) a6 by (auto simp: udp_send_def holding_def)
  have path: "set_path (os_sys os) udp_unix_path = Sa_un udp_unix_path"
      "\<not> px_sun_size (os_sys os) - 1 \<le> length (takeWhile (\<lambda>c. c \<noteq> NUL) udp_unix_path)"
    using sun by (simp_all add: set_path_def udp_unix_path_def)
  obtain w9 where w9: "udp_call (?n + 2) (\<lambda>k s. udp_send_unix (os_sys os) k s udp_unix_path) w8 = (w9, Inr ())"
      "outbox (ex_k (w_k w9)) = outbox (ex_k (w_k w)) @ [(hello, a4), (hello, a6), (hello, Sa_un udp_unix_path)]"
    using send [OF w8(3), where f = "\<lambda>k s. udp_send_unix (os_sys os) k s udp_unix_path" and a = "Sa_un udp_unix_path"]
      w8(2) path by (auto simp: udp_send_unix_def)
  have "send_to_servers os room w = (w9, Inr ())"
    using w1(1) w2(1) w3(1) w4(1) w5(1) w6(1) w7(1) w8(1) w9(1) by (simp add: send_to_servers_def)
  with w9(2) show ?thesis unfolding hello_def by blast
qed

theorem message_sent_witness:
  "\<exists>w'. send_to_servers post_os 2048 post_world = (w', Inr ()) \<and>
     map fst (ex_k (w_k w')) = replicate 3 (''Cppev'' @ [NUL] @ ''Nice'')"
proof -
  have a: "set_ip_port (os_sys post_os) ipv4 (Some ''127.0.0.1'') udp_ipv4_port = Inr (Sa_ip ipv4 ''127.0.0.1'' (htons 19004))"
    "set_ip_port (os_sys post_os) ipv6 (Some ''::1'') udp_ipv6_port = Inr (Sa_ip ipv6 ''::1'' (htons 19006))"
    by (simp_all add: set_ip_port_def post_os_def post_sys_def udp_ipv4_port_def udp_ipv6_port_def Let_def)
  from message_sent [OF post_kernel _ _ a, of 2048 post_world] show ?thesis
    by (auto simp: post_world_def post_os_def post_sys_def numeral_eq_Suc)
qed

text \<open>C40. What ends the datagram server: an empty datagram, which anyone may send, leaves \<open>loop_forever\<close> as an
  exception that carries whatever \<open>errno\<close> was left; and when epoll reports a socket but the read
  fails (a datagram with a bad checksum is enough) \<open>recv\<close> goes on with -1, and the program
  reads an address that was never written or is terminated in \<open>get_string\<close>.\<close>

theorem datagram_ends_server:
  assumes w: "udp_serving n s w" and masks: "masks_ok (os_ep os)" and "\<not> el_stop (w_loop w)"
    and k: "ep_wait (os_ep os) (ex_k (w_k w)) (el_fd (w_loop w)) (os_events os) (-1) = (Inr [(io_fd s, ep_in (os_ep os))], k1)"
    and reply: "px_recvfrom (os_sys os) k1 (io_fd s) (b_cap (io_rbuf s)) = (reply, k2)" "\<And>bs a. reply = Inr (bs, a) \<Longrightarrow> bs = []"
  shows "\<exists>w'. loop_forever (shell_ep (os_ep os)) (os_events os) (run_udp os) (-1) w = Some (w', Inl
     (case reply of
        Inr _ \<Rightarrow> System_error ''recvfrom error'' (px_errno (os_sys os) k2)
      | Inl _ \<Rightarrow> if so_family (udp_sock s) = local_family then Terminated else Undefined Uninit_read))"
    (is "\<exists>w'. _ = Some (w', Inl ?e)")
proof -
  obtain a where r: "only_reader (io_fd s) n a w" using w by (auto simp: udp_serving_def)
  let ?v = "w\<lparr>w_k := (w_k w)\<lparr>ex_k := k1\<rparr>\<rparr>"
  let ?t = "w_nios w n"
  have t: "io_fd ?t = io_fd s" "udp_sock ?t = udp_sock s" "b_cap (io_rbuf ?t) = b_cap (io_rbuf s)" "b_offset (io_rbuf ?t) = 0"
      "b_start (io_rbuf ?t) = 0"
    using w by (simp_all add: udp_serving_def udp_idle_def buf_ok_def)
  have "\<exists>w'. binding_socket_callback os n ?v = (w', Inl ?e)"
  proof (cases reply)
    case (Inr d)
    then have "udp_recv (os_sys os) k1 ?t = (k2, ?t, Inl ?e)"
      using reply t by (cases d) (simp add: udp_recv_def Let_def)
    then show ?thesis
      by (simp add: binding_socket_callback_def next_do_def udp_call_at)
  next
    case (Inl e)
    then have "udp_recv (os_sys os) k1 ?t = (k2, ?t\<lparr>io_rbuf := (io_rbuf ?t)\<lparr>b_offset := - 1\<rparr>\<rparr>,
        if so_family (udp_sock s) = local_family then Inr (fst (so_peer (udp_sock s)), -1, local_family) else Inl (Undefined Uninit_read))"
      using reply(1) t by (simp add: udp_recv_def Let_def)
    then show ?thesis
      using t(5) Inl by (simp add: binding_socket_callback_def next_do_def udp_call_at obj_call_def take_string_def get_string_def
          make_string_def buf_size_def Let_def)
  qed
  then obtain w' where "run_udp os (w_code w a) n ?v = (w', Inl ?e)" by (cases "w_code w a") auto
  from loop_ends [OF round_calls(2) [where run = "run_udp os", OF r masks k this refl] assms(3)] show ?thesis by blast
qed

theorem datagram_ends_server_witness:
  "\<exists>w'. loop_forever (shell_ep (os_ep udp_os)) 2048 (run_udp udp_os) (-1) (udp_world [Inr ([], peer80)]) =
     Some (w', Inl (System_error ''recvfrom error'' EAGAIN))"
proof -
  let ?k = "ex_k (w_k (udp_world [Inr ([], peer80)]))"
  have w: "ep_wait (os_ep udp_os) ?k (el_fd (w_loop (udp_world [Inr ([], peer80)]))) (os_events udp_os) (-1) = (Inr [(io_fd udp7, ep_in (os_ep udp_os))], ?k)"
    "px_recvfrom (os_sys udp_os) ?k (io_fd udp7) (b_cap (io_rbuf udp7)) = (Inr ([], peer80), ?k\<lparr>ss_dgrams := []\<rparr>)"
    "\<not> el_stop (w_loop (udp_world [Inr ([], peer80)]))" "os_events udp_os = 2048" "px_errno (os_sys udp_os) (?k\<lparr>ss_dgrams := []\<rparr>) = EAGAIN"
    by (simp_all add: udp_os_def udp_world_def udp7_def sample_os_def sock_ep_def sock_sys_def ss_recvfrom_def Let_def)
  from datagram_ends_server [OF udp_world_ok(1,2) w(3,1,2)] w(4,5) show ?thesis by simp
qed

text \<open>What ends the stream server: a connection that is gone when \<open>accept\<close> looks for it, as the
  first element of an empty vector is read, and a peer that is gone when its message is
  logged. The message has been read then and is not logged.\<close>

theorem connection_ends_server:
  assumes r: "only_reader fd n a w" and masks: "masks_ok (os_ep os)" and "\<not> el_stop (w_loop w)"
    and k: "ep_wait (os_ep os) (ex_k (w_k w)) (el_fd (w_loop w)) (os_events os) (-1) = (Inr [(fd, ep_in (os_ep os))], k1)"
  shows "w_code w a = Listening \<Longrightarrow> px_accept (os_sys os) k1 (io_fd (w_nios w n)) = (Inl EAGAIN, k2) \<Longrightarrow>
      \<exists>w'. loop_forever (shell_ep (os_ep os)) (os_events os) (run_tcp os) (-1) w = Some (w', Inl (Undefined Out_of_bounds))"
    and "w_code w a = Accepted \<Longrightarrow> read_all (os_sys os) k1 (w_nios w n) (os_step os) = Some (k2, s, Inr c) \<Longrightarrow>
      tcp_sockname (os_sys os) k2 s = (k3, Inr sock) \<Longrightarrow> tcp_peername (os_sys os) k3 s = (k4, Inl e) \<Longrightarrow>
      \<exists>w'. loop_forever (shell_ep (os_ep os)) (os_events os) (run_tcp os) (-1) w = Some (w', Inl e) \<and> ex_log (w_k w') = ex_log (w_k w)"
proof -
  let ?v = "w\<lparr>w_k := (w_k w)\<lparr>ex_k := k1\<rparr>\<rparr>"
  note ends = loop_ends [OF round_calls(2) [where run = "run_tcp os", OF r masks k _ refl] assms(3)]
  show "\<exists>w'. loop_forever (shell_ep (os_ep os)) (os_events os) (run_tcp os) (-1) w = Some (w', Inl (Undefined Out_of_bounds))"
    if "w_code w a = Listening" "px_accept (os_sys os) k1 (io_fd (w_nios w n)) = (Inl EAGAIN, k2)"
  proof -
    have "tcp_accept (os_sys os) k1 (w_nios w n) 1 = (k2, Inr [])"
      using that(2) by (simp add: tcp_accept_def numeral_eq_Suc)
    then have "\<exists>w'. run_tcp os (w_code w a) n ?v = (w', Inl (Undefined Out_of_bounds))"
      using that(1) by (simp add: listening_socket_callback_def next_do_def tcp_call_def obj_call_def fails_def)
    with ends show ?thesis by blast
  qed
  show "\<exists>w'. loop_forever (shell_ep (os_ep os)) (os_events os) (run_tcp os) (-1) w = Some (w', Inl e) \<and> ex_log (w_k w') = ex_log (w_k w)"
    if "w_code w a = Accepted" "read_all (os_sys os) k1 (w_nios w n) (os_step os) = Some (k2, s, Inr c)"
      "tcp_sockname (os_sys os) k2 s = (k3, Inr sock)" "tcp_peername (os_sys os) k3 s = (k4, Inl e)"
  proof -
    have "\<exists>w'. run_tcp os (w_code w a) n ?v = (w', Inl e) \<and> ex_log (w_k w') = ex_log (w_k w)"
      using that by (simp add: accepted_socket_callback_def next_do_def tcp_call_def obj_call_def)
    with ends show ?thesis by blast
  qed
qed

end
